(* ===== verification/Prelude.thy ===== *)
theory Prelude
  imports Main "HOL-Library.Word" "HOL-Library.Monad_Syntax"
begin

text \<open>
  What every component of the development shares: the C integer types of the
  target (an MSP430 node: 8-bit \<open>uint8_t\<close>, 16-bit \<open>unsigned int\<close>, \<open>unsigned short\<close> and
  pointers, 32-bit \<open>unsigned long\<close>), checked access to C arrays, the little-endian
  layout of words in memory, and the interface of a first-in first-out queue that
  both the byte queue of the library and the thread lists of the kernel provide.

  A value of type \<open>'a option\<close> is the result of code that can have undefined
  behaviour: \<open>None\<close> stands for a dereferenced NULL pointer or an access outside an
  array, and every operation that can run into one is written in the option monad.
\<close>

unbundle bit_operations_syntax

section \<open>Machine integers\<close>

type_synonym u8 = "8 word"
type_synonym u16 = "16 word"
type_synonym u32 = "32 word"

lemma unat_u8_less [simp]: "unat (x :: u8) < 256"
  using unsigned_less [of x] by simp

lemma unat_u16_less [simp]: "unat (x :: u16) < 65536"
  using unsigned_less [of x] by simp

lemma unat_u32_less [simp]: "unat (x :: u32) < 4294967296"
  using unsigned_less [of x] by simp

lemma unat_add_u8: "unat (a + b :: u8) = (unat a + unat b) mod 256"
  by (simp add: unat_word_ariths)

lemma unat_add_u16: "unat (a + b :: u16) = (unat a + unat b) mod 65536"
  by (simp add: unat_word_ariths)

lemma unat_add_u8_small: "unat a + unat b < 256 \<Longrightarrow> unat (a + b :: u8) = unat a + unat b"
  by (simp add: unat_add_u8)

lemma unat_add_u16_small: "unat a + unat b < 65536 \<Longrightarrow> unat (a + b :: u16) = unat a + unat b"
  by (simp add: unat_add_u16)

lemma unat_sub_small: "b \<le> a \<Longrightarrow> unat (a - b :: 'a::len word) = unat a - unat b"
  by (rule unat_sub)

lemma unat_of_nat_small_u16: "n < 65536 \<Longrightarrow> unat (of_nat n :: u16) = n"
  by (simp add: unsigned_of_nat take_bit_eq_mod)

lemma unat_of_nat_small_u8: "n < 256 \<Longrightarrow> unat (of_nat n :: u8) = n"
  by (simp add: unsigned_of_nat take_bit_eq_mod)

lemma ucast_up_down: "ucast (ucast (x :: u8) :: u16) = x"
  by (rule bit_word_eqI) (simp add: bit_ucast_iff)

section \<open>Checked access to C arrays\<close>

definition rd :: "'a list \<Rightarrow> nat \<Rightarrow> 'a option" where
  "rd xs i = (if i < length xs then Some (xs ! i) else None)"

definition wr :: "'a list \<Rightarrow> nat \<Rightarrow> 'a \<Rightarrow> 'a list option" where
  "wr xs i v = (if i < length xs then Some (xs[i := v]) else None)"

definition rd_block :: "'a list \<Rightarrow> nat \<Rightarrow> nat \<Rightarrow> 'a list option" where
  "rd_block xs i n = (if i + n \<le> length xs then Some (take n (drop i xs)) else None)"

definition wr_block :: "'a list \<Rightarrow> nat \<Rightarrow> 'a list \<Rightarrow> 'a list option" where
  "wr_block xs i bs =
     (if i + length bs \<le> length xs
      then Some (take i xs @ bs @ drop (i + length bs) xs) else None)"

lemma rd_Some [simp]: "i < length xs \<Longrightarrow> rd xs i = Some (xs ! i)"
  by (simp add: rd_def)

lemma wr_Some [simp]: "i < length xs \<Longrightarrow> wr xs i v = Some (xs[i := v])"
  by (simp add: wr_def)

lemma rd_eq_Some_iff: "rd xs i = Some v \<longleftrightarrow> i < length xs \<and> v = xs ! i"
  by (auto simp: rd_def)

lemma wr_eq_Some_iff: "wr xs i v = Some ys \<longleftrightarrow> i < length xs \<and> ys = xs[i := v]"
  by (auto simp: wr_def)

lemma rd_block_length: "rd_block xs i n = Some ys \<Longrightarrow> length ys = n"
  by (auto simp: rd_block_def split: if_splits)

lemma rd_block_bound: "rd_block xs i n = Some ys \<Longrightarrow> i + n \<le> length xs"
  by (auto simp: rd_block_def split: if_splits)

lemma rd_block_nth: "rd_block xs i n = Some ys \<Longrightarrow> k < n \<Longrightarrow> ys ! k = xs ! (i + k)"
  by (auto simp: rd_block_def split: if_splits)

lemma wr_block_length: "wr_block xs i bs = Some ys \<Longrightarrow> length ys = length xs"
  by (auto simp: wr_block_def split: if_splits)

lemma wr_block_Some:
  "wr_block xs i bs = Some ys \<longleftrightarrow>
     i + length bs \<le> length xs \<and> ys = take i xs @ bs @ drop (i + length bs) xs"
  by (auto simp: wr_block_def)

lemma wr_block_nth:
  assumes "wr_block xs i bs = Some ys" and "k < length xs"
  shows "ys ! k = (if i \<le> k \<and> k < i + length bs then bs ! (k - i) else xs ! k)"
proof -
  from assms(1) have le: "i + length bs \<le> length xs"
    and ys: "ys = take i xs @ bs @ drop (i + length bs) xs"
    by (simp_all add: wr_block_Some)
  have len: "length (take i xs) = i" using le by simp
  consider "k < i" | "i \<le> k" "k < i + length bs" | "i + length bs \<le> k" by linarith
  then show ?thesis
  proof cases
    case 1
    then show ?thesis unfolding ys by (simp only: nth_append len if_True nth_take) simp
  next
    case 2
    then have "k - i < length bs" by linarith
    with 2 show ?thesis unfolding ys by (simp only: nth_append len) simp
  next
    case 3
    then have "\<not> k < i" "\<not> k - i < length bs" by linarith+
    with 3 le assms(2) show ?thesis unfolding ys
      by (simp only: nth_append len if_False) (simp add: algebra_simps)
  qed
qed

lemma rd_block_wr_block_same:
  assumes "wr_block xs i bs = Some ys"
  shows "rd_block ys i (length bs) = Some bs"
proof -
  from assms have le: "i + length bs \<le> length xs"
    and ys: "ys = take i xs @ bs @ drop (i + length bs) xs"
    by (simp_all add: wr_block_Some)
  have "drop i ys = bs @ drop (i + length bs) xs" using le unfolding ys by simp
  moreover have "length ys = length xs" using assms by (rule wr_block_length)
  ultimately show ?thesis using le by (simp add: rd_block_def)
qed

section \<open>Little-endian layout\<close>

definition le16 :: "u8 \<Rightarrow> u8 \<Rightarrow> u16" where
  "le16 lo hi = ucast lo OR push_bit 8 (ucast hi)"

definition lo8 :: "u16 \<Rightarrow> u8" where "lo8 w = ucast w"

definition hi8 :: "u16 \<Rightarrow> u8" where "hi8 w = ucast (drop_bit 8 w)"

definition le32 :: "u8 \<Rightarrow> u8 \<Rightarrow> u8 \<Rightarrow> u8 \<Rightarrow> u32" where
  "le32 a b c d = ucast a OR push_bit 8 (ucast b) OR push_bit 16 (ucast c) OR push_bit 24 (ucast d)"

lemma le16_bytes [simp]: "le16 (lo8 w) (hi8 w) = w"
  by (rule bit_word_eqI)
    (auto simp: le16_def lo8_def hi8_def bit_or_iff bit_push_bit_iff bit_ucast_iff bit_drop_bit_eq)

lemma lo8_le16 [simp]: "lo8 (le16 a b) = a"
  by (rule bit_word_eqI)
    (auto simp: le16_def lo8_def bit_or_iff bit_push_bit_iff bit_ucast_iff)

lemma hi8_le16 [simp]: "hi8 (le16 a b) = b"
  by (rule bit_word_eqI)
    (auto simp: le16_def hi8_def bit_or_iff bit_push_bit_iff bit_ucast_iff bit_drop_bit_eq
      dest: bit_imp_le_length)

section \<open>The interface of a bounded first-in first-out queue\<close>

text \<open>
  The operations a client calls (\<open>enq\<close> and \<open>deq\<close> on a state, both possibly refused
  with \<open>None\<close>), the sequence a state stands for, and what the provider promises.
  The client's lemmas say that a run of insertions followed by as many removals
  returns the items in the order of insertion.
\<close>

locale fifo =
  fixes enq :: "'i \<Rightarrow> 'q \<Rightarrow> 'q option"
    and deq :: "'q \<Rightarrow> ('i \<times> 'q) option"
    and items :: "'q \<Rightarrow> 'i list"
    and inv :: "'q \<Rightarrow> bool"
    and fits :: "'i list \<Rightarrow> 'q \<Rightarrow> bool"
  assumes enq_ok: "inv q \<Longrightarrow> fits (x # xs) q \<Longrightarrow>
      \<exists>q'. enq x q = Some q' \<and> inv q' \<and> items q' = items q @ [x] \<and> fits xs q'"
    and deq_ok: "inv q \<Longrightarrow> items q = x # xs \<Longrightarrow>
      \<exists>q'. deq q = Some (x, q') \<and> inv q' \<and> items q' = xs"
begin

primrec enq_all :: "'i list \<Rightarrow> 'q \<Rightarrow> 'q option" where
  "enq_all [] q = Some q"
| "enq_all (x # xs) q = Option.bind (enq x q) (enq_all xs)"

primrec deq_n :: "nat \<Rightarrow> 'q \<Rightarrow> ('i list \<times> 'q) option" where
  "deq_n 0 q = Some ([], q)"
| "deq_n (Suc n) q =
     Option.bind (deq q) (\<lambda>(x, q1). map_option (\<lambda>(ys, q2). (x # ys, q2)) (deq_n n q1))"

lemma enq_all_ok:
  "inv q \<Longrightarrow> fits xs q \<Longrightarrow> \<exists>q'. enq_all xs q = Some q' \<and> inv q' \<and> items q' = items q @ xs"
proof (induction xs arbitrary: q)
  case Nil
  then show ?case by simp
next
  case (Cons x xs)
  from enq_ok [OF Cons.prems] obtain q1 where
    "enq x q = Some q1" "inv q1" "items q1 = items q @ [x]" "fits xs q1" by blast
  with Cons.IH [of q1] show ?case by auto
qed

lemma deq_n_ok:
  "inv q \<Longrightarrow> items q = xs @ ys \<Longrightarrow>
   \<exists>q'. deq_n (length xs) q = Some (xs, q') \<and> inv q' \<and> items q' = ys"
proof (induction xs arbitrary: q)
  case Nil
  then show ?case by simp
next
  case (Cons x xs)
  then have "items q = x # (xs @ ys)" by simp
  from deq_ok [OF Cons.prems(1) this] obtain q1 where
    "deq q = Some (x, q1)" "inv q1" "items q1 = xs @ ys" by blast
  with Cons.IH [of q1] show ?case by auto
qed

lemma fifo_order:
  assumes "inv q" and "items q = []" and "fits xs q"
  shows "\<exists>q1 q2. enq_all xs q = Some q1 \<and> deq_n (length xs) q1 = Some (xs, q2)
    \<and> inv q2 \<and> items q2 = []"
proof -
  from enq_all_ok [OF assms(1,3)] assms(2) obtain q1 where
    q1: "enq_all xs q = Some q1" "inv q1" "items q1 = xs @ []" by auto
  from deq_n_ok [OF this(2,3)] q1(1) show ?thesis by blast
qed

end

end
