(* ===== verification/Byte_Queue.thy ===== *)
theory Byte_Queue
  imports Prelude
begin

text \<open>
  The circular byte queue of \<open>lib/queue.c\<close> and \<open>lib/include/queue.h\<close>: the record
  \<open>queue_t\<close> with its 8-bit fields, every operation of the file, the invariant that the
  queue keeps, and the sequence of bytes it stands for.
\<close>

section \<open>The queue and its operations\<close>

definition Q_OK :: u8 where "Q_OK = 0"
definition Q_FULL :: u8 where "Q_FULL = 1"
definition Q_UNDERFLOW :: u8 where "Q_UNDERFLOW = 2"
definition Q_EMPTY :: u8 where "Q_EMPTY = 3"

lemmas queue_codes = Q_OK_def Q_FULL_def Q_UNDERFLOW_def Q_EMPTY_def

record queue_t =
  q_buf :: "u8 list"
  q_size :: u8
  q_length :: u8
  q_head :: u8

definition mos_queue_init :: "u8 list \<Rightarrow> u8 \<Rightarrow> queue_t" where
  "mos_queue_init buffer sz =
     \<lparr>q_buf = buffer, q_size = sz, q_length = 0, q_head = 0\<rparr>"

text \<open>The index is computed in C's \<open>int\<close>, so it does not wrap at eight bits.\<close>

definition mos_queue_add :: "queue_t \<Rightarrow> u8 \<Rightarrow> (u8 \<times> queue_t) option" where
  "mos_queue_add q byte =
     (if q_length q < q_size q then do {
        b \<leftarrow> wr (q_buf q) ((unat (q_head q) + unat (q_length q)) mod unat (q_size q)) byte;
        Some (Q_OK, q\<lparr>q_buf := b, q_length := q_length q + 1\<rparr>)
      } else Some (Q_FULL, q))"

text \<open>The byte read is stored through a pointer; \<open>None\<close> is "the target is not written".\<close>

definition wrap_head :: "u8 \<Rightarrow> u8 \<Rightarrow> u8" where
  "wrap_head h sz = (if sz \<le> h then h mod sz else h)"

definition mos_queue_remove :: "queue_t \<Rightarrow> (u8 \<times> u8 option \<times> queue_t) option" where
  "mos_queue_remove q =
     (if q_length q \<noteq> 0 then do {
        byte \<leftarrow> rd (q_buf q) (unat (q_head q));
        Some (Q_OK, Some byte,
          q\<lparr>q_head := wrap_head (q_head q + 1) (q_size q), q_length := q_length q - 1\<rparr>)
      } else Some (Q_UNDERFLOW, None, q))"

definition mos_queue_dump :: "queue_t \<Rightarrow> u8 \<Rightarrow> u8 \<times> queue_t" where
  "mos_queue_dump q dumpNum =
     (if dumpNum < q_length q
      then (dumpNum, q\<lparr>q_head := wrap_head (q_head q + dumpNum) (q_size q),
                       q_length := q_length q - dumpNum\<rparr>)
      else (q_length q, q\<lparr>q_length := 0\<rparr>))"

text \<open>With a non-empty queue, \<open>% size\<close> for size 0 would trap: the size is checked.\<close>

definition mos_queue_peek :: "queue_t \<Rightarrow> u8 \<Rightarrow> (u8 \<times> u8 option) option" where
  "mos_queue_peek q index =
     (if q_length q \<noteq> 0 then
        (if q_size q = 0 then None else do {
           byte \<leftarrow> rd (q_buf q) ((unat (q_head q) + unat index) mod unat (q_size q));
           Some (Q_OK, Some byte) })
      else Some (Q_EMPTY, None))"

definition mos_queue_length :: "queue_t \<Rightarrow> u8" where
  "mos_queue_length q = q_length q"

definition mos_queue_cleanup :: "queue_t \<Rightarrow> queue_t" where
  "mos_queue_cleanup q = q\<lparr>q_length := 0\<rparr>"

section \<open>Invariant and contents\<close>

definition queue_inv :: "queue_t \<Rightarrow> bool" where
  "queue_inv q \<longleftrightarrow> 0 < q_size q \<and> unat (q_size q) \<le> length (q_buf q) \<and>
     q_length q \<le> q_size q \<and> q_head q < q_size q"

definition slot :: "queue_t \<Rightarrow> nat \<Rightarrow> nat" where
  "slot q i = (unat (q_head q) + i) mod unat (q_size q)"

definition queue_bytes :: "queue_t \<Rightarrow> u8 list" where
  "queue_bytes q = map (\<lambda>i. q_buf q ! slot q i) [0..<unat (q_length q)]"

lemma queue_inv_nat:
  "queue_inv q \<longleftrightarrow> 0 < unat (q_size q) \<and> unat (q_size q) \<le> length (q_buf q) \<and>
     unat (q_length q) \<le> unat (q_size q) \<and> unat (q_head q) < unat (q_size q)"
  by (simp add: queue_inv_def word_less_nat_alt word_le_nat_alt)

lemma length_queue_bytes [simp]: "length (queue_bytes q) = unat (q_length q)"
  by (simp add: queue_bytes_def)

lemma queue_bytes_nth: "i < unat (q_length q) \<Longrightarrow> queue_bytes q ! i = q_buf q ! slot q i"
  by (simp add: queue_bytes_def)

lemma slot_bound: "queue_inv q \<Longrightarrow> slot q i < length (q_buf q)"
  unfolding slot_def queue_inv_nat by (meson mod_less_divisor order_less_le_trans)

text \<open>Distinct positions of the queue lie in distinct slots of the buffer.\<close>

lemma mod_add_inj:
  fixes h i j n :: nat
  assumes "(h + i) mod n = (h + j) mod n" "i < n" "j < n"
  shows "i = j"
proof -
  have "i mod n = j mod n"
    using assms(1) by (simp add: nat_mod_eq_iff)
  with assms(2,3) show ?thesis by simp
qed

lemma slot_inj: "queue_inv q \<Longrightarrow> i < unat (q_size q) \<Longrightarrow> j < unat (q_size q) \<Longrightarrow>
    slot q i = slot q j \<Longrightarrow> i = j"
  unfolding slot_def by (rule mod_add_inj)

lemma unat_wrap_head: "sz \<noteq> 0 \<Longrightarrow> unat (wrap_head h sz) = unat h mod unat sz"
  by (simp add: wrap_head_def unat_mod word_le_nat_alt)

lemma wrap_head_less: "0 < sz \<Longrightarrow> wrap_head h sz < sz"
  by (simp add: wrap_head_def word_less_nat_alt unat_mod word_le_nat_alt)

section \<open>What each operation does\<close>

lemma mos_queue_add_full:
  "q_size q \<le> q_length q \<Longrightarrow> mos_queue_add q b = Some (Q_FULL, q)"
  by (simp add: mos_queue_add_def leD)

lemma mos_queue_add_ok:
  assumes inv: "queue_inv q" and room: "q_length q < q_size q"
  shows "\<exists>q'. mos_queue_add q b = Some (Q_OK, q') \<and> queue_inv q' \<and>
    queue_bytes q' = queue_bytes q @ [b] \<and> q_size q' = q_size q"
proof -
  let ?n = "unat (q_length q)"
  let ?q = "q\<lparr>q_buf := (q_buf q)[slot q ?n := b], q_length := q_length q + 1\<rparr>"
  have lt: "?n < unat (q_size q)" using room by (simp add: word_less_nat_alt)
  then have "Suc ?n < 256" using unat_u8_less [of "q_size q"] by linarith
  then have suc: "unat (q_length q + 1) = Suc ?n" by (simp add: unat_add_u8)
  have eq: "mos_queue_add q b = Some (Q_OK, ?q)"
    using room slot_bound [OF inv, of ?n] by (simp add: mos_queue_add_def slot_def)
  have inv': "queue_inv ?q"
    using inv lt by (simp add: queue_inv_nat suc)
  have "queue_bytes ?q = queue_bytes q @ [b]"
  proof (rule nth_equalityI)
    show "length (queue_bytes ?q) = length (queue_bytes q @ [b])" by (simp add: suc)
    fix i assume "i < length (queue_bytes ?q)"
    then have i: "i \<le> ?n" by (simp add: suc)
    have sl: "slot ?q i = slot q i" by (simp add: slot_def)
    show "queue_bytes ?q ! i = (queue_bytes q @ [b]) ! i"
    proof (cases "i = ?n")
      case True
      then show ?thesis using slot_bound [OF inv, of ?n] sl
        by (simp add: queue_bytes_nth suc nth_append)
    next
      case False
      then have "slot q ?n \<noteq> slot q i"
        using slot_inj [OF inv, of ?n i] lt i by fastforce
      then show ?thesis using False i sl
        by (simp add: queue_bytes_nth suc nth_append)
    qed
  qed
  with eq inv' show ?thesis by simp
qed

lemma slot_advance:
  assumes "queue_inv q" and "unat (q_head q + k) = unat (q_head q) + unat k"
  shows "slot (q\<lparr>q_head := wrap_head (q_head q + k) (q_size q), q_length := l\<rparr>) i
    = slot q (unat k + i)"
  using assms by (simp add: slot_def unat_wrap_head queue_inv_def word_gt_0 mod_simps ac_simps)

lemma advance_ok:
  assumes inv: "queue_inv q" and nw: "unat (q_head q) + unat k < 256" and le: "k \<le> q_length q"
  defines "q' \<equiv> q\<lparr>q_head := wrap_head (q_head q + k) (q_size q), q_length := q_length q - k\<rparr>"
  shows "queue_inv q'" and "queue_bytes q' = drop (unat k) (queue_bytes q)"
proof -
  have sub: "unat (q_length q - k) = unat (q_length q) - unat k"
    using le by (rule unat_sub_small)
  show inv': "queue_inv q'"
    using inv sub unfolding q'_def
    by (auto simp: queue_inv_def wrap_head_less word_le_nat_alt)
  show "queue_bytes q' = drop (unat k) (queue_bytes q)"
  proof (rule nth_equalityI)
    show "length (queue_bytes q') = length (drop (unat k) (queue_bytes q))"
      by (simp add: q'_def sub)
    fix i assume "i < length (queue_bytes q')"
    then have i: "unat k + i < unat (q_length q)" by (simp add: q'_def sub)
    have "slot q' i = slot q (unat k + i)"
      unfolding q'_def by (rule slot_advance [OF inv unat_add_u8_small [OF nw]])
    then show "queue_bytes q' ! i = drop (unat k) (queue_bytes q) ! i"
      using i by (simp add: queue_bytes_nth q'_def sub)
  qed
qed

lemma mos_queue_remove_empty:
  "q_length q = 0 \<Longrightarrow> mos_queue_remove q = Some (Q_UNDERFLOW, None, q)"
  by (simp add: mos_queue_remove_def)

lemma mos_queue_remove_ok:
  assumes inv: "queue_inv q" and items: "queue_bytes q = x # xs"
  shows "\<exists>q'. mos_queue_remove q = Some (Q_OK, Some x, q') \<and> queue_inv q' \<and>
    queue_bytes q' = xs \<and> q_size q' = q_size q"
proof -
  let ?q = "q\<lparr>q_head := wrap_head (q_head q + 1) (q_size q), q_length := q_length q - 1\<rparr>"
  have pos: "0 < unat (q_length q)"
    using items by (metis length_greater_0_conv length_queue_bytes list.discI)
  then have ne: "q_length q \<noteq> 0" and one: "1 \<le> q_length q"
    by (auto simp: word_le_nat_alt)
  have hd: "unat (q_head q) < unat (q_size q)"
    using inv by (simp add: queue_inv_nat)
  then have "Suc (unat (q_head q)) < 256"
    using unat_u8_less [of "q_size q"] by linarith
  then have nw: "unat (q_head q) + unat (1 :: u8) < 256" by simp
  have "slot q 0 = unat (q_head q)" using hd by (simp add: slot_def)
  then have "q_buf q ! unat (q_head q) = x"
    using pos items queue_bytes_nth [OF pos] by simp
  moreover have "unat (q_head q) < length (q_buf q)"
    using inv by (auto simp: queue_inv_nat)
  ultimately have "mos_queue_remove q = Some (Q_OK, Some x, ?q)"
    using ne by (simp add: mos_queue_remove_def)
  with advance_ok [OF inv nw one] items show ?thesis by simp
qed

lemma mos_queue_dump_all:
  assumes inv: "queue_inv q" and "q_length q \<le> n"
  shows "mos_queue_dump q n = (q_length q, q\<lparr>q_length := 0\<rparr>)"
    and "queue_inv (q\<lparr>q_length := 0\<rparr>)" and "queue_bytes (q\<lparr>q_length := 0\<rparr>) = []"
  using assms by (auto simp: mos_queue_dump_def queue_inv_def queue_bytes_def)

section \<open>The queue as an instance of the interface\<close>

definition queue_enq :: "u8 \<Rightarrow> queue_t \<Rightarrow> queue_t option" where
  "queue_enq b q = do { (st, q') \<leftarrow> mos_queue_add q b; if st = Q_OK then Some q' else None }"

definition queue_deq :: "queue_t \<Rightarrow> (u8 \<times> queue_t) option" where
  "queue_deq q = do { (st, b, q') \<leftarrow> mos_queue_remove q; map_option (\<lambda>x. (x, q')) b }"

definition queue_fits :: "u8 list \<Rightarrow> queue_t \<Rightarrow> bool" where
  "queue_fits xs q \<longleftrightarrow> unat (q_length q) + length xs \<le> unat (q_size q)"

interpretation byte_fifo: fifo queue_enq queue_deq queue_bytes queue_inv queue_fits
proof unfold_locales
  fix q :: queue_t and x xs
  assume inv: "queue_inv q" and fits: "queue_fits (x # xs) q"
  then have "q_length q < q_size q" by (simp add: queue_fits_def word_less_nat_alt)
  from mos_queue_add_ok [OF inv this, of x] obtain q' where
    q': "mos_queue_add q x = Some (Q_OK, q')" "queue_inv q'"
      "queue_bytes q' = queue_bytes q @ [x]" "q_size q' = q_size q" by blast
  have "length (queue_bytes q') = Suc (unat (q_length q))" using q'(3) by simp
  then have "unat (q_length q') = Suc (unat (q_length q))" by simp
  with q' fits show "\<exists>q'. queue_enq x q = Some q' \<and> queue_inv q' \<and>
      queue_bytes q' = queue_bytes q @ [x] \<and> queue_fits xs q'"
    by (simp add: queue_enq_def queue_fits_def)
next
  fix q :: queue_t and x xs
  assume "queue_inv q" and "queue_bytes q = x # xs"
  from mos_queue_remove_ok [OF this] show
    "\<exists>q'. queue_deq q = Some (x, q') \<and> queue_inv q' \<and> queue_bytes q' = xs"
    by (auto simp: queue_deq_def)
qed

section \<open>Properties\<close>

definition queue_ready :: "u8 list \<Rightarrow> u8 \<Rightarrow> bool" where
  "queue_ready buffer sz \<longleftrightarrow> 0 < sz \<and> unat sz \<le> length buffer"

lemma queue_init_inv:
  "queue_ready buffer sz \<Longrightarrow>
     queue_inv (mos_queue_init buffer sz) \<and> queue_bytes (mos_queue_init buffer sz) = []"
  by (simp add: queue_ready_def queue_inv_def mos_queue_init_def queue_bytes_def)

lemma queue_init_fits:
  "length xs \<le> unat sz \<Longrightarrow> queue_fits xs (mos_queue_init buffer sz)"
  by (simp add: queue_fits_def mos_queue_init_def)



text \<open>\<open>mos_queue_dump\<close> drops exactly the first \<open>n\<close> bytes and keeps the invariant,
  for every \<open>n\<close> below the length with which the 8-bit head does not wrap around.\<close>
theorem queue_dump_drops:
  assumes "queue_inv q" and "n < q_length q" and "unat (q_head q) + unat n < 256"
  shows "fst (mos_queue_dump q n) = n \<and> queue_inv (snd (mos_queue_dump q n)) \<and>
    queue_bytes (snd (mos_queue_dump q n)) = drop (unat n) (queue_bytes q)"
  using advance_ok [OF assms(1,3)] assms(2) by (simp add: mos_queue_dump_def)

definition sample_queue :: queue_t where
  "sample_queue = \<lparr>q_buf = [1, 2, 3, 4], q_size = 4, q_length = 3, q_head = 3\<rparr>"

theorem queue_dump_drops_witness:
  "fst (mos_queue_dump sample_queue 2) = 2 \<and> queue_inv (snd (mos_queue_dump sample_queue 2)) \<and>
    queue_bytes (snd (mos_queue_dump sample_queue 2)) = drop (unat (2 :: u8)) (queue_bytes sample_queue)"
  by (rule queue_dump_drops) (simp_all add: sample_queue_def queue_inv_def)

definition big_queue :: queue_t where
  "big_queue = \<lparr>q_buf = map of_nat [0..<200], q_size = 200, q_length = 120, q_head = 150\<rparr>"

text \<open>With a buffer of more than 128 bytes the sum \<open>q->head += dumpNum\<close> of
  \<open>mos_queue_dump\<close> can wrap at 256 before the comparison with the size: the queue keeps
  its invariant and its length but stands for the wrong bytes (here it continues at
  slot 4 instead of slot 60).\<close>
theorem queue_dump_wraps:
  "queue_inv big_queue \<and> queue_inv (snd (mos_queue_dump big_queue 110)) \<and>
   queue_bytes (snd (mos_queue_dump big_queue 110)) \<noteq> drop (unat (110 :: u8)) (queue_bytes big_queue)"
proof -
  have inv: "queue_inv big_queue" by (simp add: queue_inv_def big_queue_def)
  have d: "snd (mos_queue_dump big_queue 110) = big_queue\<lparr>q_head := 4, q_length := 10\<rparr>"
    by (simp add: mos_queue_dump_def big_queue_def wrap_head_def)
  have inv': "queue_inv (big_queue\<lparr>q_head := 4, q_length := 10\<rparr>)"
    by (simp add: queue_inv_def big_queue_def)
  have a: "queue_bytes (big_queue\<lparr>q_head := 4, q_length := 10\<rparr>) ! 0 = 4"
    by (simp add: queue_bytes_nth slot_def) (simp add: big_queue_def)
  have "drop (unat (110 :: u8)) (queue_bytes big_queue) ! 0 = queue_bytes big_queue ! 110"
    by (simp add: big_queue_def)
  also have "\<dots> = q_buf big_queue ! slot big_queue 110"
    by (rule queue_bytes_nth) (simp add: big_queue_def)
  also have "\<dots> = 60" by (simp add: slot_def big_queue_def)
  finally have b: "drop (unat (110 :: u8)) (queue_bytes big_queue) ! 0 = 60" .
  have "(4 :: u8) \<noteq> 60" by simp
  with a b have "queue_bytes (big_queue\<lparr>q_head := 4, q_length := 10\<rparr>)
      \<noteq> drop (unat (110 :: u8)) (queue_bytes big_queue)" by metis
  with inv inv' d show ?thesis by simp
qed

end
