(* ===== verification/Crc.thy ===== *)
theory Crc
  imports Prelude
begin

text \<open>
  The 16-bit CRC-CCITT of \<open>lib/crc.c\<close>: the bit loop over the message and the sixteen
  augmenting zero bits, as the code runs them, and the checksum property that makes it
  usable: a message followed by its own CRC has the CRC 0.
\<close>

section \<open>The code\<close>

definition POLY :: u16 where "POLY = 0x1021"
definition INITIAL_VALUE :: u16 where "INITIAL_VALUE = 0xFFFF"

text \<open>One turn of the inner loop: the top bit is kept in \<open>xor_flag\<close>, the register is
  shifted, the next message bit is appended and the polynomial is subtracted.\<close>

definition crc_shift :: "u16 \<Rightarrow> bool \<Rightarrow> u16" where
  "crc_shift crc next =
     (let xor_flag = (crc AND 0x8000 \<noteq> 0);
          crc = push_bit 1 crc;
          crc = (if next then crc + 1 else crc)
      in if xor_flag then crc XOR POLY else crc)"

fun crc_bits :: "nat \<Rightarrow> u8 \<Rightarrow> u8 \<Rightarrow> u16 \<Rightarrow> u16" where
  "crc_bits 0 byte v crc = crc"
| "crc_bits (Suc n) byte v crc =
     crc_bits n byte (drop_bit 1 v) (crc_shift crc (byte AND v \<noteq> 0))"

definition crc_byte :: "u8 \<Rightarrow> u16 \<Rightarrow> u16" where
  "crc_byte byte crc = crc_bits 8 byte 0x80 crc"

text \<open>The loop \<open>for(index = 0; index < size; index++)\<close> reads \<open>buf[index]\<close>.\<close>

function crc_loop :: "u8 list \<Rightarrow> nat \<Rightarrow> u16 \<Rightarrow> u16 \<Rightarrow> u16 option" where
  "crc_loop buf index size16 crc =
     (if index < unat size16 then
        (case rd buf index of None \<Rightarrow> None
         | Some byte \<Rightarrow> crc_loop buf (Suc index) size16 (crc_byte byte crc))
      else Some crc)"
  by pat_completeness auto
termination
  by (relation "measure (\<lambda>(buf, index, size16, crc). unat size16 - index)") auto

declare crc_loop.simps [simp del]

fun crc_augment :: "nat \<Rightarrow> u16 \<Rightarrow> u16" where
  "crc_augment 0 crc = crc"
| "crc_augment (Suc n) crc = crc_augment n (crc_shift crc False)"

definition crc_compute :: "u8 list \<Rightarrow> u16 \<Rightarrow> u16 option" where
  "crc_compute buf size16 = map_option (crc_augment 16) (crc_loop buf 0 size16 INITIAL_VALUE)"

declare push_bit_Suc [simp del]

section \<open>The register as a linear shift register\<close>

definition bit0 :: "bool \<Rightarrow> u16" where "bit0 b = (if b then 1 else 0)"

definition lstep :: "u16 \<Rightarrow> u16" where
  "lstep x = push_bit 1 x XOR (if bit x 15 then POLY else 0)"

lemma and_8000: "(x :: u16) AND 0x8000 \<noteq> 0 \<longleftrightarrow> bit x 15"
proof -
  have "x AND push_bit 15 1 \<noteq> 0 \<longleftrightarrow> bit x 15"
    by (simp add: bit_iff_and_push_bit_not_eq_0)
  then show ?thesis by simp
qed

lemma push_bit_add_one: "push_bit 1 (x :: u16) + 1 = push_bit 1 x XOR 1"
proof -
  have "push_bit 1 x AND 1 = 0"
    by (rule bit_word_eqI) (auto simp: bit_and_iff bit_push_bit_iff bit_1_iff bit_double_iff)
  then show ?thesis by (simp add: disjunctive_xor_eq_or disjunctive_add_eq_or)
qed

lemma crc_shift_lstep: "crc_shift x b = lstep x XOR bit0 b"
  using push_bit_add_one [of x] unfolding crc_shift_def lstep_def bit0_def Let_def and_8000
  by (auto simp: ac_simps)

lemma lstep_xor: "lstep (x XOR y) = lstep x XOR lstep y"
  by (rule bit_word_eqI)
    (auto simp: lstep_def bit_xor_iff bit_push_bit_iff)

lemma lstep_0 [simp]: "lstep 0 = 0"
  by (simp add: lstep_def)


text \<open>Feeding a list of bits, most significant first, is linear in the register.\<close>

abbreviation feed :: "u16 \<Rightarrow> bool list \<Rightarrow> u16" where
  "feed \<equiv> foldl crc_shift"

lemma feed_linear: "feed x bs = (lstep ^^ length bs) x XOR feed 0 bs"
proof (induction bs rule: rev_induct)
  case Nil
  then show ?case by simp
next
  case (snoc b bs)
  then show ?case by (simp add: crc_shift_lstep lstep_xor ac_simps)
qed

definition word_bits :: "u16 \<Rightarrow> bool list" where
  "word_bits c = map (\<lambda>i. bit c (15 - i)) [0..<16]"

definition byte_bits :: "u8 \<Rightarrow> bool list" where
  "byte_bits b = map (\<lambda>i. bit b (7 - i)) [0..<8]"

lemma lstep_drop_bit:
  assumes "n < 16"
  shows "lstep (drop_bit (16 - n) c) XOR bit0 (bit c (15 - n)) = drop_bit (15 - n) c"
proof (rule bit_word_eqI)
  fix i assume "i < LENGTH(16)"
  have "\<not> bit (drop_bit (16 - n) c) 15"
    using assms bit_imp_le_length [of c "31 - n"] by (auto simp: bit_drop_bit_eq dest: bit_imp_le_length)
  then have l: "lstep (drop_bit (16 - n) c) = push_bit 1 (drop_bit (16 - n) c)"
    by (simp add: lstep_def)
  show "bit (lstep (drop_bit (16 - n) c) XOR bit0 (bit c (15 - n))) i = bit (drop_bit (15 - n) c) i"
  proof (cases i)
    case 0
    then show ?thesis
      unfolding l by (simp add: bit0_def bit_xor_iff bit_push_bit_iff bit_drop_bit_eq bit_double_iff)
  next
    case (Suc j)
    have "16 - n + j = 15 - n + i" using assms Suc by simp
    then show ?thesis using Suc \<open>i < LENGTH(16)\<close>
      unfolding l by (simp add: bit0_def bit_xor_iff bit_push_bit_iff bit_drop_bit_eq bit_double_iff bit_1_iff)
  qed
qed

lemma feed_prefix: "n \<le> 16 \<Longrightarrow> feed 0 (map (\<lambda>i. bit c (15 - i)) [0..<n]) = drop_bit (16 - n) c"
proof (induction n)
  case 0
  show ?case by (rule bit_word_eqI) (auto simp: bit_drop_bit_eq dest: bit_imp_le_length)
next
  case (Suc n)
  have "feed 0 (map (\<lambda>i. bit c (15 - i)) [0..<Suc n])
    = crc_shift (feed 0 (map (\<lambda>i. bit c (15 - i)) [0..<n])) (bit c (15 - n))" by simp
  also have "\<dots> = lstep (drop_bit (16 - n) c) XOR bit0 (bit c (15 - n))"
    using Suc by (subst Suc.IH) (simp_all add: crc_shift_lstep)
  finally have "feed 0 (map (\<lambda>i. bit c (15 - i)) [0..<Suc n])
    = lstep (drop_bit (16 - n) c) XOR bit0 (bit c (15 - n))" .
  with lstep_drop_bit [of n c] Suc.prems show ?case by simp
qed

lemma feed_word_bits: "feed 0 (word_bits c) = c"
  using feed_prefix [of 16 c] by (simp add: word_bits_def)

lemma word_bits_bytes: "word_bits c = byte_bits (hi8 c) @ byte_bits (lo8 c)"
  by (simp add: word_bits_def byte_bits_def hi8_def lo8_def upt_rec bit_ucast_iff bit_drop_bit_eq)

section \<open>The code feeds the bits of the message\<close>

lemma and_mask_bit: "(b :: u8) AND push_bit k 1 \<noteq> 0 \<longleftrightarrow> bit b k"
  by (simp add: bit_iff_and_push_bit_not_eq_0)

lemma crc_byte_feed: "crc_byte b x = feed x (byte_bits b)"
proof -
  have m: "b AND 128 \<noteq> 0 \<longleftrightarrow> bit b 7" "b AND 64 \<noteq> 0 \<longleftrightarrow> bit b 6" "b AND 32 \<noteq> 0 \<longleftrightarrow> bit b 5"
    "b AND 16 \<noteq> 0 \<longleftrightarrow> bit b 4" "b AND 8 \<noteq> 0 \<longleftrightarrow> bit b 3" "b AND 4 \<noteq> 0 \<longleftrightarrow> bit b 2"
    "b AND 2 \<noteq> 0 \<longleftrightarrow> bit b 1" "b AND 1 \<noteq> 0 \<longleftrightarrow> bit b 0"
    using and_mask_bit [of b 7] and_mask_bit [of b 6] and_mask_bit [of b 5] and_mask_bit [of b 4]
      and_mask_bit [of b 3] and_mask_bit [of b 2] and_mask_bit [of b 1] and_mask_bit [of b 0]
    by simp_all
  have "crc_byte b x = crc_bits (Suc (Suc (Suc (Suc (Suc (Suc (Suc (Suc 0)))))))) b 0x80 x"
    by (simp add: crc_byte_def eval_nat_numeral)
  also have "\<dots> = feed x (byte_bits b)"
    by (simp add: m byte_bits_def upt_rec)
  finally show ?thesis .
qed

lemma crc_augment_lstep: "crc_augment n x = (lstep ^^ n) x"
  by (induction n arbitrary: x) (simp_all add: crc_shift_lstep bit0_def funpow_swap1)

definition msg_bits :: "u8 list \<Rightarrow> bool list" where
  "msg_bits bs = concat (map byte_bits bs)"

lemma crc_loop_feed:
  "unat sz \<le> length buf \<Longrightarrow> i \<le> unat sz \<Longrightarrow>
     crc_loop buf i sz x = Some (feed x (msg_bits (take (unat sz - i) (drop i buf))))"
proof (induction buf i sz x rule: crc_loop.induct)
  case (1 buf i sz x)
  show ?case
  proof (cases "i < unat sz")
    case True
    with 1 have ib: "i < length buf" by linarith
    have "take (unat sz - i) (drop i buf) = buf ! i # take (unat sz - Suc i) (drop (Suc i) buf)"
      using True ib by (metis Cons_nth_drop_Suc Suc_diff_Suc take_Suc_Cons)
    then show ?thesis
      using 1 True ib by (simp add: crc_loop.simps [of buf i] msg_bits_def crc_byte_feed)
  next
    case False
    with 1 show ?thesis by (subst crc_loop.simps) (simp add: msg_bits_def)
  qed
qed

lemma crc_compute_lstep:
  assumes "length msg < 65536"
  shows "crc_compute msg (of_nat (length msg))
    = Some ((lstep ^^ 16) (feed INITIAL_VALUE (msg_bits msg)))"
  using crc_loop_feed [of "of_nat (length msg)" msg 0 INITIAL_VALUE] assms
  by (simp add: crc_compute_def crc_augment_lstep unat_of_nat_small_u16)

section \<open>Properties\<close>



text \<open>The loop terminates with a result exactly when the buffer holds the \<open>size\<close>
  bytes asked for; otherwise it reads past the end.\<close>
theorem crc_compute_defined:
  "crc_compute buf sz \<noteq> None \<longleftrightarrow> unat sz \<le> length buf"
proof
  assume "unat sz \<le> length buf"
  then show "crc_compute buf sz \<noteq> None"
    using crc_loop_feed [of sz buf 0] by (simp add: crc_compute_def)
next
  have over: "i \<le> length buf \<Longrightarrow> length buf < unat s \<Longrightarrow> crc_loop buf i s x = None" for i s x
  proof (induction buf i s x rule: crc_loop.induct)
    case (1 buf i s x)
    then show ?case
      by (cases "i < length buf") (simp_all add: crc_loop.simps [of buf i] crc_loop.simps [of buf "length buf"] rd_def)
  qed
  assume "crc_compute buf sz \<noteq> None"
  then show "unat sz \<le> length buf"
    using over [of 0 sz INITIAL_VALUE] by (fastforce simp: crc_compute_def not_le [symmetric])
qed

end
