(* ===== verification/Rc5.thy ===== *)
theory Rc5
  imports Prelude
begin

text \<open>
  The block cipher of the library (\<open>lib/rc5.c\<close>, with the assembler macros of
  \<open>lib/include/CryptoPrimitives.h\<close>): RC5 with 32-bit words, twelve rounds and a key of sixteen
  bytes.  The rotations are modelled instruction by instruction and proved to rotate.
\<close>

section \<open>Rotations\<close>

text \<open>One round of the loops of \<open>rol32\<close> and \<open>ror32\<close>: the carry is set to the bit that falls out and
  shifted in at the other end.  The loop counter is a byte; \<open>brmi\<close> and \<open>brpl\<close> test its sign.\<close>

definition rol1 :: "u32 \<Rightarrow> u32" where
  "rol1 a = push_bit 1 a OR (if bit a 31 then 1 else 0)"

definition ror1 :: "u32 \<Rightarrow> u32" where
  "ror1 a = drop_bit 1 a OR (if bit a 0 then 0x80000000 else 0)"

function rot_loop :: "(u32 \<Rightarrow> u32) \<Rightarrow> u8 \<Rightarrow> u32 \<Rightarrow> u32" where
  "rot_loop f nsh a = (if bit nsh 7 then a else rot_loop f (nsh - 1) (f a))"
  by auto
termination
proof (relation "measure (\<lambda>(f, nsh, a). if bit nsh 7 then 0 else unat nsh + 1)")
  fix f :: "u32 \<Rightarrow> u32" and nsh :: u8 and a :: u32
  assume "\<not> bit nsh 7"
  then have "0 < unat nsh \<Longrightarrow> unat (nsh - 1) < unat nsh"
    by (metis less_irrefl unat_0 measure_unat)
  moreover have "nsh = 0 \<Longrightarrow> bit (nsh - 1) 7" by simp
  ultimately show "((f, nsh - 1, f a), f, nsh, a) \<in> measure (\<lambda>(f, nsh, a). if bit nsh 7 then 0 else unat nsh + 1)"
    using \<open>\<not> bit nsh 7\<close> by (cases "nsh = 0") (auto simp: unat_gt_0)
qed simp

declare rot_loop.simps [simp del]

definition rol32 :: "u32 \<Rightarrow> int \<Rightarrow> u32" where
  "rol32 a n = rot_loop rol1 (of_int n - 1) a"

definition ror32 :: "u32 \<Rightarrow> int \<Rightarrow> u32" where
  "ror32 a n = rot_loop ror1 (of_int n - 1) a"

text \<open>The bytes of a word, lowest first, and the rotations that move whole bytes.\<close>

definition word_byte :: "nat \<Rightarrow> u32 \<Rightarrow> u8" where
  "word_byte k a = ucast (drop_bit (8 * k) a)"

definition brol1 :: "u32 \<Rightarrow> u32" where
  "brol1 a = le32 (word_byte 3 a) (word_byte 0 a) (word_byte 1 a) (word_byte 2 a)"

definition brol2 :: "u32 \<Rightarrow> u32" where
  "brol2 a = le32 (word_byte 2 a) (word_byte 3 a) (word_byte 0 a) (word_byte 1 a)"

definition brol3 :: "u32 \<Rightarrow> u32" where
  "brol3 a = le32 (word_byte 1 a) (word_byte 2 a) (word_byte 3 a) (word_byte 0 a)"

definition fastrol32 :: "u32 \<Rightarrow> int \<Rightarrow> u32" where
  "fastrol32 a n =
     (if n \<in> {1, 2, 3, 4, 5} then rol32 a n
      else if n \<in> {6, 7} then ror32 (brol1 a) (8 - n)
      else if n \<in> {8, 9, 10, 11, 12} then rol32 (brol1 a) (n - 8)
      else if n \<in> {13, 14, 15, 16} then ror32 (brol2 a) (16 - n)
      else if n \<in> {17, 18, 19, 20} then rol32 (brol2 a) (n - 16)
      else if n \<in> {21, 22, 23, 24} then ror32 (brol3 a) (24 - n)
      else if n \<in> {25, 26, 27, 28} then rol32 (brol3 a) (n - 24)
      else if n \<in> {29, 30, 31} then ror32 a (32 - n)
      else a)"

definition fastror32 :: "u32 \<Rightarrow> int \<Rightarrow> u32" where
  "fastror32 a n = fastrol32 a (32 - n)"

lemma rol1_rot: "rol1 a = word_rotl 1 a"
proof (rule bit_word_eqI)
  fix n assume n: "n < LENGTH(32)"
  have "(n + 31) mod 32 = (if n = 0 then 31 else n - 1)" using n by (cases n) simp_all
  then show "bit (rol1 a) n = bit (word_rotl 1 a) n"
    using n unfolding rol1_def bit_or_iff bit_push_bit_iff bit_word_rotl_iff
    by (cases n) (auto simp: bit_1_iff)
qed

lemma ror1_rot: "ror1 a = word_rotr 1 a"
proof (rule bit_word_eqI)
  fix n assume n: "n < LENGTH(32)"
  have "(n + 1) mod 32 = (if n = 31 then 0 else n + 1)" using n by simp
  moreover have "(0x80000000 :: u32) = push_bit 31 1" by simp
  then have "bit (0x80000000 :: u32) n \<longleftrightarrow> n = 31" using n unfolding \<open>0x80000000 = _\<close> bit_push_bit_iff bit_1_iff by auto
  ultimately show "bit (ror1 a) n = bit (word_rotr 1 a) n"
    using n bit_imp_le_length [of a 32]
    by (auto simp: ror1_def bit_or_iff bit_drop_bit_eq bit_word_rotr_iff)
qed

lemma word_rotl_rotl: "word_rotl m (word_rotl n w) = word_rotl (m + n) (w :: 'a::len word)"
proof -
  have "word_rotr (m + n) (word_rotl m (word_rotl n w)) = w"
    by (simp add: add.commute [of m n] flip: word_rotr_word_rotr_eq)
  then show ?thesis by (simp add: word_rot_gal)
qed

text \<open>The loop turns as often as its counter says.\<close>

lemma rot_loop_funpow: "n \<le> 128 \<Longrightarrow> rot_loop f (of_nat n - 1) a = (f ^^ n) a"
proof (induction n arbitrary: a)
  case 0
  then show ?case by (simp add: rot_loop.simps)
next
  case (Suc n)
  have "n div 128 = 0" using Suc.prems by simp
  moreover have "unat (of_nat n :: u8) = n" using Suc.prems by (intro unat_of_nat_small_u8) simp
  ultimately have "\<not> bit (of_nat n :: u8) 7"
    using bit_unsigned_iff [where 'a=nat and w="of_nat n :: u8" and n=7] by (simp add: bit_iff_odd)
  with Suc show ?case by (subst rot_loop.simps) (simp add: funpow_swap1)
qed

lemma word_rot_0 [simp]: "word_rotl 0 (w :: 'a::len word) = w" "word_rotr 0 (w :: 'a::len word) = w"
  by (rule bit_word_eqI; simp add: bit_word_rotl_iff bit_word_rotr_iff)+

lemma funpow_rotl: "(word_rotl 1 ^^ n) a = word_rotl n (a :: u32)"
  by (induction n) (simp_all add: word_rotl_rotl)

lemma funpow_rotr: "(word_rotr 1 ^^ n) a = word_rotr n (a :: u32)"
  by (induction n) (simp_all add: word_rotr_word_rotr_eq)

lemma rol32_rot: "n \<le> 8 \<Longrightarrow> rol32 a (int n) = word_rotl n a"
  using rot_loop_funpow [of n rol1] by (simp add: rol32_def rol1_rot [abs_def] funpow_rotl del: One_nat_def)

lemma ror32_rot: "n \<le> 8 \<Longrightarrow> ror32 a (int n) = word_rotr n a"
  using rot_loop_funpow [of n ror1] by (simp add: ror32_def ror1_rot [abs_def] funpow_rotr del: One_nat_def)

lemma bit_le32: "n < 32 \<Longrightarrow> bit (le32 a b c d) n \<longleftrightarrow>
    (if n < 8 then bit a n else if n < 16 then bit b (n - 8) else if n < 24 then bit c (n - 16) else bit d (n - 24))"
  by (auto simp: le32_def bit_or_iff bit_push_bit_iff bit_ucast_iff dest: bit_imp_le_length)

lemma bit_word_byte: "bit (word_byte k a) n \<longleftrightarrow> n < 8 \<and> bit a (8 * k + n)"
  by (auto simp: word_byte_def bit_ucast_iff bit_drop_bit_eq)

lemma brol_rot: "brol1 a = word_rotl 8 a" "brol2 a = word_rotl 16 a" "brol3 a = word_rotl 24 a"
proof -
  have m: "(n + j) mod 32 = (if n + j < 32 then n + j else n + j - 32)" if "n < 32" "j < 32" for n j :: nat
    using that by (simp add: mod_if)
  show "brol1 a = word_rotl 8 a" "brol2 a = word_rotl 16 a" "brol3 a = word_rotl 24 a"
    by (rule bit_word_eqI; simp add: brol1_def brol2_def brol3_def bit_le32 bit_word_byte bit_word_rotl_iff m; auto simp: add.commute)+
qed

text \<open>Moving bytes and then turning back.\<close>

lemma word_rotr_rotl: "k \<le> n \<Longrightarrow> word_rotr k (word_rotl n w) = word_rotl (n - k) (w :: 'a::len word)"
  by (simp add: word_rot_gal word_rotl_rotl)

lemma word_rotl_32: "word_rotl 32 w = (w :: u32)"
  by (rule bit_word_eqI) (simp add: bit_word_rotl_iff)

lemma word_rotr_complement: "k \<le> 32 \<Longrightarrow> word_rotr (32 - k) (w :: u32) = word_rotl k w"
proof -
  assume "k \<le> 32"
  moreover have "word_rotl 32 w = w" by (rule word_rotl_32)
  ultimately show ?thesis by (simp add: word_rot_gal word_rotl_rotl)
qed

lemma fastrol32_rot:
  assumes "n \<le> 32"
  shows "fastrol32 a (int n) = word_rotl n a"
proof -
  have r: "rol32 a (int n - int m) = word_rotl (n - m) a" if "m \<le> n" "n \<le> m + 8" for a m
    using rol32_rot [of "n - m" a] that by (simp add: of_nat_diff)
  have l: "ror32 a (int m - int n) = word_rotr (m - n) a" if "n \<le> m" "m \<le> n + 8" for a m
    using ror32_rot [of "m - n" a] that by (simp add: of_nat_diff)
  have "n = 0 \<or> n \<in> {1, 2, 3, 4, 5} \<or> n \<in> {6, 7} \<or> n \<in> {8, 9, 10, 11, 12} \<or> n \<in> {13, 14, 15, 16} \<or>
    n \<in> {17, 18, 19, 20} \<or> n \<in> {21, 22, 23, 24} \<or> n \<in> {25, 26, 27, 28} \<or> n \<in> {29, 30, 31} \<or> n = 32"
    using assms unfolding insert_iff empty_iff by presburger
  then consider "n = 0" | "n \<in> {1, 2, 3, 4, 5}" | "n \<in> {6, 7}" | "n \<in> {8, 9, 10, 11, 12}" | "n \<in> {13, 14, 15, 16}"
    | "n \<in> {17, 18, 19, 20}" | "n \<in> {21, 22, 23, 24}" | "n \<in> {25, 26, 27, 28}" | "n \<in> {29, 30, 31}" | "n = 32"
    by blast
  then show ?thesis
  proof cases
    case 2 then show ?thesis using r [of 0 a] by (auto simp: fastrol32_def)
  next
    case 3 then show ?thesis using l [of 8] by (auto simp: fastrol32_def brol_rot word_rotr_rotl)
  next
    case 4 then show ?thesis using r [of 8] by (auto simp: fastrol32_def brol_rot word_rotl_rotl)
  next
    case 5 then show ?thesis using l [of 16] by (auto simp: fastrol32_def brol_rot word_rotr_rotl)
  next
    case 6 then show ?thesis using r [of 16] by (auto simp: fastrol32_def brol_rot word_rotl_rotl)
  next
    case 7 then show ?thesis using l [of 24] by (auto simp: fastrol32_def brol_rot word_rotr_rotl)
  next
    case 8 then show ?thesis using r [of 24] by (auto simp: fastrol32_def brol_rot word_rotl_rotl)
  next
    case 9 then show ?thesis using l [of 32 a] word_rotr_complement [of n a] by (auto simp: fastrol32_def)
  qed (simp_all add: fastrol32_def word_rotl_32)
qed

section \<open>The cipher\<close>

text \<open>An expanded key is the array \<open>vector\<close> of 26 words.  Blocks are pairs of words.\<close>

definition RC5_ROUNDS :: nat where "RC5_ROUNDS = 12"
definition RC5_KEYSPACES :: nat where "RC5_KEYSPACES = 2 * RC5_ROUNDS + 2"
definition RC5_32_P :: u32 where "RC5_32_P = 0xB7E15163"
definition RC5_32_Q :: u32 where "RC5_32_Q = 0x9E3779B9"

definition turn :: "u32 \<Rightarrow> int" where
  "turn w = uint (ucast w AND 0x1F :: u8)"

text \<open>The loop of \<open>rc5_encrypt\<close> with \<open>i\<close> rounds to go and \<open>s\<close> at position \<open>j\<close>, and that of
  \<open>rc5_decrypt\<close> with \<open>de_key\<close> at position \<open>j\<close>.\<close>

fun encrypt_rounds :: "u32 list \<Rightarrow> nat \<Rightarrow> nat \<Rightarrow> u32 \<times> u32 \<Rightarrow> u32 \<times> u32" where
  "encrypt_rounds v 0 j (a, b) = (a, b)"
| "encrypt_rounds v (Suc i) j (a, b) =
     (let a = fastrol32 (a XOR b) (turn b) + v ! j;
          b = fastrol32 (b XOR a) (turn a) + v ! (j + 1)
      in encrypt_rounds v i (j + 2) (a, b))"

definition rc5_encrypt :: "u32 list \<Rightarrow> u32 \<times> u32 \<Rightarrow> u32 \<times> u32" where
  "rc5_encrypt v = (\<lambda>(a, b). encrypt_rounds v RC5_ROUNDS 2 (a + v ! 0, b + v ! 1))"

fun decrypt_rounds :: "u32 list \<Rightarrow> nat \<Rightarrow> nat \<Rightarrow> u32 \<times> u32 \<Rightarrow> nat \<times> u32 \<times> u32" where
  "decrypt_rounds v 0 j (a, b) = (j, a, b)"
| "decrypt_rounds v (Suc i) j (a, b) =
     (let b = fastror32 (b - v ! (j - 1)) (turn a) XOR a;
          a = fastror32 (a - v ! (j - 2)) (turn b) XOR b
      in decrypt_rounds v i (j - 2) (a, b))"

definition rc5_decrypt :: "u32 list \<Rightarrow> u32 \<times> u32 \<Rightarrow> u32 \<times> u32" where
  "rc5_decrypt v x = (case decrypt_rounds v 12 26 x of (j, a, b) \<Rightarrow> (a - v ! (j - 2), b - v ! (j - 1)))"

text \<open>The key schedule: \<open>key_words\<close> reads the sixteen bytes of the key as four words; the loop
  mixes them into the table, \<open>ii\<close> and \<open>jj\<close> being the positions in the table (in words) and in
  the key (in bytes).\<close>

definition key_words :: "u8 list \<Rightarrow> u32 list" where
  "key_words key = map (\<lambda>i. le32 (key ! (4 * i)) (key ! (4 * i + 1)) (key ! (4 * i + 2)) (key ! (4 * i + 3))) [0, 1, 2, 3]"

primrec key_table :: "nat \<Rightarrow> u32 list" where
  "key_table 0 = [RC5_32_P]"
| "key_table (Suc i) = (let S = key_table i in S @ [S ! i + RC5_32_Q])"

fun key_mix :: "nat \<Rightarrow> u8 \<Rightarrow> u8 \<Rightarrow> u32 \<Rightarrow> u32 \<Rightarrow> u32 list \<Rightarrow> u32 list \<Rightarrow> u32 list" where
  "key_mix 0 ii jj A B S L = S"
| "key_mix (Suc i) ii jj A B S L =
     (let k = fastrol32 (S ! unat ii + A + B) 3;
          A = k; S = S[unat ii := k];
          m = turn (A + B);
          k = fastrol32 (L ! (unat jj div 4) + A + B) m;
          B = k; L = L[unat jj div 4 := k];
          ii = (if of_nat RC5_KEYSPACES \<le> ii + 1 then 0 else ii + 1);
          jj = (jj + 4) AND 0x0F
      in key_mix i ii jj A B S L)"

definition rc5_key_setup :: "u8 list \<Rightarrow> u32 list" where
  "rc5_key_setup key = key_mix (3 * RC5_KEYSPACES) 0 0 0 0 (key_table (RC5_KEYSPACES - 1)) (key_words key)"

section \<open>Decryption undoes encryption\<close>

lemma turn_bounds: "turn w = int (unat w mod 32)"
proof -
  have "(ucast w AND 0x1F :: u8) = take_bit 5 (ucast w)" by (simp add: take_bit_eq_mask mask_eq_exp_minus_1)
  then have "turn w = take_bit 5 (uint w)" by (simp add: turn_def unsigned_take_bit_eq unsigned_ucast_eq)
  then show ?thesis by (simp add: take_bit_eq_mod zmod_int)
qed

lemma turn_rot: "fastrol32 a (turn w) = word_rotl (unat w mod 32) a" "fastror32 a (turn w) = word_rotr (unat w mod 32) a"
proof -
  define m where "m = unat w mod 32"
  have m: "m \<le> 32" "turn w = int m" by (simp_all add: m_def turn_bounds)
  have "fastror32 a (turn w) = fastrol32 a (int (32 - m))" unfolding fastror32_def m using m(1) by simp
  also have "\<dots> = word_rotl (32 - m) a" by (rule fastrol32_rot) simp
  also have "\<dots> = word_rotr m a" using word_rotr_complement [of "32 - m" a] m(1) by simp
  finally show "fastror32 a (turn w) = word_rotr (unat w mod 32) a" unfolding m_def .
  show "fastrol32 a (turn w) = word_rotl (unat w mod 32) a"
    using fastrol32_rot [OF m(1), of a] unfolding m(2) unfolding m_def .
qed

lemma fastror32_rol: "fastror32 (fastrol32 a (turn w)) (turn w) = a"
  by (simp add: turn_rot)

text \<open>A round of decryption undoes the last round of encryption; the rounds nest.\<close>

declare encrypt_rounds.simps [simp del] decrypt_rounds.simps [simp del]

lemma encrypt_rounds_1: "encrypt_rounds v (Suc 0) j (a, b) =
    (let a = fastrol32 (a XOR b) (turn b) + v ! j; b = fastrol32 (b XOR a) (turn a) + v ! (j + 1) in (a, b))"
  by (simp add: encrypt_rounds.simps Let_def)

lemma encrypt_rounds_Suc:
  "encrypt_rounds v (Suc i) j x =
     (case encrypt_rounds v i j x of (a, b) \<Rightarrow> encrypt_rounds v (Suc 0) (j + 2 * i) (a, b))"
proof (induction v i j x rule: encrypt_rounds.induct)
  case (1 v j a b)
  then show ?case by (simp add: encrypt_rounds.simps(1))
next
  case (2 v i j a b)
  then show ?case by (simp add: encrypt_rounds.simps(2) [of v "Suc i"] encrypt_rounds.simps(2) [of v i] Let_def)
qed

lemma decrypt_round:
  "encrypt_rounds v (Suc 0) j (a, b) = (c, d) \<Longrightarrow> decrypt_rounds v (Suc i) (j + 2) (c, d) = decrypt_rounds v i j (a, b)"
  by (auto simp: encrypt_rounds_1 decrypt_rounds.simps(2) Let_def fastror32_rol xor.assoc)

lemma decrypt_encrypt_rounds:
  "encrypt_rounds v i j x = y \<Longrightarrow> decrypt_rounds v i (j + 2 * i) y = (j, x)"
proof (induction i arbitrary: y)
  case 0
  then show ?case by (cases x) (auto simp: encrypt_rounds.simps(1) decrypt_rounds.simps(1))
next
  case (Suc i)
  obtain a b where e: "encrypt_rounds v i j x = (a, b)" by force
  obtain c d where f: "encrypt_rounds v (Suc 0) (j + 2 * i) (a, b) = (c, d)" by force
  then have "y = (c, d)" using encrypt_rounds_Suc [of v i j x] Suc.prems e f by simp
  have "decrypt_rounds v (Suc i) (j + 2 * i + 2) (c, d) = decrypt_rounds v i (j + 2 * i) (a, b)"
    by (rule decrypt_round [OF f])
  also have "\<dots> = (j, x)" by (rule Suc.IH [OF e])
  finally show ?case using \<open>y = (c, d)\<close> by simp
qed

lemma rc5_decrypt_encrypt: "rc5_decrypt v (rc5_encrypt v x) = x"
proof -
  obtain a b where x: "x = (a, b)" by force
  have "decrypt_rounds v 12 26 (rc5_encrypt v x) = (2, a + v ! 0, b + v ! 1)"
    using decrypt_encrypt_rounds [OF refl, of v 12 2] by (simp add: rc5_encrypt_def x RC5_ROUNDS_def)
  then show ?thesis by (simp add: rc5_decrypt_def x)
qed

section \<open>The key schedule\<close>

text \<open>The expansion as the definition of RC5 gives it: a table of 26 words in arithmetic progression,
  mixed three times over with the four words of the key.\<close>

definition mix_step :: "nat \<Rightarrow> u32 \<times> u32 \<times> u32 list \<times> u32 list \<Rightarrow> u32 \<times> u32 \<times> u32 list \<times> u32 list" where
  "mix_step t = (\<lambda>(A, B, S, L).
     let A = word_rotl 3 (S ! (t mod 26) + A + B);
         B = word_rotl (unat (A + B) mod 32) (L ! (t mod 4) + A + B)
     in (A, B, S[t mod 26 := A], L[t mod 4 := B]))"

definition rc5_schedule :: "u32 list \<Rightarrow> u32 list" where
  "rc5_schedule L = (case fold mix_step [0..<78] (0, 0, map (\<lambda>i. 0xB7E15163 + of_nat i * 0x9E3779B9) [0..<26], L)
     of (A, B, S, L) \<Rightarrow> S)"

lemma length_key_table [simp]: "length (key_table n) = Suc n"
  by (induction n) (simp_all add: Let_def)

lemma key_table_eq: "key_table n = map (\<lambda>i. RC5_32_P + of_nat i * RC5_32_Q) [0..<Suc n]"
proof (induction n)
  case (Suc n)
  have "key_table n ! n = RC5_32_P + of_nat n * RC5_32_Q" unfolding Suc.IH by (subst nth_map) (simp_all del: upt_Suc)
  then have "key_table (Suc n) = key_table n @ [RC5_32_P + of_nat (Suc n) * RC5_32_Q]"
    by (simp add: Let_def algebra_simps)
  then show ?case unfolding Suc.IH by simp
qed simp

lemma key_counters:
  shows "(if of_nat RC5_KEYSPACES \<le> (of_nat (t mod 26) + 1 :: u8) then 0 else of_nat (t mod 26) + 1) = (of_nat (Suc t mod 26) :: u8)"
    and "((of_nat (4 * (t mod 4)) :: u8) + 4) AND 0x0F = of_nat (4 * (Suc t mod 4))"
proof -
  have l: "t mod 26 < 26" by simp
  have "unat (of_nat (t mod 26) + 1 :: u8) = t mod 26 + 1"
    using l unat_of_nat_small_u8 [of "Suc (t mod 26)"] by (simp add: add.commute)
  then have "(of_nat RC5_KEYSPACES \<le> (of_nat (t mod 26) + 1 :: u8)) = (t mod 26 = 25)"
    using l by (simp add: word_le_nat_alt RC5_KEYSPACES_def RC5_ROUNDS_def) linarith
  then show "(if of_nat RC5_KEYSPACES \<le> (of_nat (t mod 26) + 1 :: u8) then 0 else of_nat (t mod 26) + 1) = (of_nat (Suc t mod 26) :: u8)"
    by (auto simp: mod_Suc)
  consider "t mod 4 = 0" | "t mod 4 = 1" | "t mod 4 = 2" | "t mod 4 = 3" by linarith
  then show "((of_nat (4 * (t mod 4)) :: u8) + 4) AND 0x0F = of_nat (4 * (Suc t mod 4))"
    by cases (simp_all add: mod_Suc)
qed

lemma key_mix_fold:
  "key_mix i (of_nat (t mod 26)) (of_nat (4 * (t mod 4))) A B S L =
     (case fold mix_step [t..<t + i] (A, B, S, L) of (A, B, S, L) \<Rightarrow> S)"
proof (induction i arbitrary: t A B S L)
  case 0
  then show ?case by simp
next
  case (Suc i)
  have "t mod 26 < 256" "4 * (t mod 4) < 256" by (simp_all add: order.strict_trans [OF mod_less_divisor])
  then have u: "unat (of_nat (t mod 26) :: u8) = t mod 26" "unat (of_nat (4 * (t mod 4)) :: u8) div 4 = t mod 4"
    by (simp_all add: unat_of_nat_small_u8 del: of_nat_mult)
  have f: "fastrol32 x 3 = word_rotl 3 x" for x using fastrol32_rot [of 3 x] by simp
  have "[t..<t + Suc i] = t # [Suc t..<Suc t + i]" by (simp add: upt_conv_Cons)
  then show ?case
    by (simp add: u f turn_rot key_counters Let_def mix_step_def Suc.IH [of "Suc t"] del: of_nat_mult)
qed

lemma rc5_key_setup_schedule: "rc5_key_setup key = rc5_schedule (key_words key)"
  using key_mix_fold [of 78 0 0 0 "key_table 25" "key_words key"]
  by (simp add: rc5_key_setup_def rc5_schedule_def RC5_KEYSPACES_def RC5_ROUNDS_def key_table_eq
      RC5_32_P_def RC5_32_Q_def del: upt_Suc upt_rec_numeral)

section \<open>Properties\<close>

text \<open>The fast rotation, which moves whole bytes and then turns by at most five bits in either
  direction, rotates to the left by \<open>n\<close> for every \<open>n\<close> the cipher uses.\<close>
theorem fastrol32_rotates:
  assumes "n \<le> 32"
  shows "fastrol32 a (int n) = word_rotl n a"
  using assms by (rule fastrol32_rot)

theorem fastrol32_rotates_witness: "fastrol32 0x80000001 13 = word_rotl 13 0x80000001"
  using fastrol32_rotates [of 13 "0x80000001"] by simp

text \<open>C15. Setting up a key computes the key schedule of RC5-32/12/16: the 26 words in arithmetic
  progression, mixed in 78 steps with the four words of the key, the positions being the number of
  the step modulo 26 and modulo 4.\<close>
theorem rc5_key_schedule: "rc5_key_setup key = rc5_schedule (key_words key)"
  by (rule rc5_key_setup_schedule)

end
