(* ===== verification/Rc5_Modes.thy ===== *)
theory Rc5_Modes
  imports Rc5
begin

text \<open>
  The chained modes of \<open>lib/rc5.c\<close>: encryption and decryption of a byte string of any length of at
  least one block, the incomplete last block by stealing from the ciphertext before it, and the
  message authentication code.  Buffers are lists; reading or writing outside one is \<open>None\<close>.
\<close>

section \<open>The code\<close>

text \<open>The block operations on eight bytes in place, the words being stored low byte first.\<close>

definition words_of :: "u8 list \<Rightarrow> u32 \<times> u32" where
  "words_of b = (le32 (b ! 0) (b ! 1) (b ! 2) (b ! 3), le32 (b ! 4) (b ! 5) (b ! 6) (b ! 7))"

definition bytes_of :: "u32 \<times> u32 \<Rightarrow> u8 list" where
  "bytes_of = (\<lambda>(a, b). map (\<lambda>k. word_byte k a) [0, 1, 2, 3] @ map (\<lambda>k. word_byte k b) [0, 1, 2, 3])"

definition encrypt8 :: "u32 list \<Rightarrow> u8 list \<Rightarrow> u8 list" where
  "encrypt8 v b = bytes_of (rc5_encrypt v (words_of b))"

definition decrypt8 :: "u32 list \<Rightarrow> u8 list \<Rightarrow> u8 list" where
  "decrypt8 v b = bytes_of (rc5_decrypt v (words_of b))"

definition xor_bytes :: "u8 list \<Rightarrow> u8 list \<Rightarrow> u8 list" where
  "xor_bytes a b = map2 (XOR) a b"

text \<open>\<open>tmp_in\<close> with the first bytes combined with \<open>p\<close>.\<close>

definition xor_into :: "u8 list \<Rightarrow> u8 list \<Rightarrow> u8 list" where
  "xor_into tmp p = xor_bytes (take (length p) tmp) p @ drop (length p) tmp"

primrec encrypt_blocks :: "u32 list \<Rightarrow> u8 list \<Rightarrow> nat \<Rightarrow> nat \<Rightarrow> u8 list \<times> u8 list \<Rightarrow> (u8 list \<times> u8 list) option" where
  "encrypt_blocks v plt 0 i st = Some st"
| "encrypt_blocks v plt (Suc n) i st =
     (case st of (tmp_in, enc) \<Rightarrow> do {
        p \<leftarrow> rd_block plt (8 * i) 8;
        let tmp_in = encrypt8 v (xor_into tmp_in p);
        enc \<leftarrow> wr_block enc (8 * i) tmp_in;
        encrypt_blocks v plt n (i + 1) (tmp_in, enc) })"

definition block_encrypt :: "u8 list \<Rightarrow> u8 list \<Rightarrow> nat \<Rightarrow> u8 list \<Rightarrow> u32 list \<Rightarrow> u8 list option" where
  "block_encrypt plt enc sz iv v = do {
     let blk_count = sz div 8;
     let remain_count = sz mod 8;
     (tmp_in, enc) \<leftarrow> encrypt_blocks v plt blk_count 0 (take 8 iv, enc);
     if 0 < remain_count then do {
       p \<leftarrow> rd_block plt (8 * blk_count) remain_count;
       let tmp_in = encrypt8 v (xor_into tmp_in p);
       if blk_count = 0 then None else do {
         c \<leftarrow> rd_block enc (8 * (blk_count - 1)) remain_count;
         enc \<leftarrow> wr_block enc (8 * blk_count) c;
         wr_block enc (8 * (blk_count - 1)) tmp_in }
     } else Some enc }"

text \<open>The state of the decryption loop: \<open>tmp_iv\<close>, \<open>tmp_in\<close>, \<open>tmp_enc\<close> and \<open>dec\<close>.  The arrays
  \<open>tmp_in\<close> and \<open>tmp_enc\<close> are not initialised (they are only read after a block was processed,
  or when the code writes outside \<open>dec\<close> anyway); the model starts them with the vector.\<close>

type_synonym dec_state = "u8 list \<times> u8 list \<times> u8 list \<times> u8 list"

primrec decrypt_blocks :: "u32 list \<Rightarrow> u8 list \<Rightarrow> u8 list \<Rightarrow> nat \<Rightarrow> nat \<Rightarrow> dec_state \<Rightarrow> dec_state option" where
  "decrypt_blocks v iv enc 0 i st = Some st"
| "decrypt_blocks v iv enc (Suc n) i st =
     (case st of (tmp_iv, tmp_in, tmp_enc, dec) \<Rightarrow> do {
        let tmp_iv = (if i = 0 then take 8 iv else tmp_enc);
        tmp_enc \<leftarrow> rd_block enc (8 * i) 8;
        let tmp_in = decrypt8 v tmp_enc;
        dec \<leftarrow> wr_block dec (8 * i) (xor_bytes tmp_iv tmp_in);
        decrypt_blocks v iv enc n (i + 1) (tmp_iv, tmp_in, tmp_enc, dec) })"

definition block_decrypt :: "u8 list \<Rightarrow> u8 list \<Rightarrow> nat \<Rightarrow> u8 list \<Rightarrow> u32 list \<Rightarrow> u8 list option" where
  "block_decrypt enc dec sz iv v = do {
     let blk_count = sz div 8;
     let remain_count = sz mod 8;
     (tmp_iv, tmp_in, tmp_enc, dec) \<leftarrow> decrypt_blocks v iv enc blk_count 0 (take 8 iv, take 8 iv, take 8 iv, dec);
     if 0 < remain_count then do {
       c \<leftarrow> rd_block enc (8 * blk_count) remain_count;
       dec \<leftarrow> wr_block dec (8 * blk_count) (xor_bytes (take remain_count tmp_in) c);
       let tmp_in = decrypt8 v (c @ drop remain_count tmp_in);
       if blk_count = 0 then None else wr_block dec (8 * (blk_count - 1)) (xor_bytes tmp_in tmp_iv)
     } else Some dec }"

primrec mac_blocks :: "u32 list \<Rightarrow> u8 list \<Rightarrow> nat \<Rightarrow> nat \<Rightarrow> u8 list \<Rightarrow> u8 list option" where
  "mac_blocks v plt 0 i tmp_in = Some tmp_in"
| "mac_blocks v plt (Suc n) i tmp_in = do {
     p \<leftarrow> rd_block plt (8 * i) 8;
     mac_blocks v plt n (i + 1) (encrypt8 v (xor_into tmp_in p)) }"

definition block_mac :: "u8 list \<Rightarrow> nat \<Rightarrow> u8 list \<Rightarrow> nat \<Rightarrow> u8 list \<Rightarrow> u32 list \<Rightarrow> u8 list option" where
  "block_mac plt sz mac mac_size iv v = do {
     let blk_count = sz div 8;
     let remain_count = sz mod 8;
     tmp_in \<leftarrow> mac_blocks v plt blk_count 0 (take 8 iv);
     tmp_in \<leftarrow> (if 0 < remain_count then do {
         p \<leftarrow> rd_block plt (8 * blk_count) remain_count;
         Some (encrypt8 v (xor_into tmp_in p))
       } else Some tmp_in);
     if mac_size \<le> 8 then wr_block mac 0 (take mac_size tmp_in) else Some mac }"

section \<open>Block ciphers and chaining\<close>

text \<open>What the modes rely on: a permutation of blocks of eight bytes with its inverse.  The chain of
  ciphertext blocks and its inverse are those of cipher block chaining.\<close>

lemma length_xor_bytes [simp]: "length (xor_bytes a b) = min (length a) (length b)"
  by (simp add: xor_bytes_def)

lemma xor_bytes_nth: "i < length a \<Longrightarrow> i < length b \<Longrightarrow> xor_bytes a b ! i = a ! i XOR b ! i"
  by (simp add: xor_bytes_def)

lemma xor_bytes_cancel: "length a = length b \<Longrightarrow> xor_bytes a (xor_bytes a b) = b"
  by (rule nth_equalityI) (simp_all add: xor_bytes_nth flip: xor.assoc)

lemma xor_bytes_commute: "xor_bytes a b = xor_bytes b a"
  by (rule nth_equalityI) (simp_all add: xor_bytes_nth xor.commute)

lemma xor_into_block: "length p = length t \<Longrightarrow> xor_into t p = xor_bytes t p"
  by (simp add: xor_into_def)

lemma length_xor_into [simp]: "length p \<le> length t \<Longrightarrow> length (xor_into t p) = length t"
  by (simp add: xor_into_def)

locale block_cipher =
  fixes E D :: "u8 list \<Rightarrow> u8 list"
  assumes length_E: "length (E b) = 8" and length_D: "length (D b) = 8"
    and D_E: "length b = 8 \<Longrightarrow> D (E b) = b"
begin

primrec chain :: "u8 list \<Rightarrow> u8 list list \<Rightarrow> u8 list list" where
  "chain p [] = []"
| "chain p (b # bs) = E (xor_bytes p b) # chain (E (xor_bytes p b)) bs"

primrec unchain :: "u8 list \<Rightarrow> u8 list list \<Rightarrow> u8 list list" where
  "unchain p [] = []"
| "unchain p (c # cs) = xor_bytes p (D c) # unchain c cs"

lemma length_chain [simp]: "length (chain p bs) = length bs"
  by (induction bs arbitrary: p) simp_all

lemma length_unchain [simp]: "length (unchain p bs) = length bs"
  by (induction bs arbitrary: p) simp_all

lemma chain_blocks: "c \<in> set (chain p bs) \<Longrightarrow> length c = 8"
  by (induction bs arbitrary: p) (auto simp: length_E)

lemma cbc_append: "chain p (bs @ [b]) = chain p bs @ [E (xor_bytes (last (p # chain p bs)) b)]"
  by (induction bs arbitrary: p) auto

lemma unchain_append: "unchain p (cs @ [c]) = unchain p cs @ [xor_bytes (last (p # cs)) (D c)]"
  by (induction cs arbitrary: p) auto

lemma unchain_chain: "length p = 8 \<Longrightarrow> \<forall>b \<in> set bs. length b = 8 \<Longrightarrow> unchain p (chain p bs) = bs"
  by (induction bs arbitrary: p) (simp_all add: D_E length_E xor_bytes_cancel)

text \<open>The incomplete last block \<open>q\<close>: it is encrypted with the last ciphertext block \<open>c\<close>, whose first
  bytes are handed out instead; decryption recovers \<open>q\<close> and \<open>c\<close>.\<close>

lemma steal:
  assumes "length c = 8" and "length q \<le> 8"
  shows "xor_bytes (take (length q) (D (E (xor_into c q)))) (take (length q) c) = q"
    and "take (length q) c @ drop (length q) (D (E (xor_into c q))) = c"
proof -
  have d: "D (E (xor_into c q)) = xor_into c q" using assms by (intro D_E) simp
  have "xor_bytes (xor_bytes (take (length q) c) q) (take (length q) c) = q"
    using assms xor_bytes_cancel [of "take (length q) c" q] by (simp add: xor_bytes_commute [of _ "take (length q) c"])
  then show "xor_bytes (take (length q) (D (E (xor_into c q)))) (take (length q) c) = q"
    unfolding d using assms by (simp add: xor_into_def)
  show "take (length q) c @ drop (length q) (D (E (xor_into c q))) = c"
    unfolding d using assms by (simp add: xor_into_def)
qed

end

lemma length_bytes_of [simp]: "length (bytes_of x) = 8"
  by (cases x) (simp add: bytes_of_def)

lemma le32_bytes: "le32 (word_byte 0 a) (word_byte (Suc 0) a) (word_byte 2 a) (word_byte 3 a) = a"
  by (rule bit_word_eqI) (auto simp: bit_le32 bit_word_byte)

lemma word_byte_le32:
  "word_byte 0 (le32 a b c d) = a" "word_byte (Suc 0) (le32 a b c d) = b"
  "word_byte 2 (le32 a b c d) = c" "word_byte 3 (le32 a b c d) = d"
  by (rule bit_word_eqI; simp add: bit_word_byte bit_le32)+

lemma words_of_bytes [simp]: "words_of (bytes_of x) = x"
  by (cases x) (simp add: bytes_of_def words_of_def le32_bytes)

lemma bytes_of_words:
  assumes "length b = 8"
  shows "bytes_of (words_of b) = b"
proof -
  have "length b = Suc (Suc (Suc (Suc (Suc (Suc (Suc (Suc 0)))))))" using assms by simp
  then obtain b0 b1 b2 b3 b4 b5 b6 b7 where "b = [b0, b1, b2, b3, b4, b5, b6, b7]"
    by (auto simp only: length_Suc_conv length_0_conv)
  then show ?thesis by (simp add: bytes_of_def words_of_def word_byte_le32)
qed

interpretation rc5: block_cipher "encrypt8 v" "decrypt8 v" for v
  by unfold_locales (simp_all add: encrypt8_def decrypt8_def rc5_decrypt_encrypt bytes_of_words)


section \<open>The loops compute the chain\<close>

lemma wr_block_split: "length pre = i \<Longrightarrow> length b \<le> length mid \<Longrightarrow>
    wr_block (pre @ mid @ post) i b = Some ((pre @ b) @ drop (length b) mid @ post)"
  by (simp add: wr_block_def)

lemma rd_block_split: "length pre = i \<Longrightarrow> length b = n \<Longrightarrow> rd_block (pre @ b @ post) i n = Some b"
  by (simp add: rd_block_def)

text \<open>The blocks of a buffer.\<close>

definition has_blocks :: "u8 list \<Rightarrow> nat \<Rightarrow> u8 list list \<Rightarrow> bool" where
  "has_blocks xs i bs \<longleftrightarrow> (\<forall>k < length bs. rd_block xs (8 * (i + k)) 8 = Some (bs ! k))"

lemma has_blocks_Cons: "has_blocks xs i (b # bs) \<longleftrightarrow> rd_block xs (8 * i) 8 = Some b \<and> has_blocks xs (i + 1) bs"
  by (simp add: has_blocks_def All_less_Suc2 algebra_simps)

lemma has_blocks_concat:
  "\<forall>b \<in> set bs. length b = 8 \<Longrightarrow> length pre = 8 * i \<Longrightarrow> has_blocks (pre @ concat bs @ post) i bs"
proof (induction bs arbitrary: i pre)
  case Nil
  then show ?case by (simp add: has_blocks_def)
next
  case (Cons b bs)
  have "has_blocks ((pre @ b) @ concat bs @ post) (i + 1) bs" using Cons.prems by (intro Cons.IH) simp_all
  then show ?case using Cons.prems rd_block_split [of pre "8 * i" b 8 "concat bs @ post"] by (simp add: has_blocks_Cons)
qed

lemma encrypt_blocks_chain:
  assumes "has_blocks plt i bs" and "\<forall>b \<in> set bs. length b = 8" and "length t = 8"
    and "length pre = 8 * i" and "length mid = 8 * length bs"
  shows "encrypt_blocks v plt (length bs) i (t, pre @ mid @ post) =
    Some (last (t # rc5.chain v t bs), pre @ concat (rc5.chain v t bs) @ post)"
  using assms
proof (induction bs arbitrary: i t pre mid)
  case Nil
  then show ?case by simp
next
  case (Cons b bs)
  let ?c = "encrypt8 v (xor_bytes t b)"
  have c: "length ?c = 8" by (rule rc5.length_E)
  have x: "xor_into t b = xor_bytes t b" using Cons.prems by (simp add: xor_into_block)
  have w: "wr_block (pre @ mid @ post) (8 * i) ?c = Some ((pre @ ?c) @ drop 8 mid @ post)"
    using Cons.prems wr_block_split [of pre "8 * i" ?c mid post] c by simp
  have "encrypt_blocks v plt (length bs) (i + 1) (?c, (pre @ ?c) @ drop 8 mid @ post) =
      Some (last (?c # rc5.chain v ?c bs), (pre @ ?c) @ concat (rc5.chain v ?c bs) @ post)"
    using Cons.prems c by (intro Cons.IH) (simp_all add: has_blocks_Cons)
  then show ?case using Cons.prems(1) w by (simp add: has_blocks_Cons x Let_def)
qed

text \<open>Where the decryption loop stops: the block before the last, and the last one decrypted.\<close>

lemma decrypt_blocks_unchain:
  assumes "has_blocks enc i cs" and "\<forall>c \<in> set cs. length c = 8" and "length p = 8"
    and "(if i = 0 then take 8 iv else te) = p" and "length pre = 8 * i" and "length mid = 8 * length cs"
  shows "\<exists>te'. decrypt_blocks v iv enc (length cs) i (ti, tn, te, pre @ mid @ post) =
    Some (if cs = [] then ti else last (p # butlast cs), if cs = [] then tn else decrypt8 v (last cs), te',
      pre @ concat (rc5.unchain v p cs) @ post)"
  using assms
proof (induction cs arbitrary: i p pre mid ti tn te)
  case Nil
  then show ?case by simp
next
  case (Cons c cs)
  let ?b = "xor_bytes p (decrypt8 v c)"
  have b: "length ?b = 8" using Cons.prems(3) rc5.length_D by simp
  have w: "wr_block (pre @ mid @ post) (8 * i) ?b = Some ((pre @ ?b) @ drop 8 mid @ post)"
    using Cons.prems wr_block_split [of pre "8 * i" ?b mid post] b by simp
  obtain te' where "decrypt_blocks v iv enc (length cs) (i + 1) (p, decrypt8 v c, c, (pre @ ?b) @ drop 8 mid @ post) =
      Some (if cs = [] then p else last (c # butlast cs), if cs = [] then decrypt8 v c else decrypt8 v (last cs), te',
        (pre @ ?b) @ concat (rc5.unchain v c cs) @ post)"
    using Cons.IH [of "i + 1" c c "pre @ ?b" "drop 8 mid" p "decrypt8 v c"] Cons.prems b by (auto simp: has_blocks_Cons)
  then show ?case using Cons.prems(1,4) w by (auto simp: has_blocks_Cons Let_def)
qed

section \<open>Round trip\<close>

text \<open>A message as blocks and an incomplete rest.\<close>

lemma message_split:
  assumes "sz \<le> length plt"
  obtains bs q where "length bs = sz div 8" "\<forall>b \<in> set bs. length b = 8" "length q = sz mod 8"
    "take sz plt = concat bs @ q" "has_blocks plt 0 bs" "rd_block plt (8 * (sz div 8)) (sz mod 8) = Some q"
proof -
  define bs where "bs = map (\<lambda>k. take 8 (drop (8 * k) plt)) [0..<sz div 8]"
  define q where "q = take (sz mod 8) (drop (8 * (sz div 8)) plt)"
  have sz: "8 * (sz div 8) + sz mod 8 = sz" by simp
  have "concat (map (\<lambda>k. take 8 (drop (8 * k) plt)) [0..<n]) = take (8 * n) plt" if "8 * n \<le> length plt" for n
    using that by (induction n) (simp_all add: take_add add.commute [of 8])
  then have c: "concat bs = take (8 * (sz div 8)) plt" unfolding bs_def using assms sz by simp
  have len: "length bs = sz div 8" by (simp add: bs_def)
  have b8: "\<forall>b \<in> set bs. length b = 8" using assms sz by (auto simp: bs_def)
  have "take sz plt = concat bs @ q" unfolding c q_def by (subst sz [symmetric], subst take_add) simp
  moreover have "has_blocks plt 0 bs" using has_blocks_concat [OF b8, of "[]" 0 "drop (8 * (sz div 8)) plt"] by (simp add: c)
  moreover have "length q = sz mod 8" "rd_block plt (8 * (sz div 8)) (sz mod 8) = Some q"
  proof -
    have "sz mod 8 \<le> length plt - 8 * (sz div 8)" using assms sz by linarith
    then show "length q = sz mod 8" by (simp add: q_def min_absorb2)
    show "rd_block plt (8 * (sz div 8)) (sz mod 8) = Some q" using assms sz by (simp add: q_def rd_block_def)
  qed
  ultimately show thesis using that len b8 by blast
qed

lemma concat_blocks: "\<forall>c \<in> set cs. length c = 8 \<Longrightarrow> length (concat cs) = 8 * length cs"
  by (induction cs) simp_all

lemma block_encrypt_ok:
  fixes v :: "u32 list"
  assumes sz: "8 \<le> sz" "sz \<le> length plt" "sz \<le> length enc" and iv: "8 \<le> length iv"
    and bs: "length bs = sz div 8" "\<forall>b \<in> set bs. length b = 8" "has_blocks plt 0 bs"
    and q: "length q = sz mod 8" "rd_block plt (8 * (sz div 8)) (sz mod 8) = Some q"
  defines "cs \<equiv> rc5.chain v (take 8 iv) bs"
  shows "block_encrypt plt enc sz iv v = Some
    ((if q = [] then concat cs
      else concat (butlast cs) @ encrypt8 v (xor_into (last cs) q) @ take (length q) (last cs)) @ drop sz enc)"
proof -
  let ?n = "sz div 8"
  have n: "0 < ?n" "8 * ?n + length q = sz" using sz q by (simp_all add: div_greater_zero_iff)
  have cs: "length cs = ?n" "cs \<noteq> []" "\<And>c. c \<in> set cs \<Longrightarrow> length c = 8"
    using bs(1) n rc5.chain_blocks by (auto simp: cs_def simp flip: length_greater_0_conv)
  have A8: "length (concat (butlast cs)) = 8 * (?n - 1)"
    using cs by (simp add: length_concat in_set_butlastD sum_list_triv cong: map_cong)
  have last: "length (last cs) = 8" using cs by simp
  have cc: "concat cs = concat (butlast cs) @ last cs"
    using cs(2) by (metis append_butlast_last_id concat.simps concat_append append_Nil2)
  have run: "encrypt_blocks v plt ?n 0 (take 8 iv, enc) = Some (last cs, concat cs @ drop (8 * ?n) enc)"
    using encrypt_blocks_chain [OF bs(3,2), of "take 8 iv" "[]" "take (8 * ?n) enc" v "drop (8 * ?n) enc"]
      bs(1) iv sz n(2) cs(2) by (simp add: cs_def [symmetric])
  show ?thesis
  proof (cases "q = []")
    case True
    then show ?thesis using run n q by (simp add: block_encrypt_def)
  next
    case False
    then have r: "0 < sz mod 8" using q(1) by (metis length_greater_0_conv)
    define A L where "A = concat (butlast cs)" and "L = last cs"
    have AL: "concat cs = A @ L" "length A = 8 * (?n - 1)" "length L = 8" using cc A8 last by (simp_all add: A_def L_def)
    let ?e = "encrypt8 v (xor_into L q)" and ?c = "take (length q) L"
    have q8: "length q \<le> 8" "length q \<le> length (drop (8 * ?n) enc)"
      using q(1) n(2) sz(3) unfolding length_drop by (simp, linarith)
    have "rd_block (A @ L @ drop (8 * ?n) enc) (8 * (?n - 1)) (length q) = Some ?c"
      using AL q8 by (simp add: rd_block_def)
    moreover have "wr_block ((A @ L) @ drop (8 * ?n) enc @ []) (8 * ?n) ?c = Some (((A @ L) @ ?c) @ drop (length ?c) (drop (8 * ?n) enc) @ [])"
      using AL q8 n by (intro wr_block_split) simp_all
    moreover have "wr_block (A @ L @ ?c @ drop sz enc) (8 * (?n - 1)) ?e = Some ((A @ ?e) @ drop (length ?e) L @ ?c @ drop sz enc)"
      using AL rc5.length_E by (intro wr_block_split) simp_all
    moreover have "drop (length q) (drop (8 * ?n) enc) = drop sz enc" using n(2) by (simp add: add.commute)
    ultimately show ?thesis using False r run q n AL q8 rc5.length_E
      by (simp add: block_encrypt_def L_def [symmetric] A_def [symmetric] min_absorb2 Let_def)
  qed
qed

lemma block_decrypt_ok:
  fixes v :: "u32 list"
  assumes sz: "8 \<le> sz" "sz \<le> length dec" and iv: "8 \<le> length iv"
    and cs: "length cs = sz div 8" "\<forall>c \<in> set cs. length c = 8" and q: "length q = sz mod 8"
    and enc: "enc = (if q = [] then concat cs
      else concat (butlast cs) @ encrypt8 v (xor_into (last cs) q) @ take (length q) (last cs)) @ post"
  shows "block_decrypt enc dec sz iv v = Some (concat (rc5.unchain v (take 8 iv) cs) @ q @ drop sz dec)"
proof -
  let ?n = "sz div 8" and ?iv = "take 8 iv"
  have n: "0 < ?n" "8 * ?n + length q = sz" "8 * ?n \<le> sz" using sz q by (simp_all add: div_greater_zero_iff)
  have ne: "cs \<noteq> []" using cs(1) n(1) by auto
  define B L where "B = butlast cs" and "L = last cs"
  have BL: "cs = B @ [L]" "length L = 8" using ne cs(2) by (simp_all add: B_def L_def)
  define M where "M = (if q = [] then L else encrypt8 v (xor_into L q))"
  have M: "length M = 8" using BL rc5.length_E by (simp add: M_def)
  define te where "te = (if q = [] then [] else take (length q) L)"
  have enc': "enc = [] @ concat (B @ [M]) @ te @ post"
    unfolding enc by (simp add: M_def te_def BL(1))
  have len: "length (B @ [M]) = ?n" "\<forall>c \<in> set (B @ [M]). length c = 8" using BL M cs by simp_all
  have "has_blocks enc 0 (B @ [M])" unfolding enc' by (rule has_blocks_concat [OF len(2)]) simp
  then have "\<exists>t. decrypt_blocks v iv enc (length (B @ [M])) 0 (?iv, ?iv, ?iv, [] @ take (8 * ?n) dec @ drop (8 * ?n) dec) =
      Some (if B @ [M] = [] then ?iv else last (?iv # butlast (B @ [M])), if B @ [M] = [] then ?iv else decrypt8 v (last (B @ [M])), t,
        [] @ concat (rc5.unchain v ?iv (B @ [M])) @ drop (8 * ?n) dec)"
    by (rule decrypt_blocks_unchain [OF _ len(2)]) (use iv sz n(3) len(1) in simp_all)
  then obtain t where run: "decrypt_blocks v iv enc ?n 0 (?iv, ?iv, ?iv, dec) =
      Some (last (?iv # B), decrypt8 v M, t, concat (rc5.unchain v ?iv (B @ [M])) @ drop (8 * ?n) dec)"
    unfolding len(1) by auto
  let ?A = "concat (rc5.unchain v ?iv B)"
  have u8: "length p = 8 \<Longrightarrow> \<forall>c \<in> set xs. length c = 8 \<Longrightarrow> length (concat (rc5.unchain v p xs)) = 8 * length xs" for p xs
    by (induction xs arbitrary: p) (simp_all add: rc5.length_D)
  have A: "length ?A = 8 * (?n - 1)" using u8 [of ?iv B] iv len by simp
  have iv8: "length (last (?iv # B)) = 8" using len(2) iv by (cases B rule: rev_cases) simp_all
  show ?thesis
  proof (cases "q = []")
    case True
    then show ?thesis using run n q by (simp add: block_decrypt_def M_def BL(1))
  next
    case False
    then have r: "0 < sz mod 8" "length q \<le> 8" using q by (metis length_greater_0_conv, simp)
    let ?c = "take (length q) L" and ?X = "xor_bytes (last (?iv # B)) (decrypt8 v M)"
    have E: "M = encrypt8 v (xor_into L q)" using False by (simp add: M_def)
    note st = rc5.steal [OF BL(2) r(2), of v, folded E]
    have CM: "length (concat (B @ [M])) = 8 * ?n" using len by (simp add: length_concat sum_list_triv cong: map_cong)
    have rd: "rd_block enc (8 * ?n) (length q) = Some ?c"
      using rd_block_split [OF CM, of ?c "length q" post] False BL(2) r(2) by (simp add: enc' te_def)
    have X: "length ?X = 8" using iv8 rc5.length_D by simp
    have U: "concat (rc5.unchain v ?iv (B @ [M])) = ?A @ ?X" by (simp add: rc5.unchain_append)
    have d: "drop (length q) (drop (8 * ?n) dec) = drop sz dec" using n(2) by (simp add: add.commute)
    have w1: "wr_block (concat (rc5.unchain v ?iv (B @ [M])) @ drop (8 * ?n) dec) (8 * ?n) q = Some (?A @ ?X @ q @ drop sz dec)"
    proof -
      have "length q \<le> length (drop (8 * ?n) dec)" using n(2) sz(2) unfolding length_drop by linarith
      moreover have "length (?A @ ?X) = 8 * ?n" using A X n(1) by simp
      ultimately have "wr_block ((?A @ ?X) @ drop (8 * ?n) dec @ []) (8 * ?n) q =
          Some (((?A @ ?X) @ q) @ drop (length q) (drop (8 * ?n) dec) @ [])" by (intro wr_block_split)
      then show ?thesis unfolding U d by simp
    qed
    let ?P = "xor_bytes (decrypt8 v L) (last (?iv # B))"
    have w2: "wr_block (?A @ ?X @ q @ drop sz dec) (8 * (?n - 1)) ?P = Some (?A @ ?P @ q @ drop sz dec)"
      using wr_block_split [OF A, of ?P ?X "q @ drop sz dec"] X iv8 rc5.length_D by simp
    have "block_decrypt enc dec sz iv v = Some (?A @ ?P @ q @ drop sz dec)"
      unfolding block_decrypt_def Let_def
      using run rd w1 w2 r(1) n(1) st by (simp add: q [symmetric])
    moreover have "?A @ ?P = concat (rc5.unchain v ?iv cs)"
      using xor_bytes_commute [of "decrypt8 v L"] unfolding BL(1) rc5.unchain_append by simp
    ultimately show ?thesis by simp
  qed
qed

lemma steal_length:
  assumes cs: "\<forall>c \<in> set cs. length c = 8" "length cs = sz div 8" and q: "length q = sz mod 8"
    and sz: "8 \<le> sz" and e: "length e = 8"
  shows "length (if q = [] then concat cs else concat (butlast cs) @ e @ take (length q) (last cs)) = sz"
proof (cases "q = []")
  case True
  then have "sz mod 8 = 0" using q by simp
  then have "8 * (sz div 8) = sz" by presburger
  then show ?thesis using True concat_blocks [OF cs(1)] cs(2) by simp
next
  case False
  have "\<forall>c \<in> set (butlast cs). length c = 8" using cs(1) by (meson in_set_butlastD)
  then have "length (concat (butlast cs)) = 8 * (sz div 8 - 1)" using concat_blocks cs(2) by (metis length_butlast)
  moreover have "length (take (length q) (last cs)) = sz mod 8"
  proof -
    have "sz div 8 \<noteq> 0" using sz by presburger
    then have "cs \<noteq> []" using cs(2) by force
    then have "length (last cs) = 8" using cs(1) by simp
    then show ?thesis using q by simp
  qed
  moreover have "8 * (sz div 8 - 1) + (8 + sz mod 8) = sz" using sz by presburger
  ultimately show ?thesis using False e by (simp only: length_append if_False)
qed

text \<open>C7. Encrypting a message of at least one block and decrypting the result with the same key
  and initial vector returns the message, whatever its length and whatever the buffers held;
  neither operation touches a byte beyond the length given.\<close>
theorem rc5_message_round_trip:
  assumes "8 \<le> sz" and "sz \<le> length plt" and "sz \<le> length enc" and "sz \<le> length dec" and "8 \<le> length iv"
  shows "\<exists>enc'. block_encrypt plt enc sz iv (rc5_key_setup key) = Some enc' \<and> drop sz enc' = drop sz enc \<and>
    block_decrypt enc' dec sz iv (rc5_key_setup key) = Some (take sz plt @ drop sz dec)"
proof -
  let ?v = "rc5_key_setup key"
  obtain bs q where m: "length bs = sz div 8" "\<forall>b \<in> set bs. length b = 8" "length q = sz mod 8"
    "take sz plt = concat bs @ q" "has_blocks plt 0 bs" "rd_block plt (8 * (sz div 8)) (sz mod 8) = Some q"
    by (rule message_split [OF assms(2)])
  let ?cs = "rc5.chain ?v (take 8 iv) bs"
  let ?e = "(if q = [] then concat ?cs
      else concat (butlast ?cs) @ encrypt8 ?v (xor_into (last ?cs) q) @ take (length q) (last ?cs)) @ drop sz enc"
  have cs: "length ?cs = sz div 8" "\<forall>c \<in> set ?cs. length c = 8" using m(1) rc5.chain_blocks by simp_all
  have E: "block_encrypt plt enc sz iv ?v = Some ?e"
    by (rule block_encrypt_ok [OF assms(1-3,5) m(1,2,5,3,6)])
  have "block_decrypt ?e dec sz iv ?v = Some (concat (rc5.unchain ?v (take 8 iv) ?cs) @ q @ drop sz dec)"
    by (rule block_decrypt_ok [OF assms(1,4,5) cs m(3) refl])
  moreover have "rc5.unchain ?v (take 8 iv) ?cs = bs" using rc5.unchain_chain [of "take 8 iv" bs ?v] assms(5) m(2) by simp
  moreover have "drop sz ?e = drop sz enc"
  proof -
    have "length (if q = [] then concat ?cs else concat (butlast ?cs) @ encrypt8 ?v (xor_into (last ?cs) q) @ take (length q) (last ?cs)) = sz"
      by (rule steal_length [OF cs(2,1) m(3) assms(1) rc5.length_E])
    then show ?thesis by simp
  qed
  ultimately show ?thesis using E m(4) by simp
qed

theorem rc5_message_round_trip_witness:
  "\<exists>enc'. block_encrypt [72, 101, 108, 108, 111, 32, 119, 111, 114, 108, 100] (replicate 12 0) 11 [1, 2, 3, 4, 5, 6, 7, 8]
      (rc5_key_setup (replicate 16 9)) = Some enc' \<and> drop 11 enc' = [0] \<and>
    block_decrypt enc' (replicate 11 0) 11 [1, 2, 3, 4, 5, 6, 7, 8] (rc5_key_setup (replicate 16 9)) =
      Some [72, 101, 108, 108, 111, 32, 119, 111, 114, 108, 100]"
  using rc5_message_round_trip [of 11 "[72, 101, 108, 108, 111, 32, 119, 111, 114, 108, 100]" "replicate 12 0"
      "replicate 11 0" "[1, 2, 3, 4, 5, 6, 7, 8]" "replicate 16 9"] by (simp add: numeral_eq_Suc)

text \<open>Less than a block cannot be encrypted: the code would write before the buffer.\<close>

lemma block_encrypt_short:
  assumes "0 < sz" and "sz < 8"
  shows "block_encrypt plt enc sz iv v = None"
  using assms by (simp add: block_encrypt_def split: option.splits bind_splits)

lemma mac_blocks_Suc:
  "mac_blocks v plt (Suc n) i t = do {
     t \<leftarrow> mac_blocks v plt n i t;
     p \<leftarrow> rd_block plt (8 * (i + n)) 8;
     Some (encrypt8 v (xor_into t p)) }"
proof (induction n arbitrary: i t)
  case (Suc n)
  show ?case by (subst mac_blocks.simps(2), subst Suc.IH, subst mac_blocks.simps(2)) simp
qed simp

lemma mac_blocks_length:
  "mac_blocks v plt n i t = Some t' \<Longrightarrow> length t = 8 \<Longrightarrow> length t' = 8"
  by (induction n arbitrary: i t) (auto simp: bind_eq_Some_conv rc5.length_E)

lemma xor_into_zero: "length p < length t \<Longrightarrow> xor_into t (p @ [0]) = xor_into t p"
  by (simp add: xor_into_def xor_bytes_def take_Suc_conv_app_nth Cons_nth_drop_Suc)

lemma last_in_block: "sz mod 8 = 7 \<Longrightarrow> Suc sz div 8 = Suc (sz div 8)" "sz mod 8 = 7 \<Longrightarrow> Suc sz mod 8 = (0 :: nat)"
  by presburger+

lemma inside_block: "sz mod 8 \<noteq> 7 \<Longrightarrow> Suc sz div 8 = sz div 8" "sz mod 8 \<noteq> 7 \<Longrightarrow> Suc sz mod 8 = Suc (sz mod 8 :: nat)"
  by presburger+

text \<open>The authentication code pads the last block with zeros without marking the length: a
  message whose length is not a multiple of eight and the same message with a zero byte appended
  have the same code.\<close>
theorem mac_ignores_zero_byte:
  assumes "sz mod 8 \<noteq> 0" and "sz < length plt" and "plt ! sz = 0" and "8 \<le> length iv"
  shows "block_mac plt (sz + 1) mac mac_size iv v = block_mac plt sz mac mac_size iv v"
proof -
  define n r where "n = sz div 8" and "r = sz mod 8"
  note nr = n_def [symmetric] r_def [symmetric]
  have sz: "8 * n + r = sz" "r < 8" by (simp_all add: n_def r_def)
  have full: "Suc sz div 8 = Suc n" "Suc sz mod 8 = 0" if "r = 7"
    using last_in_block [of sz] that unfolding n_def r_def by simp_all
  have part: "Suc sz div 8 = n" "Suc sz mod 8 = Suc r" if "r \<noteq> 7"
    using inside_block [of sz] that unfolding n_def r_def by simp_all
  have m0: "block_mac plt sz mac mac_size iv v = do {
      tmp_in \<leftarrow> mac_blocks v plt n 0 (take 8 iv);
      p \<leftarrow> rd_block plt (8 * n) r;
      let tmp_in = encrypt8 v (xor_into tmp_in p);
      if mac_size \<le> 8 then wr_block mac 0 (take mac_size tmp_in) else Some mac }"
    using assms(1) unfolding block_mac_def nr by simp
  define p where "p = take r (drop (8 * n) plt)"
  have p: "length p = r" "rd_block plt (8 * n) r = Some p" "rd_block plt (8 * n) (Suc r) = Some (p @ [0])"
  proof -
    have l: "8 * n + Suc r \<le> length plt" "r < length plt - 8 * n" using assms(2) sz by linarith+
    then show "length p = r" "rd_block plt (8 * n) r = Some p" by (simp_all add: p_def rd_block_def min_absorb2)
    have "drop (8 * n) plt ! r = 0" using l(1) assms(3) by (subst nth_drop) (linarith, simp only: sz(1))
    then show "rd_block plt (8 * n) (Suc r) = Some (p @ [0])"
      using l by (simp add: p_def rd_block_def take_Suc_conv_app_nth)
  qed
  have pad: "xor_into t (p @ [0]) = xor_into t p" if "length t = 8" for t
    using p(1) that by (intro xor_into_zero) (simp add: r_def)
  show ?thesis
  proof (cases "mac_blocks v plt n 0 (take 8 iv)")
    case None
    then have "mac_blocks v plt (Suc n) 0 (take 8 iv) = None" by (simp add: mac_blocks_Suc del: mac_blocks.simps)
    moreover have "Suc sz div 8 = n \<or> Suc sz div 8 = Suc n" using full(1) part(1) by metis
    ultimately have "mac_blocks v plt (Suc sz div 8) 0 (take 8 iv) = None" using None by metis
    then show ?thesis using None unfolding m0 by (simp add: block_mac_def)
  next
    case (Some t)
    then have t: "length t = 8" using mac_blocks_length [OF Some] assms(4) by simp
    show ?thesis
    proof (cases "r = 7")
      case True
      with full have "Suc sz div 8 = Suc n" "Suc sz mod 8 = 0" by metis+
      then show ?thesis using Some p(2,3) True pad [OF t]
        unfolding m0 by (simp add: block_mac_def mac_blocks_Suc del: mac_blocks.simps)
    next
      case False
      with part have "Suc sz div 8 = n" "Suc sz mod 8 = Suc r" by metis+
      then show ?thesis using Some p(2,3) pad [OF t] unfolding m0 by (simp add: block_mac_def)
    qed
  qed
qed

theorem mac_ignores_zero_byte_witness:
  "block_mac [1, 2, 3, 0] (3 + 1) [0, 0, 0] 3 (replicate 8 0) (replicate 26 7) =
     block_mac [1, 2, 3, 0] 3 [0, 0, 0] 3 (replicate 8 0) (replicate 26 7)"
proof -
  have "[1, 2, 3, 0 :: u8] ! 3 = 0" by (simp add: numeral_3_eq_3)
  then show ?thesis by (intro mac_ignores_zero_byte) simp_all
qed

end
