(* ===== verification/Elf_Format.thy ===== *)
theory Elf_Format
  imports Prelude
begin

text \<open>
  The file formats and the storage the dynamic linker works on: the RAM store that holds
  the received ELF object (\<open>elfstore/elfstore-ram.c\<close>), the ELF structures of
  \<open>loader/elfloader.c\<close> and \<open>loader/elfloader.h\<close> with their little-endian layout on the
  node, C string comparison, and the table of kernel symbols (\<open>loader/symtab.c\<close>), whose
  content the build generates and which is therefore an argument.
\<close>

section \<open>The store of the received object\<close>

definition ELFSTORE_SIZE :: nat where "ELFSTORE_SIZE = 0x800"

text \<open>Reads and writes take a 16-bit offset; past the end of the array they are \<open>None\<close>.\<close>

definition elfstore_read :: "u8 list \<Rightarrow> u16 \<Rightarrow> nat \<Rightarrow> u8 list option" where
  "elfstore_read data offset len =
     (if unat offset + len \<le> ELFSTORE_SIZE then rd_block data (unat offset) len else None)"

definition elfstore_write :: "u8 list \<Rightarrow> u16 \<Rightarrow> u8 list \<Rightarrow> u8 list option" where
  "elfstore_write data offset buf =
     (if unat offset + length buf \<le> ELFSTORE_SIZE then wr_block data (unat offset) buf else None)"

definition elfstore_size :: nat where "elfstore_size = ELFSTORE_SIZE"

lemma elfstore_read_bound:
  "elfstore_read data off n = Some b \<Longrightarrow> unat off + n \<le> ELFSTORE_SIZE \<and> unat off + n \<le> length data"
  by (auto simp: elfstore_read_def dest: rd_block_bound split: if_splits)

lemma elfstore_read_length: "elfstore_read data off n = Some b \<Longrightarrow> length b = n"
  by (auto simp: elfstore_read_def dest: rd_block_length split: if_splits)

lemma elfstore_read_nth:
  "elfstore_read data off n = Some b \<Longrightarrow> k < n \<Longrightarrow> b ! k = data ! (unat off + k)"
  by (auto simp: elfstore_read_def dest: rd_block_nth split: if_splits)

lemma elfstore_write_length: "elfstore_write data off b = Some d \<Longrightarrow> length d = length data"
  by (auto simp: elfstore_write_def dest: wr_block_length split: if_splits)

lemma elfstore_write_nth:
  "elfstore_write data off b = Some d \<Longrightarrow> k < length data \<Longrightarrow>
     d ! k = (if unat off \<le> k \<and> k < unat off + length b then b ! (k - unat off) else data ! k)"
  unfolding elfstore_write_def by (auto dest: wr_block_nth split: if_splits)

text \<open>What was written is read back.\<close>

lemma elfstore_read_write:
  "elfstore_write data off b = Some d \<Longrightarrow> elfstore_read d off (length b) = Some b"
  by (auto simp: elfstore_write_def elfstore_read_def dest: rd_block_wr_block_same split: if_splits)

text \<open>A read sees only the bytes in its range.\<close>

lemma elfstore_read_cong:
  assumes "length d = length data"
    and "\<And>k. unat off \<le> k \<Longrightarrow> k < unat off + n \<Longrightarrow> k < length data \<Longrightarrow> d ! k = data ! k"
  shows "elfstore_read d off n = elfstore_read data off n"
proof (cases "unat off + n \<le> length data")
  case True
  have "take n (drop (unat off) d) = take n (drop (unat off) data)"
    by (rule nth_equalityI) (use True assms in auto)
  with assms(1) show ?thesis by (simp add: elfstore_read_def rd_block_def)
next
  case False
  with assms(1) show ?thesis by (simp add: elfstore_read_def rd_block_def)
qed

section \<open>ELF structures\<close>

definition get8 :: "u8 list \<Rightarrow> nat \<Rightarrow> u8" where "get8 b i = b ! i"
definition get16 :: "u8 list \<Rightarrow> nat \<Rightarrow> u16" where "get16 b i = le16 (b ! i) (b ! (i + 1))"
definition get32 :: "u8 list \<Rightarrow> nat \<Rightarrow> u32" where
  "get32 b i = le32 (b ! i) (b ! (i + 1)) (b ! (i + 2)) (b ! (i + 3))"

record elf32_ehdr =
  e_ident :: "u8 list"
  e_type :: u16
  e_machine :: u16
  e_version :: u32
  e_entry :: u32
  e_phoff :: u32
  e_shoff :: u32
  e_flags :: u32
  e_ehsize :: u16
  e_phentsize :: u16
  e_phnum :: u16
  e_shentsize :: u16
  e_shnum :: u16
  e_shstrndx :: u16

record elf32_shdr =
  sh_name :: u32
  sh_type :: u32
  sh_flags :: u32
  sh_addr :: u32
  sh_offset :: u32
  sh_size :: u32
  sh_link :: u32
  sh_info :: u32
  sh_addralign :: u32
  sh_entsize :: u32

record elf32_rel =
  r_offset :: u32
  r_info :: u32

record elf32_rela = elf32_rel +
  r_addend :: u32

record elf32_sym =
  st_name :: u32
  st_value :: u32
  st_size :: u32
  st_info :: u8
  st_other :: u8
  st_shndx :: u16

definition decode_ehdr :: "u8 list \<Rightarrow> elf32_ehdr" where
  "decode_ehdr b = \<lparr>e_ident = take 16 b, e_type = get16 b 16, e_machine = get16 b 18,
     e_version = get32 b 20, e_entry = get32 b 24, e_phoff = get32 b 28, e_shoff = get32 b 32,
     e_flags = get32 b 36, e_ehsize = get16 b 40, e_phentsize = get16 b 42, e_phnum = get16 b 44,
     e_shentsize = get16 b 46, e_shnum = get16 b 48, e_shstrndx = get16 b 50\<rparr>"

definition decode_shdr :: "u8 list \<Rightarrow> elf32_shdr" where
  "decode_shdr b = \<lparr>sh_name = get32 b 0, sh_type = get32 b 4, sh_flags = get32 b 8,
     sh_addr = get32 b 12, sh_offset = get32 b 16, sh_size = get32 b 20, sh_link = get32 b 24,
     sh_info = get32 b 28, sh_addralign = get32 b 32, sh_entsize = get32 b 36\<rparr>"

definition decode_sym :: "u8 list \<Rightarrow> elf32_sym" where
  "decode_sym b = \<lparr>st_name = get32 b 0, st_value = get32 b 4, st_size = get32 b 8,
     st_info = get8 b 12, st_other = get8 b 13, st_shndx = get16 b 14\<rparr>"

text \<open>One structure is read for both kinds of entry; without an addend in the file
  (\<open>rel_size\<close> 8) the field is set later.\<close>

definition decode_rela :: "u8 list \<Rightarrow> elf32_rela" where
  "decode_rela b = \<lparr>r_offset = get32 b 0, r_info = get32 b 4,
     r_addend = (if length b = 12 then get32 b 8 else 0)\<rparr>"

definition ELF32_R_SYM :: "u32 \<Rightarrow> u32" where "ELF32_R_SYM info = drop_bit 8 info"

definition elf_magic_header :: "u8 list" where
  "elf_magic_header = [0x7f, 0x45, 0x4c, 0x46, 0x01, 0x01, 0x01]"

section \<open>C strings and the table of kernel symbols\<close>

definition bytes_of :: "string \<Rightarrow> u8 list" where "bytes_of s = map of_char s"

text \<open>The section names the loader looks for, evaluated.\<close>

lemma bytes_of_names [code_unfold]:
  "bytes_of ''.text'' = [46, 116, 101, 120, 116]"
  "bytes_of ''.rel.text'' = [46, 114, 101, 108, 46, 116, 101, 120, 116]"
  "bytes_of ''.rela.text'' = [46, 114, 101, 108, 97, 46, 116, 101, 120, 116]"
  "bytes_of ''.data'' = [46, 100, 97, 116, 97]"
  "bytes_of ''.rodata'' = [46, 114, 111, 100, 97, 116, 97]"
  "bytes_of ''.rel.rodata'' = [46, 114, 101, 108, 46, 114, 111, 100, 97, 116, 97]"
  "bytes_of ''.rela.rodata'' = [46, 114, 101, 108, 97, 46, 114, 111, 100, 97, 116, 97]"
  "bytes_of ''.rel.data'' = [46, 114, 101, 108, 46, 100, 97, 116, 97]"
  "bytes_of ''.rela.data'' = [46, 114, 101, 108, 97, 46, 100, 97, 116, 97]"
  "bytes_of ''.symtab'' = [46, 115, 121, 109, 116, 97, 98]"
  "bytes_of ''.strtab'' = [46, 115, 116, 114, 116, 97, 98]"
  "bytes_of ''.bss'' = [46, 98, 115, 115]"
  by (simp_all add: bytes_of_def)

definition cstring :: "string \<Rightarrow> u8 list" where "cstring s = bytes_of s @ [0]"

text \<open>\<open>strcmp(x, y) == 0\<close> on two arrays; \<open>None\<close> is a comparison that runs past the end
  of an array that holds no terminator.\<close>

fun strcmp_eq :: "u8 list \<Rightarrow> u8 list \<Rightarrow> bool option" where
  "strcmp_eq (x # xs) (y # ys) =
     (if x \<noteq> y then Some False else if x = 0 then Some True else strcmp_eq xs ys)"
| "strcmp_eq _ _ = None"

text \<open>\<open>strncmp(name, pat, n) == 0\<close> for a pattern of \<open>n\<close> bytes other than the terminator.\<close>

definition strncmp_eq :: "u8 list \<Rightarrow> u8 list \<Rightarrow> bool" where
  "strncmp_eq name pat \<longleftrightarrow> take (length pat) name = pat"

type_synonym symbols = "(u8 list \<times> u16) list"

text \<open>The scan of the table stops at the entry with the NULL name, the end of the list;
  the result is 0 (NULL) when no name is equal.\<close>

fun symtab_lookup :: "symbols \<Rightarrow> u8 list \<Rightarrow> u16 option" where
  "symtab_lookup [] name = Some 0"
| "symtab_lookup ((s, v) # ss) name =
     do { eq \<leftarrow> strcmp_eq name s; if eq then Some v else symtab_lookup ss name }"

definition cstr :: "u8 list \<Rightarrow> u8 list" where
  "cstr b = takeWhile (\<lambda>x. x \<noteq> 0) b"

lemma strcmp_eq_cstr:
  "0 \<in> set a \<Longrightarrow> 0 \<in> set b \<Longrightarrow> strcmp_eq a b = Some (cstr a = cstr b)"
  by (induction a b rule: strcmp_eq.induct) (auto simp: cstr_def)

lemma symtab_lookup_map_of:
  assumes "0 \<in> set name" and "\<forall>(s, v) \<in> set syms. 0 \<in> set s"
  shows "symtab_lookup syms name =
    Some (case map_of (map (\<lambda>(s, v). (cstr s, v)) syms) (cstr name) of None \<Rightarrow> 0 | Some v \<Rightarrow> v)"
  using assms(2) by (induction syms) (use assms(1) in \<open>auto simp: strcmp_eq_cstr\<close>)

end
