(* ===== verification/Elf_Loader.thy ===== *)
theory Elf_Loader
  imports Elf_Format
begin

text \<open>
  The dynamic linker itself: symbol resolution and relocation (\<open>loader/elfloader.c\<close>), the
  MSP430 back end (\<open>loader/elfloader-msp430.c\<close>) and the flash programming it uses
  (\<open>dev/flash.c\<close>), up to the whole of \<open>elfloader_load\<close>.  The state is a record of the
  file's static variables, the store and the 64 KB address space.  What lies outside the
  sources is an argument, the record \<open>node_env\<close>: the two addresses the node's own linker
  chose, the generated table of kernel symbols, and what a store to flash does on the
  hardware under the values of its control registers.
\<close>

section \<open>State\<close>

datatype elf_status =
    ELFLOADER_OK | ELFLOADER_BAD_ELF_HEADER | ELFLOADER_NO_SYMTAB | ELFLOADER_NO_STRTAB
  | ELFLOADER_NO_TEXT | ELFLOADER_SYMBOL_NOT_FOUND | ELFLOADER_SEGMENT_NOT_FOUND
  | ELFLOADER_NO_STARTPOINT

record relevant_section =
  number :: u8
  sect_offset :: u16
  address :: u16

record segments =
  s_bss :: relevant_section
  s_data :: relevant_section
  s_rodata :: relevant_section
  s_text :: relevant_section

type_synonym memory = "u16 \<Rightarrow> u8"

text \<open>\<open>FCTL1 \<Rightarrow> FCTL3 \<Rightarrow> memory \<Rightarrow> address \<Rightarrow> word \<Rightarrow> memory\<close>\<close>

type_synonym flash_hw = "u16 \<Rightarrow> u16 \<Rightarrow> memory \<Rightarrow> u16 \<Rightarrow> u16 \<Rightarrow> memory"

record node_env =
  datamemory :: u16
  textmemory :: u16
  symbol_table :: symbols
  flash_store :: flash_hw

record mcu =
  mem :: memory
  IFG1 :: u8
  IE1 :: u8
  IE2 :: u8
  GIE :: bool
  WDTCTL :: u16
  FCTL1 :: u16
  FCTL2 :: u16
  FCTL3 :: u16
  ie1 :: u16
  ie2 :: u16

record loader =
  elf_data :: "u8 list"
  elfloader_unknown :: "u8 list"
  segs :: segments
  loaded_load :: u16
  loaded_unload :: u16
  cpu :: mcu

section \<open>Flash programming\<close>

definition flash_setup :: "mcu \<Rightarrow> mcu" where
  "flash_setup s = s\<lparr>IFG1 := 0, WDTCTL := 0x5A80, FCTL2 := 0xA5C5, GIE := False,
     ie1 := ucast (IE1 s), ie2 := ucast (IE2 s), IE1 := 0, IE2 := 0\<rparr>"

definition flash_done :: "mcu \<Rightarrow> mcu" where
  "flash_done s = s\<lparr>IE1 := ucast (ie1 s), IE2 := ucast (ie2 s), GIE := True\<rparr>"

text \<open>The store happens under \<open>FCTL3 = 0xA500\<close> (unlocked) and the mode in \<open>FCTL1\<close>; the
  wait for BUSY polls the hardware and changes nothing.\<close>

definition flash_clear :: "flash_hw \<Rightarrow> u16 \<Rightarrow> mcu \<Rightarrow> mcu" where
  "flash_clear hw p s =
     s\<lparr>mem := hw 0xA502 0xA500 (mem s) p 0, FCTL1 := 0xA500, FCTL3 := 0xA510\<rparr>"

definition flash_write :: "flash_hw \<Rightarrow> u16 \<Rightarrow> u16 \<Rightarrow> mcu \<Rightarrow> mcu" where
  "flash_write hw p word s =
     s\<lparr>mem := hw 0xA540 0xA500 (mem s) p word, FCTL1 := 0xA500, FCTL3 := 0xA510\<rparr>"

section \<open>The MSP430 back end\<close>

definition mem_write :: "memory \<Rightarrow> u16 \<Rightarrow> u8 list \<Rightarrow> memory" where
  "mem_write m a bs = (\<lambda>x. if unat (x - a) < length bs then bs ! unat (x - a) else m x)"

definition mem_word :: "memory \<Rightarrow> u16 \<Rightarrow> u16" where
  "mem_word m a = le16 (m a) (m (a + 1))"

text \<open>Neither allocator looks at the size.\<close>

definition elfloader_arch_allocate_ram :: "node_env \<Rightarrow> u16 \<Rightarrow> u16" where
  "elfloader_arch_allocate_ram env sz = datamemory env"

definition elfloader_arch_allocate_rom :: "node_env \<Rightarrow> u16 \<Rightarrow> u16" where
  "elfloader_arch_allocate_rom env sz =
     (textmemory env AND 0xfe00) + (if textmemory env AND 0x1ff = 0 then 0 else 0x200)"

definition READSIZE :: nat where "READSIZE = 32"

fun burn :: "flash_hw \<Rightarrow> nat \<Rightarrow> u16 \<Rightarrow> u16 \<Rightarrow> mcu \<Rightarrow> mcu" where
  "burn hw 0 src flashptr s = s"
| "burn hw (Suc n) src flashptr s =
     burn hw n (src + 2) (flashptr + 2) (flash_write hw flashptr (mem_word (mem s) src) s)"

definition write_chunk :: "node_env \<Rightarrow> u8 list \<Rightarrow> u16 \<Rightarrow> mcu \<Rightarrow> mcu" where
  "write_chunk env b flashptr s =
     (let s = s\<lparr>mem := mem_write (mem s) (datamemory env) b\<rparr>;
          s = (if flashptr AND 0x01ff = 0 then flash_clear (flash_store env) flashptr s else s)
      in burn (flash_store env) (READSIZE div 2) (datamemory env) flashptr s)"

lemma elfstore_step:
  assumes "elfstore_read d a n = Some b" and "n = unat w"
  shows "unat (a + w) = unat a + n" and "unat a + n \<le> ELFSTORE_SIZE"
proof -
  from assms show b: "unat a + n \<le> ELFSTORE_SIZE" by (auto dest: elfstore_read_bound)
  with assms(2) show "unat (a + w) = unat a + n"
    by (subst unat_add_u16_small) (simp_all add: ELFSTORE_SIZE_def)
qed

lemma elfstore_step_less:
  assumes "elfstore_read d a n = Some b" and "n = unat w" and "0 < n"
  shows "ELFSTORE_SIZE - unat (a + w) < ELFSTORE_SIZE - unat a"
  using elfstore_step [OF assms(1,2)] assms(3) by linarith

function write_rom_loop :: "node_env \<Rightarrow> u8 list \<Rightarrow> u16 \<Rightarrow> u16 \<Rightarrow> u16 \<Rightarrow> u16 \<Rightarrow> mcu \<Rightarrow> mcu option" where
  "write_rom_loop env d textoff sz ptr flashptr s =
     (if ptr < sz then
        (case elfstore_read d (textoff + ptr) READSIZE of None \<Rightarrow> None
         | Some b \<Rightarrow> write_rom_loop env d textoff sz (ptr + 32) (flashptr + 32)
                      (write_chunk env b flashptr s))
      else Some s)"
  by pat_completeness auto
termination
proof (relation "measure (\<lambda>(env, d, textoff, sz, ptr, flashptr, s). ELFSTORE_SIZE - unat (textoff + ptr))",
    goal_cases)
  case 1
  show ?case by simp
next
  case (2 env d textoff sz ptr flashptr s b)
  then show ?case
    using elfstore_step_less [of d "textoff + ptr" READSIZE b 32] by (simp add: READSIZE_def add.assoc)
qed

declare write_rom_loop.simps [simp del]

definition elfloader_arch_write_rom ::
    "node_env \<Rightarrow> u8 list \<Rightarrow> u16 \<Rightarrow> u16 \<Rightarrow> u16 \<Rightarrow> mcu \<Rightarrow> mcu option" where
  "elfloader_arch_write_rom env d textoff sz p s =
     map_option flash_done (write_rom_loop env d textoff sz 0 p (flash_setup s))"

text \<open>The sum of a pointer and the addend is a 16-bit pointer, of which two bytes are
  stored, low byte first.\<close>

definition elfloader_arch_relocate ::
    "u8 list \<Rightarrow> u16 \<Rightarrow> elf32_rela \<Rightarrow> u16 \<Rightarrow> u8 list option" where
  "elfloader_arch_relocate d sectionoffset rela addr =
     (let addr = addr + ucast (r_addend rela)
      in elfstore_write d (ucast (ucast sectionoffset + r_offset rela)) [lo8 addr, hi8 addr])"

section \<open>Symbol resolution\<close>

definition segment_is :: "relevant_section \<Rightarrow> u16 \<Rightarrow> bool" where
  "segment_is sect shndx \<longleftrightarrow> shndx = ucast (number sect)"

definition local_symbol_address :: "segments \<Rightarrow> elf32_sym \<Rightarrow> u16" where
  "local_symbol_address sg s =
     (if segment_is (s_bss sg) (st_shndx s) then address (s_bss sg) + ucast (st_value s)
      else if segment_is (s_data sg) (st_shndx s) then address (s_data sg) + ucast (st_value s)
      else if segment_is (s_text sg) (st_shndx s) then address (s_text sg) + ucast (st_value s)
      else 0)"

definition NAME_LEN :: nat where "NAME_LEN = 30"

definition read_name :: "u8 list \<Rightarrow> u16 \<Rightarrow> elf32_sym \<Rightarrow> u8 list option" where
  "read_name d strtab s = elfstore_read d (ucast (ucast strtab + st_name s)) NAME_LEN"

function find_local_loop ::
    "u8 list \<Rightarrow> segments \<Rightarrow> u8 list \<Rightarrow> u16 \<Rightarrow> u16 \<Rightarrow> u16 \<Rightarrow> u16 option" where
  "find_local_loop d sg symbol symend strtab a =
     (if a < symend then
        (case elfstore_read d a 16 of None \<Rightarrow> None
         | Some b \<Rightarrow>
             (if st_name (decode_sym b) \<noteq> 0 then
                (case Option.bind (read_name d strtab (decode_sym b)) (\<lambda>name. strcmp_eq name symbol) of
                   None \<Rightarrow> None
                 | Some True \<Rightarrow> Some (local_symbol_address sg (decode_sym b))
                 | Some False \<Rightarrow> find_local_loop d sg symbol symend strtab (a + 16))
              else find_local_loop d sg symbol symend strtab (a + 16)))
      else Some 0)"
  by pat_completeness auto

termination find_local_loop
  by (relation "measure (\<lambda>(d, sg, symbol, symend, strtab, a). ELFSTORE_SIZE - unat a)")
    (auto intro: elfstore_step_less)

declare find_local_loop.simps [simp del]

definition find_local_symbol ::
    "u8 list \<Rightarrow> segments \<Rightarrow> u8 list \<Rightarrow> u16 \<Rightarrow> u16 \<Rightarrow> u16 \<Rightarrow> u16 option" where
  "find_local_symbol d sg symbol symtab symtabsize strtab =
     find_local_loop d sg symbol (symtab + symtabsize) strtab symtab"

text \<open>The four-way choice of \<open>relocate_section\<close>: the base of the symbol's section.\<close>

definition segment_base :: "segments \<Rightarrow> u16 \<Rightarrow> u16 option" where
  "segment_base sg shndx =
     (if segment_is (s_bss sg) shndx then Some (address (s_bss sg))
      else if segment_is (s_data sg) shndx then Some (address (s_data sg))
      else if segment_is (s_rodata sg) shndx then Some (address (s_rodata sg))
      else if segment_is (s_text sg) shndx then Some (address (s_text sg))
      else None)"

text \<open>The address a symbol stands for in a relocation: the kernel's table first, then the
  module's own symbols, then the base of its section; a nameless symbol is its section.
  The error case also carries what is copied to \<open>elfloader_unknown\<close>.\<close>

datatype 'a resolution = Resolved 'a | Unresolved elf_status "u8 list option"

definition resolve_symbol ::
    "node_env \<Rightarrow> u8 list \<Rightarrow> segments \<Rightarrow> u16 \<Rightarrow> u16 \<Rightarrow> u16 \<Rightarrow> elf32_sym \<Rightarrow> u16 resolution option" where
  "resolve_symbol env d sg strtab symtab symtabsize s =
     (if st_name s \<noteq> 0 then do {
        name \<leftarrow> read_name d strtab s;
        addr \<leftarrow> symtab_lookup (symbol_table env) name;
        addr \<leftarrow> (if addr = 0 then find_local_symbol d sg name symtab symtabsize strtab
                 else Some addr);
        Some (if addr = 0 then
                (case segment_base sg (st_shndx s) of
                   Some base \<Rightarrow> Resolved base
                 | None \<Rightarrow> Unresolved ELFLOADER_SYMBOL_NOT_FOUND (Some (name[NAME_LEN - 1 := 0])))
              else Resolved addr)
      } else
        Some (case segment_base sg (st_shndx s) of
                Some base \<Rightarrow> Resolved base
              | None \<Rightarrow> Unresolved ELFLOADER_SEGMENT_NOT_FOUND None))"

section \<open>Relocation of a section\<close>

record reloc_args =
  ra_sectionaddr :: u16
  ra_strtab :: u16
  ra_symtab :: u16
  ra_symtabsize :: u16
  ra_relas :: bool

definition rel_size :: "bool \<Rightarrow> u16" where
  "rel_size relas = (if relas then 12 else 8)"

text \<open>One turn of the loop: read the entry and its symbol, resolve, set the addend from
  the section itself when the file has none, patch.\<close>

definition relocate_entry ::
    "node_env \<Rightarrow> segments \<Rightarrow> reloc_args \<Rightarrow> u8 list \<Rightarrow> u8 list \<Rightarrow> u8 list resolution option" where
  "relocate_entry env sg ra b d =
     (let rela = decode_rela b in do {
        sb \<leftarrow> elfstore_read d (ucast (ucast (ra_symtab ra) + 16 * ELF32_R_SYM (r_info rela))) 16;
        res \<leftarrow> resolve_symbol env d sg (ra_strtab ra) (ra_symtab ra) (ra_symtabsize ra) (decode_sym sb);
        case res of
          Unresolved e u \<Rightarrow> Some (Unresolved e u)
        | Resolved addr \<Rightarrow> do {
            rela \<leftarrow> (if ra_relas ra then Some rela
              else map_option (\<lambda>ab. rela\<lparr>r_addend := get32 ab 0\<rparr>)
                (elfstore_read d (ucast (ucast (ra_sectionaddr ra) + r_offset rela)) 4));
            map_option Resolved (elfloader_arch_relocate d (ra_sectionaddr ra) rela addr) } })"

function relocate_loop ::
    "node_env \<Rightarrow> segments \<Rightarrow> reloc_args \<Rightarrow> u16 \<Rightarrow> u16 \<Rightarrow> u8 list \<Rightarrow>
     (elf_status \<times> u8 list option \<times> u8 list) option" where
  "relocate_loop env sg ra secend a d =
     (if a < secend then
        (case elfstore_read d a (unat (rel_size (ra_relas ra))) of None \<Rightarrow> None
         | Some b \<Rightarrow>
             (case relocate_entry env sg ra b d of None \<Rightarrow> None
              | Some (Unresolved e u) \<Rightarrow> Some (e, u, d)
              | Some (Resolved d') \<Rightarrow> relocate_loop env sg ra secend (a + rel_size (ra_relas ra)) d'))
      else Some (ELFLOADER_OK, None, d))"
  by pat_completeness auto
termination
  by (relation "measure (\<lambda>(env, sg, ra, secend, a, d). ELFSTORE_SIZE - unat a)")
    (auto intro!: elfstore_step_less simp: rel_size_def)

declare relocate_loop.simps [simp del]

definition relocate_section ::
    "node_env \<Rightarrow> segments \<Rightarrow> u16 \<Rightarrow> u16 \<Rightarrow> reloc_args \<Rightarrow> u8 list \<Rightarrow>
     (elf_status \<times> u8 list option \<times> u8 list) option" where
  "relocate_section env sg section_off size16 ra d =
     relocate_loop env sg ra (section_off + size16) section_off d"

section \<open>Scanning the section headers\<close>

record scan =
  using_relas :: u8
  textoff :: u16
  textsize :: u16
  textrelaoff :: u16
  textrelasize :: u16
  dataoff :: u16
  datasize :: u16
  datarelaoff :: u16
  datarelasize :: u16
  rodataoff :: u16
  rodatasize :: u16
  rodatarelaoff :: u16
  rodatarelasize :: u16
  symtaboff :: u16
  symtabsize :: u16
  strtaboff :: u16
  strtabsize :: u16
  bsssize :: u16

definition scan_init :: scan where
  "scan_init = \<lparr>using_relas = -1, textoff = 0, textsize = 0, textrelaoff = 0, textrelasize = 0,
     dataoff = 0, datasize = 0, datarelaoff = 0, datarelasize = 0, rodataoff = 0, rodatasize = 0,
     rodatarelaoff = 0, rodatarelasize = 0, symtaboff = 0, symtabsize = 0, strtaboff = 0,
     strtabsize = 0, bsssize = 0\<rparr>"

definition segments_init :: "segments \<Rightarrow> segments" where
  "segments_init sg = sg\<lparr>s_bss := (s_bss sg)\<lparr>number := -1\<rparr>, s_data := (s_data sg)\<lparr>number := -1\<rparr>,
     s_rodata := (s_rodata sg)\<lparr>number := -1\<rparr>, s_text := (s_text sg)\<lparr>number := -1\<rparr>\<rparr>"

definition scan_section ::
    "u8 \<Rightarrow> u8 list \<Rightarrow> elf32_shdr \<Rightarrow> segments \<times> scan \<Rightarrow> segments \<times> scan" where
  "scan_section i name shdr = (\<lambda>(sg, sc).
     let off = ucast (sh_offset shdr); sz = ucast (sh_size shdr) in
     if strncmp_eq name (bytes_of ''.text'') then
       (sg\<lparr>s_text := (s_text sg)\<lparr>number := i, sect_offset := off\<rparr>\<rparr>, sc\<lparr>textoff := off, textsize := sz\<rparr>)
     else if strncmp_eq name (bytes_of ''.rel.text'') then (sg, sc\<lparr>using_relas := 0, textrelaoff := off, textrelasize := sz\<rparr>)
     else if strncmp_eq name (bytes_of ''.rela.text'') then (sg, sc\<lparr>using_relas := 1, textrelaoff := off, textrelasize := sz\<rparr>)
     else if strncmp_eq name (bytes_of ''.data'') then
       (sg\<lparr>s_data := (s_data sg)\<lparr>number := i, sect_offset := off\<rparr>\<rparr>, sc\<lparr>dataoff := off, datasize := sz\<rparr>)
     else if strncmp_eq name (bytes_of ''.rodata'') then
       (sg\<lparr>s_rodata := (s_rodata sg)\<lparr>number := i, sect_offset := off\<rparr>\<rparr>, sc\<lparr>rodataoff := off, rodatasize := sz\<rparr>)
     else if strncmp_eq name (bytes_of ''.rel.rodata'') then (sg, sc\<lparr>using_relas := 0, rodatarelaoff := off, rodatarelasize := sz\<rparr>)
     else if strncmp_eq name (bytes_of ''.rela.rodata'') then (sg, sc\<lparr>using_relas := 1, rodatarelaoff := off, rodatarelasize := sz\<rparr>)
     else if strncmp_eq name (bytes_of ''.rel.data'') then (sg, sc\<lparr>using_relas := 0, datarelaoff := off, datarelasize := sz\<rparr>)
     else if strncmp_eq name (bytes_of ''.rela.data'') then (sg, sc\<lparr>using_relas := 1, datarelaoff := off, datarelasize := sz\<rparr>)
     else if strncmp_eq name (bytes_of ''.symtab'') then (sg, sc\<lparr>symtaboff := off, symtabsize := sz\<rparr>)
     else if strncmp_eq name (bytes_of ''.strtab'') then (sg, sc\<lparr>strtaboff := off, strtabsize := sz\<rparr>)
     else if strncmp_eq name (bytes_of ''.bss'') then
       (sg\<lparr>s_bss := (s_bss sg)\<lparr>number := i, sect_offset := 0\<rparr>\<rparr>, sc\<lparr>bsssize := sz\<rparr>)
     else (sg, sc))"

text \<open>The loop over \<open>shdrnum\<close> headers of \<open>shdrsize\<close> bytes; the section number is kept in
  an \<open>unsigned char\<close>.\<close>

fun scan_loop :: "u8 list \<Rightarrow> u16 \<Rightarrow> u16 \<Rightarrow> nat \<Rightarrow> nat \<Rightarrow> u16 \<Rightarrow> segments \<times> scan \<Rightarrow> (segments \<times> scan) option" where
  "scan_loop d strs shdrsize i 0 shdrptr st = Some st"
| "scan_loop d strs shdrsize i (Suc n) shdrptr st = do {
     hb \<leftarrow> elfstore_read d shdrptr 40;
     name \<leftarrow> elfstore_read d (ucast (ucast strs + sh_name (decode_shdr hb))) 12;
     scan_loop d strs shdrsize (Suc i) n (shdrptr + shdrsize)
       (scan_section (of_nat i) name (decode_shdr hb) st) }"

section \<open>Loading\<close>

definition allocate_segments :: "node_env \<Rightarrow> scan \<Rightarrow> segments \<Rightarrow> segments" where
  "allocate_segments env sc sg =
     (let ba = elfloader_arch_allocate_ram env (bsssize sc + datasize sc);
          ta = elfloader_arch_allocate_rom env (textsize sc + rodatasize sc)
      in sg\<lparr>s_bss := (s_bss sg)\<lparr>address := ba\<rparr>,
            s_data := (s_data sg)\<lparr>address := ba + bsssize sc\<rparr>,
            s_text := (s_text sg)\<lparr>address := ta\<rparr>,
            s_rodata := (s_rodata sg)\<lparr>address := ta + textsize sc\<rparr>\<rparr>)"

definition reloc_args_of :: "scan \<Rightarrow> u16 \<Rightarrow> reloc_args" where
  "reloc_args_of sc sectionaddr = \<lparr>ra_sectionaddr = sectionaddr, ra_strtab = strtaboff sc,
     ra_symtab = symtaboff sc, ra_symtabsize = symtabsize sc, ra_relas = (using_relas sc \<noteq> 0)\<rparr>"

text \<open>One of the three calls: nothing to do for an empty table, and any status other
  than OK ends \<open>elfloader_load\<close> with the patches made so far.\<close>

definition relocate_step ::
    "node_env \<Rightarrow> scan \<Rightarrow> u16 \<Rightarrow> u16 \<Rightarrow> u16 \<Rightarrow> loader \<Rightarrow> (elf_status \<times> loader) option" where
  "relocate_step env sc relaoff relasize sectionoff st =
     (if 0 < relasize then do {
        (e, u, d) \<leftarrow> relocate_section env (segs st) relaoff relasize
                       (reloc_args_of sc sectionoff) (elf_data st);
        Some (e, st\<lparr>elf_data := d,
          elfloader_unknown := (case u of None \<Rightarrow> elfloader_unknown st | Some n \<Rightarrow> n)\<rparr>)
      } else Some (ELFLOADER_OK, st))"

definition write_step :: "node_env \<Rightarrow> u16 \<Rightarrow> u16 \<Rightarrow> u16 \<Rightarrow> loader \<Rightarrow> loader option" where
  "write_step env off sz base st =
     (if 0 < sz then map_option (\<lambda>c. st\<lparr>cpu := c\<rparr>)
        (elfloader_arch_write_rom env (elf_data st) off sz base (cpu st))
      else Some st)"

definition find_start :: "scan \<Rightarrow> string \<Rightarrow> loader \<Rightarrow> u16 option" where
  "find_start sc name st = find_local_symbol (elf_data st) (segs st) (cstring name)
     (symtaboff sc) (symtabsize sc) (strtaboff sc)"

definition set_start_points :: "scan \<Rightarrow> loader \<Rightarrow> (elf_status \<times> loader) option" where
  "set_start_points sc st = do {
     f \<leftarrow> find_start sc ''load'' st;
     if f = 0 then Some (ELFLOADER_NO_STARTPOINT, st) else do {
       let st = st\<lparr>loaded_load := f\<rparr>;
       g \<leftarrow> find_start sc ''unload'' st;
       if g = 0 then Some (ELFLOADER_NO_STARTPOINT, st\<lparr>loaded_unload := 0\<rparr>)
       else Some (ELFLOADER_OK, st\<lparr>loaded_unload := g\<rparr>) } }"

definition install :: "node_env \<Rightarrow> scan \<Rightarrow> loader \<Rightarrow> (elf_status \<times> loader) option" where
  "install env sc st = do {
     st \<leftarrow> write_step env (textoff sc) (textsize sc) (address (s_text (segs st))) st;
     st \<leftarrow> write_step env (rodataoff sc) (rodatasize sc) (address (s_rodata (segs st))) st;
     let st = st\<lparr>cpu := (cpu st)\<lparr>mem := mem_write (mem (cpu st)) (address (s_bss (segs st)))
                (replicate (unat (bsssize sc)) 0)\<rparr>\<rparr>;
     db \<leftarrow> elfstore_read (elf_data st) (dataoff sc) (unat (datasize sc));
     let st = st\<lparr>cpu := (cpu st)\<lparr>mem := mem_write (mem (cpu st)) (address (s_data (segs st))) db\<rparr>\<rparr>;
     set_start_points sc st }"

definition relocate_all :: "node_env \<Rightarrow> scan \<Rightarrow> loader \<Rightarrow> (elf_status \<times> loader) option" where
  "relocate_all env sc st = do {
     (e, st) \<leftarrow> relocate_step env sc (textrelaoff sc) (textrelasize sc) (textoff sc) st;
     if e \<noteq> ELFLOADER_OK then Some (e, st) else do {
       (e, st) \<leftarrow> relocate_step env sc (rodatarelaoff sc) (rodatarelasize sc) (rodataoff sc) st;
       if e \<noteq> ELFLOADER_OK then Some (e, st) else
         relocate_step env sc (datarelaoff sc) (datarelasize sc) (dataoff sc) st } }"

definition elfloader_init :: "loader \<Rightarrow> loader" where
  "elfloader_init st = st\<lparr>loaded_load := 0, loaded_unload := 0\<rparr>"

text \<open>Everything up to the checks of the table sizes: the header, the string table of the
  section names and the scan.  The first read of a section header has no use.\<close>

definition scan_headers :: "loader \<Rightarrow> (segments \<times> scan) option" where
  "scan_headers st = do {
     let d = elf_data st;
     hb \<leftarrow> elfstore_read d 0 52;
     let ehdr = decode_ehdr hb;
     _ \<leftarrow> elfstore_read d (ucast (e_shoff ehdr)) 40;
     sb \<leftarrow> elfstore_read d (ucast (e_shoff ehdr + ucast (e_shentsize ehdr * e_shstrndx ehdr))) 40;
     scan_loop d (ucast (sh_offset (decode_shdr sb))) (e_shentsize ehdr) 0 (unat (e_shnum ehdr))
       (ucast (e_shoff ehdr)) (segments_init (segs st), scan_init) }"

definition header_ok :: "u8 list \<Rightarrow> bool" where
  "header_ok hb \<longleftrightarrow> take (length elf_magic_header) (e_ident (decode_ehdr hb)) = elf_magic_header"

definition elfloader_load :: "node_env \<Rightarrow> loader \<Rightarrow> (elf_status \<times> loader) option" where
  "elfloader_load env st = do {
     let st = st\<lparr>loaded_load := 0, loaded_unload := 0,
                 elfloader_unknown := (elfloader_unknown st)[0 := 0]\<rparr>;
     hb \<leftarrow> elfstore_read (elf_data st) 0 52;
     if \<not> header_ok hb then Some (ELFLOADER_BAD_ELF_HEADER, st) else do {
       (sg, sc) \<leftarrow> scan_headers st;
       let st = st\<lparr>segs := sg\<rparr>;
       if symtabsize sc = 0 then Some (ELFLOADER_NO_SYMTAB, st)
       else if strtabsize sc = 0 then Some (ELFLOADER_NO_STRTAB, st)
       else if textsize sc = 0 then Some (ELFLOADER_NO_TEXT, st)
       else do {
         let st = st\<lparr>segs := allocate_segments env sc (segs st)\<rparr>;
         (e, st) \<leftarrow> relocate_all env sc st;
         if e \<noteq> ELFLOADER_OK then Some (e, st) else install env sc st } } }"

end
