(* ===== verification/Elf_Relocation.thy ===== *)
theory Elf_Relocation
  imports Elf_Loader
begin

text \<open>
  What relocation promises.  The abstract specification is a plan, computed once from
  the object as it was received: for each entry of the table the place to patch and the
  16-bit word \<open>S + A\<close> to put there.  The code works on the object while it patches it; the
  refinement lemma says that it carries out exactly the plan, as long as no patch touches
  the tables the loop still reads.
\<close>

section \<open>The plan\<close>

text \<open>The entry's part that only reads: its target and the word to store.\<close>

definition sym_offset :: "reloc_args \<Rightarrow> elf32_rela \<Rightarrow> u16" where
  "sym_offset ra rela = ucast (ucast (ra_symtab ra) + 16 * ELF32_R_SYM (r_info rela))"

definition target_offset :: "reloc_args \<Rightarrow> elf32_rela \<Rightarrow> u16" where
  "target_offset ra rela = ucast (ucast (ra_sectionaddr ra) + r_offset rela)"

definition entry_addend :: "reloc_args \<Rightarrow> elf32_rela \<Rightarrow> u8 list \<Rightarrow> u16 option" where
  "entry_addend ra rela d =
     (if ra_relas ra then Some (ucast (r_addend rela))
      else map_option (\<lambda>ab. le16 (ab ! 0) (ab ! 1)) (elfstore_read d (target_offset ra rela) 4))"

definition entry_patch ::
    "node_env \<Rightarrow> segments \<Rightarrow> reloc_args \<Rightarrow> u8 list \<Rightarrow> u8 list \<Rightarrow> (u16 \<times> u16) resolution option" where
  "entry_patch env sg ra b d = do {
     sb \<leftarrow> elfstore_read d (sym_offset ra (decode_rela b)) 16;
     res \<leftarrow> resolve_symbol env d sg (ra_strtab ra) (ra_symtab ra) (ra_symtabsize ra) (decode_sym sb);
     case res of
       Unresolved e u \<Rightarrow> Some (Unresolved e u)
     | Resolved addr \<Rightarrow> map_option (\<lambda>ad. Resolved (target_offset ra (decode_rela b), addr + ad))
         (entry_addend ra (decode_rela b) d) }"

lemma ucast_get32: "ucast (get32 b i) = le16 (b ! i) (b ! (i + 1))"
  by (rule bit_word_eqI)
    (auto simp: get32_def le32_def le16_def bit_or_iff bit_push_bit_iff bit_ucast_iff)

text \<open>\<open>relocate_entry\<close> is the plan's entry followed by the write of its two bytes.\<close>

lemma relocate_entry_patch:
  "relocate_entry env sg ra b d =
     (case entry_patch env sg ra b d of
        None \<Rightarrow> None
      | Some (Unresolved e u) \<Rightarrow> Some (Unresolved e u)
      | Some (Resolved (t, v)) \<Rightarrow> map_option Resolved (elfstore_write d t [lo8 v, hi8 v]))"
  unfolding relocate_entry_def entry_patch_def entry_addend_def elfloader_arch_relocate_def
    sym_offset_def target_offset_def Let_def
  by (auto simp: ucast_get32 option.map_comp comp_def split: Option.bind_split resolution.split option.split)

type_synonym range = "nat \<times> nat"

record patch =
  p_target :: u16
  p_value :: u16
  p_reads :: "range list"

definition name_range :: "u16 \<Rightarrow> elf32_sym \<Rightarrow> range" where
  "name_range strtab s = (unat (ucast (ucast strtab + st_name s) :: u16), NAME_LEN)"

definition sym_ranges :: "u8 list \<Rightarrow> u16 \<Rightarrow> u16 \<Rightarrow> range list" where
  "sym_ranges d strtab so = (unat so, 16) #
     (case elfstore_read d so 16 of None \<Rightarrow> []
      | Some sb \<Rightarrow> [name_range strtab (decode_sym sb)])"

function reloc_plan ::
    "node_env \<Rightarrow> segments \<Rightarrow> reloc_args \<Rightarrow> u16 \<Rightarrow> u8 list \<Rightarrow> u16 \<Rightarrow> patch list option" where
  "reloc_plan env sg ra secend d a =
     (if a < secend then
        (case elfstore_read d a (unat (rel_size (ra_relas ra))) of None \<Rightarrow> None
         | Some b \<Rightarrow>
             (case entry_patch env sg ra b d of
                Some (Resolved (t, v)) \<Rightarrow>
                  map_option (\<lambda>ps. \<lparr>p_target = t, p_value = v,
                      p_reads = (unat a, unat (rel_size (ra_relas ra))) #
                        sym_ranges d (ra_strtab ra) (sym_offset ra (decode_rela b))\<rparr> # ps)
                    (reloc_plan env sg ra secend d (a + rel_size (ra_relas ra)))
              | _ \<Rightarrow> None))
      else Some [])"
  by pat_completeness auto
termination
  by (relation "measure (\<lambda>(env, sg, ra, secend, d, a). ELFSTORE_SIZE - unat a)")
    (auto intro!: elfstore_step_less simp: rel_size_def)

declare reloc_plan.simps [simp del]

text \<open>The bytes a patch writes, and the reads of the search through the symbol table.\<close>

definition touches :: "patch \<Rightarrow> nat set" where
  "touches p = {unat (p_target p), unat (p_target p) + 1}"

definition search_ranges :: "u8 list \<Rightarrow> reloc_args \<Rightarrow> range list" where
  "search_ranges d ra = concat (map (\<lambda>k. let so = ra_symtab ra + of_nat (16 * k) in
      if so < ra_symtab ra + ra_symtabsize ra then sym_ranges d (ra_strtab ra) so else []) [0..<128])"

definition clear_of :: "patch \<Rightarrow> range \<Rightarrow> bool" where
  "clear_of p r \<longleftrightarrow> unat (p_target p) + 2 \<le> fst r \<or> fst r + snd r \<le> unat (p_target p)"

definition apart :: "patch \<Rightarrow> patch \<Rightarrow> bool" where
  "apart p q \<longleftrightarrow> unat (p_target p) + 2 \<le> unat (p_target q) \<or> unat (p_target q) + 2 \<le> unat (p_target p)"

fun pairwise_apart :: "patch list \<Rightarrow> bool" where
  "pairwise_apart [] \<longleftrightarrow> True"
| "pairwise_apart (p # ps) \<longleftrightarrow> list_all (apart p) ps \<and> pairwise_apart ps"

definition plan_safe :: "u8 list \<Rightarrow> reloc_args \<Rightarrow> patch list \<Rightarrow> bool" where
  "plan_safe d ra ps \<longleftrightarrow> pairwise_apart ps \<and>
     list_all (\<lambda>p. unat (p_target p) + 2 \<le> length d \<and> unat (p_target p) + 2 \<le> ELFSTORE_SIZE \<and>
       list_all (clear_of p) (search_ranges d ra) \<and>
       list_all (\<lambda>q. list_all (clear_of p) (p_reads q)) ps) ps"

section \<open>Reads that a patched object shares with the original\<close>

definition same_on :: "u8 list \<Rightarrow> u8 list \<Rightarrow> range \<Rightarrow> bool" where
  "same_on d d0 r \<longleftrightarrow> (\<forall>k. fst r \<le> k \<and> k < fst r + snd r \<and> k < length d0 \<longrightarrow> d ! k = d0 ! k)"

lemma read_same:
  "length d = length d0 \<Longrightarrow> same_on d d0 (unat off, n) \<Longrightarrow> elfstore_read d off n = elfstore_read d0 off n"
  by (rule elfstore_read_cong) (auto simp: same_on_def)

lemma read_sym_same:
  assumes "length d = length d0" and "list_all (same_on d d0) (sym_ranges d0 strtab so)"
  shows "elfstore_read d so 16 = elfstore_read d0 so 16"
  using assms by (intro read_same) (auto simp: sym_ranges_def)

lemma read_name_same:
  assumes "length d = length d0" and "list_all (same_on d d0) (sym_ranges d0 strtab so)"
    and "elfstore_read d0 so 16 = Some sb"
  shows "read_name d strtab (decode_sym sb) = read_name d0 strtab (decode_sym sb)"
  unfolding read_name_def
  using assms by (intro read_same) (auto simp: sym_ranges_def name_range_def)

lemma search_ranges_at:
  assumes same: "list_all Q (search_ranges d0 ra)"
    and "so < ra_symtab ra + ra_symtabsize ra" and so: "unat so = unat (ra_symtab ra) + 16 * k"
    and k: "k < 128"
  shows "list_all Q (sym_ranges d0 (ra_strtab ra) so)"
proof -
  have "so = of_nat (unat so)" by simp
  also have "\<dots> = ra_symtab ra + of_nat (16 * k)" unfolding so by simp
  finally have "so = ra_symtab ra + of_nat (16 * k)" .
  with assms show ?thesis by (auto simp: search_ranges_def list_all_iff Let_def)
qed

lemma find_local_same:
  assumes len: "length d = length d0"
    and same: "list_all (same_on d d0) (search_ranges d0 ra)"
  shows "unat a = unat (ra_symtab ra) + 16 * k \<Longrightarrow>
    find_local_loop d sg symbol (ra_symtab ra + ra_symtabsize ra) (ra_strtab ra) a =
    find_local_loop d0 sg symbol (ra_symtab ra + ra_symtabsize ra) (ra_strtab ra) a"
proof (induction "ELFSTORE_SIZE - unat a" arbitrary: a k rule: less_induct)
  case less
  let ?fin = "ra_symtab ra + ra_symtabsize ra"
  show ?case
  proof (cases "a < ?fin \<and> unat a + 16 \<le> ELFSTORE_SIZE")
    case False
    then show ?thesis
      by (auto simp: find_local_loop.simps [of d] find_local_loop.simps [of d0] elfstore_read_def)
  next
    case True
    then have "k < 128" using less.prems by (simp add: ELFSTORE_SIZE_def)
    with True less.prems same have rs: "list_all (same_on d d0) (sym_ranges d0 (ra_strtab ra) a)"
      by (intro search_ranges_at) auto
    note rd = read_sym_same [OF len rs]
    show ?thesis
    proof (cases "elfstore_read d0 a 16")
      case None
      with rd show ?thesis by (simp add: find_local_loop.simps [of d] find_local_loop.simps [of d0])
    next
      case (Some sb)
      have next_a: "unat (a + 16) = unat a + 16"
        by (rule elfstore_step [OF Some]) simp
      have IH: "find_local_loop d sg symbol ?fin (ra_strtab ra) (a + 16) =
          find_local_loop d0 sg symbol ?fin (ra_strtab ra) (a + 16)"
        using True next_a less.prems by (intro less.hyps [of "a + 16" "Suc k"]) auto
      show ?thesis
        using Some rd read_name_same [OF len rs Some] IH
        by (simp add: find_local_loop.simps [of d sg symbol ?fin "ra_strtab ra" a]
            find_local_loop.simps [of d0 sg symbol ?fin "ra_strtab ra" a]
            cong: option.case_cong bool.case_cong)
    qed
  qed
qed

lemma resolve_same:
  assumes len: "length d = length d0"
    and search: "list_all (same_on d d0) (search_ranges d0 ra)"
    and sym: "list_all (same_on d d0) (sym_ranges d0 (ra_strtab ra) so)"
    and sb: "elfstore_read d0 so 16 = Some sb"
  shows "resolve_symbol env d sg (ra_strtab ra) (ra_symtab ra) (ra_symtabsize ra) (decode_sym sb) =
    resolve_symbol env d0 sg (ra_strtab ra) (ra_symtab ra) (ra_symtabsize ra) (decode_sym sb)"
proof -
  have "find_local_symbol d sg name (ra_symtab ra) (ra_symtabsize ra) (ra_strtab ra) =
      find_local_symbol d0 sg name (ra_symtab ra) (ra_symtabsize ra) (ra_strtab ra)" for name
    unfolding find_local_symbol_def by (rule find_local_same [OF len search, where k = 0]) simp
  with read_name_same [OF len sym sb] show ?thesis
    by (simp add: resolve_symbol_def cong: if_cong)
qed

text \<open>The word an entry stores depends on the target's own two bytes only.\<close>

lemma entry_patch_same:
  assumes len: "length d = length d0"
    and search: "list_all (same_on d d0) (search_ranges d0 ra)"
    and sym: "list_all (same_on d d0) (sym_ranges d0 (ra_strtab ra) (sym_offset ra (decode_rela b)))"
    and tgt: "same_on d d0 (unat (target_offset ra (decode_rela b)), 2)"
  shows "entry_patch env sg ra b d = entry_patch env sg ra b d0"
proof -
  let ?t = "target_offset ra (decode_rela b)"
  have ad: "entry_addend ra (decode_rela b) d = entry_addend ra (decode_rela b) d0"
  proof (cases "elfstore_read d0 ?t 4")
    case None
    with len show ?thesis
      by (auto simp: entry_addend_def elfstore_read_def rd_block_def split: if_splits)
  next
    case (Some ab)
    then obtain ab' where ab': "elfstore_read d ?t 4 = Some ab'"
      using len by (auto simp: elfstore_read_def rd_block_def split: if_splits)
    have "unat ?t + 4 \<le> length d0" using Some by (simp add: elfstore_read_bound)
    then have "ab' ! i = ab ! i" if "i < 2" for i
      using that tgt elfstore_read_nth [OF Some, of i] elfstore_read_nth [OF ab', of i]
      by (auto simp: same_on_def)
    with Some ab' show ?thesis by (simp add: entry_addend_def)
  qed
  show ?thesis
  proof (cases "elfstore_read d0 (sym_offset ra (decode_rela b)) 16")
    case None
    with read_sym_same [OF len sym] show ?thesis by (simp add: entry_patch_def)
  next
    case (Some sb)
    with read_sym_same [OF len sym] resolve_same [OF len search sym Some] ad
    show ?thesis by (simp add: entry_patch_def cong: resolution.case_cong)
  qed
qed

section \<open>The loop carries out the plan\<close>

definition patched :: "patch list \<Rightarrow> u8 list \<Rightarrow> u8 list \<Rightarrow> bool" where
  "patched ps d d' \<longleftrightarrow> length d' = length d \<and>
     (\<forall>p \<in> set ps. d' ! unat (p_target p) = lo8 (p_value p) \<and>
                    d' ! (unat (p_target p) + 1) = hi8 (p_value p)) \<and>
     (\<forall>k < length d. k \<notin> \<Union> (touches ` set ps) \<longrightarrow> d' ! k = d ! k)"

text \<open>What holds at the start of a turn: \<open>d\<close> has the bytes of the original except at
  the targets of the patches done, and the rest of the plan is still safe.\<close>

definition agree_off :: "u8 list \<Rightarrow> u8 list \<Rightarrow> patch list \<Rightarrow> bool" where
  "agree_off d d0 done \<longleftrightarrow> length d = length d0 \<and>
     (\<forall>k < length d0. k \<notin> \<Union> (touches ` set done) \<longrightarrow> d ! k = d0 ! k)"

lemma agree_off_same_on:
  assumes "agree_off d d0 ps" and "list_all (\<lambda>p. clear_of p r) ps"
  shows "same_on d d0 r"
  using assms unfolding agree_off_def same_on_def list_all_iff clear_of_def touches_def
  by fastforce

lemma write_patch:
  assumes "unat t + 2 \<le> length d" and "unat t + 2 \<le> ELFSTORE_SIZE"
  obtains d1 where "elfstore_write d t [lo8 v, hi8 v] = Some d1" and "length d1 = length d"
    and "d1 ! unat t = lo8 v" and "d1 ! (unat t + 1) = hi8 v"
    and "\<And>k. k < length d \<Longrightarrow> k \<noteq> unat t \<Longrightarrow> k \<noteq> unat t + 1 \<Longrightarrow> d1 ! k = d ! k"
proof -
  from assms obtain d1 where w: "elfstore_write d t [lo8 v, hi8 v] = Some d1"
    by (auto simp: elfstore_write_def wr_block_def)
  note n = elfstore_write_nth [OF w]
  show ?thesis
    by (rule that [OF w elfstore_write_length [OF w]]) (use assms n in \<open>auto simp: nth_Cons'\<close>)
qed

definition plan_step_safe :: "u8 list \<Rightarrow> reloc_args \<Rightarrow> patch list \<Rightarrow> patch list \<Rightarrow> bool" where
  "plan_step_safe d0 ra done ps \<longleftrightarrow>
     (\<forall>p \<in> set done \<union> set ps. list_all (clear_of p) (search_ranges d0 ra) \<and>
        (\<forall>q \<in> set ps. list_all (clear_of p) (p_reads q))) \<and>
     (\<forall>p \<in> set done. \<forall>q \<in> set ps. apart p q) \<and> pairwise_apart ps \<and>
     (\<forall>p \<in> set ps. unat (p_target p) + 2 \<le> length d0 \<and> unat (p_target p) + 2 \<le> ELFSTORE_SIZE)"

lemma apart_sym: "apart p q \<longleftrightarrow> apart q p"
  by (auto simp: apart_def)

lemma plan_step_safe_next:
  "plan_step_safe d0 ra done (p # ps) \<Longrightarrow> plan_step_safe d0 ra (p # done) ps"
  by (auto simp: plan_step_safe_def list_all_iff)

lemma plan_step_same_on:
  assumes "plan_step_safe d0 ra done ps" and "agree_off d d0 done"
  shows "list_all (same_on d d0) (search_ranges d0 ra)"
    and "q \<in> set ps \<Longrightarrow> list_all (same_on d d0) (p_reads q)"
    and "q \<in> set ps \<Longrightarrow> same_on d d0 (unat (p_target q), 2)"
proof -
  show "list_all (same_on d d0) (search_ranges d0 ra)"
    using assms by (auto simp: list_all_iff plan_step_safe_def intro!: agree_off_same_on [OF assms(2)])
  show "list_all (same_on d d0) (p_reads q)" if "q \<in> set ps"
    using assms that by (auto simp: list_all_iff plan_step_safe_def intro!: agree_off_same_on [OF assms(2)])
  show "same_on d d0 (unat (p_target q), 2)" if "q \<in> set ps"
    using assms that
    by (intro agree_off_same_on [OF assms(2)])
      (auto simp: list_all_iff plan_step_safe_def apart_def clear_of_def)
qed

lemma patched_Cons:
  assumes "patched ps d1 d'" and "\<forall>q \<in> set ps. apart p q"
    and "length d1 = length d" and "unat (p_target p) + 2 \<le> length d"
    and "d1 ! unat (p_target p) = lo8 (p_value p)" and "d1 ! (unat (p_target p) + 1) = hi8 (p_value p)"
    and "\<And>k. k < length d \<Longrightarrow> k \<noteq> unat (p_target p) \<Longrightarrow> k \<noteq> unat (p_target p) + 1 \<Longrightarrow> d1 ! k = d ! k"
  shows "patched (p # ps) d d'"
proof -
  have "unat (p_target p) \<notin> \<Union> (touches ` set ps)" "unat (p_target p) + 1 \<notin> \<Union> (touches ` set ps)"
    using assms(2) by (force simp: apart_def touches_def)+
  with assms show ?thesis by (auto simp: patched_def touches_def)
qed

text \<open>Unfolding the plan at a place where an entry is processed.\<close>

lemma reloc_plan_Cons:
  assumes "reloc_plan env sg ra secend d a = Some ps" and "a < secend"
  obtains b t v ps' where
    "elfstore_read d a (unat (rel_size (ra_relas ra))) = Some b"
    "entry_patch env sg ra b d = Some (Resolved (t, v))"
    "reloc_plan env sg ra secend d (a + rel_size (ra_relas ra)) = Some ps'"
    "ps = \<lparr>p_target = t, p_value = v, p_reads = (unat a, unat (rel_size (ra_relas ra))) #
        sym_ranges d (ra_strtab ra) (sym_offset ra (decode_rela b))\<rparr> # ps'"
  using assms
  by (subst (asm) reloc_plan.simps) (auto split: option.splits resolution.splits)

lemma entry_patch_target:
  "entry_patch env sg ra b d = Some (Resolved (t, v)) \<Longrightarrow> t = target_offset ra (decode_rela b)"
  by (auto simp: entry_patch_def split: Option.bind_splits resolution.splits)

lemma relocate_loop_plan:
  "reloc_plan env sg ra secend d0 a = Some ps \<Longrightarrow> agree_off d d0 done \<Longrightarrow>
   plan_step_safe d0 ra done ps \<Longrightarrow>
   \<exists>d'. relocate_loop env sg ra secend a d = Some (ELFLOADER_OK, None, d') \<and> patched ps d d'"
proof (induction ps arbitrary: a d "done")
  case Nil
  then have "\<not> a < secend" by (auto elim: reloc_plan_Cons)
  then show ?case by (simp add: relocate_loop.simps [of env sg ra secend a] patched_def)
next
  case (Cons p ps)
  have a: "a < secend"
    using Cons.prems(1) by (subst (asm) reloc_plan.simps) (auto split: if_splits)
  let ?rs = "rel_size (ra_relas ra)"
  from reloc_plan_Cons [OF Cons.prems(1) a] obtain b t v where
    b: "elfstore_read d0 a (unat ?rs) = Some b" and
    ep: "entry_patch env sg ra b d0 = Some (Resolved (t, v))" and
    rest: "reloc_plan env sg ra secend d0 (a + ?rs) = Some ps" and
    p: "p = \<lparr>p_target = t, p_value = v, p_reads = (unat a, unat ?rs) #
        sym_ranges d0 (ra_strtab ra) (sym_offset ra (decode_rela b))\<rparr>" by auto
  note same = plan_step_same_on [OF Cons.prems(3,2)]
  have len: "length d = length d0" using Cons.prems(2) by (simp add: agree_off_def)
  have t: "p_target p = t" "p_value p = v" using p by simp_all
  have reads: "same_on d d0 (unat a, unat ?rs)"
    "list_all (same_on d d0) (sym_ranges d0 (ra_strtab ra) (sym_offset ra (decode_rela b)))"
    using same(2) [of p] p by simp_all
  have tgt: "same_on d d0 (unat (target_offset ra (decode_rela b)), 2)"
    using same(3) [of p] t entry_patch_target [OF ep] by simp
  have bd: "elfstore_read d a (unat ?rs) = Some b"
    using read_same [OF len reads(1)] b by simp
  have epd: "entry_patch env sg ra b d = Some (Resolved (t, v))"
    using entry_patch_same [OF len same(1) reads(2) tgt] ep by simp
  have bounds: "unat t + 2 \<le> length d" "unat t + 2 \<le> ELFSTORE_SIZE"
    using Cons.prems(3) len t by (simp_all add: plan_step_safe_def)
  obtain d1 where w: "elfstore_write d t [lo8 v, hi8 v] = Some d1" "length d1 = length d"
    "d1 ! unat t = lo8 v" "d1 ! (unat t + 1) = hi8 v"
    and frame: "\<And>k. k < length d \<Longrightarrow> k \<noteq> unat t \<Longrightarrow> k \<noteq> unat t + 1 \<Longrightarrow> d1 ! k = d ! k"
    by (rule write_patch [OF bounds]) blast
  have agree1: "agree_off d1 d0 (p # done)"
    using Cons.prems(2) w(2) frame t by (auto simp: agree_off_def touches_def)
  from Cons.IH [OF rest agree1 plan_step_safe_next [OF Cons.prems(3)]]
  obtain d' where d': "relocate_loop env sg ra secend (a + ?rs) d1 = Some (ELFLOADER_OK, None, d')"
    "patched ps d1 d'" by blast
  have "relocate_loop env sg ra secend a d = Some (ELFLOADER_OK, None, d')"
    using a bd epd w(1) d'(1)
    by (simp add: relocate_loop.simps [of env sg ra secend a d] relocate_entry_patch)
  moreover have "patched (p # ps) d d'"
  proof (rule patched_Cons [OF d'(2) _ w(2)])
    show "\<forall>q \<in> set ps. apart p q" using Cons.prems(3) by (simp add: plan_step_safe_def list_all_iff)
  qed (use w bounds frame t in auto)
  ultimately show ?case by blast
qed

lemma plan_safe_start: "plan_safe d ra ps \<Longrightarrow> plan_step_safe d ra [] ps"
  by (auto simp: plan_safe_def plan_step_safe_def list_all_iff)

end
