(* ===== verification/Elf_Flash.thy ===== *)
theory Elf_Flash
  imports Elf_Loader
begin

text \<open>
  What burning a segment into flash promises: under the documented behaviour of the
  flash (an erase sets a 512-byte segment to \<open>0xFF\<close>, programming an erased word gives that
  word), \<open>elfloader_arch_write_rom\<close> leaves the bytes of the object at the address given,
  if that address starts a flash segment.
\<close>

section \<open>The documented behaviour of the flash\<close>

definition flash_hw_ok :: "flash_hw \<Rightarrow> bool" where
  "flash_hw_ok hw \<longleftrightarrow>
     (\<forall>m p w x. hw 0xA502 0xA500 m p w x = (if unat x div 512 = unat p div 512 then 0xFF else m x)) \<and>
     (\<forall>m p w x. even (unat p) \<and> m p = 0xFF \<and> m (p + 1) = 0xFF \<longrightarrow>
        hw 0xA540 0xA500 m p w x = (if x = p then lo8 w else if x = p + 1 then hi8 w else m x))"

text \<open>Flash whose programming clears bits has this behaviour: it is the chip's.\<close>

definition and_flash :: flash_hw where
  "and_flash fctl1 fctl3 m p w = (\<lambda>x.
     if fctl1 = 0xA502 then (if unat x div 512 = unat p div 512 then 0xFF else m x)
     else if x = p then m p AND lo8 w else if x = p + 1 then m (p + 1) AND hi8 w else m x)"

lemma and_ff: "(0xFF :: u8) AND b = b"
proof -
  have "(0xFF :: u8) = - 1" by simp
  then show ?thesis by (metis and.left_neutral)
qed

lemma and_flash_ok: "flash_hw_ok and_flash"
  unfolding flash_hw_ok_def and_flash_def by (auto simp: and_ff)

section \<open>Burning one chunk\<close>

lemma flash_write_erased:
  assumes "flash_hw_ok hw" and "even (unat p)" and "mem s p = 0xFF" and "mem s (p + 1) = 0xFF"
  shows "mem (flash_write hw p w s) =
    (\<lambda>x. if x = p then lo8 w else if x = p + 1 then hi8 w else mem s x)"
  using assms unfolding flash_write_def flash_hw_ok_def by (intro ext) simp

definition inr :: "u16 \<Rightarrow> nat \<Rightarrow> u16 \<Rightarrow> bool" where
  "inr p n x \<longleftrightarrow> unat p \<le> unat x \<and> unat x < unat p + n"

lemma burn_mem:
  assumes hw: "flash_hw_ok hw"
  shows "even (unat p) \<Longrightarrow> unat p + 2 * n < 65536 \<Longrightarrow> unat src + 2 * n \<le> unat p \<Longrightarrow>
    (\<And>x. inr p (2 * n) x \<Longrightarrow> mem s x = 0xFF) \<Longrightarrow>
    mem (burn hw n src p s) x = (if inr p (2 * n) x then mem s (src + (x - p)) else mem s x)"
proof (induction n arbitrary: src p s)
  case 0
  then show ?case by (simp add: inr_def)
next
  case (Suc n)
  let ?s = "flash_write hw p (mem_word (mem s) src) s"
  have p: "unat (p + 1) = unat p + 1" "unat (p + 2) = unat p + 2"
    using Suc.prems(2) by (simp_all add: unat_add_u16)
  have src: "unat (src + 1) = unat src + 1" "unat (src + 2) = unat src + 2"
    using Suc.prems(2,3) by (simp_all add: unat_add_u16)
  have er: "mem s p = 0xFF" "mem s (p + 1) = 0xFF"
    using Suc.prems(4) by (simp_all add: inr_def p)
  note m1 = flash_write_erased [OF hw Suc.prems(1) er, of "mem_word (mem s) src"]
  have ne: "x \<noteq> p \<and> x \<noteq> p + 1" if "unat x \<ge> unat p + 2 \<or> unat x < unat p" for x
    using that p(1) by auto
  have erased: "mem ?s x = 0xFF" if "inr (p + 2) (2 * n) x" for x
  proof -
    have "unat p + 2 \<le> unat x" using that p by (simp add: inr_def)
    moreover have "inr p (2 * Suc n) x" using that p by (simp add: inr_def)
    ultimately show ?thesis using ne [of x] Suc.prems(4) m1 by simp
  qed
  have IH: "mem (burn hw n (src + 2) (p + 2) ?s) x =
      (if inr (p + 2) (2 * n) x then mem ?s (src + 2 + (x - (p + 2))) else mem ?s x)"
    using Suc.prems(1-3) p src erased by (intro Suc.IH) auto
  show ?case
  proof (cases "inr (p + 2) (2 * n) x")
    case True
    have eq: "src + 2 + (x - (p + 2)) = src + (x - p)" by simp
    have px: "p \<le> x" using True p by (simp add: inr_def word_le_nat_alt)
    have d: "unat (x - p) = unat x - unat p" using px by (rule unat_sub_small)
    have "unat (src + (x - p)) = unat src + unat (x - p)"
      using True p Suc.prems(2,3) d by (intro unat_add_u16_small) (auto simp: inr_def)
    also have "unat (x - p) < 2 * Suc n" using True p d by (auto simp: inr_def)
    then have "unat src + unat (x - p) < unat p" using Suc.prems(3) by linarith
    finally have "mem ?s (src + (x - p)) = mem s (src + (x - p))"
      using ne [of "src + (x - p)"] m1 by simp
    moreover have "inr p (2 * Suc n) x" using True p by (simp add: inr_def)
    ultimately show ?thesis using IH True eq by simp
  next
    case False
    show ?thesis
    proof (cases "inr p (2 * Suc n) x")
      case True
      with False p have "unat x = unat p \<or> unat x = unat (p + 1)" by (auto simp: inr_def)
      then have "x = p \<or> x = p + 1" by (metis word_unat_eq_iff)
      with True False IH m1 p show ?thesis
        by (auto simp: mem_word_def)
    next
      case F: False
      then have "x \<noteq> p" "x \<noteq> p + 1" using p by (auto simp: inr_def)
      with F False IH m1 show ?thesis by simp
    qed
  qed
qed

lemma and_1ff: "unat (p AND 0x1ff :: u16) = unat p mod 512"
proof -
  have "p AND 0x1ff = take_bit 9 p" by (simp add: take_bit_eq_mask mask_eq_exp_minus_1)
  then have "unat (p AND 0x1ff) = take_bit 9 (unat p)" by (simp only: unsigned_take_bit_eq)
  then show ?thesis by (simp add: take_bit_eq_mod)
qed

lemma aligned_iff: "p AND 0x1ff = (0 :: u16) \<longleftrightarrow> 512 dvd unat p"
proof -
  have "p AND 0x1ff = 0 \<longleftrightarrow> unat (p AND 0x1ff) = 0" by (simp add: unat_eq_zero)
  then show ?thesis by (simp only: and_1ff dvd_eq_mod_eq_0)
qed

lemma write_chunk_mem:
  assumes hw: "flash_hw_ok (flash_store env)" and b: "length b = 32"
    and ram: "unat (datamemory env) + 32 \<le> unat p"
    and p: "even (unat p)" "unat p + 32 < 65536"
    and er: "512 dvd unat p \<or> (\<forall>x. inr p 32 x \<longrightarrow> mem s x = 0xFF)"
  shows "mem (write_chunk env b p s) x =
    (if inr p 32 x then b ! (unat x - unat p)
     else if 512 dvd unat p \<and> unat x div 512 = unat p div 512 then 0xFF
     else mem_write (mem s) (datamemory env) b x)"
proof -
  let ?dm = "datamemory env"
  let ?s1 = "s\<lparr>mem := mem_write (mem s) ?dm b\<rparr>"
  let ?s2 = "if p AND 0x01ff = 0 then flash_clear (flash_store env) p ?s1 else ?s1"
  have s2: "mem ?s2 x = (if 512 dvd unat p \<and> unat x div 512 = unat p div 512 then 0xFF
      else mem_write (mem s) ?dm b x)" for x
    using hw by (auto simp: flash_clear_def flash_hw_ok_def aligned_iff)
  have dm: "mem_write (mem s) ?dm b x = mem s x" if "unat p \<le> unat x" for x
  proof -
    have "?dm \<le> x" using ram that by (simp add: word_le_nat_alt)
    then have "unat (x - ?dm) = unat x - unat ?dm" by (rule unat_sub_small)
    then have "\<not> unat (x - ?dm) < length b" using ram that b by linarith
    then show ?thesis by (simp only: mem_write_def if_False)
  qed
  have seg: "unat x div 512 = unat p div 512" if "512 dvd unat p" "inr p 32 x" for x
    using that by (auto simp: inr_def elim!: dvdE)
  have erased: "mem ?s2 x = 0xFF" if "inr p (2 * 16) x" for x
    using er seg [of x] that dm [of x] unfolding s2 by (auto simp: inr_def)
  have "mem (burn (flash_store env) 16 ?dm p ?s2) x =
      (if inr p (2 * 16) x then mem ?s2 (?dm + (x - p)) else mem ?s2 x)"
    using p ram erased by (intro burn_mem [OF hw]) auto
  moreover have "mem ?s2 (?dm + (x - p)) = b ! (unat x - unat p)" if i: "inr p 32 x"
  proof -
    have "p \<le> x" using i by (simp add: inr_def word_le_nat_alt)
    then have d: "unat (x - p) = unat x - unat p" by (rule unat_sub_small)
    have "unat (?dm + (x - p)) = unat ?dm + unat (x - p)"
      using i ram p d by (intro unat_add_u16_small) (auto simp: inr_def)
    moreover have xp: "unat (x - p) < 32" using i d by (auto simp: inr_def)
    ultimately have lt: "unat (?dm + (x - p)) < unat p" using ram by linarith
    then have "\<not> (512 dvd unat p \<and> unat (?dm + (x - p)) div 512 = unat p div 512)"
      by (metis dvd_div_mult_self leD div_times_less_eq_dividend)
    then have "mem ?s2 (?dm + (x - p)) = mem_write (mem s) ?dm b (?dm + (x - p))"
      unfolding s2 by (simp only: if_False)
    also have "\<dots> = b ! unat (x - p)" using xp b by (simp add: mem_write_def)
    finally show ?thesis unfolding d .
  qed
  ultimately show ?thesis
    by (simp add: write_chunk_def Let_def READSIZE_def s2)
qed

section \<open>Burning a segment\<close>

text \<open>The state between two chunks, \<open>n\<close> bytes of the segment being done: they are in
  place, and the rest of the current flash segment is erased.\<close>

definition burnt :: "u16 \<Rightarrow> u8 list \<Rightarrow> nat \<Rightarrow> nat \<Rightarrow> memory \<Rightarrow> bool" where
  "burnt base d off n m \<longleftrightarrow>
     (\<forall>x. unat base \<le> unat x \<and> unat x < unat base + n \<longrightarrow> m x = d ! (off + (unat x - unat base))) \<and>
     (n mod 512 \<noteq> 0 \<longrightarrow>
       (\<forall>x. unat base + n \<le> unat x \<and> unat x div 512 = (unat base + n) div 512 \<longrightarrow> m x = 0xFF))"

lemma same_segment:
  fixes n base :: nat
  assumes "32 dvd n" and "(n + 32) mod 512 \<noteq> 0" and "512 dvd base"
  shows "(base + (n + 32)) div 512 = (base + n) div 512"
proof -
  from assms(1) obtain k where k: "n = 32 * k" by (elim dvdE)
  have "(Suc k) div 16 = k div 16"
  proof (rule ccontr)
    assume "Suc k div 16 \<noteq> k div 16"
    then have "Suc k mod 16 = 0" by (simp add: div_Suc split: if_splits)
    then have "(32 * Suc k) mod (32 * 16) = 0" by (simp only: mult_mod_right [symmetric] mult_0_right)
    with assms(2) k show False by (simp add: add.commute)
  qed
  moreover have "(32 * Suc k) div (32 * 16) = Suc k div 16" "(32 * k) div (32 * 16) = k div 16"
    by (simp_all only: div_mult_mult1 [OF zero_neq_numeral [symmetric]])
  ultimately have "(n + 32) div 512 = n div 512" using k by (simp add: add.commute)
  with assms(3) show ?thesis by (simp add: div_plus_div_distrib_dvd_left)
qed

lemma write_chunk_burnt:
  assumes hw: "flash_hw_ok (flash_store env)"
    and base: "512 dvd unat base" and ram: "unat (datamemory env) + 32 \<le> unat base"
    and fp: "unat p = unat base + n" and n: "32 dvd n" and top: "unat base + n + 32 < 65536"
    and b: "elfstore_read d q 32 = Some b" "unat q = off + n"
    and bn: "burnt base d off n (mem s)"
  shows "burnt base d off (n + 32) (mem (write_chunk env b p s))"
proof -
  have len: "length b = 32" using b(1) by (rule elfstore_read_length)
  have bk: "b ! k = d ! (off + n + k)" if "k < 32" for k
    using elfstore_read_nth [OF b(1) that] b(2) by simp
  have al: "512 dvd unat p \<longleftrightarrow> n mod 512 = 0"
    using base fp by (simp add: dvd_eq_mod_eq_0 mod_add_eq) (metis add_0 mod_add_left_eq)
  have ev: "even (unat p)"
    using base n fp by (metis dvd_add dvd_trans even_numeral dvd_def mult_2 numeral_Bit0)
  have nseg: "(n + 31) div 512 = n div 512" using n by (auto elim!: dvdE)
  have pseg: "(unat base + n + k) div 512 = (unat base + n) div 512" if "k < 32" for k
    using base n that by (auto elim!: dvdE)
  have er: "512 dvd unat p \<or> (\<forall>x. inr p 32 x \<longrightarrow> mem s x = 0xFF)"
  proof (cases "n mod 512 = 0")
    case False
    have "mem s x = 0xFF" if "inr p 32 x" for x
    proof -
      have "unat x = unat base + n + (unat x - unat p)" "unat x - unat p < 32"
        using that fp by (auto simp: inr_def)
      then have "unat x div 512 = (unat base + n) div 512" using pseg by metis
      then show ?thesis using bn False that fp by (simp add: burnt_def inr_def)
    qed
    then show ?thesis by blast
  qed (simp add: al)
  have ramp: "unat (datamemory env) + 32 \<le> unat p" using ram fp by simp
  have "unat p + 32 < 65536" using top fp by simp
  note m = write_chunk_mem [OF hw len ramp ev this er]
  have dm: "mem_write (mem s) (datamemory env) b x = mem s x" if "unat base \<le> unat x" for x
  proof -
    have "datamemory env \<le> x" using ram that by (simp add: word_le_nat_alt)
    then have "unat (x - datamemory env) = unat x - unat (datamemory env)" by (rule unat_sub_small)
    then have "\<not> unat (x - datamemory env) < length b" using ram that len by linarith
    then show ?thesis by (simp only: mem_write_def if_False)
  qed
  show ?thesis
    unfolding burnt_def
  proof (intro conjI impI allI)
    fix x :: u16 assume x: "unat base \<le> unat x \<and> unat x < unat base + (n + 32)"
    show "mem (write_chunk env b p s) x = d ! (off + (unat x - unat base))"
    proof (cases "inr p 32 x")
      case True
      then have "unat x - unat p < 32" "off + n + (unat x - unat p) = off + (unat x - unat base)"
        using fp by (auto simp: inr_def)
      with bk [of "unat x - unat p"] True m show ?thesis by simp
    next
      case False
      then have lt: "unat x < unat base + n" using x fp by (auto simp: inr_def)
      have "\<not> (512 dvd unat p \<and> unat x div 512 = unat p div 512)"
        using lt fp by (metis dvd_div_mult_self leD div_times_less_eq_dividend)
      with False m [of x] dm [of x] x have "mem (write_chunk env b p s) x = mem s x"
        by (simp only: if_False)
      with lt x bn show ?thesis by (simp add: burnt_def)
    qed
  next
    fix x :: u16 assume ne: "(n + 32) mod 512 \<noteq> 0"
      and x: "unat base + (n + 32) \<le> unat x \<and> unat x div 512 = (unat base + (n + 32)) div 512"
    have same: "(unat base + (n + 32)) div 512 = (unat base + n) div 512"
      by (rule same_segment [OF n ne base])
    have ni: "\<not> inr p 32 x" using x fp by (auto simp: inr_def)
    show "mem (write_chunk env b p s) x = 0xFF"
    proof (cases "512 dvd unat p")
      case True
      with ni m x same fp show ?thesis by simp
    next
      case False
      with bn al x same have "mem s x = 0xFF" by (simp add: burnt_def)
      with False ni m dm x show ?thesis by simp
    qed
  qed
qed

text \<open>All chunks: \<open>ptr\<close> bytes are done when the loop is at \<open>ptr\<close>.\<close>

lemma write_rom_loop_burnt:
  assumes hw: "flash_hw_ok (flash_store env)" and base: "512 dvd unat base"
    and ram: "unat (datamemory env) + 32 \<le> unat base"
    and top: "unat base + unat sz + 64 < 65536" and src: "unat off + unat sz + 31 \<le> length d"
      "unat off + unat sz + 31 \<le> ELFSTORE_SIZE"
  shows "burnt base d (unat off) (unat ptr) (mem s) \<Longrightarrow> 32 dvd unat ptr \<Longrightarrow> unat ptr < unat sz + 32 \<Longrightarrow>
    \<exists>s'. write_rom_loop env d off sz ptr (base + ptr) s = Some s' \<and>
      (\<exists>n. unat sz \<le> n \<and> burnt base d (unat off) n (mem s'))"
proof (induction "unat sz + 32 - unat ptr" arbitrary: ptr s rule: less_induct)
  case less
  have np: "unat (base + ptr) = unat base + unat ptr" and nq: "unat (ptr + 32) = unat ptr + 32"
    using top less.prems(3) by (simp_all add: unat_add_u16)
  show ?case
  proof (cases "ptr < sz")
    case False
    then have "unat sz \<le> unat ptr" by (simp add: word_less_nat_alt)
    with False less.prems(1) show ?thesis
      by (auto simp: write_rom_loop.simps [of env d off sz ptr] intro!: exI [of _ "unat ptr"])
  next
    case True
    then have lt: "unat ptr < unat sz" by (simp add: word_less_nat_alt)
    have q: "unat (off + ptr) = unat off + unat ptr"
      using src(2) lt by (simp add: unat_add_u16 ELFSTORE_SIZE_def)
    obtain b where b: "elfstore_read d (off + ptr) 32 = Some b"
      using src lt q by (auto simp: elfstore_read_def rd_block_def)
    let ?s = "write_chunk env b (base + ptr) s"
    have bn: "burnt base d (unat off) (unat (ptr + 32)) (mem ?s)"
      unfolding nq using top lt less.prems
      by (intro write_chunk_burnt [OF hw base ram np _ _ b q]) auto
    have "unat (ptr + 32) < unat sz + 32" using nq lt by simp
    moreover have "32 dvd unat (ptr + 32)" using nq less.prems(2) by simp
    moreover have "unat sz + 32 - unat (ptr + 32) < unat sz + 32 - unat ptr" using nq lt by linarith
    ultimately obtain s' where
      "write_rom_loop env d off sz (ptr + 32) (base + (ptr + 32)) ?s = Some s'"
      "\<exists>n. unat sz \<le> n \<and> burnt base d (unat off) n (mem s')"
      using less.hyps [of "ptr + 32" ?s] bn by blast
    with True b show ?thesis
      by (simp add: write_rom_loop.simps [of env d off sz ptr] READSIZE_def ac_simps)
  qed
qed

lemma write_rom_regs:
  "write_rom_loop env d off sz ptr p s = Some s' \<Longrightarrow>
     ie1 s' = ie1 s \<and> ie2 s' = ie2 s \<and> IE1 s' = IE1 s \<and> IE2 s' = IE2 s \<and> WDTCTL s' = WDTCTL s"
proof (induction env d off sz ptr p s rule: write_rom_loop.induct)
  case (1 env d off sz ptr p s)
  have burn: "ie1 (burn hw n src q u) = ie1 u \<and> ie2 (burn hw n src q u) = ie2 u \<and>
      IE1 (burn hw n src q u) = IE1 u \<and> IE2 (burn hw n src q u) = IE2 u \<and>
      WDTCTL (burn hw n src q u) = WDTCTL u" for hw n src q u
    by (induction hw n src q u rule: burn.induct) (simp_all add: flash_write_def)
  have chunk: "ie1 (write_chunk env b p s) = ie1 s \<and> ie2 (write_chunk env b p s) = ie2 s \<and>
      IE1 (write_chunk env b p s) = IE1 s \<and> IE2 (write_chunk env b p s) = IE2 s \<and>
      WDTCTL (write_chunk env b p s) = WDTCTL s" for b
    by (simp add: write_chunk_def Let_def burn flash_clear_def)
  show ?case
  proof (cases "ptr < sz")
    case True
    with "1.prems" obtain b where b: "elfstore_read d (off + ptr) READSIZE = Some b"
      and rec: "write_rom_loop env d off sz (ptr + 32) (p + 32) (write_chunk env b p s) = Some s'"
      by (subst (asm) write_rom_loop.simps) (auto split: option.splits)
    from "1.IH" [OF True b rec] chunk [of b] show ?thesis by simp
  next
    case False
    with 1 show ?thesis by (simp add: write_rom_loop.simps [of env d off sz ptr])
  qed
qed

definition rom_fits :: "node_env \<Rightarrow> u8 list \<Rightarrow> u16 \<Rightarrow> u16 \<Rightarrow> u16 \<Rightarrow> bool" where
  "rom_fits env d off sz base \<longleftrightarrow> 512 dvd unat base \<and>
     unat (datamemory env) + 32 \<le> unat base \<and> unat base + unat sz + 64 < 65536 \<and>
     unat off + unat sz + 31 \<le> length d \<and> unat off + unat sz + 31 \<le> ELFSTORE_SIZE"

lemma write_rom_ok:
  assumes "flash_hw_ok (flash_store env)" and "rom_fits env d off sz base"
  shows "\<exists>s'. elfloader_arch_write_rom env d off sz base s = Some s' \<and>
    (\<forall>k < unat sz. mem s' (base + of_nat k) = d ! (unat off + k)) \<and>
    IE1 s' = IE1 s \<and> IE2 s' = IE2 s \<and> GIE s'"
proof -
  have "burnt base d (unat off) (unat (0 :: u16)) (mem (flash_setup s))"
    by (auto simp: burnt_def)
  with assms obtain s' n where s': "write_rom_loop env d off sz 0 (base + 0) (flash_setup s) = Some s'"
    "unat sz \<le> n" "burnt base d (unat off) n (mem s')"
    unfolding rom_fits_def
    by (metis write_rom_loop_burnt dvd_0_right unat_0 zero_less_numeral add_pos_nonneg trans_less_add2)
  have "mem s' (base + of_nat k) = d ! (unat off + k)" if k: "k < unat sz" for k
  proof -
    have "unat (base + of_nat k) = unat base + k"
      using k assms(2) by (simp add: rom_fits_def unat_add_u16 unat_of_nat_small_u16)
    with s'(2,3) k show ?thesis by (auto simp: burnt_def)
  qed
  moreover have "IE1 (flash_done s') = IE1 s" "IE2 (flash_done s') = IE2 s"
    using write_rom_regs [OF s'(1)] by (simp_all add: flash_done_def flash_setup_def ucast_up_down)
  ultimately show ?thesis
    using s'(1) by (simp add: elfloader_arch_write_rom_def) (simp add: flash_done_def)
qed

end
