(* ===== verification/Elf_Load.thy ===== *)
theory Elf_Load
  imports Elf_Relocation Elf_Flash
begin

text \<open>
  The whole of \<open>elfloader_load\<close>: its error statuses, what the search for a symbol returns,
  and the theorem that a well-formed module ends up relocated in flash, with its data and
  cleared bss in RAM and with the addresses of its \<open>load\<close> and \<open>unload\<close> functions set.
\<close>

section \<open>Block writes to memory\<close>

lemma mem_write_at:
  assumes "k < length bs" and "k < 65536"
  shows "mem_write m a bs (a + of_nat k) = bs ! k"
  using assms by (simp add: mem_write_def unat_of_nat_small_u16)

lemma mem_write_above:
  assumes "unat a + length bs \<le> unat x"
  shows "mem_write m a bs x = m x"
proof -
  have "a \<le> x" using assms by (simp add: word_le_nat_alt)
  then have "unat (x - a) = unat x - unat a" by (rule unat_sub_small)
  then have "\<not> unat (x - a) < length bs" using assms by linarith
  then show ?thesis by (simp only: mem_write_def if_False)
qed

lemma mem_write_below:
  assumes "unat x < unat a" and "unat a + length bs \<le> 65536"
  shows "mem_write m a bs x = m x"
proof -
  have "unat (x - a) = (unat x + 65536 - unat a) mod 65536"
    using assms(1) by (simp add: unat_sub_if_size word_le_nat_alt word_size)
  also have "\<dots> = unat x + 65536 - unat a" using assms(1) by simp
  finally have "\<not> unat (x - a) < length bs" using assms(2) by linarith
  then show ?thesis by (simp only: mem_write_def if_False)
qed

section \<open>The symbol search\<close>

text \<open>An address found is that of a named entry of the symbol table with an equal name,
  in \<open>.bss\<close>, \<open>.data\<close> or \<open>.text\<close>.\<close>

definition symbol_at ::
    "u8 list \<Rightarrow> segments \<Rightarrow> u8 list \<Rightarrow> u16 \<Rightarrow> u16 \<Rightarrow> u16 \<Rightarrow> bool" where
  "symbol_at d sg symbol strtab so addr \<longleftrightarrow>
     (\<exists>sb name. elfstore_read d so 16 = Some sb \<and> st_name (decode_sym sb) \<noteq> 0 \<and>
        read_name d strtab (decode_sym sb) = Some name \<and> strcmp_eq name symbol = Some True \<and>
        addr = local_symbol_address sg (decode_sym sb))"

lemma find_local_loop_sound:
  "find_local_loop d sg symbol symend strtab a = Some addr \<Longrightarrow> addr \<noteq> 0 \<Longrightarrow>
     \<exists>k. unat a + 16 * k < unat symend \<and> symbol_at d sg symbol strtab (a + of_nat (16 * k)) addr"
proof (induction d sg symbol symend strtab a rule: find_local_loop.induct)
  case (1 d sg symbol symend strtab a)
  have lt: "a < symend" using "1.prems" by (subst (asm) find_local_loop.simps) (auto split: if_splits)
  obtain sb where sb: "elfstore_read d a 16 = Some sb"
    using "1.prems" lt by (subst (asm) find_local_loop.simps) (auto split: option.splits)
  let ?s = "decode_sym sb"
  have up: "unat (a + 16) = unat a + 16" by (rule elfstore_step [OF sb]) simp
  have shift: "\<exists>k. unat a + 16 * k < unat symend \<and> symbol_at d sg symbol strtab (a + of_nat (16 * k)) addr"
    if "\<exists>k. unat (a + 16) + 16 * k < unat symend \<and>
      symbol_at d sg symbol strtab (a + 16 + of_nat (16 * k)) addr"
  proof -
    from that obtain k where k: "unat (a + 16) + 16 * k < unat symend"
      "symbol_at d sg symbol strtab (a + 16 + of_nat (16 * k)) addr" by blast
    have "a + 16 + of_nat (16 * k) = a + of_nat (16 * Suc k)" by simp
    with k up show ?thesis by (intro exI [of _ "Suc k"]) (simp add: add.assoc)
  qed
  show ?case
  proof (cases "st_name ?s \<noteq> 0")
    case False
    with "1.prems" lt sb "1.IH"(2) [OF lt sb] show ?thesis
      by (intro shift) (subst (asm) (1) find_local_loop.simps, simp)
  next
    case True
    with "1.prems" lt sb obtain eq where
      eq: "Option.bind (read_name d strtab ?s) (\<lambda>name. strcmp_eq name symbol) = Some eq"
      by (subst (asm) find_local_loop.simps) (auto split: option.splits)
    show ?thesis
    proof (cases eq)
      case False
      with "1.prems" lt sb eq True "1.IH"(1) [OF lt sb True] show ?thesis
        by (intro shift) (subst (asm) (1) find_local_loop.simps, simp)
    next
      case T: True
      with "1.prems" lt sb eq True have "addr = local_symbol_address sg ?s"
        by (subst (asm) find_local_loop.simps) simp
      with eq T True sb have "symbol_at d sg symbol strtab a addr"
        by (auto simp: symbol_at_def bind_eq_Some_conv)
      with lt show ?thesis by (intro exI [of _ 0]) (simp add: word_less_nat_alt)
    qed
  qed
qed

lemma find_local_symbol_sound:
  assumes "find_local_symbol d sg symbol symtab symtabsz strtab = Some addr" and "addr \<noteq> 0"
  shows "\<exists>k. symbol_at d sg symbol strtab (symtab + of_nat (16 * k)) addr"
  using find_local_loop_sound assms unfolding find_local_symbol_def by blast

text \<open>The search gives the same answer on an object that was patched by a safe plan.\<close>

lemma patched_agree: "patched ps d d' \<Longrightarrow> agree_off d' d ps"
  by (simp add: patched_def agree_off_def)

lemma find_local_patched:
  assumes "patched ps d d'" and "plan_safe d ra ps"
  shows "find_local_symbol d' sg symbol (ra_symtab ra) (ra_symtabsize ra) (ra_strtab ra) =
    find_local_symbol d sg symbol (ra_symtab ra) (ra_symtabsize ra) (ra_strtab ra)"
proof -
  have "list_all (same_on d' d) (search_ranges d ra)"
    using assms(2) agree_off_same_on [OF patched_agree [OF assms(1)]]
    by (auto simp: plan_safe_def list_all_iff)
  with assms(1) show ?thesis
    unfolding find_local_symbol_def
    by (intro find_local_same [where k = 0]) (simp_all add: patched_def)
qed

section \<open>A module that can be loaded\<close>

text \<open>The conditions on the object and the node, each about the object as received: a good
  header, the sections found, only the text segment relocated (a plan that is safe), both
  start points among its symbols, and room in flash, in RAM and in the store.\<close>

definition text_reloc :: "scan \<Rightarrow> reloc_args" where
  "text_reloc sc = reloc_args_of sc (textoff sc)"

definition loadable :: "node_env \<Rightarrow> loader \<Rightarrow> segments \<Rightarrow> scan \<Rightarrow> patch list \<Rightarrow> u16 \<Rightarrow> u16 \<Rightarrow> bool" where
  "loadable env st sg sc ps f g \<longleftrightarrow>
     map_option header_ok (elfstore_read (elf_data st) 0 52) = Some True \<and>
     scan_headers st = Some (sg, sc) \<and>
     symtabsize sc \<noteq> 0 \<and> strtabsize sc \<noteq> 0 \<and> textsize sc \<noteq> 0 \<and>
     rodatasize sc = 0 \<and> rodatarelasize sc = 0 \<and> datarelasize sc = 0 \<and> textrelasize sc \<noteq> 0 \<and>
     reloc_plan env (allocate_segments env sc sg) (text_reloc sc) (textrelaoff sc + textrelasize sc)
       (elf_data st) (textrelaoff sc) = Some ps \<and>
     plan_safe (elf_data st) (text_reloc sc) ps \<and>
     rom_fits env (elf_data st) (textoff sc) (textsize sc) (address (s_text (allocate_segments env sc sg))) \<and>
     unat (datamemory env) + unat (bsssize sc) + unat (datasize sc)
       \<le> unat (address (s_text (allocate_segments env sc sg))) \<and>
     elfstore_read (elf_data st) (dataoff sc) (unat (datasize sc)) \<noteq> None \<and>
     find_local_symbol (elf_data st) (allocate_segments env sc sg) (cstring ''load'')
       (symtaboff sc) (symtabsize sc) (strtaboff sc) = Some f \<and> f \<noteq> 0 \<and>
     find_local_symbol (elf_data st) (allocate_segments env sc sg) (cstring ''unload'')
       (symtaboff sc) (symtabsize sc) (strtaboff sc) = Some g \<and> g \<noteq> 0"

text \<open>What is in memory afterwards, for the store contents \<open>d\<close> (patched).\<close>

definition installed :: "node_env \<Rightarrow> segments \<Rightarrow> scan \<Rightarrow> u8 list \<Rightarrow> memory \<Rightarrow> bool" where
  "installed env sg sc d m \<longleftrightarrow>
     (\<forall>k < unat (textsize sc). m (address (s_text sg) + of_nat k) = d ! (unat (textoff sc) + k)) \<and>
     (\<forall>k < unat (datasize sc). m (address (s_data sg) + of_nat k) = d ! (unat (dataoff sc) + k)) \<and>
     (\<forall>k < unat (bsssize sc). m (address (s_bss sg) + of_nat k) = 0)"

lemma installedI:
  fixes sc env sg d m
  defines "sg' \<equiv> allocate_segments env sc sg"
  assumes rom: "\<forall>k < unat (textsize sc). m (address (s_text sg') + of_nat k) = d ! (unat (textoff sc) + k)"
    and top: "unat (address (s_text sg')) + unat (textsize sc) < 65536"
    and ram: "unat (datamemory env) + unat (bsssize sc) + unat (datasize sc) \<le> unat (address (s_text sg'))"
    and db: "elfstore_read d (dataoff sc) (unat (datasize sc)) = Some db"
  shows "installed env sg' sc d (mem_write (mem_write m (address (s_bss sg'))
    (replicate (unat (bsssize sc)) 0)) (address (s_data sg')) db)"
proof -
  have len: "length db = unat (datasize sc)" using db by (rule elfstore_read_length)
  have ba: "address (s_bss sg') = datamemory env" "address (s_data sg') = datamemory env + bsssize sc"
    by (simp_all add: sg'_def allocate_segments_def Let_def elfloader_arch_allocate_ram_def)
  have da: "unat (datamemory env + bsssize sc) = unat (datamemory env) + unat (bsssize sc)"
    using ram unat_u16_less [of "address (s_text sg')"] by (intro unat_add_u16_small) linarith
  have hi: "unat (address (s_text sg') + of_nat k) = unat (address (s_text sg')) + k"
    if "k < unat (textsize sc)" for k
    using that top by (simp add: unat_add_u16 unat_of_nat_small_u16)
  have lo: "unat (datamemory env + of_nat k) = unat (datamemory env) + k" if "k < unat (bsssize sc)" for k
  proof -
    have "k < 65536" "unat (datamemory env) + k < 65536"
      using that ram unat_u16_less [of "address (s_text sg')"] by linarith+
    then show ?thesis by (simp add: unat_add_u16 unat_of_nat_small_u16)
  qed
  let ?m1 = "mem_write m (datamemory env) (replicate (unat (bsssize sc)) 0)"
  let ?m2 = "mem_write ?m1 (datamemory env + bsssize sc) db"
  have "?m2 (address (s_text sg') + of_nat k) = m (address (s_text sg') + of_nat k)"
    if "k < unat (textsize sc)" for k
    using that ram da len hi [OF that] by (simp add: mem_write_above)
  moreover have "?m2 (datamemory env + bsssize sc + of_nat k) = d ! (unat (dataoff sc) + k)"
    if "k < unat (datasize sc)" for k
  proof -
    have "k < 65536" using that unat_u16_less [of "datasize sc"] by linarith
    then show ?thesis using that len elfstore_read_nth [OF db that] by (simp add: mem_write_at)
  qed
  moreover have "?m2 (datamemory env + of_nat k) = 0" if "k < unat (bsssize sc)" for k
  proof -
    have "unat (datamemory env) + unat (bsssize sc) + unat (datasize sc) \<le> 65536"
      using ram unat_u16_less [of "address (s_text sg')"] by linarith
    then have "?m2 (datamemory env + of_nat k) = ?m1 (datamemory env + of_nat k)"
      using that lo [OF that] da len by (intro mem_write_below) auto
    moreover have "k < 65536" using that unat_u16_less [of "bsssize sc"] by linarith
    then have "?m1 (datamemory env + of_nat k) = 0" using that by (simp add: mem_write_at)
    ultimately show ?thesis by simp
  qed
  ultimately show ?thesis using rom by (simp add: installed_def ba)
qed

lemma loadable_relocate:
  assumes "loadable env st sg sc ps f g"
  defines "sg' \<equiv> allocate_segments env sc sg"
  obtains d' where "relocate_all env sc (st\<lparr>segs := sg'\<rparr>) = Some (ELFLOADER_OK, st\<lparr>segs := sg', elf_data := d'\<rparr>)"
    and "patched ps (elf_data st) d'"
proof -
  let ?ra = "text_reloc sc"
  have "agree_off (elf_data st) (elf_data st) []" by (simp add: agree_off_def)
  with assms obtain d' where
    d': "relocate_loop env sg' ?ra (textrelaoff sc + textrelasize sc) (textrelaoff sc) (elf_data st)
      = Some (ELFLOADER_OK, None, d')" "patched ps (elf_data st) d'"
    using relocate_loop_plan [OF _ _ plan_safe_start] unfolding loadable_def by blast
  have "relocate_step env sc (textrelaoff sc) (textrelasize sc) (textoff sc) (st\<lparr>segs := sg'\<rparr>)
      = Some (ELFLOADER_OK, st\<lparr>segs := sg', elf_data := d'\<rparr>)"
    using assms d'(1)
    by (simp add: relocate_step_def relocate_section_def text_reloc_def loadable_def word_gt_0)
  moreover have "relocate_step env sc off 0 x s = Some (ELFLOADER_OK, s)" for off x s
    by (simp add: relocate_step_def)
  ultimately have "relocate_all env sc (st\<lparr>segs := sg'\<rparr>) = Some (ELFLOADER_OK, st\<lparr>segs := sg', elf_data := d'\<rparr>)"
    using assms by (simp add: relocate_all_def loadable_def)
  with d'(2) show ?thesis by (rule that [rotated])
qed

lemma load_init_segs: "scan_headers (st\<lparr>loaded_load := a, loaded_unload := b, elfloader_unknown := u\<rparr>)
    = scan_headers st"
  by (simp add: scan_headers_def Let_def)

lemma install_ok:
  fixes env sc sg d st
  defines "sg' \<equiv> allocate_segments env sc sg"
  assumes hw: "flash_hw_ok (flash_store env)" and st: "segs st = sg'" "elf_data st = d"
    and sizes: "textsize sc \<noteq> 0" "rodatasize sc = 0"
    and fits: "rom_fits env d (textoff sc) (textsize sc) (address (s_text sg'))"
    and ram: "unat (datamemory env) + unat (bsssize sc) + unat (datasize sc) \<le> unat (address (s_text sg'))"
    and db: "elfstore_read d (dataoff sc) (unat (datasize sc)) = Some db"
    and f: "find_local_symbol d sg' (cstring ''load'') (symtaboff sc) (symtabsize sc) (strtaboff sc) = Some f"
      "f \<noteq> 0"
    and g: "find_local_symbol d sg' (cstring ''unload'') (symtaboff sc) (symtabsize sc) (strtaboff sc) = Some g"
      "g \<noteq> 0"
  shows "\<exists>c. install env sc st = Some (ELFLOADER_OK, st\<lparr>cpu := c, loaded_load := f, loaded_unload := g\<rparr>) \<and>
    installed env sg' sc d (mem c) \<and> IE1 c = IE1 (cpu st) \<and> IE2 c = IE2 (cpu st)"
proof -
  from write_rom_ok [OF hw fits, of "cpu st"] obtain c where
    c: "elfloader_arch_write_rom env d (textoff sc) (textsize sc) (address (s_text sg')) (cpu st) = Some c"
    "\<forall>k < unat (textsize sc). mem c (address (s_text sg') + of_nat k) = d ! (unat (textoff sc) + k)"
    "IE1 c = IE1 (cpu st)" "IE2 c = IE2 (cpu st)" by blast
  have top: "unat (address (s_text sg')) + unat (textsize sc) < 65536"
    using fits by (simp add: rom_fits_def)
  let ?c = "c\<lparr>mem := mem_write (mem_write (mem c) (address (s_bss sg'))
    (replicate (unat (bsssize sc)) 0)) (address (s_data sg')) db\<rparr>"
  have "install env sc st = Some (ELFLOADER_OK, st\<lparr>cpu := ?c, loaded_load := f, loaded_unload := g\<rparr>)"
    using c(1) st sizes db f g
    by (simp add: install_def write_step_def set_start_points_def find_start_def Let_def word_gt_0)
  moreover have "installed env sg' sc d (mem ?c)"
    using installedI [OF c(2) [unfolded sg'_def] top [unfolded sg'_def] ram [unfolded sg'_def] db]
    by (simp add: sg'_def)
  ultimately show ?thesis using c(3,4) by (intro exI [of _ ?c]) simp
qed

lemma rom_fits_length: "rom_fits env d off sz base \<Longrightarrow> length d' = length d \<Longrightarrow> rom_fits env d' off sz base"
  by (simp add: rom_fits_def)

lemma elfstore_read_length_cong:
  "elfstore_read d off n \<noteq> None \<Longrightarrow> length d' = length d \<Longrightarrow> \<exists>b. elfstore_read d' off n = Some b"
  by (auto simp: elfstore_read_def rd_block_def split: if_splits)

lemma elfloader_load_ok:
  assumes hw: "flash_hw_ok (flash_store env)" and l: "loadable env st sg sc ps f g"
  shows "\<exists>st'. elfloader_load env st = Some (ELFLOADER_OK, st') \<and>
    patched ps (elf_data st) (elf_data st') \<and>
    installed env (allocate_segments env sc sg) sc (elf_data st') (mem (cpu st')) \<and>
    loaded_load st' = f \<and> loaded_unload st' = g \<and>
    IE1 (cpu st') = IE1 (cpu st) \<and> IE2 (cpu st') = IE2 (cpu st)"
proof -
  let ?sg = "allocate_segments env sc sg"
  let ?st0 = "st\<lparr>loaded_load := 0, loaded_unload := 0, elfloader_unknown := (elfloader_unknown st)[0 := 0]\<rparr>"
  have l0: "loadable env ?st0 sg sc ps f g"
    using l unfolding loadable_def load_init_segs by simp
  obtain d' where rel: "relocate_all env sc (?st0\<lparr>segs := ?sg\<rparr>) =
      Some (ELFLOADER_OK, ?st0\<lparr>segs := ?sg, elf_data := d'\<rparr>)" and p: "patched ps (elf_data st) d'"
    by (rule loadable_relocate [OF l0]) simp
  have len: "length d' = length (elf_data st)" using p by (simp add: patched_def)
  have safe: "plan_safe (elf_data st) (text_reloc sc) ps" using l by (simp add: loadable_def)
  obtain db where db: "elfstore_read d' (dataoff sc) (unat (datasize sc)) = Some db"
    using l elfstore_read_length_cong [OF _ len] by (auto simp: loadable_def)
  have find: "find_local_symbol d' ?sg nm (symtaboff sc) (symtabsize sc) (strtaboff sc) =
      find_local_symbol (elf_data st) ?sg nm (symtaboff sc) (symtabsize sc) (strtaboff sc)" for nm
    using find_local_patched [OF p safe, of ?sg nm] by (simp add: text_reloc_def reloc_args_of_def)
  let ?st1 = "?st0\<lparr>segs := ?sg, elf_data := d'\<rparr>"
  have "\<exists>c. install env sc ?st1 = Some (ELFLOADER_OK, ?st1\<lparr>cpu := c, loaded_load := f, loaded_unload := g\<rparr>) \<and>
      installed env ?sg sc d' (mem c) \<and> IE1 c = IE1 (cpu ?st1) \<and> IE2 c = IE2 (cpu ?st1)"
    using l rom_fits_length [OF _ len] find
    by (intro install_ok [OF hw _ _ _ _ _ _ db]) (auto simp: loadable_def)
  then obtain c where c: "install env sc ?st1 =
      Some (ELFLOADER_OK, ?st1\<lparr>cpu := c, loaded_load := f, loaded_unload := g\<rparr>)"
    "installed env ?sg sc d' (mem c)" "IE1 c = IE1 (cpu st)" "IE2 c = IE2 (cpu st)" by auto
  have "elfloader_load env st = Some (ELFLOADER_OK, ?st1\<lparr>cpu := c, loaded_load := f, loaded_unload := g\<rparr>)"
    using l rel c(1)
    by (auto simp: elfloader_load_def loadable_def Let_def load_init_segs)
  with p c(2-4) show ?thesis by simp
qed

section \<open>Error statuses\<close>

lemma elfloader_load_bad_header:
  assumes "elfstore_read (elf_data st) 0 52 = Some hb" and "\<not> header_ok hb"
  shows "elfloader_load env st = Some (ELFLOADER_BAD_ELF_HEADER,
    st\<lparr>loaded_load := 0, loaded_unload := 0, elfloader_unknown := (elfloader_unknown st)[0 := 0]\<rparr>)"
  using assms by (simp add: elfloader_load_def Let_def)

definition missing_section :: "scan \<Rightarrow> elf_status option" where
  "missing_section sc =
     (if symtabsize sc = 0 then Some ELFLOADER_NO_SYMTAB
      else if strtabsize sc = 0 then Some ELFLOADER_NO_STRTAB
      else if textsize sc = 0 then Some ELFLOADER_NO_TEXT else None)"

lemma elfloader_load_missing:
  assumes "elfstore_read (elf_data st) 0 52 = Some hb" and "header_ok hb"
    and "scan_headers st = Some (sg, sc)" and "missing_section sc = Some e"
  shows "elfloader_load env st = Some (e,
    st\<lparr>loaded_load := 0, loaded_unload := 0, elfloader_unknown := (elfloader_unknown st)[0 := 0], segs := sg\<rparr>)"
  using assms by (auto simp: elfloader_load_def Let_def load_init_segs missing_section_def split: if_splits)

end
