(* ===== verification/Elf_Sample.thy ===== *)
theory Elf_Sample
  imports Elf_Load
begin

text \<open>
  A small relocatable object, byte for byte, and a node to load it on, at which the
  theorems about the linker are applied: 8 bytes of text with two relocations (against
  \<open>cnt\<close>, at offset 2 of \<open>.data\<close>, with addend 1, and against the kernel's \<open>puts\<close>), 4 bytes of
  data, 6 bytes of bss, the functions \<open>load\<close> and \<open>unload\<close>.  A second object has the
  symbol \<open>tab\<close> in \<open>.rodata\<close> instead.
\<close>

section \<open>The objects\<close>

definition sample_object :: "u8 list" where
  "sample_object = [
    127, 69, 76, 70, 1, 1, 1, 0, 0, 0, 0, 0, 0, 0, 0, 0, 1, 0, 105, 0, 1, 0, 0, 0, 0, 0, 0, 0,
    0, 0, 0, 0, 246, 0, 0, 0, 0, 0, 0, 0, 52, 0, 0, 0, 0, 0, 40, 0, 8, 0, 7, 0, 48, 64, 0, 0,
    176, 18, 0, 0, 1, 2, 3, 4, 2, 0, 0, 0, 5, 4, 0, 0, 1, 0, 0, 0, 6, 0, 0, 0, 5, 3, 0, 0, 0,
    0, 0, 0, 0, 0, 0, 0, 0, 0, 0, 0, 0, 0, 0, 0, 0, 0, 0, 0, 1, 0, 0, 0, 0, 0, 0, 0, 0, 0, 0,
    0, 18, 0, 1, 0, 6, 0, 0, 0, 4, 0, 0, 0, 0, 0, 0, 0, 18, 0, 1, 0, 13, 0, 0, 0, 0, 0, 0, 0,
    0, 0, 0, 0, 18, 0, 0, 0, 18, 0, 0, 0, 2, 0, 0, 0, 0, 0, 0, 0, 18, 0, 3, 0, 0, 108, 111, 97,
    100, 0, 117, 110, 108, 111, 97, 100, 0, 112, 117, 116, 115, 0, 99, 110, 116, 0, 0, 46, 116,
    101, 120, 116, 0, 46, 114, 101, 108, 97, 46, 116, 101, 120, 116, 0, 46, 100, 97, 116, 97,
    0, 46, 98, 115, 115, 0, 46, 115, 121, 109, 116, 97, 98, 0, 46, 115, 116, 114, 116, 97, 98,
    0, 46, 115, 104, 115, 116, 114, 116, 97, 98, 0, 0, 0, 0, 0, 0, 0, 0, 0, 0, 0, 0, 0, 0, 0,
    0, 0, 0, 0, 0, 0, 0, 0, 0, 0, 0, 0, 0, 0, 0, 0, 0, 0, 0, 0, 0, 0, 0, 0, 0, 0, 0, 1, 0, 0,
    0, 0, 0, 0, 0, 0, 0, 0, 0, 0, 0, 0, 0, 52, 0, 0, 0, 8, 0, 0, 0, 0, 0, 0, 0, 0, 0, 0, 0, 0,
    0, 0, 0, 0, 0, 0, 0, 7, 0, 0, 0, 0, 0, 0, 0, 0, 0, 0, 0, 0, 0, 0, 0, 64, 0, 0, 0, 24, 0, 0,
    0, 0, 0, 0, 0, 0, 0, 0, 0, 0, 0, 0, 0, 0, 0, 0, 0, 18, 0, 0, 0, 0, 0, 0, 0, 0, 0, 0, 0, 0,
    0, 0, 0, 60, 0, 0, 0, 4, 0, 0, 0, 0, 0, 0, 0, 0, 0, 0, 0, 0, 0, 0, 0, 0, 0, 0, 0, 24, 0, 0,
    0, 0, 0, 0, 0, 0, 0, 0, 0, 0, 0, 0, 0, 0, 0, 0, 0, 6, 0, 0, 0, 0, 0, 0, 0, 0, 0, 0, 0, 0,
    0, 0, 0, 0, 0, 0, 0, 29, 0, 0, 0, 0, 0, 0, 0, 0, 0, 0, 0, 0, 0, 0, 0, 88, 0, 0, 0, 80, 0,
    0, 0, 0, 0, 0, 0, 0, 0, 0, 0, 0, 0, 0, 0, 0, 0, 0, 0, 37, 0, 0, 0, 0, 0, 0, 0, 0, 0, 0, 0,
    0, 0, 0, 0, 168, 0, 0, 0, 22, 0, 0, 0, 0, 0, 0, 0, 0, 0, 0, 0, 0, 0, 0, 0, 0, 0, 0, 0, 45,
    0, 0, 0, 0, 0, 0, 0, 0, 0, 0, 0, 0, 0, 0, 0, 190, 0, 0, 0, 55, 0, 0, 0, 0, 0, 0, 0, 0, 0,
    0, 0, 0, 0, 0, 0, 0, 0, 0, 0]"

definition rodata_object :: "u8 list" where
  "rodata_object = [
    127, 69, 76, 70, 1, 1, 1, 0, 0, 0, 0, 0, 0, 0, 0, 0, 1, 0, 105, 0, 1, 0, 0, 0, 0, 0, 0, 0,
    0, 0, 0, 0, 242, 0, 0, 0, 0, 0, 0, 0, 52, 0, 0, 0, 0, 0, 40, 0, 7, 0, 6, 0, 48, 64, 0, 0,
    176, 18, 0, 0, 1, 2, 3, 4, 2, 0, 0, 0, 5, 4, 0, 0, 1, 0, 0, 0, 6, 0, 0, 0, 5, 3, 0, 0, 0,
    0, 0, 0, 0, 0, 0, 0, 0, 0, 0, 0, 0, 0, 0, 0, 0, 0, 0, 0, 1, 0, 0, 0, 0, 0, 0, 0, 0, 0, 0,
    0, 18, 0, 1, 0, 6, 0, 0, 0, 4, 0, 0, 0, 0, 0, 0, 0, 18, 0, 1, 0, 13, 0, 0, 0, 0, 0, 0, 0,
    0, 0, 0, 0, 18, 0, 0, 0, 18, 0, 0, 0, 2, 0, 0, 0, 0, 0, 0, 0, 18, 0, 3, 0, 0, 108, 111, 97,
    100, 0, 117, 110, 108, 111, 97, 100, 0, 112, 117, 116, 115, 0, 116, 97, 98, 0, 0, 46, 116,
    101, 120, 116, 0, 46, 114, 101, 108, 97, 46, 116, 101, 120, 116, 0, 46, 114, 111, 100, 97,
    116, 97, 0, 46, 115, 121, 109, 116, 97, 98, 0, 46, 115, 116, 114, 116, 97, 98, 0, 46, 115,
    104, 115, 116, 114, 116, 97, 98, 0, 0, 0, 0, 0, 0, 0, 0, 0, 0, 0, 0, 0, 0, 0, 0, 0, 0, 0,
    0, 0, 0, 0, 0, 0, 0, 0, 0, 0, 0, 0, 0, 0, 0, 0, 0, 0, 0, 0, 0, 0, 1, 0, 0, 0, 0, 0, 0, 0,
    0, 0, 0, 0, 0, 0, 0, 0, 52, 0, 0, 0, 8, 0, 0, 0, 0, 0, 0, 0, 0, 0, 0, 0, 0, 0, 0, 0, 0, 0,
    0, 0, 7, 0, 0, 0, 0, 0, 0, 0, 0, 0, 0, 0, 0, 0, 0, 0, 64, 0, 0, 0, 24, 0, 0, 0, 0, 0, 0, 0,
    0, 0, 0, 0, 0, 0, 0, 0, 0, 0, 0, 0, 18, 0, 0, 0, 0, 0, 0, 0, 0, 0, 0, 0, 0, 0, 0, 0, 60, 0,
    0, 0, 4, 0, 0, 0, 0, 0, 0, 0, 0, 0, 0, 0, 0, 0, 0, 0, 0, 0, 0, 0, 26, 0, 0, 0, 0, 0, 0, 0,
    0, 0, 0, 0, 0, 0, 0, 0, 88, 0, 0, 0, 80, 0, 0, 0, 0, 0, 0, 0, 0, 0, 0, 0, 0, 0, 0, 0, 0, 0,
    0, 0, 34, 0, 0, 0, 0, 0, 0, 0, 0, 0, 0, 0, 0, 0, 0, 0, 168, 0, 0, 0, 22, 0, 0, 0, 0, 0, 0,
    0, 0, 0, 0, 0, 0, 0, 0, 0, 0, 0, 0, 0, 42, 0, 0, 0, 0, 0, 0, 0, 0, 0, 0, 0, 0, 0, 0, 0,
    190, 0, 0, 0, 52, 0, 0, 0, 0, 0, 0, 0, 0, 0, 0, 0, 0, 0, 0, 0, 0, 0, 0, 0]"

definition sample_env :: node_env where
  "sample_env = \<lparr>datamemory = 0x200, textmemory = 0x4100,
     symbol_table = [(cstring ''puts'', 0x5000)], flash_store = and_flash\<rparr>"

definition empty_section :: relevant_section where
  "empty_section = \<lparr>number = 0, sect_offset = 0, address = 0\<rparr>"

definition sample_mcu :: mcu where
  "sample_mcu = \<lparr>mem = (\<lambda>a. 0), IFG1 = 0, IE1 = 3, IE2 = 4, GIE = True, WDTCTL = 0,
     FCTL1 = 0, FCTL2 = 0, FCTL3 = 0, ie1 = 0, ie2 = 0\<rparr>"

definition sample_loader :: "u8 list \<Rightarrow> loader" where
  "sample_loader d = \<lparr>elf_data = d, elfloader_unknown = replicate 30 0,
     segs = \<lparr>s_bss = empty_section, s_data = empty_section, s_rodata = empty_section, s_text = empty_section\<rparr>,
     loaded_load = 0, loaded_unload = 0, cpu = sample_mcu\<rparr>"

section \<open>Reading them\<close>

lemma sample_length: "length sample_object = 566"
  by (simp add: sample_object_def)

lemma rodata_length: "length rodata_object = 522"
  by (simp add: rodata_object_def)

lemma elfstore_read_eval:
  "elfstore_read d off n = (if unat off + n \<le> 2048 \<and> unat off + n \<le> length d
     then Some (take n (drop (unat off) d)) else None)"
  by (simp add: elfstore_read_def rd_block_def ELFSTORE_SIZE_def)

lemma sample_reads:
  "elfstore_read sample_object 0 52 = Some
    [127, 69, 76, 70, 1, 1, 1, 0, 0, 0, 0, 0, 0, 0, 0, 0, 1, 0, 105, 0, 1, 0, 0, 0, 0, 0, 0, 0,
    0, 0, 0, 0, 246, 0, 0, 0, 0, 0, 0, 0, 52, 0, 0, 0, 0, 0, 40, 0, 8, 0, 7, 0]"
  "elfstore_read sample_object 246 40 = Some
    [0, 0, 0, 0, 0, 0, 0, 0, 0, 0, 0, 0, 0, 0, 0, 0, 0, 0, 0, 0, 0, 0, 0, 0, 0, 0, 0, 0, 0, 0,
    0, 0, 0, 0, 0, 0, 0, 0, 0, 0]"
  "elfstore_read sample_object 286 40 = Some
    [1, 0, 0, 0, 0, 0, 0, 0, 0, 0, 0, 0, 0, 0, 0, 0, 52, 0, 0, 0, 8, 0, 0, 0, 0, 0, 0, 0, 0, 0,
    0, 0, 0, 0, 0, 0, 0, 0, 0, 0]"
  "elfstore_read sample_object 326 40 = Some
    [7, 0, 0, 0, 0, 0, 0, 0, 0, 0, 0, 0, 0, 0, 0, 0, 64, 0, 0, 0, 24, 0, 0, 0, 0, 0, 0, 0, 0,
    0, 0, 0, 0, 0, 0, 0, 0, 0, 0, 0]"
  "elfstore_read sample_object 366 40 = Some
    [18, 0, 0, 0, 0, 0, 0, 0, 0, 0, 0, 0, 0, 0, 0, 0, 60, 0, 0, 0, 4, 0, 0, 0, 0, 0, 0, 0, 0,
    0, 0, 0, 0, 0, 0, 0, 0, 0, 0, 0]"
  "elfstore_read sample_object 406 40 = Some
    [24, 0, 0, 0, 0, 0, 0, 0, 0, 0, 0, 0, 0, 0, 0, 0, 0, 0, 0, 0, 6, 0, 0, 0, 0, 0, 0, 0, 0, 0,
    0, 0, 0, 0, 0, 0, 0, 0, 0, 0]"
  "elfstore_read sample_object 446 40 = Some
    [29, 0, 0, 0, 0, 0, 0, 0, 0, 0, 0, 0, 0, 0, 0, 0, 88, 0, 0, 0, 80, 0, 0, 0, 0, 0, 0, 0, 0,
    0, 0, 0, 0, 0, 0, 0, 0, 0, 0, 0]"
  "elfstore_read sample_object 486 40 = Some
    [37, 0, 0, 0, 0, 0, 0, 0, 0, 0, 0, 0, 0, 0, 0, 0, 168, 0, 0, 0, 22, 0, 0, 0, 0, 0, 0, 0, 0,
    0, 0, 0, 0, 0, 0, 0, 0, 0, 0, 0]"
  "elfstore_read sample_object 526 40 = Some
    [45, 0, 0, 0, 0, 0, 0, 0, 0, 0, 0, 0, 0, 0, 0, 0, 190, 0, 0, 0, 55, 0, 0, 0, 0, 0, 0, 0, 0,
    0, 0, 0, 0, 0, 0, 0, 0, 0, 0, 0]"
  "elfstore_read sample_object 190 12 = Some
    [0, 46, 116, 101, 120, 116, 0, 46, 114, 101, 108, 97]"
  "elfstore_read sample_object 191 12 = Some
    [46, 116, 101, 120, 116, 0, 46, 114, 101, 108, 97, 46]"
  "elfstore_read sample_object 197 12 = Some
    [46, 114, 101, 108, 97, 46, 116, 101, 120, 116, 0, 46]"
  "elfstore_read sample_object 208 12 = Some
    [46, 100, 97, 116, 97, 0, 46, 98, 115, 115, 0, 46]"
  "elfstore_read sample_object 214 12 = Some
    [46, 98, 115, 115, 0, 46, 115, 121, 109, 116, 97, 98]"
  "elfstore_read sample_object 219 12 = Some
    [46, 115, 121, 109, 116, 97, 98, 0, 46, 115, 116, 114]"
  "elfstore_read sample_object 227 12 = Some
    [46, 115, 116, 114, 116, 97, 98, 0, 46, 115, 104, 115]"
  "elfstore_read sample_object 235 12 = Some
    [46, 115, 104, 115, 116, 114, 116, 97, 98, 0, 0, 0]"
  "elfstore_read sample_object 64 12 = Some
    [2, 0, 0, 0, 5, 4, 0, 0, 1, 0, 0, 0]"
  "elfstore_read sample_object 76 12 = Some
    [6, 0, 0, 0, 5, 3, 0, 0, 0, 0, 0, 0]"
  "elfstore_read sample_object 88 16 = Some
    [0, 0, 0, 0, 0, 0, 0, 0, 0, 0, 0, 0, 0, 0, 0, 0]"
  "elfstore_read sample_object 104 16 = Some
    [1, 0, 0, 0, 0, 0, 0, 0, 0, 0, 0, 0, 18, 0, 1, 0]"
  "elfstore_read sample_object 169 30 = Some
    [108, 111, 97, 100, 0, 117, 110, 108, 111, 97, 100, 0, 112, 117, 116, 115, 0, 99, 110, 116,
    0, 0, 46, 116, 101, 120, 116, 0, 46, 114]"
  "elfstore_read sample_object 120 16 = Some
    [6, 0, 0, 0, 4, 0, 0, 0, 0, 0, 0, 0, 18, 0, 1, 0]"
  "elfstore_read sample_object 174 30 = Some
    [117, 110, 108, 111, 97, 100, 0, 112, 117, 116, 115, 0, 99, 110, 116, 0, 0, 46, 116, 101,
    120, 116, 0, 46, 114, 101, 108, 97, 46, 116]"
  "elfstore_read sample_object 136 16 = Some
    [13, 0, 0, 0, 0, 0, 0, 0, 0, 0, 0, 0, 18, 0, 0, 0]"
  "elfstore_read sample_object 181 30 = Some
    [112, 117, 116, 115, 0, 99, 110, 116, 0, 0, 46, 116, 101, 120, 116, 0, 46, 114, 101, 108,
    97, 46, 116, 101, 120, 116, 0, 46, 100, 97]"
  "elfstore_read sample_object 152 16 = Some
    [18, 0, 0, 0, 2, 0, 0, 0, 0, 0, 0, 0, 18, 0, 3, 0]"
  "elfstore_read sample_object 186 30 = Some
    [99, 110, 116, 0, 0, 46, 116, 101, 120, 116, 0, 46, 114, 101, 108, 97, 46, 116, 101, 120,
    116, 0, 46, 100, 97, 116, 97, 0, 46, 98]"
  by (simp_all add: elfstore_read_eval sample_length) (simp_all add: sample_object_def)

lemma rodata_reads:
  "elfstore_read rodata_object 0 52 = Some
    [127, 69, 76, 70, 1, 1, 1, 0, 0, 0, 0, 0, 0, 0, 0, 0, 1, 0, 105, 0, 1, 0, 0, 0, 0, 0, 0, 0,
    0, 0, 0, 0, 242, 0, 0, 0, 0, 0, 0, 0, 52, 0, 0, 0, 0, 0, 40, 0, 7, 0, 6, 0]"
  "elfstore_read rodata_object 242 40 = Some
    [0, 0, 0, 0, 0, 0, 0, 0, 0, 0, 0, 0, 0, 0, 0, 0, 0, 0, 0, 0, 0, 0, 0, 0, 0, 0, 0, 0, 0, 0,
    0, 0, 0, 0, 0, 0, 0, 0, 0, 0]"
  "elfstore_read rodata_object 282 40 = Some
    [1, 0, 0, 0, 0, 0, 0, 0, 0, 0, 0, 0, 0, 0, 0, 0, 52, 0, 0, 0, 8, 0, 0, 0, 0, 0, 0, 0, 0, 0,
    0, 0, 0, 0, 0, 0, 0, 0, 0, 0]"
  "elfstore_read rodata_object 322 40 = Some
    [7, 0, 0, 0, 0, 0, 0, 0, 0, 0, 0, 0, 0, 0, 0, 0, 64, 0, 0, 0, 24, 0, 0, 0, 0, 0, 0, 0, 0,
    0, 0, 0, 0, 0, 0, 0, 0, 0, 0, 0]"
  "elfstore_read rodata_object 362 40 = Some
    [18, 0, 0, 0, 0, 0, 0, 0, 0, 0, 0, 0, 0, 0, 0, 0, 60, 0, 0, 0, 4, 0, 0, 0, 0, 0, 0, 0, 0,
    0, 0, 0, 0, 0, 0, 0, 0, 0, 0, 0]"
  "elfstore_read rodata_object 402 40 = Some
    [26, 0, 0, 0, 0, 0, 0, 0, 0, 0, 0, 0, 0, 0, 0, 0, 88, 0, 0, 0, 80, 0, 0, 0, 0, 0, 0, 0, 0,
    0, 0, 0, 0, 0, 0, 0, 0, 0, 0, 0]"
  "elfstore_read rodata_object 442 40 = Some
    [34, 0, 0, 0, 0, 0, 0, 0, 0, 0, 0, 0, 0, 0, 0, 0, 168, 0, 0, 0, 22, 0, 0, 0, 0, 0, 0, 0, 0,
    0, 0, 0, 0, 0, 0, 0, 0, 0, 0, 0]"
  "elfstore_read rodata_object 482 40 = Some
    [42, 0, 0, 0, 0, 0, 0, 0, 0, 0, 0, 0, 0, 0, 0, 0, 190, 0, 0, 0, 52, 0, 0, 0, 0, 0, 0, 0, 0,
    0, 0, 0, 0, 0, 0, 0, 0, 0, 0, 0]"
  "elfstore_read rodata_object 190 12 = Some
    [0, 46, 116, 101, 120, 116, 0, 46, 114, 101, 108, 97]"
  "elfstore_read rodata_object 191 12 = Some
    [46, 116, 101, 120, 116, 0, 46, 114, 101, 108, 97, 46]"
  "elfstore_read rodata_object 197 12 = Some
    [46, 114, 101, 108, 97, 46, 116, 101, 120, 116, 0, 46]"
  "elfstore_read rodata_object 208 12 = Some
    [46, 114, 111, 100, 97, 116, 97, 0, 46, 115, 121, 109]"
  "elfstore_read rodata_object 216 12 = Some
    [46, 115, 121, 109, 116, 97, 98, 0, 46, 115, 116, 114]"
  "elfstore_read rodata_object 224 12 = Some
    [46, 115, 116, 114, 116, 97, 98, 0, 46, 115, 104, 115]"
  "elfstore_read rodata_object 232 12 = Some
    [46, 115, 104, 115, 116, 114, 116, 97, 98, 0, 0, 0]"
  "elfstore_read rodata_object 64 12 = Some
    [2, 0, 0, 0, 5, 4, 0, 0, 1, 0, 0, 0]"
  "elfstore_read rodata_object 76 12 = Some
    [6, 0, 0, 0, 5, 3, 0, 0, 0, 0, 0, 0]"
  "elfstore_read rodata_object 88 16 = Some
    [0, 0, 0, 0, 0, 0, 0, 0, 0, 0, 0, 0, 0, 0, 0, 0]"
  "elfstore_read rodata_object 104 16 = Some
    [1, 0, 0, 0, 0, 0, 0, 0, 0, 0, 0, 0, 18, 0, 1, 0]"
  "elfstore_read rodata_object 169 30 = Some
    [108, 111, 97, 100, 0, 117, 110, 108, 111, 97, 100, 0, 112, 117, 116, 115, 0, 116, 97, 98,
    0, 0, 46, 116, 101, 120, 116, 0, 46, 114]"
  "elfstore_read rodata_object 120 16 = Some
    [6, 0, 0, 0, 4, 0, 0, 0, 0, 0, 0, 0, 18, 0, 1, 0]"
  "elfstore_read rodata_object 174 30 = Some
    [117, 110, 108, 111, 97, 100, 0, 112, 117, 116, 115, 0, 116, 97, 98, 0, 0, 46, 116, 101,
    120, 116, 0, 46, 114, 101, 108, 97, 46, 116]"
  "elfstore_read rodata_object 136 16 = Some
    [13, 0, 0, 0, 0, 0, 0, 0, 0, 0, 0, 0, 18, 0, 0, 0]"
  "elfstore_read rodata_object 181 30 = Some
    [112, 117, 116, 115, 0, 116, 97, 98, 0, 0, 46, 116, 101, 120, 116, 0, 46, 114, 101, 108,
    97, 46, 116, 101, 120, 116, 0, 46, 114, 111]"
  "elfstore_read rodata_object 152 16 = Some
    [18, 0, 0, 0, 2, 0, 0, 0, 0, 0, 0, 0, 18, 0, 3, 0]"
  "elfstore_read rodata_object 186 30 = Some
    [116, 97, 98, 0, 0, 46, 116, 101, 120, 116, 0, 46, 114, 101, 108, 97, 46, 116, 101, 120,
    116, 0, 46, 114, 111, 100, 97, 116, 97, 0]"
  by (simp_all add: elfstore_read_eval rodata_length) (simp_all add: rodata_object_def)

section \<open>Decoding them\<close>

lemmas elf_eval = decode_ehdr_def decode_shdr_def decode_sym_def decode_rela_def
  get8_def get16_def get32_def le16_def le32_def

lemma sample_decodes:
  "decode_ehdr
    [127, 69, 76, 70, 1, 1, 1, 0, 0, 0, 0, 0, 0, 0, 0, 0, 1, 0, 105, 0, 1, 0, 0, 0, 0, 0, 0, 0,
    0, 0, 0, 0, 246, 0, 0, 0, 0, 0, 0, 0, 52, 0, 0, 0, 0, 0, 40, 0, 8, 0, 7, 0]
   = \<lparr>e_ident = [127, 69, 76, 70, 1, 1, 1, 0, 0, 0, 0, 0, 0, 0, 0, 0],
      e_type = 1, e_machine = 105, e_version = 1, e_entry = 0, e_phoff = 0, e_shoff = 246, 
      e_flags = 0, e_ehsize = 52, e_phentsize = 0, e_phnum = 0, e_shentsize = 40, e_shnum = 8, e_shstrndx = 7\<rparr>"
  "decode_shdr
    [0, 0, 0, 0, 0, 0, 0, 0, 0, 0, 0, 0, 0, 0, 0, 0, 0, 0, 0, 0, 0, 0, 0, 0, 0, 0, 0, 0, 0, 0,
    0, 0, 0, 0, 0, 0, 0, 0, 0, 0]
   = \<lparr>sh_name = 0, sh_type = 0, sh_flags = 0, sh_addr = 0, sh_offset = 0, sh_size = 0, 
      sh_link = 0, sh_info = 0, sh_addralign = 0, sh_entsize = 0\<rparr>"
  "decode_shdr
    [1, 0, 0, 0, 0, 0, 0, 0, 0, 0, 0, 0, 0, 0, 0, 0, 52, 0, 0, 0, 8, 0, 0, 0, 0, 0, 0, 0, 0, 0,
    0, 0, 0, 0, 0, 0, 0, 0, 0, 0]
   = \<lparr>sh_name = 1, sh_type = 0, sh_flags = 0, sh_addr = 0, sh_offset = 52, sh_size = 8, 
      sh_link = 0, sh_info = 0, sh_addralign = 0, sh_entsize = 0\<rparr>"
  "decode_shdr
    [7, 0, 0, 0, 0, 0, 0, 0, 0, 0, 0, 0, 0, 0, 0, 0, 64, 0, 0, 0, 24, 0, 0, 0, 0, 0, 0, 0, 0,
    0, 0, 0, 0, 0, 0, 0, 0, 0, 0, 0]
   = \<lparr>sh_name = 7, sh_type = 0, sh_flags = 0, sh_addr = 0, sh_offset = 64, sh_size = 24, 
      sh_link = 0, sh_info = 0, sh_addralign = 0, sh_entsize = 0\<rparr>"
  "decode_shdr
    [18, 0, 0, 0, 0, 0, 0, 0, 0, 0, 0, 0, 0, 0, 0, 0, 60, 0, 0, 0, 4, 0, 0, 0, 0, 0, 0, 0, 0,
    0, 0, 0, 0, 0, 0, 0, 0, 0, 0, 0]
   = \<lparr>sh_name = 18, sh_type = 0, sh_flags = 0, sh_addr = 0, sh_offset = 60, sh_size = 4, 
      sh_link = 0, sh_info = 0, sh_addralign = 0, sh_entsize = 0\<rparr>"
  "decode_shdr
    [24, 0, 0, 0, 0, 0, 0, 0, 0, 0, 0, 0, 0, 0, 0, 0, 0, 0, 0, 0, 6, 0, 0, 0, 0, 0, 0, 0, 0, 0,
    0, 0, 0, 0, 0, 0, 0, 0, 0, 0]
   = \<lparr>sh_name = 24, sh_type = 0, sh_flags = 0, sh_addr = 0, sh_offset = 0, sh_size = 6, 
      sh_link = 0, sh_info = 0, sh_addralign = 0, sh_entsize = 0\<rparr>"
  "decode_shdr
    [29, 0, 0, 0, 0, 0, 0, 0, 0, 0, 0, 0, 0, 0, 0, 0, 88, 0, 0, 0, 80, 0, 0, 0, 0, 0, 0, 0, 0,
    0, 0, 0, 0, 0, 0, 0, 0, 0, 0, 0]
   = \<lparr>sh_name = 29, sh_type = 0, sh_flags = 0, sh_addr = 0, sh_offset = 88, sh_size = 80, 
      sh_link = 0, sh_info = 0, sh_addralign = 0, sh_entsize = 0\<rparr>"
  "decode_shdr
    [37, 0, 0, 0, 0, 0, 0, 0, 0, 0, 0, 0, 0, 0, 0, 0, 168, 0, 0, 0, 22, 0, 0, 0, 0, 0, 0, 0, 0,
    0, 0, 0, 0, 0, 0, 0, 0, 0, 0, 0]
   = \<lparr>sh_name = 37, sh_type = 0, sh_flags = 0, sh_addr = 0, sh_offset = 168, sh_size = 22, 
      sh_link = 0, sh_info = 0, sh_addralign = 0, sh_entsize = 0\<rparr>"
  "decode_shdr
    [45, 0, 0, 0, 0, 0, 0, 0, 0, 0, 0, 0, 0, 0, 0, 0, 190, 0, 0, 0, 55, 0, 0, 0, 0, 0, 0, 0, 0,
    0, 0, 0, 0, 0, 0, 0, 0, 0, 0, 0]
   = \<lparr>sh_name = 45, sh_type = 0, sh_flags = 0, sh_addr = 0, sh_offset = 190, sh_size = 55, 
      sh_link = 0, sh_info = 0, sh_addralign = 0, sh_entsize = 0\<rparr>"
  "decode_sym [0, 0, 0, 0, 0, 0, 0, 0, 0, 0, 0, 0, 0, 0, 0, 0]
   = \<lparr>st_name = 0, st_value = 0, st_size = 0, st_info = 0, st_other = 0, st_shndx = 0\<rparr>"
  "decode_sym [1, 0, 0, 0, 0, 0, 0, 0, 0, 0, 0, 0, 18, 0, 1, 0]
   = \<lparr>st_name = 1, st_value = 0, st_size = 0, st_info = 18, st_other = 0, st_shndx = 1\<rparr>"
  "decode_sym [6, 0, 0, 0, 4, 0, 0, 0, 0, 0, 0, 0, 18, 0, 1, 0]
   = \<lparr>st_name = 6, st_value = 4, st_size = 0, st_info = 18, st_other = 0, st_shndx = 1\<rparr>"
  "decode_sym [13, 0, 0, 0, 0, 0, 0, 0, 0, 0, 0, 0, 18, 0, 0, 0]
   = \<lparr>st_name = 13, st_value = 0, st_size = 0, st_info = 18, st_other = 0, st_shndx = 0\<rparr>"
  "decode_sym [18, 0, 0, 0, 2, 0, 0, 0, 0, 0, 0, 0, 18, 0, 3, 0]
   = \<lparr>st_name = 18, st_value = 2, st_size = 0, st_info = 18, st_other = 0, st_shndx = 3\<rparr>"
  "decode_rela [2, 0, 0, 0, 5, 4, 0, 0, 1, 0, 0, 0]
   = \<lparr>r_offset = 2, r_info = 1029, r_addend = 1\<rparr>"
  "decode_rela [6, 0, 0, 0, 5, 3, 0, 0, 0, 0, 0, 0]
   = \<lparr>r_offset = 6, r_info = 773, r_addend = 0\<rparr>"
  by (simp_all add: elf_eval)

section \<open>Scanning and planning them\<close>

definition sample_scan :: scan where
  "sample_scan = scan_init\<lparr>using_relas := 1, textoff := 52, textsize := 8, textrelaoff := 64,
     textrelasize := 24, dataoff := 60, datasize := 4, bsssize := 6, symtaboff := 88,
     symtabsize := 80, strtaboff := 168, strtabsize := 22\<rparr>"

definition sample_segments :: segments where
  "sample_segments =
     \<lparr>s_bss = \<lparr>number = 4, sect_offset = 0, address = 0\<rparr>,
      s_data = \<lparr>number = 3, sect_offset = 60, address = 0\<rparr>,
      s_rodata = \<lparr>number = 255, sect_offset = 0, address = 0\<rparr>,
      s_text = \<lparr>number = 1, sect_offset = 52, address = 0\<rparr>\<rparr>"

lemma sample_header: "map_option header_ok (elfstore_read sample_object 0 52) = Some True"
  by (simp add: sample_reads header_ok_def sample_decodes elf_magic_header_def)

lemma scan_loop_Suc:
  "0 < n \<Longrightarrow> scan_loop d strs shdrsize i n shdrptr st = do {
     hb \<leftarrow> elfstore_read d shdrptr 40;
     name \<leftarrow> elfstore_read d (ucast (ucast strs + sh_name (decode_shdr hb))) 12;
     scan_loop d strs shdrsize (Suc i) (n - 1) (shdrptr + shdrsize)
       (scan_section (of_nat i) name (decode_shdr hb) st) }"
  by (cases n) simp_all

lemma sample_scanned: "scan_headers (sample_loader sample_object) = Some (sample_segments, sample_scan)"
proof -
  have "scan_headers (sample_loader sample_object) = scan_loop sample_object 190 40 0 8 246
      (segments_init (segs (sample_loader sample_object)), scan_init)"
    by (simp only: scan_headers_def Let_def sample_loader_def loader.simps sample_reads
        bind.bind_lunit sample_decodes elf32_ehdr.simps elf32_shdr.simps)
      (simp add: sample_reads sample_decodes)
  also have "\<dots> = Some (sample_segments, sample_scan)"
    by (simp add: scan_loop_Suc sample_reads sample_decodes sample_loader_def)
      (simp add: scan_section_def strncmp_eq_def bytes_of_names segments_init_def scan_init_def
        sample_segments_def sample_scan_def empty_section_def)
  finally show ?thesis .
qed

definition sample_layout :: segments where
  "sample_layout = allocate_segments sample_env sample_scan sample_segments"

lemma sample_layout_eq: "sample_layout =
     \<lparr>s_bss = \<lparr>number = 4, sect_offset = 0, address = 0x200\<rparr>,
      s_data = \<lparr>number = 3, sect_offset = 60, address = 0x206\<rparr>,
      s_rodata = \<lparr>number = 255, sect_offset = 0, address = 0x4208\<rparr>,
      s_text = \<lparr>number = 1, sect_offset = 52, address = 0x4200\<rparr>\<rparr>"
  by (simp add: sample_layout_def allocate_segments_def sample_env_def sample_scan_def scan_init_def
      sample_segments_def elfloader_arch_allocate_ram_def elfloader_arch_allocate_rom_def)

lemma cstrings:
  "cstring ''puts'' = [112, 117, 116, 115, 0]" "cstring ''load'' = [108, 111, 97, 100, 0]"
  "cstring ''unload'' = [117, 110, 108, 111, 97, 100, 0]"
  by (simp_all add: cstring_def bytes_of_def)

lemmas search_eval = find_local_symbol_def find_local_loop.simps sample_reads sample_decodes
  read_name_def NAME_LEN_def local_symbol_address_def segment_is_def sample_layout_eq cstrings

lemma sample_starts:
  "find_local_symbol sample_object sample_layout (cstring ''load'') 88 80 168 = Some 0x4200"
  "find_local_symbol sample_object sample_layout (cstring ''unload'') 88 80 168 = Some 0x4204"
  by (simp_all add: search_eval)

definition sample_plan :: "patch list" where
  "sample_plan =
     [\<lparr>p_target = 54, p_value = 0x209, p_reads = [(64, 12), (152, 16), (186, 30)]\<rparr>,
      \<lparr>p_target = 58, p_value = 0x5000, p_reads = [(76, 12), (136, 16), (181, 30)]\<rparr>]"

lemma sample_planned:
  "reloc_plan sample_env sample_layout (text_reloc sample_scan) 88 sample_object 64 = Some sample_plan"
  by (simp add: reloc_plan.simps text_reloc_def reloc_args_of_def rel_size_def sample_scan_def scan_init_def
      entry_patch_def sym_offset_def target_offset_def entry_addend_def ELF32_R_SYM_def
      resolve_symbol_def sample_env_def sym_ranges_def name_range_def sample_plan_def search_eval)

lemma sample_search_ranges: "search_ranges sample_object (text_reloc sample_scan) =
    [(88, 16), (168, 30), (104, 16), (169, 30), (120, 16), (174, 30), (136, 16), (181, 30),
     (152, 16), (186, 30)]"
  by (simp add: search_ranges_def text_reloc_def reloc_args_of_def sample_scan_def scan_init_def
      sym_ranges_def name_range_def search_eval upt_rec)

lemma sample_plan_safe: "plan_safe sample_object (text_reloc sample_scan) sample_plan"
  by (simp add: plan_safe_def sample_search_ranges sample_length sample_plan_def ELFSTORE_SIZE_def
      clear_of_def apart_def)

lemma sample_loadable:
  "loadable sample_env (sample_loader sample_object) sample_segments sample_scan sample_plan 0x4200 0x4204"
proof -
  have "rom_fits sample_env sample_object 52 8 0x4200"
    by (simp add: rom_fits_def sample_env_def sample_length ELFSTORE_SIZE_def)
  moreover have "elfstore_read sample_object 60 4 \<noteq> None"
    by (simp add: elfstore_read_eval sample_length)
  ultimately show ?thesis
    using sample_header sample_scanned sample_planned sample_plan_safe sample_starts
    unfolding loadable_def sample_layout_def [symmetric]
    by (simp add: sample_loader_def) (simp add: sample_scan_def scan_init_def sample_layout_eq, simp add: sample_env_def)
qed

section \<open>The object with a symbol in read-only data\<close>

lemma rodata_decodes:
  "decode_sym [0, 0, 0, 0, 0, 0, 0, 0, 0, 0, 0, 0, 0, 0, 0, 0]
   = \<lparr>st_name = 0, st_value = 0, st_size = 0, st_info = 0, st_other = 0, st_shndx = 0\<rparr>"
  "decode_sym [1, 0, 0, 0, 0, 0, 0, 0, 0, 0, 0, 0, 18, 0, 1, 0]
   = \<lparr>st_name = 1, st_value = 0, st_size = 0, st_info = 18, st_other = 0, st_shndx = 1\<rparr>"
  "decode_sym [6, 0, 0, 0, 4, 0, 0, 0, 0, 0, 0, 0, 18, 0, 1, 0]
   = \<lparr>st_name = 6, st_value = 4, st_size = 0, st_info = 18, st_other = 0, st_shndx = 1\<rparr>"
  "decode_sym [13, 0, 0, 0, 0, 0, 0, 0, 0, 0, 0, 0, 18, 0, 0, 0]
   = \<lparr>st_name = 13, st_value = 0, st_size = 0, st_info = 18, st_other = 0, st_shndx = 0\<rparr>"
  "decode_sym [18, 0, 0, 0, 2, 0, 0, 0, 0, 0, 0, 0, 18, 0, 3, 0]
   = \<lparr>st_name = 18, st_value = 2, st_size = 0, st_info = 18, st_other = 0, st_shndx = 3\<rparr>"
  "decode_rela [2, 0, 0, 0, 5, 4, 0, 0, 1, 0, 0, 0]
   = \<lparr>r_offset = 2, r_info = 1029, r_addend = 1\<rparr>"
  "decode_rela [6, 0, 0, 0, 5, 3, 0, 0, 0, 0, 0, 0]
   = \<lparr>r_offset = 6, r_info = 773, r_addend = 0\<rparr>"
  by (simp_all add: elf_eval)

definition rodata_layout :: segments where
  "rodata_layout =
     \<lparr>s_bss = \<lparr>number = 255, sect_offset = 0, address = 0x200\<rparr>,
      s_data = \<lparr>number = 255, sect_offset = 0, address = 0x200\<rparr>,
      s_rodata = \<lparr>number = 3, sect_offset = 60, address = 0x4208\<rparr>,
      s_text = \<lparr>number = 1, sect_offset = 52, address = 0x4200\<rparr>\<rparr>"

end
