(* ===== verification/Elf_Properties.thy ===== *)
theory Elf_Properties
  imports Elf_Sample
begin

text \<open>
  The properties of the dynamic linker, each applied to the sample object.
\<close>

text \<open>C2. Loading a well-formed module: on a node whose flash behaves as documented, if the
  object meets the conditions of \<open>loadable\<close> (all stated about the object as received), then
  \<open>elfloader_load\<close> returns OK; the stored object differs from the received one exactly by
  the planned patches; the flash holds the patched text at the text address, the RAM holds
  the data and a cleared bss; \<open>elfloader_loaded_load\<close> and \<open>_unload\<close> are the module's
  functions; and the interrupt enable registers are restored.\<close>
theorem load_module_ok:
  assumes "flash_hw_ok (flash_store env)" and "loadable env st sg sc ps f g"
  shows "\<exists>st'. elfloader_load env st = Some (ELFLOADER_OK, st') \<and>
    patched ps (elf_data st) (elf_data st') \<and>
    installed env (allocate_segments env sc sg) sc (elf_data st') (mem (cpu st')) \<and>
    loaded_load st' = f \<and> loaded_unload st' = g \<and>
    IE1 (cpu st') = IE1 (cpu st) \<and> IE2 (cpu st') = IE2 (cpu st)"
  by (rule elfloader_load_ok [OF assms])

theorem load_module_ok_witness:
  "\<exists>st'. elfloader_load sample_env (sample_loader sample_object) = Some (ELFLOADER_OK, st') \<and>
    patched sample_plan (elf_data (sample_loader sample_object)) (elf_data st') \<and>
    installed sample_env (allocate_segments sample_env sample_scan sample_segments) sample_scan
      (elf_data st') (mem (cpu st')) \<and>
    loaded_load st' = 0x4200 \<and> loaded_unload st' = 0x4204 \<and>
    IE1 (cpu st') = IE1 (cpu (sample_loader sample_object)) \<and>
    IE2 (cpu st') = IE2 (cpu (sample_loader sample_object))"
  by (rule load_module_ok [OF _ sample_loadable]) (simp add: sample_env_def and_flash_ok)

text \<open>C8. Relocation carries out its plan: if the plan computed from the unmodified object
  exists (every entry can be read and its symbol resolved) and is safe (targets in range,
  apart from each other and from every table read), \<open>relocate_section\<close> returns OK and the
  object holds \<open>S + A\<close>, low byte first, at each target and is otherwise unchanged.\<close>
theorem relocate_section_plan:
  assumes "reloc_plan env sg ra (off + size16) d off = Some ps" and "plan_safe d ra ps"
  shows "\<exists>d'. relocate_section env sg off size16 ra d = Some (ELFLOADER_OK, None, d') \<and>
    patched ps d d'"
  unfolding relocate_section_def
  by (rule relocate_loop_plan [OF assms(1) _ plan_safe_start [OF assms(2)]]) (simp add: agree_off_def)

theorem relocate_section_plan_witness:
  "\<exists>d'. relocate_section sample_env sample_layout 64 24 (text_reloc sample_scan) sample_object
      = Some (ELFLOADER_OK, None, d') \<and> patched sample_plan sample_object d'"
  by (rule relocate_section_plan [OF _ sample_plan_safe]) (simp add: sample_planned)

text \<open>C19. Burning a segment into flash: with the segment's base on a flash segment boundary,
  the flash ends up with the object's bytes at that address, whatever was there before, and
  the interrupt enable registers saved by \<open>flash_setup\<close> are restored.\<close>
theorem write_rom_image:
  assumes "flash_hw_ok (flash_store env)" and "rom_fits env d off sz base"
  shows "\<exists>s'. elfloader_arch_write_rom env d off sz base s = Some s' \<and>
    (\<forall>k < unat sz. mem s' (base + of_nat k) = d ! (unat off + k)) \<and>
    IE1 s' = IE1 s \<and> IE2 s' = IE2 s \<and> GIE s'"
  by (rule write_rom_ok [OF assms])

theorem write_rom_image_witness:
  "\<exists>s'. elfloader_arch_write_rom sample_env sample_object 52 8 0x4200 sample_mcu = Some s' \<and>
    (\<forall>k < unat (8 :: u16). mem s' (0x4200 + of_nat k) = sample_object ! (unat (52 :: u16) + k)) \<and>
    IE1 s' = IE1 sample_mcu \<and> IE2 s' = IE2 sample_mcu \<and> GIE s'"
  by (rule write_rom_image)
    (simp_all add: sample_env_def and_flash_ok rom_fits_def sample_length ELFSTORE_SIZE_def)



text \<open>The kernel's symbol table behaves as a finite map from names to addresses: on names
  with a terminator, \<open>symtab_lookup\<close> returns the address of the first entry with that name,
  and NULL when there is none.\<close>
theorem symtab_lookup_is_map:
  assumes "0 \<in> set name" and "\<forall>(s, v) \<in> set syms. 0 \<in> set s"
  shows "symtab_lookup syms name =
    Some (case map_of (map (\<lambda>(s, v). (cstr s, v)) syms) (cstr name) of None \<Rightarrow> 0 | Some v \<Rightarrow> v)"
  by (rule symtab_lookup_map_of [OF assms])

theorem symtab_lookup_is_map_witness:
  "symtab_lookup (symbol_table sample_env) (cstring ''puts'') =
    Some (case map_of (map (\<lambda>(s, v). (cstr s, v)) (symbol_table sample_env)) (cstr (cstring ''puts''))
      of None \<Rightarrow> 0 | Some v \<Rightarrow> v)"
  by (rule symtab_lookup_is_map) (simp_all add: sample_env_def cstrings)

text \<open>An object whose first bytes are not the 32-bit little-endian ELF magic is refused
  with BAD_ELF_HEADER, and neither the object nor memory is touched.\<close>
theorem load_bad_header:
  assumes "elfstore_read (elf_data st) 0 52 = Some hb" and "\<not> header_ok hb"
  shows "elfloader_load env st = Some (ELFLOADER_BAD_ELF_HEADER,
    st\<lparr>loaded_load := 0, loaded_unload := 0, elfloader_unknown := (elfloader_unknown st)[0 := 0]\<rparr>)"
  by (rule elfloader_load_bad_header [OF assms])

definition zero_loader :: loader where "zero_loader = sample_loader (replicate 64 0)"

theorem load_bad_header_witness:
  "elfloader_load sample_env zero_loader = Some (ELFLOADER_BAD_ELF_HEADER,
    zero_loader\<lparr>loaded_load := 0, loaded_unload := 0, elfloader_unknown := (elfloader_unknown zero_loader)[0 := 0]\<rparr>)"
  by (rule load_bad_header [where hb = "replicate 52 0"])
    (simp_all add: zero_loader_def sample_loader_def elfstore_read_eval header_ok_def decode_ehdr_def
      elf_magic_header_def eval_nat_numeral)

text \<open>A module without a symbol table, string table or text is refused, in this order of
  priority, before anything is allocated, relocated or written.\<close>
theorem load_missing_section:
  assumes "elfstore_read (elf_data st) 0 52 = Some hb" and "header_ok hb"
    and "scan_headers st = Some (sg, sc)" and "missing_section sc = Some e"
  shows "elfloader_load env st = Some (e,
    st\<lparr>loaded_load := 0, loaded_unload := 0, elfloader_unknown := (elfloader_unknown st)[0 := 0], segs := sg\<rparr>)"
  by (rule elfloader_load_missing [OF assms])

definition no_sections :: "u8 list" where
  "no_sections = elf_magic_header @ replicate 9 0 @ replicate 36 0 @ replicate 40 0"

theorem load_missing_section_witness:
  "elfloader_load sample_env (sample_loader no_sections) = Some (ELFLOADER_NO_SYMTAB,
    (sample_loader no_sections)\<lparr>loaded_load := 0, loaded_unload := 0,
      elfloader_unknown := (elfloader_unknown (sample_loader no_sections))[0 := 0],
      segs := segments_init (segs (sample_loader no_sections))\<rparr>)"
proof (rule load_missing_section)
  let ?hb = "elf_magic_header @ replicate 9 0 @ replicate 36 (0 :: u8)"
  show r: "elfstore_read (elf_data (sample_loader no_sections)) 0 52 = Some ?hb"
    by (simp add: sample_loader_def elfstore_read_eval no_sections_def elf_magic_header_def)
  have d: "decode_ehdr ?hb = \<lparr>e_ident = elf_magic_header @ replicate 9 0, e_type = 0, e_machine = 0,
      e_version = 0, e_entry = 0, e_phoff = 0, e_shoff = 0, e_flags = 0, e_ehsize = 0,
      e_phentsize = 0, e_phnum = 0, e_shentsize = 0, e_shnum = 0, e_shstrndx = 0\<rparr>"
    by (simp add: elf_eval elf_magic_header_def eval_nat_numeral)
  then show "header_ok ?hb" by (simp add: header_ok_def)
  show "scan_headers (sample_loader no_sections) =
      Some (segments_init (segs (sample_loader no_sections)), scan_init)"
    using r by (simp add: scan_headers_def Let_def d elfstore_read_eval)
      (simp add: sample_loader_def no_sections_def elf_magic_header_def)
qed (simp add: missing_section_def scan_init_def)

text \<open>A named symbol defined in \<open>.rodata\<close> loses its value: \<open>find_local_symbol\<close> does not know
  that section, so the relocation falls back to the base of the section. Here \<open>tab\<close> has the
  value 2 in a read-only section at \<open>0x4208\<close>, and its reference with addend 1 is patched to
  \<open>0x4209\<close> instead of \<open>0x420B\<close>.\<close>
theorem rodata_symbol_value_lost:
  "st_value (decode_sym [18, 0, 0, 0, 2, 0, 0, 0, 0, 0, 0, 0, 18, 0, 3, 0]) = 2 \<and>
   elfstore_read rodata_object 152 16 = Some [18, 0, 0, 0, 2, 0, 0, 0, 0, 0, 0, 0, 18, 0, 3, 0] \<and>
   entry_patch sample_env rodata_layout (text_reloc sample_scan)
     [2, 0, 0, 0, 5, 4, 0, 0, 1, 0, 0, 0] rodata_object = Some (Resolved (54, 0x4208 + 1))"
  by (simp add: rodata_decodes rodata_reads entry_patch_def sym_offset_def target_offset_def
      entry_addend_def ELF32_R_SYM_def resolve_symbol_def sample_env_def text_reloc_def
      reloc_args_of_def sample_scan_def scan_init_def find_local_symbol_def find_local_loop.simps
      read_name_def NAME_LEN_def local_symbol_address_def segment_is_def rodata_layout_def
      segment_base_def cstrings)

end
