(* ===== verification/Linked_List.thy ===== *)
theory Linked_List
  imports Main
begin

text \<open>
  What the singly linked lists of the kernel share (threads, alarms): the sequence that a
  \<open>next\<close> field stands for from a head pointer, and the absolute due times that the relative
  times of a delta queue stand for.  The \<open>next\<close> field and the times are functions of the
  element's number.
\<close>

section \<open>The sequence a list stands for\<close>

primrec chain :: "(nat \<Rightarrow> nat option) \<Rightarrow> nat option \<Rightarrow> nat list \<Rightarrow> bool" where
  "chain n p [] \<longleftrightarrow> p = None"
| "chain n p (x # xs) \<longleftrightarrow> p = Some x \<and> chain n (n x) xs"

definition headp :: "nat list \<Rightarrow> nat option" where
  "headp xs = (case xs of [] \<Rightarrow> None | x # _ \<Rightarrow> Some x)"

definition lastp :: "nat list \<Rightarrow> nat option" where
  "lastp xs = (if xs = [] then None else Some (last xs))"

lemma headp_simps [simp]: "headp [] = None" "headp (x # xs) = Some x"
  by (simp_all add: headp_def)

lemma lastp_simps [simp]: "lastp [] = None" "lastp (xs @ [x]) = Some x"
  by (simp_all add: lastp_def)

lemma chain_frame: "(\<And>x. x \<in> set xs \<Longrightarrow> n' x = n x) \<Longrightarrow> chain n' p xs = chain n p xs"
  by (induction xs arbitrary: p) auto

lemma chain_headp: "chain n p xs \<Longrightarrow> p = headp xs"
  by (cases xs) auto

lemma chain_unique: "chain n p xs \<Longrightarrow> chain n p ys \<Longrightarrow> xs = ys"
proof (induction xs arbitrary: p ys)
  case Nil
  then show ?case by (cases ys) auto
next
  case (Cons x xs)
  then show ?case by (cases ys) auto
qed

lemma chain_append:
  "chain n p (xs @ y # ys) \<Longrightarrow> chain n (Some y) (y # ys)"
  by (induction xs arbitrary: p) auto

lemma chain_insertI:
  assumes "chain n p (ps @ zs)" and "distinct (ps @ zs)" and "ps \<noteq> []" and "x \<notin> set (ps @ zs)"
    and "n' x = headp zs" and "n' (last ps) = Some x"
    and "\<And>y. y \<in> set (ps @ zs) \<Longrightarrow> y \<noteq> last ps \<Longrightarrow> n' y = n y"
  shows "chain n' p (ps @ x # zs)"
  using assms
proof (induction ps arbitrary: p)
  case (Cons y ys)
  show ?case
  proof (cases "ys = []")
    case True
    have "chain n' (headp zs) zs = chain n (headp zs) zs"
      using Cons.prems(2,7) True by (intro chain_frame) auto
    moreover have "chain n (headp zs) zs"
      using Cons.prems(1) True chain_headp by auto
    ultimately show ?thesis using Cons.prems True by simp
  next
    case False
    then have "y \<noteq> last (y # ys)" using Cons.prems(2) by auto
    then have "n' y = n y" using Cons.prems(7) by simp
    moreover have "chain n' (n y) (ys @ x # zs)"
      using Cons.prems False by (intro Cons.IH) auto
    ultimately show ?thesis using Cons.prems(1) by simp
  qed
qed simp

lemma chain_unlinkI:
  assumes "chain n p (qs @ x # zs)" and "distinct (qs @ x # zs)" and "qs \<noteq> []"
    and "n' (last qs) = n x" and "\<And>y. y \<in> set (qs @ zs) \<Longrightarrow> y \<noteq> last qs \<Longrightarrow> n' y = n y"
  shows "chain n' p (qs @ zs)"
  using assms
proof (induction qs arbitrary: p)
  case (Cons y ys)
  show ?case
  proof (cases "ys = []")
    case True
    have "chain n' (n x) zs = chain n (n x) zs"
      using Cons.prems(2,5) True by (intro chain_frame) auto
    with Cons.prems True show ?thesis by simp
  next
    case False
    then have "y \<noteq> last (y # ys)" using Cons.prems(2) last_in_set [OF False] by auto
    then have "n' y = n y" using Cons.prems(5) by simp
    moreover have "chain n' (n y) (ys @ zs)"
      using Cons.prems False by (intro Cons.IH) auto
    ultimately show ?thesis using Cons.prems(1) by simp
  qed
qed simp

section \<open>Delta queues\<close>

text \<open>The absolute due time of each element: the sum of the relative times up to its own.\<close>

fun due :: "(nat \<Rightarrow> nat) \<Rightarrow> nat \<Rightarrow> nat list \<Rightarrow> (nat \<times> nat) list" where
  "due s acc [] = []"
| "due s acc (x # xs) = (x, acc + s x) # due s (acc + s x) xs"

text \<open>The specification: insertion in front of the first element that is not due earlier, and
  insertion behind all elements that are due at the same time.\<close>

fun due_insert :: "nat \<Rightarrow> nat \<Rightarrow> (nat \<times> nat) list \<Rightarrow> (nat \<times> nat) list" where
  "due_insert x t [] = [(x, t)]"
| "due_insert x t ((y, u) # ys) = (if t \<le> u then (x, t) # (y, u) # ys else (y, u) # due_insert x t ys)"

fun due_insert_after :: "nat \<Rightarrow> nat \<Rightarrow> (nat \<times> nat) list \<Rightarrow> (nat \<times> nat) list" where
  "due_insert_after x t [] = [(x, t)]"
| "due_insert_after x t ((y, u) # ys) =
     (if t < u then (x, t) # (y, u) # ys else (y, u) # due_insert_after x t ys)"

lemma due_frame: "(\<And>x. x \<in> set xs \<Longrightarrow> s' x = s x) \<Longrightarrow> due s' acc xs = due s acc xs"
  by (induction xs arbitrary: acc) auto

lemma due_append:
  "due s acc (xs @ ys) = due s acc xs @ due s (acc + (\<Sum>x\<leftarrow>xs. s x)) ys"
  by (induction xs arbitrary: acc) (auto simp: add.assoc)

lemma map_fst_due: "map fst (due s acc xs) = xs"
  by (induction xs arbitrary: acc) auto

lemma due_shift: "due s (a + b) xs = map (\<lambda>(x, t). (x, t + a)) (due s b xs)"
proof (induction xs arbitrary: b)
  case (Cons x xs)
  show ?case using Cons [of "b + s x"] by (simp add: ac_simps)
qed simp

lemma set_due_insert: "set (due_insert x t ys) = insert (x, t) (set ys)"
  by (induction ys) (auto split: if_splits)

lemma set_due_insert_after: "set (due_insert_after x t ys) = insert (x, t) (set ys)"
  by (induction ys) (auto split: if_splits)

lemma sorted_due_insert: "sorted (map snd ys) \<Longrightarrow> sorted (map snd (due_insert x t ys))"
proof (induction ys)
  case (Cons a ys)
  obtain y u where a: "a = (y, u)" by (cases a)
  show ?case
  proof (cases "t \<le> u")
    case True
    with Cons.prems a show ?thesis by auto
  next
    case False
    with Cons a show ?thesis by (auto simp: set_due_insert)
  qed
qed simp

lemma sorted_due_insert_after:
  "sorted (map snd ys) \<Longrightarrow> sorted (map snd (due_insert_after x t ys))"
proof (induction ys)
  case (Cons a ys)
  obtain y u where a: "a = (y, u)" by (cases a)
  show ?case
  proof (cases "t < u")
    case True
    with Cons.prems a show ?thesis by auto
  next
    case False
    with Cons a show ?thesis by (auto simp: set_due_insert_after)
  qed
qed simp

lemma sorted_due: "sorted (map snd (due s acc xs)) \<and> (\<forall>t \<in> set (map snd (due s acc xs)). acc \<le> t)"
  by (induction xs arbitrary: acc) (auto intro: order_trans [rotated], fastforce)

text \<open>The elements with relative time zero at the front are those that are due.\<close>

lemma due_takeWhile:
  "takeWhile (\<lambda>x. s x = 0) xs = map fst (takeWhile (\<lambda>(x, d). d \<le> acc) (due s acc xs)) \<and>
   dropWhile (\<lambda>x. s x = 0) xs = map fst (dropWhile (\<lambda>(x, d). d \<le> acc) (due s acc xs)) \<and>
   due s acc (dropWhile (\<lambda>x. s x = 0) xs) = dropWhile (\<lambda>(x, d). d \<le> acc) (due s acc xs)"
  by (induction xs) (auto simp: map_fst_due)

end
