(* ===== verification/Thread_List.thy ===== *)
theory Thread_List
  imports Prelude Linked_List
begin

text \<open>
  The thread lists of the kernel (\<open>kernel/micro/tlist.c\<close> and \<open>tlist.h\<close>) on the thread
  structures they link through their \<open>next\<close> field (\<open>msched.h\<close>).  A thread pointer is the
  number of its slot in the array \<open>threads\<close>, NULL is \<open>None\<close>, and the array is a function;
  so one thread can be reached from several lists, as in the code.  A list abstracts to
  the sequence of its threads, the sleep queue also to the absolute due times that its
  relative sleep times stand for.
\<close>

section \<open>Threads and lists\<close>

datatype thread_state = EMPTY | RUNNING | READY | BLOCKED | SLEEPING

type_synonym tid = nat

record mos_thread =
  t_sp :: u16
  t_stack :: u16
  t_stackSize :: u16
  t_func :: u16
  t_st :: u32
  t_state :: thread_state
  t_suspend_state :: u8
  t_priority :: u8
  t_port :: u8
  t_next :: "tid option"
  t_waiting_for :: "tid option"
  t_thread_id :: u8

type_synonym threads = "tid \<Rightarrow> mos_thread"

record tlist_t =
  tl_head :: "tid option"
  tl_tail :: "tid option"

abbreviation set_next :: "tid \<Rightarrow> tid option \<Rightarrow> threads \<Rightarrow> threads" where
  "set_next x n h \<equiv> h(x := (h x)\<lparr>t_next := n\<rparr>)"

abbreviation set_st :: "tid \<Rightarrow> u32 \<Rightarrow> threads \<Rightarrow> threads" where
  "set_st x v h \<equiv> h(x := (h x)\<lparr>t_st := v\<rparr>)"

section \<open>The operations\<close>

definition mos_tlist_init :: tlist_t where
  "mos_tlist_init = \<lparr>tl_head = None, tl_tail = None\<rparr>"

definition mos_tlist_add :: "tlist_t \<Rightarrow> tid \<Rightarrow> threads \<Rightarrow> (tlist_t \<times> threads) option" where
  "mos_tlist_add l item h =
     (if tl_head l = None
      then Some (l\<lparr>tl_head := Some item, tl_tail := Some item\<rparr>, set_next item None h)
      else do {
        t \<leftarrow> tl_tail l;
        let h = set_next t (Some item) h;
        Some (l\<lparr>tl_tail := Some item\<rparr>, set_next item None h) })"

text \<open>The tail is left as it is, even when the list becomes empty.\<close>

definition mos_tlist_remove :: "tlist_t \<Rightarrow> threads \<Rightarrow> tid option \<times> tlist_t \<times> threads" where
  "mos_tlist_remove l h =
     (case tl_head l of
        None \<Rightarrow> (None, l, h)
      | Some f \<Rightarrow> (Some f, l\<lparr>tl_head := t_next (h f)\<rparr>, set_next f None h))"

definition mos_tlist_head :: "tlist_t \<Rightarrow> tid option" where
  "mos_tlist_head l = tl_head l"

text \<open>The loop of \<open>mos_tlist_get_thread\<close>; on a cyclic list it would not return.\<close>

partial_function (option) tlist_find ::
    "threads \<Rightarrow> tid option \<Rightarrow> tid option \<Rightarrow> tid option \<Rightarrow> (tid option \<times> tid option) option" where
  "tlist_find h tgt parent front =
     (case front of
        None \<Rightarrow> Some (parent, front)
      | Some f \<Rightarrow> if front = tgt then Some (parent, front)
                  else tlist_find h tgt front (t_next (h f)))"

text \<open>Removing the thread whose address is \<open>tgt\<close>: the pointers read through are checked,
  also \<open>front->next\<close> of the branch that is taken when \<open>front\<close> equals the head.\<close>

definition mos_tlist_get_thread ::
    "tlist_t \<Rightarrow> tid option \<Rightarrow> threads \<Rightarrow> (tid option \<times> tlist_t \<times> threads) option" where
  "mos_tlist_get_thread l tgt h =
     (if tl_head l = tl_tail l then
        (if tl_head l = tgt then Some (tl_head l, l\<lparr>tl_head := None, tl_tail := None\<rparr>, h)
         else Some (None, l, h))
      else do {
        (parent, front) \<leftarrow> tlist_find h tgt (tl_head l) (tl_head l);
        if front = tl_head l then do {
          f \<leftarrow> front;
          Some (front, l\<lparr>tl_head := t_next (h f)\<rparr>, h)
        } else (case front of
            None \<Rightarrow> Some (None, l, h)
          | Some f \<Rightarrow> do {
              let l = (if front = tl_tail l then l\<lparr>tl_tail := parent\<rparr> else l);
              p \<leftarrow> parent;
              Some (front, l, set_next p (t_next (h f)) h) }) })"

text \<open>The ordered insertion into the sleep queue: sleep times are relative to the thread in
  front, so the item's time is reduced on the way and the next one's at the insertion.\<close>

partial_function (option) ordadd_loop ::
    "tid \<Rightarrow> tid option \<Rightarrow> tid option \<Rightarrow> tlist_t \<Rightarrow> threads \<Rightarrow>
     (tid option \<times> tid option \<times> tlist_t \<times> threads) option" where
  "ordadd_loop item before after l h =
     (case after of
        None \<Rightarrow> Some (before, after, l, h)
      | Some a \<Rightarrow>
          if t_st (h item) \<le> t_st (h a) then
            (let h = set_st a (t_st (h a) - t_st (h item)) h;
                 h = set_next item after h
             in case before of
                  None \<Rightarrow> Some (before, after, l\<lparr>tl_head := Some item\<rparr>, h)
                | Some b \<Rightarrow> Some (before, after, l, set_next b (Some item) h))
          else ordadd_loop item after (t_next (h a)) l
                 (set_st item (t_st (h item) - t_st (h a)) h))"

definition mos_tlist_ordadd :: "tlist_t \<Rightarrow> tid \<Rightarrow> threads \<Rightarrow> (tlist_t \<times> threads) option" where
  "mos_tlist_ordadd l item h =
     (if tl_head l = None
      then Some (l\<lparr>tl_head := Some item, tl_tail := Some item\<rparr>, set_next item None h)
      else do {
        (before, after, l, h) \<leftarrow> ordadd_loop item None (tl_head l) l h;
        if after = None then do {
          b \<leftarrow> before;
          let h = set_next b (Some item) h;
          Some (l\<lparr>tl_tail := Some item\<rparr>, set_next item None h)
        } else Some (l, h) })"

partial_function (option) adjustst_loop :: "u16 \<Rightarrow> tid option \<Rightarrow> threads \<Rightarrow> threads option" where
  "adjustst_loop atime front h =
     (case front of
        None \<Rightarrow> Some h
      | Some f \<Rightarrow>
          if t_st (h f) < ucast atime
          then adjustst_loop (ucast (ucast atime - t_st (h f) :: u32)) (t_next (h f)) (set_st f 0 h)
          else Some (set_st f (t_st (h f) - ucast atime) h))"

definition mos_tlist_adjustst :: "tlist_t \<Rightarrow> u16 \<Rightarrow> threads \<Rightarrow> threads option" where
  "mos_tlist_adjustst l atime h = adjustst_loop atime (tl_head l) h"

section \<open>The sequence a list stands for\<close>

abbreviation tchain :: "threads \<Rightarrow> tid option \<Rightarrow> tid list \<Rightarrow> bool" where
  "tchain h \<equiv> chain (\<lambda>x. t_next (h x))"

definition tlist_rep :: "threads \<Rightarrow> tlist_t \<Rightarrow> tid list \<Rightarrow> bool" where
  "tlist_rep h l xs \<longleftrightarrow> tchain h (tl_head l) xs \<and> distinct xs \<and>
     (xs \<noteq> [] \<longrightarrow> tl_tail l = Some (last xs))"

lemma tchain_frame:
  "(\<And>x. x \<in> set xs \<Longrightarrow> t_next (h' x) = t_next (h x)) \<Longrightarrow> tchain h' p xs = tchain h p xs"
  by (rule chain_frame)

lemma tlist_rep_frame:
  "tlist_rep h l xs \<Longrightarrow> (\<And>x. x \<in> set xs \<Longrightarrow> t_next (h' x) = t_next (h x)) \<Longrightarrow> tlist_rep h' l xs"
  using tchain_frame [of xs h' h "tl_head l"] by (simp add: tlist_rep_def)

lemma tlist_rep_unique: "tlist_rep h l xs \<Longrightarrow> tlist_rep h l ys \<Longrightarrow> xs = ys"
  by (auto simp: tlist_rep_def intro: chain_unique)

lemma tlist_rep_empty: "tlist_rep h l [] \<longleftrightarrow> tl_head l = None"
  by (simp add: tlist_rep_def)

lemma tlist_rep_head: "tlist_rep h l xs \<Longrightarrow> tl_head l = (case xs of [] \<Rightarrow> None | x # _ \<Rightarrow> Some x)"
  by (auto simp: tlist_rep_def split: list.splits)

lemma tlist_rep_init: "tlist_rep h mos_tlist_init []"
  by (simp add: tlist_rep_def mos_tlist_init_def)

lemma chain_snoc:
  assumes "tchain h p xs" and "xs \<noteq> []" and "x \<notin> set xs" and "distinct xs"
  shows "tchain (set_next x None (set_next (last xs) (Some x) h)) p (xs @ [x])"
proof -
  have "last xs \<noteq> x" using assms(2,3) last_in_set by metis
  then show ?thesis
    using assms by (intro chain_insertI [of "\<lambda>x. t_next (h x)" _ _ "[]"]) auto
qed

text \<open>Two heaps that agree but for the links (and the links of the threads in \<open>X\<close> only).\<close>

definition links_only :: "tid set \<Rightarrow> threads \<Rightarrow> threads \<Rightarrow> bool" where
  "links_only X h h' \<longleftrightarrow> (\<forall>x. \<exists>n. h' x = (h x)\<lparr>t_next := n\<rparr>) \<and> (\<forall>x. x \<notin> X \<longrightarrow> h' x = h x)"

lemma ex_next: "\<exists>n. r = (r :: mos_thread)\<lparr>t_next := n\<rparr>"
  by (rule exI [of _ "t_next r"]) simp

lemma links_onlyD: "links_only X h h' \<Longrightarrow> h' x = (h x)\<lparr>t_next := t_next (h' x)\<rparr>"
  by (drule conjunct1 [OF iffD1 [OF links_only_def]], drule spec [of _ x]) auto

lemma links_only_fields:
  assumes "links_only X h h'"
  shows "t_st (h' x) = t_st (h x)" "t_state (h' x) = t_state (h x)"
    "t_priority (h' x) = t_priority (h x)"
  by (subst links_onlyD [OF assms], simp)+

lemma links_only_same: "links_only X h h' \<Longrightarrow> x \<notin> X \<Longrightarrow> h' x = h x"
  by (simp add: links_only_def)

lemma mos_tlist_add_ok:
  assumes "tlist_rep h l xs" and "x \<notin> set xs"
  shows "\<exists>l' h'. mos_tlist_add l x h = Some (l', h') \<and> tlist_rep h' l' (xs @ [x]) \<and>
    links_only (insert x (set xs)) h h'"
proof (cases "xs = []")
  case True
  with assms show ?thesis
    by (auto simp: mos_tlist_add_def tlist_rep_def links_only_def ex_next)
next
  case False
  let ?h = "set_next x None (set_next (last xs) (Some x) h)"
  from False assms have t: "tl_tail l = Some (last xs)" "tl_head l \<noteq> None"
    by (auto simp: tlist_rep_def neq_Nil_conv)
  have "mos_tlist_add l x h = Some (l\<lparr>tl_tail := Some x\<rparr>, ?h)"
    using t by (auto simp: mos_tlist_add_def)
  moreover have "tlist_rep ?h (l\<lparr>tl_tail := Some x\<rparr>) (xs @ [x])"
    using assms False chain_snoc [of h "tl_head l" xs x] by (simp add: tlist_rep_def)
  moreover have "links_only (insert x (set xs)) h ?h"
    using False by (auto simp: links_only_def ex_next)
  ultimately show ?thesis by blast
qed

lemma mos_tlist_remove_nil: "tlist_rep h l [] \<Longrightarrow> mos_tlist_remove l h = (None, l, h)"
  by (simp add: mos_tlist_remove_def tlist_rep_def)

lemma mos_tlist_remove_ok:
  assumes "tlist_rep h l (x # xs)"
  shows "mos_tlist_remove l h = (Some x, l\<lparr>tl_head := t_next (h x)\<rparr>, set_next x None h)"
    and "tlist_rep (set_next x None h) (l\<lparr>tl_head := t_next (h x)\<rparr>) xs"
proof -
  show "mos_tlist_remove l h = (Some x, l\<lparr>tl_head := t_next (h x)\<rparr>, set_next x None h)"
    using assms by (simp add: mos_tlist_remove_def tlist_rep_def)
  have "tchain (set_next x None h) p xs = tchain h p xs" for p
    using assms by (intro tchain_frame) (auto simp: tlist_rep_def)
  then show "tlist_rep (set_next x None h) (l\<lparr>tl_head := t_next (h x)\<rparr>) xs"
    using assms by (auto simp: tlist_rep_def)
qed

section \<open>A thread list is a first-in first-out queue\<close>

text \<open>The threads of a list, read off with a bound of \<open>MAX_THREADS\<close> steps.\<close>

definition MAX_THREADS :: nat where "MAX_THREADS = 10"

fun walk :: "nat \<Rightarrow> threads \<Rightarrow> tid option \<Rightarrow> tid list" where
  "walk (Suc n) h (Some x) = x # walk n h (t_next (h x))"
| "walk _ h _ = []"

lemma walk_chain: "tchain h p xs \<Longrightarrow> length xs \<le> n \<Longrightarrow> walk n h p = xs"
proof (induction xs arbitrary: n p)
  case Nil
  then show ?case by (cases n) simp_all
next
  case (Cons x xs)
  then show ?case by (cases n) auto
qed

definition tl_items :: "tlist_t \<times> threads \<Rightarrow> tid list" where
  "tl_items q = walk MAX_THREADS (snd q) (tl_head (fst q))"

definition tl_inv :: "tlist_t \<times> threads \<Rightarrow> bool" where
  "tl_inv q \<longleftrightarrow> tlist_rep (snd q) (fst q) (tl_items q) \<and> length (tl_items q) \<le> MAX_THREADS"

definition tl_fits :: "tid list \<Rightarrow> tlist_t \<times> threads \<Rightarrow> bool" where
  "tl_fits xs q \<longleftrightarrow> distinct xs \<and> set xs \<inter> set (tl_items q) = {} \<and>
     length (tl_items q) + length xs \<le> MAX_THREADS"

definition tl_enq :: "tid \<Rightarrow> tlist_t \<times> threads \<Rightarrow> (tlist_t \<times> threads) option" where
  "tl_enq x q = mos_tlist_add (fst q) x (snd q)"

definition tl_deq :: "tlist_t \<times> threads \<Rightarrow> (tid \<times> (tlist_t \<times> threads)) option" where
  "tl_deq q = (case mos_tlist_remove (fst q) (snd q) of (x, q') \<Rightarrow> map_option (\<lambda>x. (x, q')) x)"

lemma tl_repI: "tlist_rep h l xs \<Longrightarrow> length xs \<le> MAX_THREADS \<Longrightarrow> tl_inv (l, h) \<and> tl_items (l, h) = xs"
  using walk_chain [of h "tl_head l" xs MAX_THREADS] by (auto simp: tl_inv_def tl_items_def tlist_rep_def)

interpretation thread_fifo: fifo tl_enq tl_deq tl_items tl_inv tl_fits
proof unfold_locales
  fix q :: "tlist_t \<times> threads" and x xs
  assume inv: "tl_inv q" and fits: "tl_fits (x # xs) q"
  obtain l h where q: "q = (l, h)" by (cases q)
  from inv fits q have "tlist_rep h l (tl_items q)" "x \<notin> set (tl_items q)"
    by (auto simp: tl_inv_def tl_fits_def)
  from mos_tlist_add_ok [OF this] obtain l' h' where
    a: "mos_tlist_add l x h = Some (l', h')" "tlist_rep h' l' (tl_items q @ [x])" by blast
  have "length (tl_items q @ [x]) \<le> MAX_THREADS" using fits by (simp add: tl_fits_def)
  from tl_repI [OF a(2) this] a(1) fits q
  show "\<exists>q'. tl_enq x q = Some q' \<and> tl_inv q' \<and> tl_items q' = tl_items q @ [x] \<and> tl_fits xs q'"
    by (auto simp: tl_enq_def tl_fits_def)
next
  fix q :: "tlist_t \<times> threads" and x xs
  assume inv: "tl_inv q" and items: "tl_items q = x # xs"
  obtain l h where q: "q = (l, h)" by (cases q)
  from inv items q have rep: "tlist_rep h l (x # xs)" and "length xs \<le> MAX_THREADS"
    by (auto simp: tl_inv_def)
  from tl_repI [OF mos_tlist_remove_ok(2) [OF rep] this(2)] mos_tlist_remove_ok(1) [OF rep] q
  show "\<exists>q'. tl_deq q = Some (x, q') \<and> tl_inv q' \<and> tl_items q' = xs"
    by (simp add: tl_deq_def)
qed

section \<open>The sleep queue and its due times\<close>

abbreviation tdue :: "threads \<Rightarrow> nat \<Rightarrow> tid list \<Rightarrow> (tid \<times> nat) list" where
  "tdue h \<equiv> due (\<lambda>x. unat (t_st (h x)))"

lemma tdue_frame: "(\<And>x. x \<in> set xs \<Longrightarrow> t_st (h' x) = t_st (h x)) \<Longrightarrow> tdue h' acc xs = tdue h acc xs"
  by (rule due_frame) simp

text \<open>What the loop does from a point where \<open>ps\<close> has been passed and \<open>ys\<close> is to come:
  it stops between \<open>qs\<close> and \<open>zs\<close>; with \<open>zs = []\<close> the caller links the item at the end.\<close>

lemma ordadd_loop_ok:
  assumes "tchain h (tl_head l) (ps @ ys)" and "distinct (ps @ ys)" and "x \<notin> set (ps @ ys)"
  shows "\<exists>qs zs l' h'. ordadd_loop x (lastp ps) (headp ys) l h = Some (lastp (ps @ qs), headp zs, l', h') \<and>
    ys = qs @ zs \<and> tl_tail l' = tl_tail l \<and>
    (zs \<noteq> [] \<longrightarrow> tchain h' (tl_head l') (ps @ qs @ x # zs)) \<and>
    (zs = [] \<longrightarrow> l' = l \<and> tchain h' (tl_head l) (ps @ ys)) \<and>
    (\<forall>acc. tdue h' acc (qs @ x # zs) = due_insert x (acc + unat (t_st (h x))) (tdue h acc ys)) \<and>
    (\<forall>y. y \<noteq> x \<longrightarrow> y \<notin> set zs \<longrightarrow> t_st (h' y) = t_st (h y)) \<and>
    (\<forall>y. t_state (h' y) = t_state (h y) \<and> t_priority (h' y) = t_priority (h y)) \<and>
    (\<forall>y. y \<noteq> x \<longrightarrow> y \<notin> set (ps @ ys) \<longrightarrow> h' y = h y)"
  using assms
proof (induction ys arbitrary: ps h)
  case Nil
  then show ?case by (intro exI [of _ "[]"]) (simp add: ordadd_loop.simps)
next
  case (Cons a ys)
  show ?case
  proof (cases "t_st (h x) \<le> t_st (h a)")
    case True
    let ?g = "set_next x (Some a) (set_st a (t_st (h a) - t_st (h x)) h)"
    define g where "g = (case lastp ps of None \<Rightarrow> ?g | Some b \<Rightarrow> set_next b (Some x) ?g)"
    define k where "k = (if ps = [] then l\<lparr>tl_head := Some x\<rparr> else l)"
    have xa: "x \<noteq> a" using Cons.prems(3) by auto
    have run: "ordadd_loop x (lastp ps) (Some a) l h = Some (lastp ps, Some a, k, g)"
      using True xa by (auto simp: ordadd_loop.simps g_def k_def lastp_def Let_def)
    have st: "t_st (g a) = t_st (h a) - t_st (h x)" "t_st (g x) = t_st (h x)"
      "\<And>y. y \<noteq> a \<Longrightarrow> t_st (g y) = t_st (h y)"
      using xa by (auto simp: g_def lastp_def)
    have "ps \<noteq> [] \<Longrightarrow> last ps \<noteq> x"
      using Cons.prems(3) last_in_set [of ps] by (metis UnI1 set_append)
    then have nx: "t_next (g x) = Some a" "ps \<noteq> [] \<Longrightarrow> t_next (g (last ps)) = Some x"
      "\<And>y. y \<noteq> x \<Longrightarrow> ps \<noteq> [] \<longrightarrow> y \<noteq> last ps \<Longrightarrow> t_next (g y) = t_next (h y)"
      using xa by (auto simp: g_def lastp_def)
    have ch: "tchain g (tl_head k) (ps @ x # a # ys)"
    proof (cases "ps = []")
      case True
      have "tchain g (Some a) (a # ys) = tchain h (Some a) (a # ys)"
      proof (rule tchain_frame)
        fix y assume "y \<in> set (a # ys)"
        then have "y \<noteq> x" using Cons.prems(3) by auto
        then show "t_next (g y) = t_next (h y)" by (rule nx(3)) (simp add: True)
      qed
      with True Cons.prems(1) nx(1) show ?thesis by (simp add: k_def)
    next
      case False
      have "tchain g (tl_head l) (ps @ x # a # ys)"
      proof (rule chain_insertI [OF Cons.prems(1,2) False Cons.prems(3)])
        show "t_next (g x) = headp (a # ys)" using nx(1) by simp
        show "t_next (g (last ps)) = Some x" using nx(2) False by simp
        fix y assume "y \<in> set (ps @ a # ys)" "y \<noteq> last ps"
        moreover have "y \<noteq> x" using \<open>y \<in> set (ps @ a # ys)\<close> Cons.prems(3) by blast
        ultimately show "t_next (g y) = t_next (h y)" by (intro nx(3)) simp_all
      qed
      with False show ?thesis by (simp add: k_def)
    qed
    have sum: "unat (t_st (h x)) + unat (t_st (h a) - t_st (h x)) = unat (t_st (h a))"
      using True by (simp add: unat_sub word_le_nat_alt)
    have "a \<notin> set ys" using Cons.prems(2) by simp
    then have fr: "tdue g acc ys = tdue h acc ys" for acc
      by (intro tdue_frame) (metis st(3))
    have "tdue g acc (x # a # ys) = due_insert x (acc + unat (t_st (h x))) (tdue h acc (a # ys))" for acc
      using True sum fr by (simp add: st add.assoc word_le_nat_alt)
    moreover have "\<forall>y. t_state (g y) = t_state (h y) \<and> t_priority (g y) = t_priority (h y)"
      by (simp add: g_def lastp_def)
    moreover have "\<forall>y. y \<noteq> x \<longrightarrow> y \<notin> set (ps @ a # ys) \<longrightarrow> g y = h y"
    proof (intro allI impI)
      fix y assume y: "y \<noteq> x" "y \<notin> set (ps @ a # ys)"
      then have "y \<noteq> a" "ps \<noteq> [] \<longrightarrow> y \<noteq> last ps" using last_in_set [of ps] by auto
      with y(1) show "g y = h y" by (simp add: g_def lastp_def)
    qed
    moreover have "tl_tail k = tl_tail l" by (simp add: k_def)
    moreover have "\<forall>y. y \<noteq> x \<longrightarrow> y \<notin> set (a # ys) \<longrightarrow> t_st (g y) = t_st (h y)"
      using st(3) by simp
    ultimately show ?thesis
      using run ch by (intro exI [of _ "[]"] exI [of _ "a # ys"] exI [of _ k] exI [of _ g]) simp
  next
    case False
    let ?h = "set_st x (t_st (h x) - t_st (h a)) h"
    have xa: "x \<noteq> a" "x \<notin> set ys" "a \<notin> set ys" using Cons.prems(2,3) by auto
    have "tchain ?h (tl_head l) ((ps @ [a]) @ ys)"
      using Cons.prems(1) tchain_frame [of "(ps @ [a]) @ ys" ?h h] by simp
    moreover have "distinct ((ps @ [a]) @ ys)" "x \<notin> set ((ps @ [a]) @ ys)"
      using Cons.prems(2,3) by auto
    ultimately obtain qs zs l' h' where
      ih: "ordadd_loop x (Some a) (headp ys) l ?h = Some (lastp ((ps @ [a]) @ qs), headp zs, l', h')"
        "ys = qs @ zs" "tl_tail l' = tl_tail l"
        "zs \<noteq> [] \<longrightarrow> tchain h' (tl_head l') ((ps @ [a]) @ qs @ x # zs)"
        "zs = [] \<longrightarrow> l' = l \<and> tchain h' (tl_head l) ((ps @ [a]) @ ys)"
        "\<forall>acc. tdue h' acc (qs @ x # zs) = due_insert x (acc + unat (t_st (?h x))) (tdue ?h acc ys)"
        "\<forall>y. y \<noteq> x \<longrightarrow> y \<notin> set zs \<longrightarrow> t_st (h' y) = t_st (?h y)"
        "\<forall>y. t_state (h' y) = t_state (?h y) \<and> t_priority (h' y) = t_priority (?h y)"
        "\<forall>y. y \<noteq> x \<longrightarrow> y \<notin> set ((ps @ [a]) @ ys) \<longrightarrow> h' y = ?h y"
      using Cons.IH [of ?h "ps @ [a]"] unfolding lastp_simps by blast
    have "tchain h (Some a) (a # ys)" using Cons.prems(1) by (rule chain_append)
    then have "t_next (h a) = headp ys" using chain_headp by simp
    then have run: "ordadd_loop x (lastp ps) (Some a) l h =
        Some (lastp (ps @ a # qs), headp zs, l', h')"
      using False ih(1) by (simp add: ordadd_loop.simps [of _ _ "Some a"])
    have sa: "t_st (h' a) = t_st (h a)" using ih(2,7) xa by auto
    have sum: "unat (t_st (h a)) + unat (t_st (h x) - t_st (h a)) = unat (t_st (h x))"
      "unat (t_st (h a)) < unat (t_st (h x))"
      using False by (simp_all add: unat_sub word_le_nat_alt)
    have fr: "tdue ?h acc ys = tdue h acc ys" for acc
      using xa by (intro tdue_frame) auto
    have "tdue h' acc ((a # qs) @ x # zs) =
        due_insert x (acc + unat (t_st (h x))) (tdue h acc (a # ys))" for acc
      using ih(6) [rule_format, of "acc + unat (t_st (h a))"] sum fr sa by (simp add: add.assoc)
    moreover have "\<forall>y. y \<noteq> x \<longrightarrow> y \<notin> set zs \<longrightarrow> t_st (h' y) = t_st (h y)"
      using ih(7) by simp
    moreover have "\<forall>y. t_state (h' y) = t_state (h y) \<and> t_priority (h' y) = t_priority (h y)"
      using ih(8) by simp
    moreover have "\<forall>y. y \<noteq> x \<longrightarrow> y \<notin> set (ps @ a # ys) \<longrightarrow> h' y = h y"
      using ih(9) by simp
    ultimately show ?thesis
      using run ih(2-5)
      by (intro exI [of _ "a # qs"] exI [of _ zs] exI [of _ l'] exI [of _ h']) simp
  qed
qed

lemma mos_tlist_ordadd_ok:
  assumes "tlist_rep h l xs" and "x \<notin> set xs"
  shows "\<exists>l' h' ys. mos_tlist_ordadd l x h = Some (l', h') \<and> tlist_rep h' l' ys \<and>
    tdue h' 0 ys = due_insert x (unat (t_st (h x))) (tdue h 0 xs) \<and>
    (\<forall>y. t_state (h' y) = t_state (h y) \<and> t_priority (h' y) = t_priority (h y)) \<and>
    (\<forall>y. y \<noteq> x \<longrightarrow> y \<notin> set xs \<longrightarrow> h' y = h y)"
proof (cases "xs = []")
  case True
  with assms show ?thesis
    by (intro exI [of _ "l\<lparr>tl_head := Some x, tl_tail := Some x\<rparr>"] exI [of _ "set_next x None h"]
        exI [of _ "[x]"]) (simp add: mos_tlist_ordadd_def tlist_rep_def)
next
  case False
  from assms have rep: "tchain h (tl_head l) ([] @ xs)" "distinct ([] @ xs)" "x \<notin> set ([] @ xs)"
    and tl: "tl_tail l = Some (last xs)" using False by (auto simp: tlist_rep_def)
  have hd: "tl_head l = headp xs" "tl_head l \<noteq> None"
    using rep(1) chain_headp False by (auto simp: neq_Nil_conv)
  from ordadd_loop_ok [OF rep] obtain qs zs l' h' where
    r: "ordadd_loop x None (tl_head l) l h = Some (lastp qs, headp zs, l', h')" "xs = qs @ zs"
      "tl_tail l' = tl_tail l" "zs \<noteq> [] \<longrightarrow> tchain h' (tl_head l') (qs @ x # zs)"
      "zs = [] \<longrightarrow> l' = l \<and> tchain h' (tl_head l) xs"
      "\<forall>acc. tdue h' acc (qs @ x # zs) = due_insert x (acc + unat (t_st (h x))) (tdue h acc xs)"
      "\<forall>y. t_state (h' y) = t_state (h y) \<and> t_priority (h' y) = t_priority (h y)"
      "\<forall>y. y \<noteq> x \<longrightarrow> y \<notin> set xs \<longrightarrow> h' y = h y"
    unfolding append_Nil lastp_simps hd(1) [symmetric] by blast
  have due: "tdue h' 0 (qs @ x # zs) = due_insert x (unat (t_st (h x))) (tdue h 0 xs)"
    using r(6) [rule_format, of 0] by simp
  show ?thesis
  proof (cases "zs = []")
    case True
    let ?h = "set_next x None (set_next (last xs) (Some x) h')"
    have lx: "lastp qs = Some (last xs)" using True r(2) False by (simp add: lastp_def)
    have "mos_tlist_ordadd l x h = Some (l\<lparr>tl_tail := Some x\<rparr>, ?h)"
      using hd(2) r(1,5) True lx by (auto simp: mos_tlist_ordadd_def)
    moreover have "tchain ?h (tl_head l) (xs @ [x])"
      using r(5) True False assms by (intro chain_snoc) (auto simp: tlist_rep_def)
    moreover have "tdue ?h 0 (xs @ [x]) = tdue h' 0 (xs @ [x])" by (rule tdue_frame) simp
    ultimately show ?thesis
      using due r(2,7,8) True False assms
      by (intro exI [of _ "l\<lparr>tl_tail := Some x\<rparr>"] exI [of _ ?h] exI [of _ "xs @ [x]"])
        (simp add: tlist_rep_def)
  next
    case False
    then have "headp zs \<noteq> None" by (cases zs) auto
    then have "mos_tlist_ordadd l x h = Some (l', h')"
      using hd(2) r(1) by (auto simp: mos_tlist_ordadd_def)
    moreover have "tlist_rep h' l' (qs @ x # zs)"
      using r(2-4) False tl rep by (auto simp: tlist_rep_def)
    ultimately show ?thesis using due r(7,8) by blast
  qed
qed

section \<open>Time passing in the sleep queue\<close>

lemma adjustst_loop_ok:
  assumes "tchain h p xs" and "distinct xs"
  shows "\<exists>h'. adjustst_loop a p h = Some h' \<and>
    (\<forall>y. \<exists>v. h' y = (h y)\<lparr>t_st := v\<rparr>) \<and> (\<forall>y. y \<notin> set xs \<longrightarrow> h' y = h y) \<and>
    tdue h' 0 xs = map (\<lambda>(x, t). (x, t - unat a)) (tdue h 0 xs)"
  using assms
proof (induction xs arbitrary: p h a)
  case Nil
  have "\<exists>v. h y = (h y)\<lparr>t_st := v\<rparr>" for y by (rule exI [of _ "t_st (h y)"]) simp
  with Nil show ?case by (simp add: adjustst_loop.simps)
next
  case (Cons x xs)
  let ?s = "t_st (h x)"
  have un: "unat (ucast a :: u32) = unat a"
    by (simp add: unsigned_ucast_eq take_bit_nat_eq_self unat_u16_less [THEN less_trans])
  have p: "p = Some x" using Cons.prems by simp
  have upd: "\<exists>v. (set_st x w h) y = (h y)\<lparr>t_st := v\<rparr>" for w y
    by (cases "y = x") (auto intro: exI [of _ "t_st (h y)"])
  show ?case
  proof (cases "?s < ucast a")
    case True
    let ?a = "ucast (ucast a - ?s :: u32) :: u16" and ?h = "set_st x 0 h"
    have lt: "unat ?s < unat a" using True by (simp add: word_less_nat_alt un)
    have "unat (ucast a - ?s :: u32) = unat a - unat ?s"
      using True by (simp add: unat_sub word_less_nat_alt word_le_nat_alt un)
    moreover have "unat a - unat ?s < 65536" using unat_u16_less [of a] by linarith
    ultimately have ua: "unat ?a = unat a - unat ?s"
      by (simp add: unsigned_ucast_eq take_bit_nat_eq_self)
    have "tchain ?h (t_next (h x)) xs"
      using Cons.prems tchain_frame [of xs ?h h] by simp
    moreover have "distinct xs" using Cons.prems(2) by simp
    ultimately obtain h' where ih:
      "adjustst_loop ?a (t_next (h x)) ?h = Some h'" "\<forall>y. \<exists>v. h' y = (?h y)\<lparr>t_st := v\<rparr>"
      "\<forall>y. y \<notin> set xs \<longrightarrow> h' y = ?h y" "tdue h' 0 xs = map (\<lambda>(x, t). (x, t - unat ?a)) (tdue ?h 0 xs)"
      using Cons.IH [of ?h "t_next (h x)" ?a] by blast
    have "adjustst_loop a p h = Some h'"
      using True ih(1) p by (simp add: adjustst_loop.simps [of a])
    moreover have "\<forall>y. \<exists>v. h' y = (h y)\<lparr>t_st := v\<rparr>"
    proof
      fix y from ih(2) obtain v where "h' y = (?h y)\<lparr>t_st := v\<rparr>" by blast
      then show "\<exists>v. h' y = (h y)\<lparr>t_st := v\<rparr>" by (intro exI [of _ v]) simp
    qed
    moreover have "t_st (h' x) = 0" using ih(3) Cons.prems(2) by simp
    moreover have "tdue ?h b xs = tdue h b xs" for b
      using Cons.prems(2) by (intro tdue_frame) auto
    ultimately show ?thesis
      using ih(3,4) lt ua due_shift [of "\<lambda>x. unat (t_st (h x))" "unat ?s" 0 xs]
      by (intro exI [of _ h']) (auto simp: case_prod_beta)
  next
    case False
    let ?h = "set_st x (?s - ucast a) h"
    have "adjustst_loop a p h = Some ?h" using False p by (simp add: adjustst_loop.simps)
    moreover have "unat (?s - ucast a) = unat ?s - unat a"
      using False by (simp add: unat_sub word_le_nat_alt word_less_nat_alt un)
    moreover have "tdue ?h b xs = tdue h b xs" for b
      using Cons.prems(2) by (intro tdue_frame) auto
    moreover have "unat a \<le> unat ?s" using False by (simp add: word_less_nat_alt un)
    ultimately show ?thesis
      using upd due_shift [of "\<lambda>x. unat (t_st (h x))" "unat ?s" 0 xs] due_shift [of "\<lambda>x. unat (t_st (h x))" "unat ?s - unat a" 0 xs]
      by (intro exI [of _ ?h] conjI) (simp_all add: case_prod_beta del: fun_upd_apply, simp_all add: case_prod_beta)
  qed
qed

text \<open>When \<open>a\<close> ticks have passed, \<open>mos_tlist_adjustst\<close> reduces the time left until each
  sleeping thread is due by \<open>a\<close>, to zero for those that are due, although it changes the
  relative times of a prefix of the queue only; the links of the queue stay as they are.\<close>
theorem sleep_queue_time:
  assumes "tlist_rep h l xs"
  shows "\<exists>h'. mos_tlist_adjustst l a h = Some h' \<and> tlist_rep h' l xs \<and>
    tdue h' 0 xs = map (\<lambda>(x, t). (x, t - unat a)) (tdue h 0 xs)"
proof -
  from assms have "tchain h (tl_head l) xs" "distinct xs" by (auto simp: tlist_rep_def)
  from adjustst_loop_ok [OF this, of a] obtain h' where h':
    "adjustst_loop a (tl_head l) h = Some h'" "\<forall>y. \<exists>v. h' y = (h y)\<lparr>t_st := v\<rparr>"
    "tdue h' 0 xs = map (\<lambda>(x, t). (x, t - unat a)) (tdue h 0 xs)" by blast
  have "t_next (h' y) = t_next (h y)" for y
  proof -
    from h'(2) obtain v where "h' y = (h y)\<lparr>t_st := v\<rparr>" by blast
    then show ?thesis by simp
  qed
  with assms have "tlist_rep h' l xs" by (auto intro: tlist_rep_frame)
  with h' show ?thesis by (auto simp: mos_tlist_adjustst_def)
qed

text \<open>\<open>mos_tlist_ordadd\<close> keeps the sleep queue sorted by due time: it inserts the new
  thread in front of the first thread that is not due earlier, leaving every other thread's
  due time unchanged although the stored sleep times are relative to the thread before.\<close>
theorem sleep_queue_insert:
  assumes "tlist_rep h l xs" and "x \<notin> set xs"
  shows "\<exists>l' h' ys. mos_tlist_ordadd l x h = Some (l', h') \<and> tlist_rep h' l' ys \<and>
    tdue h' 0 ys = due_insert x (unat (t_st (h x))) (tdue h 0 xs) \<and> sorted (map snd (tdue h' 0 ys))"
  using mos_tlist_ordadd_ok [OF assms] sorted_due_insert [of "tdue h 0 xs"] sorted_due [of "\<lambda>x. unat (t_st (h x))" 0 xs]
  by fastforce

section \<open>Taking a given thread out of a list\<close>

text \<open>The search stops at the thread asked for, with its predecessor, or at the end.\<close>

lemma tlist_find_hit:
  "tchain h p (qs @ x # zs) \<Longrightarrow> x \<notin> set qs \<Longrightarrow>
   tlist_find h (Some x) q p = Some (if qs = [] then q else lastp qs, Some x)"
proof (induction qs arbitrary: p q)
  case (Cons y ys)
  then show ?case
    by (subst tlist_find.simps) (auto simp: lastp_def)
qed (simp add: tlist_find.simps)

lemma tlist_find_miss:
  "tchain h p xs \<Longrightarrow> tgt \<notin> Some ` set xs \<Longrightarrow> \<exists>q'. tlist_find h tgt q p = Some (q', None)"
proof (induction xs arbitrary: p q)
  case (Cons y ys)
  then have "\<exists>q'. tlist_find h tgt (Some y) (t_next (h y)) = Some (q', None)" by auto
  with Cons.prems show ?case
    by (subst tlist_find.simps) auto
qed (simp add: tlist_find.simps)

lemma chain_unlink:
  assumes "tchain h p (qs @ x # zs)" and "distinct (qs @ x # zs)" and "qs \<noteq> []"
  shows "tchain (set_next (last qs) (t_next (h x)) h) p (qs @ zs)"
  by (rule chain_unlinkI [OF assms]) simp_all

lemma get_thread_ok:
  assumes "tlist_rep h l xs" and "xs \<noteq> []"
  shows "(x \<in> set xs \<longrightarrow> (\<exists>l' h'. mos_tlist_get_thread l (Some x) h = Some (Some x, l', h') \<and>
            tlist_rep h' l' (remove1 x xs) \<and> links_only (set xs - {x}) h h')) \<and>
         (x \<notin> set xs \<longrightarrow> mos_tlist_get_thread l (Some x) h = Some (None, l, h))"
proof -
  obtain a xs' where xs: "xs = a # xs'" using assms(2) by (cases xs) auto
  from assms have c: "tchain h (tl_head l) xs" "distinct xs" "tl_tail l = Some (last xs)"
    "tl_head l = Some a" by (auto simp: tlist_rep_def xs)
  show ?thesis
  proof (cases "xs' = []")
    case True
    then show ?thesis using c xs
      by (auto simp: mos_tlist_get_thread_def tlist_rep_def links_only_def ex_next)
  next
    case False
    then have ne: "tl_head l \<noteq> tl_tail l" using c xs last_in_set [OF False] by auto
    have hit: "\<exists>l' h'. mos_tlist_get_thread l (Some x) h = Some (Some x, l', h') \<and>
            tlist_rep h' l' (remove1 x xs) \<and> links_only (set xs - {x}) h h'" if "x \<in> set xs"
    proof -
      from that obtain qs zs where s: "xs = qs @ x # zs" "x \<notin> set qs"
        by (meson split_list_first)
      have f: "tlist_find h (Some x) (tl_head l) (tl_head l) =
          Some (if qs = [] then tl_head l else lastp qs, Some x)"
        using c(1) s by (intro tlist_find_hit [of _ _ _ _ zs]) auto
      have r: "remove1 x xs = qs @ zs" using s c(2) by (simp add: remove1_append)
      show ?thesis
      proof (cases "qs = []")
        case True
        then have "zs \<noteq> []" "a = x" using s xs False by auto
        with True f ne c s r show ?thesis
          by (auto simp: mos_tlist_get_thread_def tlist_rep_def links_only_def ex_next)
      next
        case q: False
        then have "x \<noteq> a" using s xs by (cases qs) auto
        let ?l = "if Some x = tl_tail l then l\<lparr>tl_tail := lastp qs\<rparr> else l"
        have g: "mos_tlist_get_thread l (Some x) h =
            Some (Some x, ?l, set_next (last qs) (t_next (h x)) h)"
          using q f ne c(4) \<open>x \<noteq> a\<close> by (simp add: mos_tlist_get_thread_def lastp_def)
        have "tl_head ?l = tl_head l" by simp
        moreover have "tl_tail ?l = Some (last (qs @ zs))"
        proof (cases "zs = []")
          case True
          then show ?thesis using c(3) s q by (simp add: lastp_def)
        next
          case False
          then have "last zs \<noteq> x" using c(2) s last_in_set [OF False] by auto
          then show ?thesis using False c(3) s by simp
        qed
        moreover have "tchain (set_next (last qs) (t_next (h x)) h) (tl_head l) (qs @ zs)"
          using c(1,2) s(1) q by (intro chain_unlink) simp_all
        ultimately have "tlist_rep (set_next (last qs) (t_next (h x)) h) ?l (remove1 x xs)"
          using c(2) s r by (simp add: tlist_rep_def)
        moreover have "last qs \<in> set xs - {x}" using q s by auto
        then have "links_only (set xs - {x}) h (set_next (last qs) (t_next (h x)) h)"
          by (auto simp: links_only_def ex_next)
        ultimately show ?thesis using g by blast
      qed
    qed
    have miss: "mos_tlist_get_thread l (Some x) h = Some (None, l, h)" if nx: "x \<notin> set xs"
    proof -
      from nx have "Some x \<notin> Some ` set xs" by auto
      from tlist_find_miss [OF c(1) this, of "tl_head l"] ne c(4) show ?thesis
        by (auto simp: mos_tlist_get_thread_def)
    qed
    show ?thesis using hit miss by blast
  qed
qed

text \<open>On a non-empty list \<open>mos_tlist_get_thread\<close> unlinks exactly the thread asked for and
  keeps the order of the others, and the head and the tail right; asked for a thread that is not
  in the list it changes nothing and returns NULL.\<close>
theorem get_thread_unlinks:
  assumes "tlist_rep h l xs" and "xs \<noteq> []"
  shows "(x \<in> set xs \<longrightarrow> (\<exists>l' h'. mos_tlist_get_thread l (Some x) h = Some (Some x, l', h') \<and>
            tlist_rep h' l' (remove1 x xs))) \<and>
         (x \<notin> set xs \<longrightarrow> mos_tlist_get_thread l (Some x) h = Some (None, l, h))"
  using get_thread_ok [OF assms] by blast

definition sample_threads :: threads where
  "sample_threads = (\<lambda>x. \<lparr>t_sp = 0, t_stack = 0, t_stackSize = 0, t_func = 0, t_st = [30, 20, 25, 5] ! (x mod 4),
     t_state = SLEEPING, t_suspend_state = 0, t_priority = 1, t_port = 0,
     t_next = (if x < 2 then Some (Suc x) else None), t_waiting_for = None, t_thread_id = of_nat x\<rparr>)"

definition sample_list :: tlist_t where
  "sample_list = \<lparr>tl_head = Some 0, tl_tail = Some 2\<rparr>"

lemma sample_list_rep: "tlist_rep sample_threads sample_list [0, 1, 2]"
  by (simp add: tlist_rep_def sample_list_def sample_threads_def)

theorem sleep_queue_time_witness:
  "\<exists>h'. mos_tlist_adjustst sample_list 40 sample_threads = Some h' \<and>
    tlist_rep h' sample_list [0, 1, 2] \<and> tdue h' 0 [0, 1, 2] = [(0, 0), (1, 10), (2, 35)]"
  using sleep_queue_time [OF sample_list_rep, of 40] by (simp add: sample_threads_def)

theorem sleep_queue_insert_witness:
  "\<exists>l' h' ys. mos_tlist_ordadd sample_list 3 sample_threads = Some (l', h') \<and>
    tlist_rep h' l' ys \<and> tdue h' 0 ys = [(3, 5), (0, 30), (1, 50), (2, 75)] \<and>
    sorted (map snd (tdue h' 0 ys))"
  using sleep_queue_insert [OF sample_list_rep, of 3] by (simp add: sample_threads_def)

theorem get_thread_unlinks_witness:
  "(\<exists>l' h'. mos_tlist_get_thread sample_list (Some 1) sample_threads = Some (Some 1, l', h') \<and>
     tlist_rep h' l' [0, 2]) \<and>
   mos_tlist_get_thread sample_list (Some 7) sample_threads = Some (None, sample_list, sample_threads)"
  using get_thread_unlinks [OF sample_list_rep, of 1] get_thread_unlinks [OF sample_list_rep, of 7]
  by simp

text \<open>\<open>mos_tlist_remove\<close> leaves the tail of a drained list pointing at the removed
  thread, so \<open>mos_tlist_get_thread\<close> on a list that was emptied that way does not see that it
  is empty: the search ends with NULL, which equals the head, and NULL is dereferenced.\<close>
theorem get_thread_after_drain:
  assumes "tlist_rep h l [x]" and "mos_tlist_remove l h = (Some x, l', h')"
  shows "tlist_rep h' l' [] \<and> mos_tlist_get_thread l' tgt h' = None"
proof -
  have "tl_head l' = None" "tl_tail l' = Some x"
    using assms by (auto simp: mos_tlist_remove_def tlist_rep_def)
  then show ?thesis
    by (simp add: mos_tlist_get_thread_def tlist_rep_def tlist_find.simps)
qed

theorem get_thread_after_drain_witness:
  "mos_tlist_get_thread (fst (snd (mos_tlist_remove \<lparr>tl_head = Some 2, tl_tail = Some 2\<rparr> sample_threads)))
     (Some 1) (snd (snd (mos_tlist_remove \<lparr>tl_head = Some 2, tl_tail = Some 2\<rparr> sample_threads))) = None"
proof -
  have "tlist_rep sample_threads \<lparr>tl_head = Some 2, tl_tail = Some 2\<rparr> [2]"
    by (simp add: tlist_rep_def sample_threads_def)
  moreover have "mos_tlist_remove \<lparr>tl_head = Some 2, tl_tail = Some 2\<rparr> sample_threads =
      (Some 2, \<lparr>tl_head = None, tl_tail = Some 2\<rparr>, set_next 2 None sample_threads)"
    by (simp add: mos_tlist_remove_def sample_threads_def)
  ultimately show ?thesis using get_thread_after_drain [of sample_threads] by simp
qed

end
