(* ===== verification/Mem.thy ===== *)
theory Mem
  imports Prelude
begin

text \<open>
  The memory manager of the kernel (\<open>kernel/micro/mem.c\<close>, \<open>kernel/include/mem.h\<close>): a circular
  doubly linked list of free blocks in the order of their addresses, best-fit allocation, and
  release with coalescing of neighbours.  An address is a natural number (C pointer arithmetic
  inside an object does not wrap), a size is a 16-bit word and computed as one.  The headers
  that the code overlays on the memory are kept apart from the payload bytes; that no two
  headers and payloads share a byte is part of what is proved.
\<close>

section \<open>The heap and its operations\<close>

record node_t =
  n_size :: u16
  n_prev :: nat
  n_next :: nat

type_synonym nodes = "nat \<Rightarrow> node_t"

record mem =
  m_free :: "nat option"
  m_nodes :: nodes
  m_bytes :: "nat \<Rightarrow> u8"

definition sizeof_node :: nat where "sizeof_node = 6"

abbreviation upd_next :: "nat \<Rightarrow> nat \<Rightarrow> nodes \<Rightarrow> nodes" where
  "upd_next a b h \<equiv> h(a := (h a)\<lparr>n_next := b\<rparr>)"

abbreviation upd_prev :: "nat \<Rightarrow> nat \<Rightarrow> nodes \<Rightarrow> nodes" where
  "upd_prev a b h \<equiv> h(a := (h a)\<lparr>n_prev := b\<rparr>)"

abbreviation upd_size :: "nat \<Rightarrow> u16 \<Rightarrow> nodes \<Rightarrow> nodes" where
  "upd_size a s h \<equiv> h(a := (h a)\<lparr>n_size := s\<rparr>)"

definition mem_init :: "nat \<Rightarrow> u16 \<Rightarrow> mem \<Rightarrow> mem" where
  "mem_init region sz m = m\<lparr>m_free := Some region,
     m_nodes := (m_nodes m)(region :=
       \<lparr>n_size = sz - of_nat sizeof_node, n_prev = region, n_next = region\<rparr>)\<rparr>"

definition flag_block :: "nat \<Rightarrow> mem \<Rightarrow> mem" where
  "flag_block n m = m\<lparr>m_bytes :=
     fold (\<lambda>i b. b(n + sizeof_node + i := 0xEF)) [0..<unat (n_size (m_nodes m n))] (m_bytes m)\<rparr>"

text \<open>The do-while loop over the free list that looks for the best fit.\<close>

definition better :: "nodes \<Rightarrow> u16 \<Rightarrow> nat \<Rightarrow> nat option \<Rightarrow> nat option" where
  "better h sz current best =
     (if sz \<le> n_size (h current) then
        (case best of
           None \<Rightarrow> Some current
         | Some b \<Rightarrow> if n_size (h current) < n_size (h b) then Some current else best)
      else best)"

partial_function (option) alloc_scan ::
    "nodes \<Rightarrow> nat \<Rightarrow> u16 \<Rightarrow> nat \<Rightarrow> nat option \<Rightarrow> nat option option" where
  "alloc_scan h freelist sz current best =
     (let best = better h sz current best;
          current = n_next (h current)
      in if current \<noteq> freelist then alloc_scan h freelist sz current best else Some best)"

definition round_size :: "u16 \<Rightarrow> u16" where
  "round_size sz = (if sz mod 2 \<noteq> 0 then sz + 1 else sz)"

definition take_whole :: "nat \<Rightarrow> mem \<Rightarrow> mem" where
  "take_whole best m =
     (let h = m_nodes m;
          m = (if n_prev (h best) = best then m\<lparr>m_free := None\<rparr>
               else (let h = upd_next (n_prev (h best)) (n_next (h best)) h;
                         h = upd_prev (n_next (h best)) (n_prev (h best)) h
                     in m\<lparr>m_nodes := h\<rparr>));
          m = (if m_free m = Some best then m\<lparr>m_free := Some (n_next (m_nodes m best))\<rparr> else m)
      in flag_block best m)"

definition cut_piece :: "nat \<Rightarrow> u16 \<Rightarrow> mem \<Rightarrow> nat \<times> mem" where
  "cut_piece best sz m =
     (let h = m_nodes m;
          current = best + unat (n_size (h best)) - unat sz;
          h = upd_size best (n_size (h best) - (sz + of_nat sizeof_node)) h;
          h = upd_size current sz h
      in (current, flag_block current (m\<lparr>m_nodes := h\<rparr>)))"

definition mos_mem_alloc :: "u16 \<Rightarrow> mem \<Rightarrow> (nat option \<times> mem) option" where
  "mos_mem_alloc size0 m =
     (case m_free m of
        None \<Rightarrow> Some (None, m)
      | Some freelist \<Rightarrow>
          let sz = round_size size0 in do {
            best \<leftarrow> alloc_scan (m_nodes m) freelist sz freelist None;
            case best of
              None \<Rightarrow> Some (None, m)
            | Some best \<Rightarrow>
                if n_size (m_nodes m best) \<le> sz + of_nat sizeof_node
                then Some (Some (best + sizeof_node), take_whole best m)
                else (case cut_piece best sz m of
                        (current, m) \<Rightarrow> Some (Some (current + sizeof_node), m)) })"

partial_function (option) free_find :: "nodes \<Rightarrow> nat \<Rightarrow> nat \<Rightarrow> nat \<Rightarrow> nat option" where
  "free_find h freelist region current =
     (if current < region then
        (let current = n_next (h current)
         in if current = freelist then Some current else free_find h freelist region current)
      else Some current)"

definition combine :: "nat \<Rightarrow> nat \<Rightarrow> nodes \<Rightarrow> nodes" where
  "combine n1 n2 h =
     (let h = upd_next n1 (n_next (h n2)) h;
          h = upd_prev (n_next (h n2)) n1 h
      in upd_size n1 (n_size (h n1) + n_size (h n2) + of_nat sizeof_node) h)"

definition insert_region :: "nat \<Rightarrow> nat \<Rightarrow> nodes \<Rightarrow> nodes" where
  "insert_region region current h =
     (let h = upd_next region current h;
          h = upd_prev region (n_prev (h current)) h;
          h = upd_next (n_prev (h current)) region h
      in upd_prev current region h)"

text \<open>The second test compares with a difference of addresses; the difference is moved to the
  other side, where it cannot be negative.\<close>

definition coalesce :: "nat \<Rightarrow> nodes \<Rightarrow> nodes" where
  "coalesce region h =
     (let h = (if n_next (h region) = region + unat (n_size (h region)) + sizeof_node
               then combine region (n_next (h region)) h else h)
      in if n_prev (h region) + unat (n_size (h (n_prev (h region)))) + sizeof_node = region
         then combine (n_prev (h region)) region h else h)"

definition mos_mem_free :: "nat \<Rightarrow> mem \<Rightarrow> mem option" where
  "mos_mem_free block m =
     (let region = block - sizeof_node; h = m_nodes m in
      case m_free m of
        None \<Rightarrow> Some (m\<lparr>m_free := Some region,
            m_nodes := coalesce region (upd_prev region region (upd_next region region h))\<rparr>)
      | Some freelist \<Rightarrow> do {
          current \<leftarrow> free_find h freelist region freelist;
          let h = insert_region region current h;
          Some (m\<lparr>m_free := Some (if region < freelist then region else freelist),
                  m_nodes := coalesce region h\<rparr>) })"

section \<open>Circular doubly linked lists\<close>

primrec linked :: "nodes \<Rightarrow> nat list \<Rightarrow> nat \<Rightarrow> bool" where
  "linked h [] z \<longleftrightarrow> True"
| "linked h (x # xs) z \<longleftrightarrow>
     n_next (h x) = hd (xs @ [z]) \<and> n_prev (h (hd (xs @ [z]))) = x \<and> linked h xs z"

definition cyc :: "nodes \<Rightarrow> nat list \<Rightarrow> bool" where
  "cyc h xs \<longleftrightarrow> xs \<noteq> [] \<and> linked h xs (hd xs)"

lemma linked_append: "linked h (xs @ ys) z \<longleftrightarrow> linked h xs (hd (ys @ [z])) \<and> linked h ys z"
  by (induction xs) (auto simp: hd_append)

lemma cyc_rotate: "cyc h (xs @ ys) \<longleftrightarrow> cyc h (ys @ xs)"
  by (cases "xs = []"; cases "ys = []")
    (auto simp: cyc_def linked_append hd_append simp del: linked.simps)

lemma linked_frame:
  assumes "linked h xs z" and "xs \<noteq> []"
    and "\<And>x. x \<in> set xs \<Longrightarrow> x \<noteq> last xs \<Longrightarrow> n_next (h' x) = n_next (h x)"
    and "\<And>x. x \<in> set xs \<Longrightarrow> x \<noteq> hd xs \<Longrightarrow> n_prev (h' x) = n_prev (h x)"
    and "n_next (h' (last xs)) = z'" and "n_prev (h' z') = last xs" and "distinct xs"
  shows "linked h' xs z'"
  using assms
proof (induction xs)
  case (Cons x xs)
  show ?case
  proof (cases "xs = []")
    case False
    then obtain y ys where xs: "xs = y # ys" by (cases xs) auto
    have "x \<noteq> last (x # xs)" using Cons.prems(7) False last_in_set [OF False] by auto
    then have "n_next (h' x) = y" using Cons.prems(1,3) xs by simp
    moreover have "n_prev (h' y) = x" using Cons.prems(1,4,7) xs by auto
    moreover have "linked h' xs z'"
      using Cons.prems False by (intro Cons.IH) auto
    ultimately show ?thesis using xs by simp
  qed (use Cons.prems in simp)
qed simp

lemma linked_prev_last: "linked h xs z \<Longrightarrow> xs \<noteq> [] \<Longrightarrow> n_prev (h z) = last xs \<and> n_next (h (last xs)) = z"
  by (induction xs) auto

lemma cyc_prev: "cyc h (x # xs) \<Longrightarrow> n_prev (h x) = last (x # xs)"
  using linked_prev_last [of h "x # xs" x] by (simp add: cyc_def)

lemma cyc_insert:
  assumes "cyc h (c # xs)" and "distinct (c # xs)" and "r \<notin> set (c # xs)"
  shows "cyc (insert_region r c h) (c # xs @ [r])"
proof -
  let ?p = "last (c # xs)" and ?h = "insert_region r c h"
  have p: "n_prev (h c) = ?p" using cyc_prev assms(1) .
  have lp: "?p \<in> set (c # xs)" by (rule last_in_set) simp
  then have ne: "r \<noteq> c" "r \<noteq> ?p" using assms(3) by auto
  have nx: "n_next (?h x) = (if x = ?p then r else if x = r then c else n_next (h x))" for x
    using ne p by (auto simp: insert_region_def Let_def)
  have pv: "n_prev (?h x) = (if x = c then r else if x = r then ?p else n_prev (h x))" for x
    using ne p by (auto simp: insert_region_def Let_def)
  have "linked ?h (c # xs) r"
  proof (rule linked_frame)
    show "linked h (c # xs) c" using assms(1) by (simp add: cyc_def)
    fix x assume x: "x \<in> set (c # xs)"
    then have "x \<noteq> r" using assms(3) by auto
    show "n_next (?h x) = n_next (h x)" if "x \<noteq> last (c # xs)" using that nx \<open>x \<noteq> r\<close> by metis
    show "n_prev (?h x) = n_prev (h x)" if "x \<noteq> hd (c # xs)" using that pv \<open>x \<noteq> r\<close> by simp
  qed (use assms(2) nx pv ne in auto)
  moreover have "n_next (?h r) = c" "n_prev (?h c) = r" using nx pv ne by auto
  ultimately show ?thesis
    using linked_append [of ?h "c # xs" "[r]" c] by (simp add: cyc_def)
qed

text \<open>Taking the last node out of the circle: what the removal of \<open>mos_mem_alloc\<close> and what
  \<open>combine\<close> do to the links.\<close>

lemma cyc_unlink:
  assumes "cyc h (xs @ [b])" and "distinct (xs @ [b])" and "xs \<noteq> []"
    and "\<And>x. n_next (h' x) = (if x = last xs then hd xs else n_next (h x))"
    and "\<And>x. n_prev (h' x) = (if x = hd xs then last xs else n_prev (h x))"
  shows "cyc h' xs"
proof -
  have "linked h xs b" using assms(1,3) by (simp add: cyc_def linked_append)
  then have "linked h' xs (hd xs)"
    by (rule linked_frame) (use assms in auto)
  with assms(3) show ?thesis by (simp add: cyc_def)
qed

lemma cyc_last:
  assumes "cyc h (xs @ [b])" and "xs \<noteq> []"
  shows "n_next (h b) = hd xs" and "n_prev (h b) = last xs" and "n_prev (h (hd xs)) = b"
    and "n_next (h (last xs)) = b"
proof -
  have l: "linked h xs b" "n_next (h b) = hd xs" "n_prev (h (hd xs)) = b"
    using assms by (simp_all add: cyc_def linked_append)
  then show "n_next (h b) = hd xs" "n_prev (h (hd xs)) = b" by simp_all
  show "n_prev (h b) = last xs" "n_next (h (last xs)) = b"
    using linked_prev_last [OF l(1) assms(2)] by simp_all
qed

lemma cyc_cong: "(\<And>x. n_next (h' x) = n_next (h x)) \<Longrightarrow> (\<And>x. n_prev (h' x) = n_prev (h x)) \<Longrightarrow>
    cyc h' xs = cyc h xs"
proof -
  assume "\<And>x. n_next (h' x) = n_next (h x)" "\<And>x. n_prev (h' x) = n_prev (h x)"
  then have "linked h' ys z = linked h ys z" for ys z by (induction ys) auto
  then show ?thesis by (simp add: cyc_def)
qed

section \<open>The layout of the free blocks\<close>

text \<open>The free blocks lie between \<open>lo\<close> and \<open>hi\<close> in ascending order, a header of 6 bytes and a
  payload each, and between two of them there is at least one byte: no two free blocks are
  adjacent, since release coalesces them.\<close>

primrec gaps :: "(nat \<Rightarrow> nat) \<Rightarrow> nat \<Rightarrow> nat list \<Rightarrow> nat \<Rightarrow> bool" where
  "gaps s lo [] hi \<longleftrightarrow> True"
| "gaps s lo (a # xs) hi \<longleftrightarrow> lo \<le> a \<and> a + 6 + s a \<le> hi \<and> gaps s (a + 7 + s a) xs hi"

definition endp :: "(nat \<Rightarrow> nat) \<Rightarrow> nat \<Rightarrow> nat list \<Rightarrow> nat" where
  "endp s lo xs = (if xs = [] then lo else last xs + 7 + s (last xs))"

definition blk :: "(nat \<Rightarrow> nat) \<Rightarrow> nat \<Rightarrow> nat set" where
  "blk s a = {a ..< a + 6 + s a}"

definition cover :: "(nat \<Rightarrow> nat) \<Rightarrow> nat list \<Rightarrow> nat set" where
  "cover s xs = (\<Union>a \<in> set xs. blk s a)"

lemma endp_simps [simp]: "endp s lo [] = lo" "endp s lo (xs @ [x]) = x + 7 + s x"
  by (simp_all add: endp_def)

lemma endp_Cons: "endp s lo (x # xs) = endp s (x + 7 + s x) xs"
  by (simp add: endp_def)

lemma gaps_append: "gaps s lo (xs @ ys) hi \<longleftrightarrow> gaps s lo xs hi \<and> gaps s (endp s lo xs) ys hi"
  by (induction xs arbitrary: lo) (auto simp: endp_Cons)

lemma gaps_mono: "gaps s lo xs hi \<Longrightarrow> lo' \<le> lo \<Longrightarrow> gaps s lo' xs hi"
  by (cases xs) auto

lemma gaps_cong: "(\<And>a. a \<in> set xs \<Longrightarrow> s' a = s a) \<Longrightarrow> gaps s' lo xs hi = gaps s lo xs hi"
  by (induction xs arbitrary: lo) auto

lemma gaps_bounds: "gaps s lo xs hi \<Longrightarrow> a \<in> set xs \<Longrightarrow> lo \<le> a \<and> a + 6 + s a \<le> hi"
  by (induction xs arbitrary: lo) fastforce+

lemma gaps_sorted: "gaps s lo xs hi \<Longrightarrow> sorted_wrt (<) xs"
proof (induction xs arbitrary: lo)
  case (Cons x xs)
  then have "\<forall>y \<in> set xs. x < y" using gaps_bounds by fastforce
  with Cons show ?case by auto
qed simp

lemma gaps_distinct: "gaps s lo xs hi \<Longrightarrow> distinct xs"
  using gaps_sorted strict_sorted_iff by blast

lemma cover_simps [simp]: "cover s [] = {}" "cover s (x # xs) = blk s x \<union> cover s xs"
  "cover s (xs @ ys) = cover s xs \<union> cover s ys"
  by (auto simp: cover_def)

lemma cover_cong: "(\<And>a. a \<in> set xs \<Longrightarrow> s' a = s a) \<Longrightarrow> cover s' xs = cover s xs"
  by (auto simp: cover_def blk_def)

lemma in_cover: "a \<in> set xs \<Longrightarrow> a \<in> cover s xs"
  by (force simp: cover_def blk_def)

lemma blk_in_cover: "a \<in> set xs \<Longrightarrow> blk s a \<subseteq> cover s xs"
  by (auto simp: cover_def)

lemma cover_bounds: "gaps s lo xs hi \<Longrightarrow> cover s xs \<subseteq> {lo ..< hi}"
  using gaps_bounds by (fastforce simp: cover_def blk_def)

lemma gaps_disjoint:
  assumes "gaps s lo (xs @ b # ys) hi"
  shows "blk s b \<inter> cover s (xs @ ys) = {}"
  using assms
proof (induction xs arbitrary: lo)
  case Nil
  then have "cover s ys \<subseteq> {b + 7 + s b ..< hi}" using cover_bounds by fastforce
  then show ?case by (auto simp: blk_def)
next
  case (Cons x xs)
  then have "x + 7 + s x \<le> b" using gaps_bounds [of s "x + 7 + s x" "xs @ b # ys" hi b] by simp
  then have "blk s b \<inter> blk s x = {}" by (auto simp: blk_def)
  moreover have "blk s b \<inter> cover s (xs @ ys) = {}"
    using Cons.prems by (intro Cons.IH [of "x + 7 + s x"]) simp
  ultimately show ?case by auto
qed

definition nsize :: "nodes \<Rightarrow> nat \<Rightarrow> nat" where
  "nsize h a = unat (n_size (h a))"

definition heap_inv :: "nat \<Rightarrow> nat \<Rightarrow> mem \<Rightarrow> nat list \<Rightarrow> bool" where
  "heap_inv lo hi m xs \<longleftrightarrow>
     m_free m = (if xs = [] then None else Some (hd xs)) \<and>
     (xs \<noteq> [] \<longrightarrow> cyc (m_nodes m) xs) \<and>
     gaps (nsize (m_nodes m)) lo xs hi \<and> 0 < lo \<and> hi < 65536"

definition free_bytes :: "mem \<Rightarrow> nat list \<Rightarrow> nat set" where
  "free_bytes m xs = cover (nsize (m_nodes m)) xs"

definition block_bytes :: "mem \<Rightarrow> nat \<Rightarrow> nat set" where
  "block_bytes m p = blk (nsize (m_nodes m)) (p - sizeof_node)"

lemma flag_block_simps [simp]:
  "m_free (flag_block n m) = m_free m" "m_nodes (flag_block n m) = m_nodes m"
  by (simp_all add: flag_block_def)

lemma fold_fill: "fold (\<lambda>i b. b(k + i := v)) [0..<n] b a = (if k \<le> a \<and> a < k + n then v else b a)"
  by (induction n) auto

lemma flag_block_bytes: "m_bytes (flag_block n m) a =
    (if n + 6 \<le> a \<and> a < n + 6 + nsize (m_nodes m) n then 0xEF else m_bytes m a)"
  by (simp add: flag_block_def fold_fill sizeof_node_def nsize_def)

section \<open>Initialisation\<close>

lemma mem_init_inv:
  assumes "6 \<le> sz" and "0 < region" and "region + unat sz < 65536"
  shows "heap_inv region (region + unat sz) (mem_init region sz m) [region]"
    and "free_bytes (mem_init region sz m) [region] = {region ..< region + unat sz}"
proof -
  have "unat (sz - 6) = unat sz - 6" "6 \<le> unat sz"
    using assms(1) by (simp_all add: unat_sub word_le_nat_alt)
  then show "heap_inv region (region + unat sz) (mem_init region sz m) [region]"
    "free_bytes (mem_init region sz m) [region] = {region ..< region + unat sz}"
    using assms(2,3) by (auto simp: heap_inv_def mem_init_def cyc_def nsize_def sizeof_node_def
      free_bytes_def blk_def)
qed

section \<open>Allocation\<close>

lemma alloc_scan_fold:
  "linked h (x # ys) fl \<Longrightarrow> fl \<notin> set ys \<Longrightarrow>
   alloc_scan h fl sz x best = Some (fold (better h sz) (x # ys) best)"
proof (induction ys arbitrary: x best)
  case Nil
  then show ?case by (simp add: alloc_scan.simps)
next
  case (Cons y ys)
  then have "n_next (h x) = y" "y \<noteq> fl" by auto
  with Cons show ?case by (subst alloc_scan.simps) simp
qed

definition best_fit :: "nodes \<Rightarrow> u16 \<Rightarrow> nat list \<Rightarrow> nat option \<Rightarrow> bool" where
  "best_fit h sz xs r \<longleftrightarrow>
     (case r of None \<Rightarrow> \<forall>x \<in> set xs. n_size (h x) < sz
      | Some b \<Rightarrow> b \<in> set xs \<and> sz \<le> n_size (h b) \<and>
          (\<forall>x \<in> set xs. sz \<le> n_size (h x) \<longrightarrow> n_size (h b) \<le> n_size (h x)))"

lemma best_fit_step: "best_fit h sz xs r \<Longrightarrow> best_fit h sz (xs @ [x]) (better h sz x r)"
  by (cases r) (auto simp: best_fit_def better_def not_le)

lemma fold_better: "best_fit h sz xs (fold (better h sz) xs None)"
  by (induction xs rule: rev_induct) (simp add: best_fit_def, simp add: best_fit_step)

lemma alloc_scan_best:
  assumes "heap_inv lo hi m xs" and "xs \<noteq> []"
  shows "\<exists>r. alloc_scan (m_nodes m) (hd xs) sz (hd xs) None = Some r \<and> best_fit (m_nodes m) sz xs r"
proof -
  obtain x ys where xs: "xs = x # ys" using assms(2) by (cases xs) auto
  with assms have "linked (m_nodes m) (x # ys) x" "x \<notin> set ys"
    using gaps_distinct [of _ lo xs hi] by (auto simp: heap_inv_def cyc_def)
  from alloc_scan_fold [OF this] fold_better [of "m_nodes m" sz xs] show ?thesis by (simp add: xs)
qed

text \<open>What a call changes: outside the bytes \<open>A\<close> no header and no payload byte.\<close>

definition mem_frame :: "nat set \<Rightarrow> mem \<Rightarrow> mem \<Rightarrow> bool" where
  "mem_frame A m m' \<longleftrightarrow> (\<forall>a. a \<notin> A \<longrightarrow> m_nodes m' a = m_nodes m a \<and> m_bytes m' a = m_bytes m a)"

lemma take_whole_ok:
  assumes inv: "heap_inv lo hi m (as @ b # bs)"
  shows "heap_inv lo hi (take_whole b m) (as @ bs)"
    and "nsize (m_nodes (take_whole b m)) = nsize (m_nodes m)"
    and "mem_frame (free_bytes m (as @ b # bs)) m (take_whole b m)"
proof -
  let ?h = "m_nodes m" and ?m = "take_whole b m"
  have c: "cyc ?h (as @ b # bs)" and g: "gaps (nsize ?h) lo (as @ b # bs) hi" and hi: "hi < 65536" "0 < lo"
    and f: "m_free m = Some (hd (as @ b # bs))"
    using inv by (auto simp: heap_inv_def)
  have d: "distinct (as @ b # bs)" using gaps_distinct g .
  have g': "gaps (nsize ?h) lo (as @ bs) hi"
    using g gaps_mono [of "nsize ?h" "b + 7 + nsize ?h b" bs hi "endp (nsize ?h) lo as"]
    by (simp add: gaps_append)
  have ns: "nsize (m_nodes ?m) = nsize ?h"
    by (rule ext) (simp add: take_whole_def Let_def nsize_def)
  then show "nsize (m_nodes ?m) = nsize ?h" .
  have bytes: "m_bytes ?m a = m_bytes m a" if "a \<notin> free_bytes m (as @ b # bs)" for a
  proof -
    have "a \<notin> blk (nsize ?h) b" using that by (auto simp: free_bytes_def)
    moreover have "nsize (m_nodes ?m) b = nsize ?h b" using ns by simp
    ultimately show ?thesis
      by (auto simp: take_whole_def Let_def flag_block_bytes blk_def nsize_def)
  qed
  show "heap_inv lo hi ?m (as @ bs)" "mem_frame (free_bytes m (as @ b # bs)) m ?m"
  proof -
    show "heap_inv lo hi ?m (as @ bs)"
    proof (cases "as @ bs = []")
      case True
      then have "n_prev (?h b) = b" using c by (auto simp: cyc_def)
      with True f hi show ?thesis by (simp add: take_whole_def heap_inv_def)
    next
      case False
      have c': "cyc ?h ((bs @ as) @ [b])" using cyc_rotate [of ?h "as @ [b]" bs] c by simp
      have ne: "bs @ as \<noteq> []" using False by auto
      note l = cyc_last [OF c' ne]
      have nb: "hd (bs @ as) \<noteq> b" "last (bs @ as) \<noteq> b"
        using d hd_in_set [OF ne] last_in_set [OF ne] by auto
      have nodes: "m_nodes ?m = upd_prev (hd (bs @ as)) (last (bs @ as))
          (upd_next (last (bs @ as)) (hd (bs @ as)) ?h)"
        using nb l(1,2) by (auto simp: take_whole_def Let_def)
      have "cyc (m_nodes ?m) (bs @ as)"
        by (rule cyc_unlink [OF c' _ ne]) (use d nodes in auto)
      then have "cyc (m_nodes ?m) (as @ bs)" using cyc_rotate by blast
      moreover have "m_free ?m = Some (hd (as @ bs))"
      proof (cases "as = []")
        case True
        then show ?thesis using f nb l(1,2) ne by (auto simp: take_whole_def Let_def)
      next
        case as: False
        then have "hd as \<noteq> b" using d hd_in_set by (metis disjoint_iff distinct_append list.set_intros(1))
        then show ?thesis using f nb l(2) as by (auto simp: take_whole_def Let_def)
      qed
      ultimately show ?thesis using False g' ns hi by (simp add: heap_inv_def)
    qed
    have "m_nodes ?m a = ?h a" if "a \<notin> set (as @ b # bs)" for a
    proof (cases "as @ bs = []")
      case True
      then have "n_prev (?h b) = b" using c by (auto simp: cyc_def)
      with True show ?thesis by (simp add: take_whole_def)
    next
      case False
      have c': "cyc ?h ((bs @ as) @ [b])" using cyc_rotate [of ?h "as @ [b]" bs] c by simp
      have ne: "bs @ as \<noteq> []" using False by auto
      have "hd (bs @ as) \<noteq> a" "last (bs @ as) \<noteq> a"
        using that hd_in_set [OF ne] last_in_set [OF ne] by auto
      then show ?thesis using cyc_last [OF c' ne] that by (auto simp: take_whole_def Let_def)
    qed
    moreover have "a \<notin> set (as @ b # bs)" if "a \<notin> free_bytes m (as @ b # bs)" for a
      using that in_cover unfolding free_bytes_def by blast
    ultimately show "mem_frame (free_bytes m (as @ b # bs)) m ?m"
      using bytes unfolding mem_frame_def by blast
  qed
qed

lemma cut_piece_ok:
  assumes inv: "heap_inv lo hi m (as @ b # bs)" and big: "unat sz + 6 < nsize (m_nodes m) b"
    and r: "cut_piece b sz m = (p, m')"
  shows "heap_inv lo hi m' (as @ b # bs)" and "nsize (m_nodes m') p = unat sz"
    and "blk (nsize (m_nodes m')) p \<union> blk (nsize (m_nodes m')) b = blk (nsize (m_nodes m)) b"
    and "blk (nsize (m_nodes m')) p \<inter> blk (nsize (m_nodes m')) b = {}"
    and "\<And>a. a \<in> set (as @ bs) \<Longrightarrow> nsize (m_nodes m') a = nsize (m_nodes m) a"
    and "mem_frame (free_bytes m (as @ b # bs)) m m'"
proof -
  let ?h = "m_nodes m" and ?h' = "m_nodes m'"
  have c: "cyc ?h (as @ b # bs)" and g: "gaps (nsize ?h) lo (as @ b # bs) hi" and hi: "hi < 65536" "0 < lo"
    and f: "m_free m = Some (hd (as @ b # bs))"
    using inv by (auto simp: heap_inv_def)
  have d: "distinct (as @ b # bs)" using gaps_distinct g .
  have lt: "nsize ?h b < 65536" by (simp add: nsize_def)
  have p: "p = b + nsize ?h b - unat sz"
    and h': "?h' = upd_size p sz (upd_size b (n_size (?h b) - (sz + 6)) ?h)"
    and m': "m' = flag_block p (m\<lparr>m_nodes := ?h'\<rparr>)"
    using r by (auto simp: cut_piece_def Let_def nsize_def sizeof_node_def)
  have pb: "b + 6 < p" "p + 6 + unat sz = b + 6 + nsize ?h b" using big p by auto
  have u: "unat (sz + 6) = unat sz + 6" using big lt by (simp add: unat_add_u16)
  have sb: "nsize ?h' b = nsize ?h b - (unat sz + 6)"
    using pb big u by (simp add: h' nsize_def unat_sub word_le_nat_alt)
  show sp: "nsize ?h' p = unat sz" by (simp add: h' nsize_def)
  have pin: "p \<in> blk (nsize ?h) b" using pb by (simp add: blk_def)
  have "p \<notin> set (as @ bs)"
    using gaps_disjoint [OF g] in_cover [of p "as @ bs" "nsize ?h"] pin by blast
  then have same: "nsize ?h' a = nsize ?h a" if "a \<in> set (as @ bs)" for a
    using that d by (auto simp: h' nsize_def)
  then show "\<And>a. a \<in> set (as @ bs) \<Longrightarrow> nsize ?h' a = nsize ?h a" .
  show "blk (nsize ?h') p \<union> blk (nsize ?h') b = blk (nsize ?h) b"
    "blk (nsize ?h') p \<inter> blk (nsize ?h') b = {}"
    using sb sp pb big by (auto simp: blk_def)
  have "gaps (nsize ?h') lo as hi = gaps (nsize ?h) lo as hi" using same by (intro gaps_cong) auto
  moreover have "endp (nsize ?h') lo as = endp (nsize ?h) lo as"
    using same by (auto simp: endp_def)
  moreover have "gaps (nsize ?h') k bs hi = gaps (nsize ?h) k bs hi" for k
    using same by (intro gaps_cong) auto
  ultimately have "gaps (nsize ?h') lo (as @ b # bs) hi"
    using g sb gaps_mono [of "nsize ?h" "b + 7 + nsize ?h b" bs hi "b + 7 + nsize ?h' b"]
    by (auto simp: gaps_append)
  moreover have "cyc ?h' (as @ b # bs) = cyc ?h (as @ b # bs)"
    by (rule cyc_cong) (simp_all add: h')
  moreover have "m_free m' = m_free m" by (subst m') simp
  ultimately show "heap_inv lo hi m' (as @ b # bs)" using c f hi by (simp add: heap_inv_def)
  show "mem_frame (free_bytes m (as @ b # bs)) m m'" unfolding mem_frame_def
  proof (intro allI impI)
    fix a assume "a \<notin> free_bytes m (as @ b # bs)"
    then have a: "a \<notin> blk (nsize ?h) b" by (simp add: free_bytes_def)
    then have "a \<noteq> b" "a \<noteq> p" using pin by (auto simp: blk_def)
    then have "?h' a = ?h a" by (simp add: h')
    moreover have "m_bytes m' a = m_bytes m a"
      using a pb sp by (subst m') (auto simp: flag_block_bytes blk_def)
    ultimately show "?h' a = ?h a \<and> m_bytes m' a = m_bytes m a" by simp
  qed
qed

lemma mos_mem_alloc_none:
  assumes "heap_inv lo hi m xs" and "\<forall>x \<in> set xs. n_size (m_nodes m x) < round_size sz"
  shows "mos_mem_alloc sz m = Some (None, m)"
proof (cases "xs = []")
  case True
  then show ?thesis using assms(1) by (simp add: heap_inv_def mos_mem_alloc_def)
next
  case False
  then obtain r where r: "alloc_scan (m_nodes m) (hd xs) (round_size sz) (hd xs) None = Some r"
    "best_fit (m_nodes m) (round_size sz) xs r"
    using alloc_scan_best [OF assms(1) False] by blast
  have "r = None" using r(2) assms(2) by (auto simp: best_fit_def split: option.splits)
  with False assms(1) r(1) show ?thesis by (simp add: heap_inv_def mos_mem_alloc_def Let_def)
qed

definition alloc_post :: "nat \<Rightarrow> nat \<Rightarrow> u16 \<Rightarrow> mem \<Rightarrow> nat list \<Rightarrow> nat \<Rightarrow> mem \<Rightarrow> nat list \<Rightarrow> bool" where
  "alloc_post lo hi sz m xs p m' ys \<longleftrightarrow>
     heap_inv lo hi m' ys \<and> 6 \<le> p \<and> unat sz \<le> nsize (m_nodes m') (p - 6) \<and>
     block_bytes m' p \<inter> free_bytes m' ys = {} \<and>
     block_bytes m' p \<union> free_bytes m' ys = free_bytes m xs \<and>
     mem_frame (free_bytes m xs) m m'"

lemma mos_mem_alloc_some:
  assumes inv: "heap_inv lo hi m xs" and fit: "\<exists>x \<in> set xs. round_size sz \<le> n_size (m_nodes m x)"
  shows "\<exists>p m' ys. mos_mem_alloc sz m = Some (Some p, m') \<and>
    alloc_post lo hi (round_size sz) m xs p m' ys"
proof -
  let ?s = "round_size sz" and ?h = "m_nodes m"
  from fit have ne: "xs \<noteq> []" by auto
  obtain r where r: "alloc_scan ?h (hd xs) ?s (hd xs) None = Some r" "best_fit ?h ?s xs r"
    using alloc_scan_best [OF inv ne] by blast
  with fit obtain b where b: "r = Some b" "b \<in> set xs" "?s \<le> n_size (?h b)"
    by (fastforce simp: best_fit_def split: option.splits)
  then obtain as bs where xs: "xs = as @ b # bs" by (meson split_list)
  have inv': "heap_inv lo hi m (as @ b # bs)" using inv xs by simp
  have g: "gaps (nsize ?h) lo (as @ b # bs) hi" "hi < 65536" using inv' by (auto simp: heap_inv_def)
  have bb: "b + 6 + nsize ?h b \<le> hi" using gaps_bounds [OF g(1), of b] by simp
  have le: "unat ?s \<le> nsize ?h b" using b(3) by (simp add: nsize_def word_le_nat_alt)
  have u: "unat (?s + 6) = unat ?s + 6" using bb g(2) le by (simp add: unat_add_u16)
  have free: "m_free m = Some (hd xs)" using inv ne by (simp add: heap_inv_def)
  show ?thesis
  proof (cases "n_size (?h b) \<le> ?s + 6")
    case True
    let ?m = "take_whole b m"
    note t = take_whole_ok [OF inv']
    have "mos_mem_alloc sz m = Some (Some (b + 6), ?m)"
      using free r(1) b(1) True by (simp add: mos_mem_alloc_def Let_def sizeof_node_def)
    moreover have "alloc_post lo hi ?s m xs (b + 6) ?m (as @ bs)"
      using t gaps_disjoint [OF g(1)] le
      by (auto simp: alloc_post_def block_bytes_def free_bytes_def sizeof_node_def xs)
    ultimately show ?thesis by blast
  next
    case False
    then have big: "unat ?s + 6 < nsize ?h b" using u by (simp add: nsize_def word_le_nat_alt)
    obtain p m' where pm: "cut_piece b ?s m = (p, m')" by (cases "cut_piece b ?s m")
    note t = cut_piece_ok [OF inv' big pm]
    have "mos_mem_alloc sz m = Some (Some (p + 6), m')"
      using free r(1) b(1) False pm by (simp add: mos_mem_alloc_def Let_def sizeof_node_def)
    moreover have "alloc_post lo hi ?s m xs (p + 6) m' (as @ b # bs)"
    proof -
      have cs: "cover (nsize (m_nodes m')) as = cover (nsize ?h) as"
        "cover (nsize (m_nodes m')) bs = cover (nsize ?h) bs"
        using t(5) by (auto intro!: cover_cong)
      have "blk (nsize (m_nodes m')) p \<subseteq> blk (nsize ?h) b" using t(3) by blast
      then have "blk (nsize (m_nodes m')) p \<inter> cover (nsize ?h) (as @ bs) = {}"
        using gaps_disjoint [OF g(1)] by blast
      then show ?thesis
        using t(1-4,6) cs
        by (auto simp: alloc_post_def block_bytes_def free_bytes_def sizeof_node_def xs)
    qed
    ultimately show ?thesis by blast
  qed
qed

section \<open>Release\<close>

lemma free_find_ok:
  assumes "linked h (cs @ bs) fl" and "cs \<noteq> []" and "\<forall>c \<in> set cs. c < r"
    and "bs \<noteq> [] \<longrightarrow> r \<le> hd bs" and "fl \<notin> set (tl cs)" and "fl \<notin> set bs"
  shows "free_find h fl r (hd cs) = Some (hd (bs @ [fl]))"
  using assms
proof (induction cs)
  case (Cons c cs)
  have "c < r" using Cons.prems by simp
  show ?case
  proof (cases "cs = []")
    case True
    show ?thesis
    proof (cases bs)
      case Nil
      with Cons.prems True \<open>c < r\<close> show ?thesis by (simp add: free_find.simps)
    next
      case (Cons x ys)
      then have "n_next (h c) = x" "x \<noteq> fl" "r \<le> x" using Cons.prems True by auto
      with Cons True \<open>c < r\<close> show ?thesis
        by (subst free_find.simps) (simp add: free_find.simps)
    qed
  next
    case False
    then obtain d ds where cs: "cs = d # ds" by (cases cs) auto
    then have "n_next (h c) = d" "d \<noteq> fl" using Cons.prems by auto
    moreover have "free_find h fl r (hd cs) = Some (hd (bs @ [fl]))"
      using Cons.prems False cs by (intro Cons.IH) auto
    ultimately show ?thesis using \<open>c < r\<close> cs by (subst free_find.simps) simp
  qed
qed simp

lemma combine_ok:
  assumes c: "cyc h (as @ n1 # n2 # bs)" and d: "distinct (as @ n1 # n2 # bs)"
  shows "cyc (combine n1 n2 h) (as @ n1 # bs)"
    and "n_size (combine n1 n2 h a) =
      (if a = n1 then n_size (h n1) + n_size (h n2) + 6 else n_size (h a))"
proof -
  have c': "cyc h ((bs @ as @ [n1]) @ [n2])"
    using c cyc_rotate [of h "as @ [n1, n2]" bs] by simp
  have ne: "bs @ as @ [n1] \<noteq> []" by simp
  have nn: "n1 \<noteq> n2" using d by auto
  have x: "n_next (h n2) = hd (bs @ as @ [n1])" using cyc_last(1) [OF c' ne] .
  have "cyc (combine n1 n2 h) (bs @ as @ [n1])"
  proof (rule cyc_unlink [OF c' _ ne])
    show "distinct ((bs @ as @ [n1]) @ [n2])" using d by auto
  qed (use nn x in \<open>auto simp: combine_def Let_def\<close>)
  then show "cyc (combine n1 n2 h) (as @ n1 # bs)"
    using cyc_rotate [of "combine n1 n2 h" bs "as @ [n1]"] by simp
  show "n_size (combine n1 n2 h a) =
      (if a = n1 then n_size (h n1) + n_size (h n2) + 6 else n_size (h a))"
    using nn by (auto simp: combine_def Let_def sizeof_node_def)
qed

text \<open>The list of free blocks with a region inserted at its place, possibly touching its
  neighbours: \<open>coalesce\<close> restores the gaps.\<close>

definition touching :: "(nat \<Rightarrow> nat) \<Rightarrow> nat \<Rightarrow> nat list \<Rightarrow> nat \<Rightarrow> nat list \<Rightarrow> nat \<Rightarrow> bool" where
  "touching s lo as r bs hi \<longleftrightarrow> gaps s lo as hi \<and> lo \<le> r \<and> endp s lo as \<le> r + 1 \<and>
     r + 6 + s r \<le> hi \<and> gaps s (r + 6 + s r) bs hi \<and> distinct (as @ r # bs)"

lemma coalesce_next:
  assumes t: "touching (nsize h) lo as r bs hi" and c: "cyc h (as @ r # bs)" and hi: "hi < 65536"
  defines "h' \<equiv> (if n_next (h r) = r + unat (n_size (h r)) + sizeof_node
                  then combine r (n_next (h r)) h else h)"
  shows "\<exists>bs'. touching (nsize h') lo as r bs' hi \<and> gaps (nsize h') (r + 7 + nsize h' r) bs' hi \<and>
    cyc h' (as @ r # bs') \<and> cover (nsize h') (as @ r # bs') = cover (nsize h) (as @ r # bs) \<and>
    set bs' \<subseteq> set bs \<and> (\<forall>a. a \<notin> set (as @ r # bs) \<longrightarrow> h' a = h a)"
proof (cases "bs \<noteq> [] \<and> hd bs = r + 6 + nsize h r")
  case True
  then obtain b bs' where bs: "bs = b # bs'" "b = r + 6 + nsize h r" by (cases bs) auto
  have nr: "n_next (h r) = b"
    using c cyc_rotate [of h as "r # b # bs'"] by (simp add: cyc_def bs(1))
  then have h': "h' = combine r b h"
    using bs(2) by (simp add: h'_def nsize_def sizeof_node_def)
  have d: "distinct (as @ r # b # bs')" using t bs(1) by (simp add: touching_def)
  note k = combine_ok [OF c [unfolded bs(1)] d]
  have fit: "b + 6 + nsize h b \<le> hi" using t bs(1) by (simp add: touching_def)
  have sz: "nsize h' a = (if a = r then nsize h r + nsize h b + 6 else nsize h a)" for a
  proof -
    have "unat (n_size (h r)) + unat (n_size (h b)) + 6 < 65536"
      using fit hi bs(2) by (simp add: nsize_def)
    then have "unat (n_size (h r) + n_size (h b) + 6) = unat (n_size (h r)) + unat (n_size (h b)) + 6"
      by (simp add: unat_add_u16_small)
    then show ?thesis using k(2) [of a] h' by (simp add: nsize_def)
  qed
  have same: "gaps (nsize h') x as hi = gaps (nsize h) x as hi"
    "gaps (nsize h') x bs' hi = gaps (nsize h) x bs' hi"
    "endp (nsize h') x as = endp (nsize h) x as" for x
    using d sz by (auto intro!: gaps_cong simp: endp_def)
  have cs: "cover (nsize h') as = cover (nsize h) as" "cover (nsize h') bs' = cover (nsize h) bs'"
    using d sz by (auto intro!: cover_cong)
  have g: "gaps (nsize h') (r + 7 + nsize h' r) bs' hi"
    using t bs sz same by (simp add: touching_def add.assoc add.commute add.left_commute)
  have "touching (nsize h') lo as r bs' hi"
    using t bs d sz same fit gaps_mono [OF g, of "r + 6 + nsize h' r"] by (simp add: touching_def)
  moreover have "blk (nsize h') r = blk (nsize h) r \<union> blk (nsize h) b"
    using bs(2) sz by (auto simp: blk_def)
  moreover have "h' a = h a" if "a \<notin> set (as @ r # bs)" for a
  proof -
    have "n_next (h b) \<in> set (as @ r # bs)"
    proof -
      have "cyc h (((bs' @ as) @ [r]) @ [b])"
        using c cyc_rotate [of h "as @ [r, b]" bs'] bs(1) by simp
      then have "n_next (h b) = hd ((bs' @ as) @ [r])" by (rule cyc_last) simp
      moreover have "hd ((bs' @ as) @ [r]) \<in> set ((bs' @ as) @ [r])" by (rule hd_in_set) simp
      ultimately show ?thesis using bs(1) by auto
    qed
    with that have "a \<noteq> n_next (h b)" "a \<noteq> r" by auto
    then show ?thesis using d by (simp add: h' combine_def Let_def)
  qed
  ultimately show ?thesis
    using g k(1) h' cs bs(1) by (intro exI [of _ bs']) auto
next
  case False
  have "n_next (h r) \<noteq> r + 6 + nsize h r"
  proof (cases bs)
    case Nil
    have "n_next (h r) = hd (r # as) \<or> n_next (h r) = hd (as @ [r])"
      using c Nil by (auto simp: cyc_def linked_append)
    moreover have "hd (as @ [r]) \<le> r"
    proof (cases as)
      case (Cons a as')
      from t have "endp (nsize h) lo as \<le> r + 1" "gaps (nsize h) lo as hi"
        by (auto simp: touching_def)
      moreover have "hd as \<le> last as"
        using gaps_sorted [OF \<open>gaps (nsize h) lo as hi\<close>] Cons
        by (cases "as' = []") (auto intro!: less_imp_le)
      ultimately show ?thesis using Cons by (simp add: endp_def)
    qed simp
    ultimately show ?thesis by auto
  next
    case (Cons b bs')
    then have "n_next (h r) = b"
      using c cyc_rotate [of h as "r # b # bs'"] by (simp add: cyc_def)
    with False Cons show ?thesis by auto
  qed
  then have h': "h' = h" by (simp add: h'_def nsize_def sizeof_node_def add.commute add.left_commute)
  have "gaps (nsize h) (r + 7 + nsize h r) bs hi"
    using t False by (cases bs) (auto simp: touching_def)
  with h' t c show ?thesis by (intro exI [of _ bs]) auto
qed

lemma cyc_prev_mid: "cyc h (as @ r # bs) \<Longrightarrow> n_prev (h r) = last (r # bs @ as)"
  using cyc_rotate [of h as "r # bs"] cyc_prev [of h r "bs @ as"] by simp

lemma coalesce_prev:
  assumes t: "touching (nsize h) lo as r bs hi" and g: "gaps (nsize h) (r + 7 + nsize h r) bs hi"
    and c: "cyc h (as @ r # bs)" and hi: "hi < 65536"
  defines "h' \<equiv> (if n_prev (h r) + unat (n_size (h (n_prev (h r)))) + sizeof_node = r
                  then combine (n_prev (h r)) r h else h)"
  shows "\<exists>ys. gaps (nsize h') lo ys hi \<and> cyc h' ys \<and> hd ys = hd (as @ [r]) \<and>
    cover (nsize h') ys = cover (nsize h) (as @ r # bs) \<and>
    (\<forall>a. a \<notin> set (as @ r # bs) \<longrightarrow> h' a = h a)"
proof (cases "as \<noteq> [] \<and> last as + 6 + nsize h (last as) = r")
  case True
  then obtain as0 q where as: "as = as0 @ [q]" "q + 6 + nsize h q = r" by (cases as rule: rev_cases) auto
  have "n_prev (h r) = q" using cyc_prev_mid [OF c] as(1) by simp
  then have h': "h' = combine q r h" using as(2) by (simp add: h'_def nsize_def sizeof_node_def)
  have c': "cyc h (as0 @ q # r # bs)" and d: "distinct (as0 @ q # r # bs)"
    using c t as(1) by (auto simp: touching_def)
  note k = combine_ok [OF c' d]
  have fit: "r + 6 + nsize h r \<le> hi" using t by (simp add: touching_def)
  have sz: "nsize h' a = (if a = q then nsize h q + nsize h r + 6 else nsize h a)" for a
  proof -
    have "unat (n_size (h q)) + unat (n_size (h r)) + 6 < 65536"
      using fit hi as(2) by (simp add: nsize_def)
    then have "unat (n_size (h q) + n_size (h r) + 6) = unat (n_size (h q)) + unat (n_size (h r)) + 6"
      by (simp add: unat_add_u16_small)
    then show ?thesis using k(2) [of a] h' by (simp add: nsize_def)
  qed
  have same: "gaps (nsize h') x as0 hi = gaps (nsize h) x as0 hi"
    "gaps (nsize h') x bs hi = gaps (nsize h) x bs hi"
    "endp (nsize h') x as0 = endp (nsize h) x as0" for x
    using d sz by (auto intro!: gaps_cong simp: endp_def)
  have cs: "cover (nsize h') as0 = cover (nsize h) as0" "cover (nsize h') bs = cover (nsize h) bs"
    using d sz by (auto intro!: cover_cong)
  have qr: "q + 7 + nsize h' q = r + 7 + nsize h r" using as(2) sz [of q] by simp
  have "q + 6 + nsize h' q \<le> hi" using qr fit by simp
  moreover have "gaps (nsize h') (q + 7 + nsize h' q) bs hi" unfolding qr same by (rule g)
  moreover have "gaps (nsize h') lo as0 hi" "endp (nsize h') lo as0 \<le> q"
    using t as(1) same by (auto simp: touching_def gaps_append)
  ultimately have "gaps (nsize h') lo (as0 @ q # bs) hi"
    by (simp add: gaps_append)
  moreover have "blk (nsize h') q = blk (nsize h) q \<union> blk (nsize h) r"
    using as(2) sz by (auto simp: blk_def)
  moreover have "h' a = h a" if "a \<notin> set (as @ r # bs)" for a
  proof -
    have "cyc h (((bs @ as0) @ [q]) @ [r])"
      using c' cyc_rotate [of h "as0 @ [q, r]" bs] by simp
    then have "n_next (h r) = hd ((bs @ as0) @ [q])" by (rule cyc_last) simp
    moreover have "hd ((bs @ as0) @ [q]) \<in> set ((bs @ as0) @ [q])" by (rule hd_in_set) simp
    ultimately have "a \<noteq> n_next (h r)" "a \<noteq> q" using that as(1) by auto
    then show ?thesis using d by (simp add: h' combine_def Let_def)
  qed
  ultimately show ?thesis
    using k(1) h' cs as(1) by (intro exI [of _ "as0 @ q # bs"]) (auto simp: hd_append)
next
  case False
  have "last (r # bs @ as) + nsize h (last (r # bs @ as)) + 6 \<noteq> r"
  proof (cases "as = []")
    case True
    have "r \<le> last (r # bs)"
      using gaps_bounds [OF g] last_in_set [of bs] by (cases "bs = []") fastforce+
    with True show ?thesis by (auto simp del: last.simps)
  qed (use False in auto)
  then have h': "h' = h" using cyc_prev_mid [OF c] by (simp add: h'_def nsize_def sizeof_node_def)
  have "endp (nsize h) lo as \<le> r" using t False by (auto simp: touching_def endp_def)
  then have "gaps (nsize h) lo (as @ r # bs) hi"
    using t g by (simp add: touching_def gaps_append)
  with h' c show ?thesis by (intro exI [of _ "as @ r # bs"]) (auto simp: hd_append)
qed

lemma coalesce_ok:
  assumes t: "touching (nsize h) lo as r bs hi" and c: "cyc h (as @ r # bs)" and hi: "hi < 65536"
  shows "\<exists>ys. gaps (nsize (coalesce r h)) lo ys hi \<and> cyc (coalesce r h) ys \<and>
    hd ys = hd (as @ [r]) \<and>
    cover (nsize (coalesce r h)) ys = cover (nsize h) (as @ r # bs) \<and>
    (\<forall>a. a \<notin> set (as @ r # bs) \<longrightarrow> coalesce r h a = h a)"
proof -
  let ?h1 = "if n_next (h r) = r + unat (n_size (h r)) + sizeof_node
             then combine r (n_next (h r)) h else h"
  from coalesce_next [OF t c hi] obtain bs' where
    1: "touching (nsize ?h1) lo as r bs' hi" "gaps (nsize ?h1) (r + 7 + nsize ?h1 r) bs' hi"
      "cyc ?h1 (as @ r # bs')" "cover (nsize ?h1) (as @ r # bs') = cover (nsize h) (as @ r # bs)"
      "set bs' \<subseteq> set bs" "\<forall>a. a \<notin> set (as @ r # bs) \<longrightarrow> ?h1 a = h a" by blast
  have eq: "coalesce r h =
      (if n_prev (?h1 r) + unat (n_size (?h1 (n_prev (?h1 r)))) + sizeof_node = r
       then combine (n_prev (?h1 r)) r ?h1 else ?h1)"
    by (simp only: coalesce_def Let_def)
  from coalesce_prev [OF 1(1-3) hi, folded eq] obtain ys where
    2: "gaps (nsize (coalesce r h)) lo ys hi" "cyc (coalesce r h) ys" "hd ys = hd (as @ [r])"
      "cover (nsize (coalesce r h)) ys = cover (nsize ?h1) (as @ r # bs')"
      "\<forall>a. a \<notin> set (as @ r # bs') \<longrightarrow> coalesce r h a = ?h1 a" by blast
  have "coalesce r h a = h a" if "a \<notin> set (as @ r # bs)" for a
  proof -
    have "a \<notin> set (as @ r # bs')" using that 1(5) by auto
    with 2(5) 1(6) that show ?thesis by simp
  qed
  with 2(1-4) 1(4) show ?thesis by (intro exI [of _ ys]) simp
qed

text \<open>Where the released region goes among the free blocks, all of them disjoint from it.\<close>

lemma region_place:
  assumes "gaps s lo xs hi" and "blk s r \<inter> cover s xs = {}" and "lo \<le> r" and "r + 6 + s r \<le> hi"
  shows "touching s lo (takeWhile (\<lambda>a. a < r) xs) r (dropWhile (\<lambda>a. a < r) xs) hi"
  using assms
proof (induction xs arbitrary: lo)
  case Nil
  then show ?case by (simp add: touching_def)
next
  case (Cons x xs)
  have dis: "blk s r \<inter> blk s x = {}" "blk s r \<inter> cover s xs = {}" using Cons.prems(2) by auto
  have "r \<in> blk s r" "x \<in> blk s x" by (auto simp: blk_def)
  then have nx: "r \<notin> blk s x" "x \<notin> blk s r" "r \<noteq> x" using dis by auto
  show ?case
  proof (cases "x < r")
    case True
    then have lt: "x + 6 + s x \<le> r" using nx by (auto simp: blk_def)
    show ?thesis
    proof (cases "x + 7 + s x \<le> r")
      case 1: True
      have "touching s (x + 7 + s x) (takeWhile (\<lambda>a. a < r) xs) r (dropWhile (\<lambda>a. a < r) xs) hi"
        using Cons.prems 1 dis by (intro Cons.IH) auto
      then show ?thesis
        using True Cons.prems nx gaps_distinct [OF Cons.prems(1)]
        by (auto simp: touching_def endp_Cons dest: set_takeWhileD set_dropWhileD)
    next
      case 2: False
      have ge: "\<forall>y \<in> set xs. r < y"
      proof
        fix y assume y: "y \<in> set xs"
        then have "x + 7 + s x \<le> y" using gaps_bounds Cons.prems(1) by fastforce
        moreover have "y \<notin> blk s r" using dis(2) in_cover [OF y] by blast
        ultimately show "r < y" using 2 lt by (auto simp: blk_def)
      qed
      then have tw: "takeWhile (\<lambda>a. a < r) xs = []" "dropWhile (\<lambda>a. a < r) xs = xs"
        by (cases xs; force)+
      have g: "gaps s (r + 6 + s r) xs hi"
      proof (cases xs)
        case (Cons y ys)
        then have "y \<notin> blk s r" using dis(2) in_cover [of y xs s] by auto
        moreover have "r < y" using ge Cons by simp
        ultimately have "r + 6 + s r \<le> y" by (auto simp: blk_def)
        then show ?thesis using Cons.prems(1) Cons by simp
      qed simp
      then show ?thesis
        using True Cons.prems nx gaps_distinct [OF Cons.prems(1)] tw lt ge 2
        by (auto simp: touching_def endp_def)
    qed
  next
    case False
    then have "r + 6 + s r \<le> x" using nx by (auto simp: blk_def)
    then show ?thesis
      using False Cons.prems nx gaps_distinct [OF Cons.prems(1)] gaps_bounds [OF Cons.prems(1), of r]
      by (auto simp: touching_def) (use gaps_bounds [of s "x + 7 + s x" xs hi r] Cons.prems(1) in auto)
  qed
qed

lemma insert_region_size: "n_size (insert_region r c h a) = n_size (h a)"
  by (simp add: insert_region_def Let_def)

lemma mos_mem_free_ok:
  assumes inv: "heap_inv lo hi m xs" and dis: "block_bytes m p \<inter> free_bytes m xs = {}"
    and sub: "block_bytes m p \<subseteq> {lo ..< hi}"
  shows "\<exists>m' ys. mos_mem_free p m = Some m' \<and> heap_inv lo hi m' ys \<and>
    free_bytes m' ys = free_bytes m xs \<union> block_bytes m p \<and>
    mem_frame (free_bytes m' ys) m m' \<and> m_bytes m' = m_bytes m"
proof -
  let ?h = "m_nodes m"
  define r where "r = p - sizeof_node"
  have blk: "block_bytes m p = blk (nsize ?h) r" by (simp add: block_bytes_def r_def)
  have g: "gaps (nsize ?h) lo xs hi" and hi: "0 < lo" "hi < 65536"
    using inv by (auto simp: heap_inv_def)
  have rr: "lo \<le> r" "r + 6 + nsize ?h r \<le> hi"
    using sub by (auto simp: blk blk_def atLeastLessThan_subset_iff)
  define as bs where "as = takeWhile (\<lambda>a. a < r) xs" and "bs = dropWhile (\<lambda>a. a < r) xs"
  have xs: "xs = as @ bs" by (simp add: as_def bs_def)
  have t: "touching (nsize ?h) lo as r bs hi"
    unfolding as_def bs_def
    using region_place [OF g _ rr] dis by (simp add: blk free_bytes_def)
  then have d: "distinct (as @ r # bs)" by (simp add: touching_def)
  have lt: "\<forall>a \<in> set as. a < r" by (auto simp: as_def dest: set_takeWhileD)
  have ge: "bs \<noteq> [] \<longrightarrow> r \<le> hd bs" unfolding bs_def by (metis hd_dropWhile not_le)
  obtain h1 fl where h1: "cyc h1 (as @ r # bs)" "nsize h1 = nsize ?h"
      "\<forall>a. a \<notin> set (as @ r # bs) \<longrightarrow> h1 a = ?h a"
    and run: "mos_mem_free p m = Some (m\<lparr>m_free := Some fl, m_nodes := coalesce r h1\<rparr>)"
    and fl: "fl = hd (as @ [r])"
  proof (cases "xs = []")
    case True
    let ?h1 = "upd_prev r r (upd_next r r ?h)"
    have "mos_mem_free p m = Some (m\<lparr>m_free := Some r, m_nodes := coalesce r ?h1\<rparr>)"
      using True inv by (simp add: mos_mem_free_def heap_inv_def r_def Let_def)
    moreover have "cyc ?h1 [r]" "nsize ?h1 = nsize ?h"
      by (auto simp: cyc_def nsize_def)
    ultimately show thesis using True xs by (intro that [of ?h1 r]) auto
  next
    case False
    then have cyc: "cyc ?h xs" and free: "m_free m = Some (hd xs)"
      using inv by (auto simp: heap_inv_def)
    have dx: "distinct xs" using gaps_distinct [OF g] .
    define c where "c = hd (bs @ as)"
    have find: "free_find ?h (hd xs) r (hd xs) = Some c"
    proof (cases "as = []")
      case True
      then show ?thesis using ge False xs by (auto simp: free_find.simps c_def)
    next
      case as: False
      then obtain a as' where a: "as = a # as'" by (cases as) auto
      have "linked ?h (as @ bs) a" using cyc xs a by (simp add: cyc_def)
      moreover have "a \<notin> set (tl as)" "a \<notin> set bs" using dx xs a by auto
      ultimately have "free_find ?h a r (hd as) = Some (hd (bs @ [a]))"
        using as lt ge by (intro free_find_ok) auto
      then show ?thesis using a xs by (cases bs) (simp_all add: c_def)
    qed
    let ?h1 = "insert_region r c ?h"
    have "bs @ as \<noteq> []" using False xs by auto
    then obtain cs where cs: "bs @ as = c # cs" by (cases "bs @ as") (auto simp: c_def)
    have "cyc ?h (c # cs)" using cyc xs cyc_rotate [of ?h as bs] cs by simp
    moreover have dc: "distinct (c # cs)" "r \<notin> set (c # cs)"
      using d cs by (metis distinct_append distinct.simps(2) Int_commute set_append Un_iff
        not_distinct_conv_prefix xs dx disjoint_iff list.set_intros(1))
        (use d cs [symmetric] in auto)
    ultimately have "cyc ?h1 (c # cs @ [r])" by (rule cyc_insert)
    then have c1: "cyc ?h1 (as @ r # bs)"
      using cyc_rotate [of ?h1 bs "as @ [r]"] cs [symmetric] by (metis append_assoc append_Cons append_Nil)
    have "n_prev (?h c) = last (c # cs)" using \<open>cyc ?h (c # cs)\<close> by (rule cyc_prev)
    then have fr: "?h1 a = ?h a" if "a \<notin> set (as @ r # bs)" for a
    proof -
      have "a \<notin> set (c # cs)" using that cs [symmetric] by auto
      moreover have "last (c # cs) \<in> set (c # cs)" by (rule last_in_set) simp
      ultimately have "a \<noteq> c" "a \<noteq> last (c # cs)" "a \<noteq> r" using that by auto
      then show ?thesis using \<open>n_prev (?h c) = last (c # cs)\<close> dc
        by (auto simp: insert_region_def Let_def)
    qed
    have hd: "(if r < hd xs then r else hd xs) = hd (as @ [r])"
    proof (cases as)
      case Nil
      then have "r < hd xs" using ge d xs False by (cases bs) auto
      with Nil show ?thesis by simp
    qed (use lt xs in auto)
    have "mos_mem_free p m = Some (m\<lparr>m_free := Some (hd (as @ [r])), m_nodes := coalesce r ?h1\<rparr>)"
      using free find by (simp add: mos_mem_free_def Let_def r_def [symmetric] hd)
    moreover have "nsize ?h1 = nsize ?h" by (rule ext) (simp add: nsize_def insert_region_size)
    ultimately show thesis using c1 fr by (intro that [of ?h1]) auto
  qed
  let ?m = "m\<lparr>m_free := Some fl, m_nodes := coalesce r h1\<rparr>"
  from coalesce_ok [of h1 lo as r bs hi] t h1 hi obtain ys where ys:
    "gaps (nsize (coalesce r h1)) lo ys hi" "cyc (coalesce r h1) ys" "hd ys = fl"
    "cover (nsize (coalesce r h1)) ys = cover (nsize h1) (as @ r # bs)"
    "\<forall>a. a \<notin> set (as @ r # bs) \<longrightarrow> coalesce r h1 a = h1 a"
    unfolding fl by auto
  have fb: "free_bytes ?m ys = free_bytes m xs \<union> block_bytes m p"
    using ys(4) h1(2) xs by (auto simp: free_bytes_def blk)
  have "heap_inv lo hi ?m ys"
    using ys(1-3) hi by (auto simp: heap_inv_def cyc_def)
  moreover have "mem_frame (free_bytes ?m ys) m ?m"
    unfolding mem_frame_def
  proof (intro allI impI)
    fix a assume "a \<notin> free_bytes ?m ys"
    then have "a \<notin> cover (nsize ?h) (as @ r # bs)" using fb xs by (auto simp: free_bytes_def blk)
    then have "a \<notin> set (as @ r # bs)" using in_cover by blast
    then show "m_nodes ?m a = m_nodes m a \<and> m_bytes ?m a = m_bytes m a" using ys(5) h1(3) by simp
  qed
  ultimately show ?thesis using run fb by (intro exI [of _ ?m] exI [of _ ys]) simp
qed

section \<open>The contract of an allocator\<close>

text \<open>What a client of the heap relies on: \<open>rep s A\<close> says that in state \<open>s\<close> the bytes \<open>A\<close> are
  available, \<open>block s p\<close> are the bytes that belong to the allocated address \<open>p\<close>.\<close>

locale allocator =
  fixes alloc :: "'n \<Rightarrow> 's \<Rightarrow> ('a option \<times> 's) option"
    and release :: "'a \<Rightarrow> 's \<Rightarrow> 's option"
    and rep :: "'s \<Rightarrow> nat set \<Rightarrow> bool"
    and block :: "'s \<Rightarrow> 'a \<Rightarrow> nat set"
    and arena :: "nat set"
  assumes alloc_ok: "rep s A \<Longrightarrow> \<exists>r s'. alloc n s = Some (r, s') \<and>
      (case r of None \<Rightarrow> s' = s
       | Some p \<Rightarrow> \<exists>A'. rep s' A' \<and> A = A' \<union> block s' p \<and> A' \<inter> block s' p = {} \<and>
           (\<forall>q. block s q \<inter> A = {} \<longrightarrow> block s' q = block s q))"
    and release_ok: "rep s A \<Longrightarrow> block s p \<inter> A = {} \<Longrightarrow> block s p \<subseteq> arena \<Longrightarrow>
      \<exists>s'. release p s = Some s' \<and> rep s' (A \<union> block s p) \<and>
        (\<forall>q. block s q \<inter> (A \<union> block s p) = {} \<longrightarrow> block s' q = block s q)"
    and in_arena: "rep s A \<Longrightarrow> A \<subseteq> arena"
begin

primrec alloc_all :: "'n list \<Rightarrow> 's \<Rightarrow> ('a option list \<times> 's) option" where
  "alloc_all [] s = Some ([], s)"
| "alloc_all (n # ns) s = Option.bind (alloc n s)
     (\<lambda>(r, s1). map_option (\<lambda>(rs, s2). (r # rs, s2)) (alloc_all ns s1))"

primrec release_all :: "'a list \<Rightarrow> 's \<Rightarrow> 's option" where
  "release_all [] s = Some s"
| "release_all (p # ps) s = Option.bind (release p s) (release_all ps)"

definition got :: "'a option list \<Rightarrow> 'a list" where
  "got rs = List.map_filter id rs"

text \<open>The blocks \<open>ps\<close> are pairwise disjoint and, with the bytes \<open>A\<close>, partition \<open>B\<close>.\<close>

primrec split_up :: "'s \<Rightarrow> nat set \<Rightarrow> 'a list \<Rightarrow> nat set \<Rightarrow> bool" where
  "split_up s A [] B \<longleftrightarrow> A = B"
| "split_up s A (p # ps) B \<longleftrightarrow> block s p \<inter> A = {} \<and> block s p \<subseteq> B \<and>
     split_up s A ps (B - block s p)"

lemma split_up_sub: "split_up s A ps B \<Longrightarrow> A \<subseteq> B"
  by (induction ps arbitrary: B) auto

lemma split_up_cong:
  "split_up s A ps B \<Longrightarrow> (\<And>p. p \<in> set ps \<Longrightarrow> block s' p = block s p) \<Longrightarrow> split_up s' A ps B"
  by (induction ps arbitrary: B) auto

lemma split_up_mem: "split_up s A ps B \<Longrightarrow> p \<in> set ps \<Longrightarrow> block s p \<inter> A = {} \<and> block s p \<subseteq> B"
  by (induction ps arbitrary: B) fastforce+

lemma alloc_all_ok:
  "rep s A \<Longrightarrow> \<exists>rs s' A'. alloc_all ns s = Some (rs, s') \<and> rep s' A' \<and> split_up s' A' (got rs) A \<and>
     (\<forall>q. block s q \<inter> A = {} \<longrightarrow> block s' q = block s q)"
proof (induction ns arbitrary: s A)
  case Nil
  then show ?case by (auto simp: got_def map_filter_simps)
next
  case (Cons n ns)
  from alloc_ok [OF Cons.prems, of n] obtain r s1 where a: "alloc n s = Some (r, s1)"
    "case r of None \<Rightarrow> s1 = s
       | Some p \<Rightarrow> \<exists>A'. rep s1 A' \<and> A = A' \<union> block s1 p \<and> A' \<inter> block s1 p = {} \<and>
           (\<forall>q. block s q \<inter> A = {} \<longrightarrow> block s1 q = block s q)" by blast
  show ?case
  proof (cases r)
    case None
    with a Cons.IH [OF Cons.prems] show ?thesis by (auto simp: got_def map_filter_simps)
  next
    case (Some p)
    with a obtain A1 where A1: "rep s1 A1" "A = A1 \<union> block s1 p" "A1 \<inter> block s1 p = {}"
      "\<forall>q. block s q \<inter> A = {} \<longrightarrow> block s1 q = block s q" by auto
    from Cons.IH [OF A1(1)] obtain rs s' A' where i: "alloc_all ns s1 = Some (rs, s')" "rep s' A'"
      "split_up s' A' (got rs) A1" "\<forall>q. block s1 q \<inter> A1 = {} \<longrightarrow> block s' q = block s1 q" by blast
    have b: "block s' p = block s1 p" using i(4) A1(3) by (simp add: Int_commute)
    have "A - block s' p = A1" using A1 b by blast
    moreover have "block s' p \<inter> A' = {}" using split_up_sub [OF i(3)] A1(3) b by blast
    ultimately have "split_up s' A' (got (r # rs)) A"
      using Some i(3) A1(2) b by (simp add: got_def map_filter_simps)
    moreover have "\<forall>q. block s q \<inter> A = {} \<longrightarrow> block s' q = block s q"
    proof (intro allI impI)
      fix q assume q: "block s q \<inter> A = {}"
      then have "block s1 q = block s q" using A1(4) by blast
      moreover have "block s1 q \<inter> A1 = {}" using calculation q A1(2) by blast
      ultimately show "block s' q = block s q" using i(4) by simp
    qed
    ultimately show ?thesis using a(1) i(1,2) Some by auto
  qed
qed

lemma release_all_ok:
  "rep s A \<Longrightarrow> split_up s A ps B \<Longrightarrow> B \<subseteq> arena \<Longrightarrow> \<exists>s'. release_all ps s = Some s' \<and> rep s' B"
proof (induction ps arbitrary: s A)
  case Nil
  then show ?case by simp
next
  case (Cons p ps)
  have p: "block s p \<inter> A = {}" "block s p \<subseteq> B" "split_up s A ps (B - block s p)"
    using Cons.prems(2) by auto
  from release_ok [OF Cons.prems(1) p(1)] p(2) Cons.prems(3) obtain s1 where
    r: "release p s = Some s1" "rep s1 (A \<union> block s p)"
      "\<forall>q. block s q \<inter> (A \<union> block s p) = {} \<longrightarrow> block s1 q = block s q" by blast
  have same: "block s1 q = block s q" if "q \<in> set ps" for q
    using r(3) split_up_mem [OF p(3) that] by blast
  have "split_up s1 (A \<union> block s p) ps B"
  proof -
    have "split_up s (A \<union> C) qs (D \<union> C)" if "split_up s A qs D" "C \<inter> D = {}" for C qs D
      using that
    proof (induction qs arbitrary: D)
      case (Cons q qs)
      have "D \<union> C - block s q = (D - block s q) \<union> C" using Cons.prems by auto
      with Cons.IH [of "D - block s q"] Cons.prems show ?case by auto
    qed simp
    from this [OF p(3), of "block s p"] p(2) have "split_up s (A \<union> block s p) ps B"
      by (simp add: Un_absorb2 Un_commute)
    then show ?thesis by (rule split_up_cong) (rule same)
  qed
  with Cons.IH [OF r(2)] r(1) Cons.prems(3) show ?case by auto
qed

text \<open>Whatever is allocated, releasing all of it makes the same bytes available again.\<close>

lemma alloc_release:
  assumes "rep s A"
  shows "\<exists>rs s1 s2. alloc_all ns s = Some (rs, s1) \<and> release_all (got rs) s1 = Some s2 \<and> rep s2 A"
  using alloc_all_ok [OF assms, of ns] release_all_ok in_arena [OF assms] by blast

end

text \<open>The heap between \<open>lo\<close> and \<open>hi\<close> keeps the contract.\<close>

definition heap_rep :: "nat \<Rightarrow> nat \<Rightarrow> mem \<Rightarrow> nat set \<Rightarrow> bool" where
  "heap_rep lo hi m A \<longleftrightarrow> (\<exists>xs. heap_inv lo hi m xs \<and> free_bytes m xs = A)"

lemma block_frame:
  assumes "mem_frame A m m'" and "block_bytes m q \<inter> A = {}"
  shows "block_bytes m' q = block_bytes m q"
proof -
  have "q - sizeof_node \<in> block_bytes m q" by (simp add: block_bytes_def blk_def)
  with assms have "m_nodes m' (q - sizeof_node) = m_nodes m (q - sizeof_node)"
    by (auto simp: mem_frame_def)
  then show ?thesis by (simp add: block_bytes_def blk_def nsize_def)
qed

interpretation heap: allocator mos_mem_alloc mos_mem_free "heap_rep lo hi" block_bytes "{lo ..< hi}"
  for lo hi
proof unfold_locales
  fix m A n assume "heap_rep lo hi m A"
  then obtain xs where inv: "heap_inv lo hi m xs" and A: "free_bytes m xs = A"
    by (auto simp: heap_rep_def)
  show "\<exists>r m'. mos_mem_alloc n m = Some (r, m') \<and>
      (case r of None \<Rightarrow> m' = m
       | Some p \<Rightarrow> \<exists>A'. heap_rep lo hi m' A' \<and> A = A' \<union> block_bytes m' p \<and> A' \<inter> block_bytes m' p = {} \<and>
           (\<forall>q. block_bytes m q \<inter> A = {} \<longrightarrow> block_bytes m' q = block_bytes m q))"
  proof (cases "\<exists>x \<in> set xs. round_size n \<le> n_size (m_nodes m x)")
    case False
    then have "\<forall>x \<in> set xs. n_size (m_nodes m x) < round_size n" by (auto simp: not_le)
    from mos_mem_alloc_none [OF inv this] show ?thesis by simp
  next
    case True
    from mos_mem_alloc_some [OF inv this] obtain p m' ys where r:
      "mos_mem_alloc n m = Some (Some p, m')" "alloc_post lo hi (round_size n) m xs p m' ys" by blast
    then have "heap_rep lo hi m' (free_bytes m' ys)" "A = free_bytes m' ys \<union> block_bytes m' p"
      "free_bytes m' ys \<inter> block_bytes m' p = {}" "mem_frame A m m'"
      using A by (auto simp: alloc_post_def heap_rep_def)
    with r(1) block_frame show ?thesis by auto
  qed
next
  fix m A p
  assume "heap_rep lo hi m A" and d: "block_bytes m p \<inter> A = {}" "block_bytes m p \<subseteq> {lo ..< hi}"
  then obtain xs where inv: "heap_inv lo hi m xs" and A: "free_bytes m xs = A"
    by (auto simp: heap_rep_def)
  from mos_mem_free_ok [OF inv] d A obtain m' ys where r: "mos_mem_free p m = Some m'"
    "heap_inv lo hi m' ys" "free_bytes m' ys = A \<union> block_bytes m p"
    "mem_frame (free_bytes m' ys) m m'" by blast
  then show "\<exists>m'. mos_mem_free p m = Some m' \<and> heap_rep lo hi m' (A \<union> block_bytes m p) \<and>
      (\<forall>q. block_bytes m q \<inter> (A \<union> block_bytes m p) = {} \<longrightarrow> block_bytes m' q = block_bytes m q)"
    using block_frame by (auto simp: heap_rep_def)
next
  fix m A assume "heap_rep lo hi m A"
  then show "A \<subseteq> {lo ..< hi}"
    using cover_bounds by (fastforce simp: heap_rep_def heap_inv_def free_bytes_def)
qed

section \<open>Blocks in use\<close>

text \<open>The blocks \<open>ps\<close> of a client: pairwise disjoint, in the arena and apart from the free bytes.\<close>

definition pool :: "nat \<Rightarrow> nat \<Rightarrow> mem \<Rightarrow> nat list \<Rightarrow> bool" where
  "pool lo hi m ps \<longleftrightarrow> distinct ps \<and>
     (\<exists>A. heap_rep lo hi m A \<and> (\<forall>p \<in> set ps. block_bytes m p \<inter> A = {} \<and> block_bytes m p \<subseteq> {lo ..< hi})) \<and>
     (\<forall>p \<in> set ps. \<forall>q \<in> set ps. p \<noteq> q \<longrightarrow> block_bytes m p \<inter> block_bytes m q = {})"

lemma pool_distinct: "pool lo hi m ps \<Longrightarrow> distinct ps"
  by (simp add: pool_def)

lemma pool_cong: "pool lo hi m ps \<Longrightarrow> set qs = set ps \<Longrightarrow> distinct qs \<Longrightarrow> pool lo hi m qs"
  by (simp add: pool_def)

lemma pool_alloc:
  assumes p: "pool lo hi m ps" and al: "mos_mem_alloc n m = Some (Some b, m')"
  shows "pool lo hi m' (b # ps)"
proof -
  from p obtain A where A: "heap_rep lo hi m A" "\<And>p. p \<in> set ps \<Longrightarrow> block_bytes m p \<inter> A = {}"
    "\<And>p. p \<in> set ps \<Longrightarrow> block_bytes m p \<subseteq> {lo ..< hi}" by (auto simp: pool_def)
  from heap.alloc_ok [OF A(1), of n] al obtain B where B: "heap_rep lo hi m' B" "A = B \<union> block_bytes m' b"
    "B \<inter> block_bytes m' b = {}" "\<And>q. block_bytes m q \<inter> A = {} \<Longrightarrow> block_bytes m' q = block_bytes m q" by auto
  have same: "block_bytes m' p = block_bytes m p" "block_bytes m' p \<inter> A = {}" if "p \<in> set ps" for p
    using B(4) [OF A(2) [OF that]] A(2) [OF that] by simp_all
  have "block_bytes m' b \<noteq> {}" by (auto simp: block_bytes_def blk_def)
  then have nb: "b \<notin> set ps" using same(2) [of b] B(2) by auto
  have d: "block_bytes m' p \<inter> block_bytes m' q = {}" if "p \<in> set ps" "q \<in> set ps" "p \<noteq> q" for p q
    using p that same(1) by (simp add: pool_def)
  have e: "block_bytes m' p \<inter> block_bytes m' b = {}" "block_bytes m' p \<inter> B = {}" if "p \<in> set ps" for p
    using same(2) [OF that] B(2) by auto
  have "block_bytes m' b \<subseteq> {lo ..< hi}" using heap.in_arena [OF A(1)] B(2) by blast
  then have "\<exists>A. heap_rep lo hi m' A \<and> (\<forall>p \<in> set (b # ps). block_bytes m' p \<inter> A = {} \<and> block_bytes m' p \<subseteq> {lo ..< hi})"
    using B(1,3) e(2) same(1) A(3) by (intro exI [of _ B]) auto
  moreover have "distinct (b # ps)" using p nb by (simp add: pool_def)
  moreover have "\<forall>p \<in> set (b # ps). \<forall>q \<in> set (b # ps). p \<noteq> q \<longrightarrow> block_bytes m' p \<inter> block_bytes m' q = {}"
    using d e(1) by (auto simp: Int_commute)
  ultimately show ?thesis by (simp add: pool_def)
qed

lemma pool_alloc_cases:
  assumes "pool lo hi m ps"
  shows "\<exists>r m'. mos_mem_alloc n m = Some (r, m') \<and>
    (case r of None \<Rightarrow> m' = m | Some b \<Rightarrow> pool lo hi m' (b # ps))"
proof -
  from assms obtain A where "heap_rep lo hi m A" by (auto simp: pool_def)
  from heap.alloc_ok [OF this, of n] obtain r m' where r: "mos_mem_alloc n m = Some (r, m')" "r = None \<Longrightarrow> m' = m"
    by (auto split: option.split_asm)
  then show ?thesis using pool_alloc [OF assms, of n] by (cases r) auto
qed

lemma pool_free:
  assumes p: "pool lo hi m ps" and b: "b \<in> set ps"
  shows "\<exists>m'. mos_mem_free b m = Some m' \<and> pool lo hi m' (remove1 b ps)"
proof -
  from p obtain A where A: "heap_rep lo hi m A" "\<And>p. p \<in> set ps \<Longrightarrow> block_bytes m p \<inter> A = {}"
    "\<And>p. p \<in> set ps \<Longrightarrow> block_bytes m p \<subseteq> {lo ..< hi}" by (auto simp: pool_def)
  have d: "distinct ps" and e: "\<And>p q. p \<in> set ps \<Longrightarrow> q \<in> set ps \<Longrightarrow> p \<noteq> q \<Longrightarrow> block_bytes m p \<inter> block_bytes m q = {}"
    using p by (auto simp: pool_def)
  from heap.release_ok [OF A(1) A(2) [OF b] A(3) [OF b]] obtain m' where m': "mos_mem_free b m = Some m'"
    "heap_rep lo hi m' (A \<union> block_bytes m b)"
    "\<And>q. block_bytes m q \<inter> (A \<union> block_bytes m b) = {} \<Longrightarrow> block_bytes m' q = block_bytes m q" by blast
  have same: "block_bytes m' q = block_bytes m q" "block_bytes m q \<inter> (A \<union> block_bytes m b) = {}" if "q \<in> set ps" "q \<noteq> b" for q
  proof -
    show "block_bytes m q \<inter> (A \<union> block_bytes m b) = {}" using A(2) [OF that(1)] e [OF that(1) b that(2)] by blast
    then show "block_bytes m' q = block_bytes m q" by (rule m'(3))
  qed
  have s: "set (remove1 b ps) = set ps - {b}" using d by (rule set_remove1_eq)
  have "\<exists>A. heap_rep lo hi m' A \<and> (\<forall>p \<in> set (remove1 b ps). block_bytes m' p \<inter> A = {} \<and> block_bytes m' p \<subseteq> {lo ..< hi})"
    using m'(2) same A(3) s by (intro exI [of _ "A \<union> block_bytes m b"]) simp
  moreover have "\<forall>p \<in> set (remove1 b ps). \<forall>q \<in> set (remove1 b ps). p \<noteq> q \<longrightarrow> block_bytes m' p \<inter> block_bytes m' q = {}"
    using same(1) e s by simp
  ultimately show ?thesis using m'(1) d by (simp add: pool_def distinct_remove1)
qed

section \<open>Properties\<close>

lemma round_size_ge: "sz \<noteq> 0xFFFF \<Longrightarrow> unat sz \<le> unat (round_size sz)"
proof -
  assume "sz \<noteq> 0xFFFF"
  then have "unat sz \<noteq> 65535" using word_unat_eq_iff [of sz "0xFFFF"] by simp
  then have "unat sz + 1 < 65536" using unat_u16_less [of sz] by linarith
  then have "unat (sz + 1) = unat sz + 1" by (simp add: unat_add_u16)
  then show ?thesis by (simp add: round_size_def)
qed

text \<open>C9. \<open>mos_mem_alloc\<close> always returns.  When no free block is large enough it returns NULL and
  changes nothing.  Otherwise the block it returns has at least the requested number of bytes
  (of a request below 65535), the returned block and the free bytes that remain are disjoint and
  together are the bytes that were free before, the free list stays sorted and unfragmented, and
  no header or byte outside the memory that was free is written.\<close>
theorem heap_alloc:
  assumes "heap_inv lo hi m xs"
  shows "if \<exists>x \<in> set xs. round_size sz \<le> n_size (m_nodes m x)
    then \<exists>p m' ys. mos_mem_alloc sz m = Some (Some p, m') \<and> heap_inv lo hi m' ys \<and>
      (sz \<noteq> 0xFFFF \<longrightarrow> unat sz \<le> nsize (m_nodes m') (p - sizeof_node)) \<and>
      block_bytes m' p \<inter> free_bytes m' ys = {} \<and>
      block_bytes m' p \<union> free_bytes m' ys = free_bytes m xs \<and>
      mem_frame (free_bytes m xs) m m'
    else mos_mem_alloc sz m = Some (None, m)"
proof (cases "\<exists>x \<in> set xs. round_size sz \<le> n_size (m_nodes m x)")
  case True
  from mos_mem_alloc_some [OF assms True] obtain p m' ys where
    "mos_mem_alloc sz m = Some (Some p, m')" "alloc_post lo hi (round_size sz) m xs p m' ys" by blast
  then show ?thesis using True round_size_ge [of sz]
    by (simp add: alloc_post_def sizeof_node_def) (metis order_trans)
next
  case False
  then have "\<forall>x \<in> set xs. n_size (m_nodes m x) < round_size sz" by (auto simp: not_le)
  from mos_mem_alloc_none [OF assms this] False show ?thesis by simp
qed

text \<open>C25. \<open>mos_mem_free\<close> of a block that is disjoint from the free memory always returns, makes
  exactly the block's bytes (its header included) available again, coalesces it with the free
  neighbours so that no two free blocks are adjacent, and changes no payload byte and no header
  outside the free memory.\<close>
theorem heap_free:
  assumes "heap_inv lo hi m xs" and "block_bytes m p \<inter> free_bytes m xs = {}"
    and "block_bytes m p \<subseteq> {lo ..< hi}"
  shows "\<exists>m' ys. mos_mem_free p m = Some m' \<and> heap_inv lo hi m' ys \<and>
    free_bytes m' ys = free_bytes m xs \<union> block_bytes m p \<and>
    mem_frame (free_bytes m' ys) m m' \<and> m_bytes m' = m_bytes m"
  by (rule mos_mem_free_ok [OF assms])

text \<open>Any sequence of requests made of the freshly initialised heap is served with pairwise
  disjoint blocks inside the region (or NULL), and after all of them have been released the whole
  region is free again.\<close>
theorem heap_requests:
  assumes "6 \<le> sz" and "0 < region" and "region + unat sz < 65536"
  shows "\<exists>rs m1 m2 A. heap.alloc_all ns (mem_init region sz m) = Some (rs, m1) \<and>
    heap.split_up m1 A (heap.got rs) {region ..< region + unat sz} \<and>
    heap.release_all (heap.got rs) m1 = Some m2 \<and>
    heap_rep region (region + unat sz) m2 {region ..< region + unat sz}"
proof -
  have "heap_rep region (region + unat sz) (mem_init region sz m) {region ..< region + unat sz}"
    using mem_init_inv [OF assms] by (auto simp: heap_rep_def)
  from heap.alloc_all_ok [OF this, of ns] heap.release_all_ok show ?thesis by blast
qed

definition sample_mem :: mem where
  "sample_mem = mem_init 0x1100 0x1000
     \<lparr>m_free = None, m_nodes = (\<lambda>_. \<lparr>n_size = 100, n_prev = 0, n_next = 0\<rparr>), m_bytes = (\<lambda>_. 0)\<rparr>"

lemma sample_mem_inv: "heap_inv 0x1100 0x2100 sample_mem [0x1100]"
  using mem_init_inv(1) [of "0x1000" "0x1100"] by (simp add: sample_mem_def)

theorem heap_alloc_witness:
  "\<exists>p m' ys. mos_mem_alloc 301 sample_mem = Some (Some p, m') \<and> heap_inv 0x1100 0x2100 m' ys \<and>
     301 \<le> nsize (m_nodes m') (p - sizeof_node)"
proof -
  have big: "\<exists>x \<in> set [0x1100]. round_size 301 \<le> n_size (m_nodes sample_mem x)"
    by (simp add: round_size_def sample_mem_def mem_init_def sizeof_node_def)
  show ?thesis using heap_alloc [OF sample_mem_inv, of 301] by (simp only: big if_True) auto
qed

definition used_mem :: mem where
  "used_mem = sample_mem\<lparr>m_nodes := (m_nodes sample_mem)
     (0x1100 := \<lparr>n_size = 50, n_prev = 0x1100, n_next = 0x1100\<rparr>)\<rparr>"

theorem heap_free_witness:
  "\<exists>m' ys. mos_mem_free 0x3006 used_mem = Some m' \<and> heap_inv 0x1100 0x4000 m' ys \<and>
     0x3001 \<in> free_bytes m' ys"
proof -
  have "heap_inv 0x1100 0x4000 used_mem [0x1100]"
    by (simp add: heap_inv_def cyc_def nsize_def used_mem_def sample_mem_def mem_init_def)
  moreover have "block_bytes used_mem 0x3006 \<inter> free_bytes used_mem [0x1100] = {}"
    "block_bytes used_mem 0x3006 \<subseteq> {0x1100 ..< 0x4000}" "0x3001 \<in> block_bytes used_mem 0x3006"
    by (auto simp: block_bytes_def free_bytes_def blk_def nsize_def sizeof_node_def used_mem_def
      sample_mem_def mem_init_def)
  ultimately obtain m' ys where "mos_mem_free 0x3006 used_mem = Some m'"
    "heap_inv 0x1100 0x4000 m' ys"
    "free_bytes m' ys = free_bytes used_mem [0x1100] \<union> block_bytes used_mem 0x3006"
    using heap_free [of "0x1100" "0x4000" used_mem "[0x1100]" "0x3006"] by blast
  with \<open>0x3001 \<in> block_bytes used_mem 0x3006\<close> show ?thesis by blast
qed

theorem heap_requests_witness:
  "\<exists>rs m1 m2 A. heap.alloc_all [100, 7, 300] (mem_init 0x1100 0x1000 sample_mem) = Some (rs, m1) \<and>
    heap.split_up m1 A (heap.got rs) {0x1100 ..< 0x1100 + unat (0x1000 :: u16)} \<and>
    heap.release_all (heap.got rs) m1 = Some m2 \<and>
    heap_rep 0x1100 (0x1100 + unat (0x1000 :: u16)) m2 {0x1100 ..< 0x1100 + unat (0x1000 :: u16)}"
  by (rule heap_requests) simp_all

text \<open>The rounding \<open>size++\<close> of \<open>mos_mem_alloc\<close> wraps for a request of 65535 bytes: instead of
  NULL the caller gets a block with no payload at all.\<close>
theorem heap_alloc_max_wraps:
  "\<exists>p m'. mos_mem_alloc 0xFFFF sample_mem = Some (Some p, m') \<and> nsize (m_nodes m') (p - sizeof_node) = 0"
  by (simp add: mos_mem_alloc_def round_size_def sample_mem_def mem_init_def sizeof_node_def Let_def
    alloc_scan.simps better_def cut_piece_def nsize_def)

end
