(* ===== verification/Sched.thy ===== *)
theory Sched
  imports Thread_List Mem
begin

text \<open>
  The preemptive scheduler of the kernel (\<open>kernel/micro/msched.c\<close>): one ready queue for each
  priority, the sleep queue, the running thread, and every operation that moves a thread
  between them.  An operation runs with interrupts disabled up to the context switch of the
  dispatcher, so it is one atomic transition of the kernel record; the registers that the
  context switch saves and restores are not modelled.
\<close>

section \<open>The kernel state\<close>

definition NUM_PRIORITIES :: nat where "NUM_PRIORITIES = 5"
definition PRIORITY_IDLE :: u8 where "PRIORITY_IDLE = 4"
definition SUSPEND_STATE_IDLE :: u8 where "SUSPEND_STATE_IDLE = 0"
definition SUSPEND_STATE_SLEEP :: u8 where "SUSPEND_STATE_SLEEP = 1"
definition SUSPEND_STATE_MAX :: u8 where "SUSPEND_STATE_MAX = 2"
definition THREAD_OK :: u8 where "THREAD_OK = 0"
definition NO_MORE_THREADS :: u8 where "NO_MORE_THREADS = 1"
definition NO_MORE_MEMORY :: u8 where "NO_MORE_MEMORY = 2"
definition BAD_THREAD_PRIORITY :: u8 where "BAD_THREAD_PRIORITY = 3"
definition MIN_STACK_SIZE :: u16 where "MIN_STACK_SIZE = 128"

record kernel =
  k_threads :: threads
  k_current :: "tid option"
  k_readyQ :: "tlist_t list"
  k_sleepQ :: tlist_t
  k_running :: bool
  k_elapsed :: u8
  k_switch :: bool
  k_last_sleep_time :: u16
  k_mem :: mem

abbreviation set_state :: "tid \<Rightarrow> thread_state \<Rightarrow> threads \<Rightarrow> threads" where
  "set_state x s h \<equiv> h(x := (h x)\<lparr>t_state := s\<rparr>)"

section \<open>The operations\<close>

definition mos_single_threaded :: "kernel \<Rightarrow> kernel" where
  "mos_single_threaded k = k\<lparr>k_switch := False\<rparr>"

definition mos_multi_threaded :: "kernel \<Rightarrow> kernel" where
  "mos_multi_threaded k = k\<lparr>k_switch := True\<rparr>"

text \<open>Start of the kernel; \<open>lo\<close> and \<open>sz\<close> are the linker's end of data and the heap's size.\<close>

definition init_thread :: "tid \<Rightarrow> threads \<Rightarrow> threads" where
  "init_thread i h = h(i := (h i)\<lparr>t_sp := 0, t_state := EMPTY,
     t_suspend_state := SUSPEND_STATE_SLEEP, t_priority := 0, t_next := None, t_waiting_for := None\<rparr>)"

definition sched_init :: "nat \<Rightarrow> u16 \<Rightarrow> kernel \<Rightarrow> kernel" where
  "sched_init lo sz k =
     (let m = mem_init lo sz (k_mem k);
          h = fold init_thread [0..<MAX_THREADS] (k_threads k);
          h = h(0 := (h 0)\<lparr>t_state := RUNNING, t_priority := PRIORITY_IDLE\<rparr>)
      in k\<lparr>k_mem := m, k_threads := h, k_current := Some 0, k_switch := True,
           k_readyQ := replicate NUM_PRIORITIES mos_tlist_init\<rparr>)"

text \<open>\<open>mos_tlist_add(&readyQ[thread->priority], thread)\<close>\<close>

definition ready_add :: "tid \<Rightarrow> kernel \<Rightarrow> kernel option" where
  "ready_add x k = do {
     let p = unat (t_priority (k_threads k x));
     l \<leftarrow> rd (k_readyQ k) p;
     (l, h) \<leftarrow> mos_tlist_add l x (k_threads k);
     Some (k\<lparr>k_readyQ := (k_readyQ k)[p := l], k_threads := h\<rparr>) }"

text \<open>The loop of the dispatcher over the ready queues; it leaves NULL in \<open>_current_thread\<close>
  when all are empty.\<close>

function pick_loop :: "nat \<Rightarrow> kernel \<Rightarrow> kernel option" where
  "pick_loop d k =
     (if d < NUM_PRIORITIES then do {
        l \<leftarrow> rd (k_readyQ k) d;
        let (x, l, h) = mos_tlist_remove l (k_threads k);
        let k = k\<lparr>k_current := x, k_readyQ := (k_readyQ k)[d := l], k_threads := h\<rparr>;
        if x \<noteq> None then Some k else pick_loop (Suc d) k
      } else Some k)"
  by pat_completeness auto
termination by (relation "measure (\<lambda>(d, k). NUM_PRIORITIES - d)") auto

declare pick_loop.simps [simp del]

definition dispatcher :: "kernel \<Rightarrow> kernel option" where
  "dispatcher k = do {
     let k = k\<lparr>k_running := False, k_elapsed := 0\<rparr>;
     c \<leftarrow> k_current k;
     k \<leftarrow> (if t_state (k_threads k c) = RUNNING
           then ready_add c (k\<lparr>k_threads := set_state c READY (k_threads k)\<rparr>)
           else Some k);
     k \<leftarrow> pick_loop 0 k;
     c \<leftarrow> k_current k;
     Some (k\<lparr>k_threads := set_state c RUNNING (k_threads k), k_running := True\<rparr>) }"

text \<open>The loop of \<open>mos_thread_wakeup\<close> over the threads that are due.\<close>

partial_function (option) wake_loop :: "kernel \<Rightarrow> kernel option" where
  "wake_loop k =
     (case mos_tlist_head (k_sleepQ k) of
        None \<Rightarrow> Some k
      | Some f \<Rightarrow>
          if t_st (k_threads k f) = 0 then do {
            let (s, l, h) = mos_tlist_remove (k_sleepQ k) (k_threads k);
            s \<leftarrow> s;
            k \<leftarrow> ready_add s (k\<lparr>k_sleepQ := l, k_threads := set_state s READY h\<rparr>);
            wake_loop k
          } else Some k)"

definition mos_thread_wakeup :: "u16 \<Rightarrow> kernel \<Rightarrow> kernel option" where
  "mos_thread_wakeup sleep_time k = do {
     h \<leftarrow> mos_tlist_adjustst (k_sleepQ k) sleep_time (k_threads k);
     k \<leftarrow> wake_loop (k\<lparr>k_threads := h\<rparr>);
     dispatcher k }"

text \<open>\<open>mos_thread_wakeup_noints\<close> has the same body and releases the interrupts before the
  dispatcher disables them again.\<close>

definition mos_thread_wakeup_noints :: "u16 \<Rightarrow> kernel \<Rightarrow> kernel option" where
  "mos_thread_wakeup_noints sleep_time k = do {
     h \<leftarrow> mos_tlist_adjustst (k_sleepQ k) sleep_time (k_threads k);
     k \<leftarrow> wake_loop (k\<lparr>k_threads := h\<rparr>);
     dispatcher k }"

definition block_current :: "u8 \<Rightarrow> kernel \<Rightarrow> kernel option" where
  "block_current state k = do {
     c \<leftarrow> k_current k;
     let t = k_threads k c;
     Some (k\<lparr>k_threads := (k_threads k)(c := t\<lparr>t_next := None, t_state := BLOCKED,
        t_st := ucast (t_suspend_state t), t_suspend_state := state\<rparr>)\<rparr>) }"

definition mos_thread_suspend_state :: "u8 \<Rightarrow> kernel \<Rightarrow> kernel option" where
  "mos_thread_suspend_state state k = do {
     let state = (if SUSPEND_STATE_MAX \<le> state then SUSPEND_STATE_IDLE else state);
     k \<leftarrow> block_current state k;
     mos_thread_wakeup_noints (ucast (k_elapsed k)) k }"

definition mos_thread_suspend_noints :: "kernel \<Rightarrow> kernel option" where
  "mos_thread_suspend_noints k = do {
     k \<leftarrow> block_current SUSPEND_STATE_IDLE k;
     mos_thread_wakeup_noints (ucast (k_elapsed k)) k }"

text \<open>Putting a blocked thread back on its ready queue (the body the three resume functions
  share; the last one also clears \<open>waiting_for\<close>).\<close>

definition unblock :: "tid \<Rightarrow> kernel \<Rightarrow> kernel option" where
  "unblock x k =
     (if t_state (k_threads k x) = BLOCKED then do {
        k \<leftarrow> ready_add x k;
        let t = k_threads k x;
        Some (k\<lparr>k_threads := (k_threads k)(x := t\<lparr>t_state := READY,
           t_suspend_state := ucast (t_st t)\<rparr>)\<rparr>)
      } else Some k)"

definition mos_thread_resume :: "tid \<Rightarrow> kernel \<Rightarrow> kernel option" where
  "mos_thread_resume x k = do {
     k \<leftarrow> unblock x k;
     mos_thread_wakeup_noints (ucast (k_elapsed k)) k }"

definition mos_thread_resume_noints :: "tid \<Rightarrow> kernel \<Rightarrow> kernel option" where
  "mos_thread_resume_noints x k = do {
     k \<leftarrow> unblock x k;
     mos_thread_wakeup_noints (ucast (k_elapsed k)) k }"

definition mos_thread_resume_noints_nodispatch :: "tid \<Rightarrow> kernel \<Rightarrow> kernel option" where
  "mos_thread_resume_noints_nodispatch x k =
     (if t_state (k_threads k x) = BLOCKED then do {
        k \<leftarrow> unblock x k;
        Some (k\<lparr>k_threads := (k_threads k)(x := (k_threads k x)\<lparr>t_waiting_for := None\<rparr>)\<rparr>)
      } else Some k)"

definition mos_thread_sleep :: "u32 \<Rightarrow> kernel \<Rightarrow> kernel option" where
  "mos_thread_sleep sleeptime k = do {
     c \<leftarrow> k_current k;
     let h = (k_threads k)(c := (k_threads k c)\<lparr>t_state := SLEEPING,
               t_st := sleeptime + ucast (k_elapsed k)\<rparr>);
     (l, h) \<leftarrow> mos_tlist_ordadd (k_sleepQ k) c h;
     mos_thread_wakeup_noints (ucast (k_elapsed k)) (k\<lparr>k_sleepQ := l, k_threads := h\<rparr>) }"

definition check_sleep_time :: "u8 \<Rightarrow> kernel \<Rightarrow> (bool \<times> kernel) option" where
  "check_sleep_time sleep_time k =
     (case mos_tlist_head (k_sleepQ k) of
        None \<Rightarrow> Some (False, k)
      | Some x \<Rightarrow> do {
          c \<leftarrow> k_current k;
          if t_st (k_threads k x) = ucast sleep_time \<and>
             t_priority (k_threads k x) < t_priority (k_threads k c)
          then do { k \<leftarrow> mos_thread_wakeup (ucast sleep_time) k; Some (True, k) }
          else Some (False, k) })"

text \<open>Creating a thread.  The stack top is rounded up to an even address; the initial frame
  has the start address and thirteen registers.\<close>

definition find_empty :: "threads \<Rightarrow> tid option" where
  "find_empty h = List.find (\<lambda>i. t_state (h i) = EMPTY) [0..<MAX_THREADS]"

definition stack_top :: "nat \<Rightarrow> u16 \<Rightarrow> u16" where
  "stack_top addr sz = (of_nat addr + sz - 1 + 1) AND NOT 1"

definition mos_thread_new :: "u16 \<Rightarrow> u16 \<Rightarrow> u8 \<Rightarrow> kernel \<Rightarrow> (u8 \<times> kernel) option" where
  "mos_thread_new function_start stack_size priority k =
     (let sz = (if stack_size < MIN_STACK_SIZE then MIN_STACK_SIZE else stack_size) in
      if of_nat NUM_PRIORITIES \<le> priority then Some (BAD_THREAD_PRIORITY, k)
      else (case find_empty (k_threads k) of
          None \<Rightarrow> Some (NO_MORE_THREADS, k)
        | Some i \<Rightarrow> do {
            (r, m) \<leftarrow> mos_mem_alloc sz (k_mem k);
            let k = k\<lparr>k_mem := m\<rparr>;
            case r of
              None \<Rightarrow> Some (NO_MORE_MEMORY, k)
            | Some addr \<Rightarrow> do {
                let t = (k_threads k i)\<lparr>t_stack := of_nat addr, t_stackSize := sz,
                  t_func := function_start, t_state := READY, t_suspend_state := SUSPEND_STATE_IDLE,
                  t_priority := priority, t_thread_id := of_nat i, t_sp := stack_top addr sz - 28\<rparr>;
                k \<leftarrow> ready_add i (k\<lparr>k_threads := (k_threads k)(i := t)\<rparr>);
                k \<leftarrow> (if k_running k then dispatcher k else Some k);
                Some (THREAD_OK, k) } }))"

text \<open>A thread on a stack of its own.  \<open>stack_addr\<close> is a pointer to 16-bit words, so all steps along the
  stack are of two bytes; the identifier of the thread is not set.\<close>

definition fill_words :: "nat \<Rightarrow> u16 \<Rightarrow> mem \<Rightarrow> mem" where
  "fill_words a n m = m\<lparr>m_bytes :=
     fold (\<lambda>j b. b(a + 2 * j := 0xEF, a + 2 * j + 1 := 0xEF)) [0..<unat n] (m_bytes m)\<rparr>"

definition mos_thread_new_havestack :: "u16 \<Rightarrow> u16 \<Rightarrow> nat option \<Rightarrow> u8 \<Rightarrow> kernel \<Rightarrow> (u8 \<times> kernel) option" where
  "mos_thread_new_havestack function_start stack_size stack_addr priority k =
     (if of_nat NUM_PRIORITIES \<le> priority then Some (BAD_THREAD_PRIORITY, k)
      else (case find_empty (k_threads k) of
          None \<Rightarrow> Some (NO_MORE_THREADS, k)
        | Some i \<Rightarrow> (case stack_addr of
            None \<Rightarrow> Some (NO_MORE_MEMORY, k)
          | Some block \<Rightarrow> do {
              let sz = stack_size - of_nat sizeof_node;
              let addr = block + 2 * sizeof_node;
              let m = (k_mem k)\<lparr>m_nodes := upd_size block sz (m_nodes (k_mem k))\<rparr>;
              let k = k\<lparr>k_mem := fill_words addr sz m\<rparr>;
              let t = (k_threads k i)\<lparr>t_stack := of_nat addr, t_stackSize := sz,
                t_func := function_start, t_state := READY, t_suspend_state := SUSPEND_STATE_IDLE,
                t_priority := priority, t_sp := of_nat addr + 2 * (sz - 1) - 28\<rparr>;
              k \<leftarrow> ready_add i (k\<lparr>k_threads := (k_threads k)(i := t)\<rparr>);
              k \<leftarrow> (if k_running k then dispatcher k else Some k);
              Some (THREAD_OK, k) })))"

text \<open>How much of a stack still has the pattern it was filled with, in words from its lower end.\<close>

definition stack_word :: "mem \<Rightarrow> nat \<Rightarrow> u16" where
  "stack_word m a = le16 (m_bytes m a) (m_bytes m (a + 1))"

definition mos_check_stack :: "mos_thread \<Rightarrow> mem \<Rightarrow> u16" where
  "mos_check_stack t m =
     of_nat (length (takeWhile (\<lambda>i. stack_word m (unat (t_stack t) + 2 * i) = 0xEFEF) [0..<unat (t_stackSize t)]))"

text \<open>The start of the scheduler; the idle loop that follows the dispatcher is \<open>idle_round\<close>.\<close>

definition mos_sched_start :: "kernel \<Rightarrow> kernel option" where
  "mos_sched_start k = dispatcher (k\<lparr>k_running := True\<rparr>)"

text \<open>The stack is freed and the slot given back; the block is named by its address.\<close>

definition mos_thread_exit :: "kernel \<Rightarrow> kernel option" where
  "mos_thread_exit k = do {
     i \<leftarrow> List.find (\<lambda>i. k_current k = Some i) [0..<MAX_THREADS];
     m \<leftarrow> mos_mem_free (unat (t_stack (k_threads k i))) (k_mem k);
     let t = (k_threads k i)\<lparr>t_state := EMPTY, t_suspend_state := SUSPEND_STATE_SLEEP\<rparr>;
     dispatcher (k\<lparr>k_mem := m, k_threads := (k_threads k)(i := t)\<rparr>) }"

section \<open>Power management\<close>

text \<open>Whether the node may sleep deeply; \<open>have_alarms\<close> is \<open>mos_have_alarms()\<close>.\<close>

primrec min_suspend :: "threads \<Rightarrow> tid list \<Rightarrow> u8 \<Rightarrow> u8" where
  "min_suspend h [] s = s"
| "min_suspend h (i # is) s =
     (if t_state (h i) = EMPTY then min_suspend h is s
      else if t_suspend_state (h i) < s then
        (if t_suspend_state (h i) = SUSPEND_STATE_IDLE then t_suspend_state (h i)
         else min_suspend h is (t_suspend_state (h i)))
      else min_suspend h is s)"

definition decide_power_save_mode :: "bool \<Rightarrow> kernel \<Rightarrow> u8" where
  "decide_power_save_mode have_alarms k =
     (if (case mos_tlist_head (k_sleepQ k) of
            None \<Rightarrow> False | Some x \<Rightarrow> t_st (k_threads k x) < 46)
      then SUSPEND_STATE_IDLE
      else if have_alarms then SUSPEND_STATE_IDLE
      else min_suspend (k_threads k) [1..<MAX_THREADS] (t_suspend_state (k_threads k 0)))"

text \<open>The sleep time in milliseconds and the compare value of the timer; \<open>next_alarm\<close> is the
  time left until the first alarm, which the function also reduces.\<close>

definition set_last_sleep_time :: "tid \<Rightarrow> u32 option \<Rightarrow> kernel \<Rightarrow> u16 \<times> u32 option \<times> kernel" where
  "set_last_sleep_time x next_alarm k =
     (let st = t_st (k_threads k x);
          st = (case next_alarm of None \<Rightarrow> st | Some a \<Rightarrow> if a < st then a else st);
          next_alarm = map_option (\<lambda>a. a - st) next_alarm
      in if 15984 < st
         then (0xFFFE, next_alarm, k\<lparr>k_last_sleep_time := 15984\<rparr>)
         else (let ocr = ucast (st * 4 + st div 10) :: u16;
                   ocr = (if ocr = 0 then 1 else ocr)
               in (ocr, next_alarm, k\<lparr>k_last_sleep_time := ucast st\<rparr>)))"

text \<open>One round of the idle thread: what it asks the processor to do.\<close>

datatype idle_action = Idle_Mode | Kernel_Sleep u16

definition idle_round :: "u32 option \<Rightarrow> kernel \<Rightarrow> idle_action \<times> u32 option \<times> kernel" where
  "idle_round next_alarm k =
     (case mos_tlist_head (k_sleepQ k) of
        None \<Rightarrow> (Idle_Mode, next_alarm, k)
      | Some x \<Rightarrow>
          if decide_power_save_mode (next_alarm \<noteq> None) k = SUSPEND_STATE_IDLE
          then (Idle_Mode, next_alarm, k)
          else (case set_last_sleep_time x next_alarm k of
                  (ocr, next_alarm, k) \<Rightarrow> (Kernel_Sleep ocr, next_alarm, k)))"

section \<open>The queues and the states of the threads\<close>

text \<open>The ready queue of priority \<open>p\<close> holds \<open>qs p\<close>, exactly the READY threads of that
  priority; the sleep queue holds \<open>sl\<close>, exactly the SLEEPING threads.\<close>

definition ready_set :: "threads \<Rightarrow> nat \<Rightarrow> tid set" where
  "ready_set h p = {x. x < MAX_THREADS \<and> t_state (h x) = READY \<and> unat (t_priority (h x)) = p}"

definition sleep_set :: "threads \<Rightarrow> tid set" where
  "sleep_set h = {x. x < MAX_THREADS \<and> t_state (h x) = SLEEPING}"

definition queues_ok :: "threads \<Rightarrow> tlist_t list \<Rightarrow> tlist_t \<Rightarrow> (nat \<Rightarrow> tid list) \<Rightarrow> tid list \<Rightarrow> bool" where
  "queues_ok h rq sq qs sl \<longleftrightarrow> length rq = NUM_PRIORITIES \<and>
     (\<forall>p < NUM_PRIORITIES. tlist_rep h (rq ! p) (qs p) \<and> set (qs p) = ready_set h p) \<and>
     tlist_rep h sq sl \<and> set sl = sleep_set h \<and>
     (\<forall>x < MAX_THREADS. unat (t_priority (h x)) < NUM_PRIORITIES)"

lemma queues_okD:
  assumes "queues_ok h rq sq qs sl"
  shows "length rq = NUM_PRIORITIES"
    and "p < NUM_PRIORITIES \<Longrightarrow> tlist_rep h (rq ! p) (qs p)"
    and "p < NUM_PRIORITIES \<Longrightarrow> set (qs p) = ready_set h p"
    and "tlist_rep h sq sl" and "set sl = sleep_set h"
    and "x < MAX_THREADS \<Longrightarrow> unat (t_priority (h x)) < NUM_PRIORITIES"
  using assms by (auto simp: queues_ok_def)

lemma tlist_rep_frame1:
  assumes "tlist_rep h l xs" and "x \<notin> set xs" and "\<And>y. y \<noteq> x \<Longrightarrow> h' y = h y"
  shows "tlist_rep h' l xs"
  by (rule tlist_rep_frame [OF assms(1)]) (metis assms(2,3))

lemma queues_ok_enq:
  assumes q: "queues_ok h rq sq qs sl" and x: "x < MAX_THREADS"
    and st: "t_state (h x) \<noteq> READY" "t_state (h x) \<noteq> SLEEPING"
    and p: "p = unat (t_priority (h x))"
    and rep: "tlist_rep h' l' (qs p @ [x])"
    and same: "\<And>y. y \<noteq> x \<Longrightarrow> t_state (h' y) = t_state (h y) \<and> t_priority (h' y) = t_priority (h y)"
    and fr: "\<And>y. y \<noteq> x \<Longrightarrow> y \<notin> set (qs p) \<Longrightarrow> t_next (h' y) = t_next (h y)"
    and new: "t_state (h' x) = READY" "t_priority (h' x) = t_priority (h x)"
  shows "queues_ok h' (rq[p := l']) sq (qs(p := qs p @ [x])) sl"
proof -
  note d = queues_okD [OF q]
  have pr: "p < NUM_PRIORITIES" using d(6) [OF x] p by simp
  have nx: "x \<notin> set (qs r)" if "r < NUM_PRIORITIES" for r
    using d(3) [OF that] st by (simp add: ready_set_def)
  have nsl: "x \<notin> set sl" using d(5) st by (simp add: sleep_set_def)
  have rs: "ready_set h' r = (if r = p then insert x (ready_set h r) else ready_set h r)" for r
    using same new x p st by (auto simp: ready_set_def) (metis+)
  have ss: "sleep_set h' = sleep_set h"
    using same new st by (auto simp: sleep_set_def) (metis thread_state.distinct)+
  have pri: "unat (t_priority (h' y)) < NUM_PRIORITIES" if "y < MAX_THREADS" for y
    using d(6) [OF that] same [of y] new by (cases "y = x") auto
  have other: "tlist_rep h' (rq ! r) (qs r)" if r: "r < NUM_PRIORITIES" "r \<noteq> p" for r
  proof (rule tlist_rep_frame [OF d(2) [OF r(1)]])
    fix y assume y: "y \<in> set (qs r)"
    then have "y \<notin> set (qs p)" using d(3) [OF r(1)] d(3) [OF pr] r(2) by (auto simp: ready_set_def)
    moreover have "y \<noteq> x" using y nx [OF r(1)] by auto
    ultimately show "t_next (h' y) = t_next (h y)" by (intro fr)
  qed
  have sl: "tlist_rep h' sq sl"
  proof (rule tlist_rep_frame [OF d(4)])
    fix y assume y: "y \<in> set sl"
    then have "y \<notin> set (qs p)" using d(3) [OF pr] d(5) by (auto simp: ready_set_def sleep_set_def)
    moreover have "y \<noteq> x" using y nsl by auto
    ultimately show "t_next (h' y) = t_next (h y)" by (intro fr)
  qed
  show ?thesis
    using d(1,3,5) pr rs ss pri other sl rep unfolding queues_ok_def by auto
qed

lemma queues_ok_deq:
  assumes q: "queues_ok h rq sq qs sl" and pr: "p < NUM_PRIORITIES" and x: "qs p = x # ys"
    and rep: "tlist_rep h' l' ys" and same: "\<And>y. y \<noteq> x \<Longrightarrow> h' y = h y"
    and new: "t_state (h' x) \<noteq> READY" "t_state (h' x) \<noteq> SLEEPING" "t_priority (h' x) = t_priority (h x)"
  shows "queues_ok h' (rq[p := l']) sq (qs(p := ys)) sl"
proof -
  note d = queues_okD [OF q]
  have dis: "distinct (x # ys)" using d(2) [OF pr] x by (simp add: tlist_rep_def)
  have xr: "x \<in> ready_set h p" using d(3) [OF pr] x by auto
  have rs: "ready_set h' r = ready_set h r - {x}" for r
    using same new by (auto simp: ready_set_def) (metis+)
  have ss: "sleep_set h' = sleep_set h"
  proof -
    have "t_state (h x) \<noteq> SLEEPING" using xr by (simp add: ready_set_def)
    then have "t_state (h' y) = SLEEPING \<longleftrightarrow> t_state (h y) = SLEEPING" for y
      using same new by (cases "y = x") auto
    then show ?thesis by (simp add: sleep_set_def)
  qed
  have pri: "unat (t_priority (h' y)) < NUM_PRIORITIES" if "y < MAX_THREADS" for y
    using d(6) [OF that] same [of y] new by (cases "y = x") auto
  have xo: "x \<notin> ready_set h r" if "r \<noteq> p" for r using xr that by (simp add: ready_set_def)
  have other: "tlist_rep h' (rq ! r) (qs r)" if r: "r < NUM_PRIORITIES" "r \<noteq> p" for r
    using d(3) [OF r(1)] xo [OF r(2)] same tlist_rep_frame1 [OF d(2) [OF r(1)], of x h'] by blast
  have "x \<notin> set sl" using d(5) xr by (simp add: ready_set_def sleep_set_def)
  then have sl: "tlist_rep h' sq sl" using same tlist_rep_frame1 [OF d(4), of x h'] by blast
  have "set ys = ready_set h p - {x}" using d(3) [OF pr] x dis by auto
  then show ?thesis
    using d(1,3,5) pr rs ss pri other sl rep xo unfolding queues_ok_def by auto
qed

lemma queues_ok_deq_sleep:
  assumes q: "queues_ok h rq sq qs (x # ys)"
    and rep: "tlist_rep h' l' ys" and same: "\<And>y. y \<noteq> x \<Longrightarrow> h' y = h y"
    and new: "t_state (h' x) \<noteq> READY" "t_state (h' x) \<noteq> SLEEPING" "t_priority (h' x) = t_priority (h x)"
  shows "queues_ok h' rq l' qs ys"
proof -
  note d = queues_okD [OF q]
  have dis: "distinct (x # ys)" using d(4) by (simp add: tlist_rep_def)
  have xs: "x \<in> sleep_set h" using d(5) by auto
  have rs: "ready_set h' r = ready_set h r" for r
  proof -
    have "t_state (h x) \<noteq> READY" using xs by (simp add: sleep_set_def)
    then have "t_state (h' y) = READY \<longleftrightarrow> t_state (h y) = READY" for y
      using same new by (cases "y = x") auto
    moreover have "t_priority (h' y) = t_priority (h y)" for y using same new by (cases "y = x") auto
    ultimately show ?thesis by (simp add: ready_set_def)
  qed
  have ss: "sleep_set h' = sleep_set h - {x}"
    using same new by (auto simp: sleep_set_def) (metis+)
  have pri: "unat (t_priority (h' y)) < NUM_PRIORITIES" if "y < MAX_THREADS" for y
    using d(6) [OF that] same [of y] new by (cases "y = x") auto
  have other: "tlist_rep h' (rq ! r) (qs r)" if r: "r < NUM_PRIORITIES" for r
  proof -
    have "x \<notin> set (qs r)" using d(3) [OF r] xs by (simp add: ready_set_def sleep_set_def)
    then show ?thesis using same tlist_rep_frame1 [OF d(2) [OF r], of x h'] by blast
  qed
  have "set ys = sleep_set h - {x}" using d(5) dis by auto
  then show ?thesis using d(1,3) rs ss pri other rep unfolding queues_ok_def by auto
qed

text \<open>A thread that is in no queue is put on the ready queue of its priority.\<close>

lemma ready_add_ok:
  assumes q: "queues_ok h (k_readyQ k) sq qs sl" and x: "x < MAX_THREADS"
    and st: "t_state (h x) \<noteq> READY" "t_state (h x) \<noteq> SLEEPING"
    and k: "k_threads k = h(x := t)" and pt: "t_priority t = t_priority (h x)"
  shows "\<exists>rq h'. ready_add x k = Some (k\<lparr>k_readyQ := rq, k_threads := h'\<rparr>) \<and>
    links_only (insert x (set (qs (unat (t_priority t))))) (k_threads k) h' \<and>
    (\<forall>t'. t_next t' = t_next (h' x) \<and> t_priority t' = t_priority t \<and> t_state t' = READY \<longrightarrow>
       queues_ok (h'(x := t')) rq sq (qs(unat (t_priority t) := qs (unat (t_priority t)) @ [x])) sl)"
proof -
  let ?p = "unat (t_priority t)" and ?h = "h(x := t)"
  note d = queues_okD [OF q]
  have pr: "?p < NUM_PRIORITIES" using d(6) [OF x] pt by simp
  have nx: "x \<notin> set (qs ?p)" using d(3) [OF pr] st by (simp add: ready_set_def)
  have "tlist_rep ?h (k_readyQ k ! ?p) (qs ?p)"
    using nx by (intro tlist_rep_frame [OF d(2) [OF pr]]) auto
  from mos_tlist_add_ok [OF this nx] obtain l' h' where
    a: "mos_tlist_add (k_readyQ k ! ?p) x ?h = Some (l', h')" "tlist_rep h' l' (qs ?p @ [x])"
      "links_only (insert x (set (qs ?p))) ?h h'" by blast
  have run: "ready_add x k = Some (k\<lparr>k_readyQ := (k_readyQ k)[?p := l'], k_threads := h'\<rparr>)"
    using a(1) pr d(1) k by (simp add: ready_add_def)
  have "queues_ok (h'(x := t')) ((k_readyQ k)[?p := l']) sq (qs(?p := qs ?p @ [x])) sl"
    if t': "t_next t' = t_next (h' x)" "t_priority t' = t_priority t" "t_state t' = READY" for t'
  proof (rule queues_ok_enq [OF q x st])
    show "?p = unat (t_priority (h x))" using pt by simp
    show "tlist_rep (h'(x := t')) l' (qs ?p @ [x])"
      using t'(1) by (intro tlist_rep_frame [OF a(2)]) simp
    show "t_state ((h'(x := t')) x) = READY" "t_priority ((h'(x := t')) x) = t_priority (h x)"
      using t' pt by simp_all
    fix y assume "y \<noteq> x"
    then show "t_state ((h'(x := t')) y) = t_state (h y) \<and> t_priority ((h'(x := t')) y) = t_priority (h y)"
      using links_only_fields [OF a(3)] by simp
    assume "y \<notin> set (qs ?p)"
    with \<open>y \<noteq> x\<close> show "t_next ((h'(x := t')) y) = t_next (h y)"
      using links_only_same [OF a(3), of y] by simp
  qed
  with run a(3) k show ?thesis by auto
qed

section \<open>The abstract scheduler\<close>

text \<open>The specification of the two parts of a context switch: the thread that runs next is the
  first of the first non-empty ready queue; and when \<open>t\<close> ticks have passed, the sleeping
  threads that are due go to the end of their ready queues in the order of their due times.\<close>

type_synonym ready = "nat \<Rightarrow> tid list"
type_synonym sleepers = "(tid \<times> nat) list"

definition next_thread :: "ready \<Rightarrow> (tid \<times> ready) option" where
  "next_thread qs =
     (case List.find (\<lambda>p. qs p \<noteq> []) [0..<NUM_PRIORITIES] of
        None \<Rightarrow> None
      | Some p \<Rightarrow> Some (hd (qs p), qs(p := tl (qs p))))"

definition requeue :: "(tid \<Rightarrow> nat) \<Rightarrow> tid list \<Rightarrow> ready \<Rightarrow> ready" where
  "requeue prio ws qs = (\<lambda>p. qs p @ filter (\<lambda>x. prio x = p) ws)"

definition wake_due :: "(tid \<Rightarrow> nat) \<Rightarrow> nat \<Rightarrow> ready \<Rightarrow> sleepers \<Rightarrow> ready \<times> sleepers" where
  "wake_due prio t qs sl =
     (requeue prio (map fst (takeWhile (\<lambda>(x, d). d \<le> t) sl)) qs,
      map (\<lambda>(x, d). (x, d - t)) (dropWhile (\<lambda>(x, d). d \<le> t) sl))"

lemma requeue_simps:
  "requeue prio [] qs = qs"
  "requeue prio (x # xs) qs = requeue prio xs (qs(prio x := qs (prio x) @ [x]))"
  by (auto simp: requeue_def fun_eq_iff)

text \<open>Whichever thread is next, no ready thread has a smaller priority number.\<close>

lemma next_threadD:
  assumes "next_thread qs = Some (x, qs')"
  obtains p ys where "p < NUM_PRIORITIES" "qs p = x # ys" "qs' = qs(p := ys)" "\<forall>r < p. qs r = []"
proof -
  from assms obtain p where f: "List.find (\<lambda>p. qs p \<noteq> []) [0..<NUM_PRIORITIES] = Some p"
    and x: "x = hd (qs p)" "qs' = qs(p := tl (qs p))"
    by (auto simp: next_thread_def split: option.splits)
  from f have p: "p < NUM_PRIORITIES" "qs p \<noteq> []" "\<forall>r < p. qs r = []"
    by (auto simp: find_Some_iff)
  then have "qs p = x # tl (qs p)" using x by simp
  with p x that show thesis by blast
qed

lemma next_thread_None: "next_thread qs = None \<longleftrightarrow> (\<forall>p < NUM_PRIORITIES. qs p = [])"
  by (auto simp: next_thread_def find_None_iff find_Some_iff split: option.splits)

section \<open>The dispatcher\<close>

definition prio_of :: "threads \<Rightarrow> tid \<Rightarrow> nat" where
  "prio_of h x = unat (t_priority (h x))"

text \<open>Threads changed in their links and states only.\<close>

definition same_times :: "threads \<Rightarrow> threads \<Rightarrow> bool" where
  "same_times h h' \<longleftrightarrow> (\<forall>x. t_st (h' x) = t_st (h x) \<and> t_priority (h' x) = t_priority (h x))"

lemma same_times_refl [simp]: "same_times h h"
  by (simp add: same_times_def)

lemma same_times_trans: "same_times h1 h2 \<Longrightarrow> same_times h2 h3 \<Longrightarrow> same_times h1 h3"
  by (simp add: same_times_def)

lemma same_times_due: "same_times h h' \<Longrightarrow> tdue h' acc xs = tdue h acc xs"
  by (rule tdue_frame) (simp add: same_times_def)

lemma same_times_prio: "same_times h h' \<Longrightarrow> prio_of h' = prio_of h"
  by (rule ext) (simp add: same_times_def prio_of_def)

text \<open>The blocked threads (those in the queues of the synchronisation primitives) are the same as
  before, and unchanged.\<close>

definition blocked_same :: "threads \<Rightarrow> threads \<Rightarrow> bool" where
  "blocked_same h h' \<longleftrightarrow>
     (\<forall>y. t_state (h y) = BLOCKED \<or> t_state (h' y) = BLOCKED \<longrightarrow> h' y = h y)"

lemma blocked_same_refl [simp]: "blocked_same h h"
  by (simp add: blocked_same_def)

lemma blocked_same_trans: "blocked_same h1 h2 \<Longrightarrow> blocked_same h2 h3 \<Longrightarrow> blocked_same h1 h3"
  unfolding blocked_same_def by metis

lemma blocked_sameD:
  assumes "blocked_same h h'"
  shows "t_state (h y) = BLOCKED \<Longrightarrow> h' y = h y" and "t_state (h' y) = BLOCKED \<Longrightarrow> h' y = h y"
  using assms unfolding blocked_same_def by blast+

text \<open>A change of the links of the threads in one ready queue and of one thread that is not
  blocked.\<close>

lemma links_only_blocked:
  assumes lo: "links_only (insert x X) (h(x := t)) h'" and x: "t_state (h x) \<noteq> BLOCKED" "t_state t \<noteq> BLOCKED"
    and X: "\<And>y. y \<in> X \<Longrightarrow> t_state (h y) \<noteq> BLOCKED"
  shows "blocked_same h h'"
  unfolding blocked_same_def
proof (intro allI impI)
  fix y assume "t_state (h y) = BLOCKED \<or> t_state (h' y) = BLOCKED"
  then have b: "t_state (h y) = BLOCKED" "y \<noteq> x"
    using links_only_fields(2) [OF lo, of y] x by (auto split: if_splits)
  then have "y \<notin> insert x X" using X by auto
  then show "h' y = h y" using links_only_same [OF lo] b(2) by auto
qed

lemma queues_ok_not_blocked:
  assumes "queues_ok h rq sq qs sl" and "x < MAX_THREADS" and "y \<in> set (qs (unat (t_priority (h x))))"
  shows "t_state (h y) \<noteq> BLOCKED"
  using queues_okD(3) [OF assms(1) queues_okD(6) [OF assms(1,2)]] assms(3) by (simp add: ready_set_def)

lemma pick_loop_ok:
  assumes "queues_ok (k_threads k) (k_readyQ k) sq qs sl"
    and "p < NUM_PRIORITIES" and "qs p = x # ys" and "\<forall>r < p. qs r = []" and "d \<le> p"
  shows "\<exists>l'. pick_loop d k = Some (k\<lparr>k_current := Some x, k_readyQ := (k_readyQ k)[p := l'],
      k_threads := set_next x None (k_threads k)\<rparr>) \<and> tlist_rep (set_next x None (k_threads k)) l' ys"
  using assms
proof (induction "p - d" arbitrary: d k)
  case 0
  then have d: "d = p" by simp
  note q = queues_okD [OF 0(2)]
  have rep: "tlist_rep (k_threads k) (k_readyQ k ! p) (x # ys)" using q(2) [OF 0(3)] 0(4) by simp
  have "pick_loop d k = Some (k\<lparr>k_current := Some x,
      k_readyQ := (k_readyQ k)[p := (k_readyQ k ! p)\<lparr>tl_head := t_next (k_threads k x)\<rparr>],
      k_threads := set_next x None (k_threads k)\<rparr>)"
    using 0(3) d q(1) mos_tlist_remove_ok(1) [OF rep] by (simp add: pick_loop.simps [of p])
  with mos_tlist_remove_ok(2) [OF rep] show ?case by blast
next
  case (Suc n)
  then have d: "d < p" "d < NUM_PRIORITIES" by linarith+
  note q = queues_okD [OF Suc(3)]
  have "tlist_rep (k_threads k) (k_readyQ k ! d) []" using q(2) [OF d(2)] Suc(6) d(1) by simp
  then have r: "mos_tlist_remove (k_readyQ k ! d) (k_threads k) = (None, k_readyQ k ! d, k_threads k)"
    by (rule mos_tlist_remove_nil)
  have "pick_loop d k = pick_loop (Suc d) (k\<lparr>k_current := None\<rparr>)"
    using d(2) r q(1) by (simp add: pick_loop.simps [of d])
  moreover have "n = p - Suc d" "Suc d \<le> p" using Suc(2) d by linarith+
  ultimately show ?case using Suc.hyps(1) [of "Suc d" "k\<lparr>k_current := None\<rparr>"] Suc(3-6) by simp
qed

lemma pick_loop_empty:
  assumes "queues_ok (k_threads k) (k_readyQ k) sq qs sl" and "\<forall>r < NUM_PRIORITIES. qs r = []"
    and "d < NUM_PRIORITIES"
  shows "pick_loop d k = Some (k\<lparr>k_current := None\<rparr>)"
  using assms
proof (induction "NUM_PRIORITIES - d" arbitrary: d k)
  case (Suc n)
  note q = queues_okD [OF Suc(3)]
  have "tlist_rep (k_threads k) (k_readyQ k ! d) []" using q(2) [OF Suc(5)] Suc(4,5) by simp
  then have r: "mos_tlist_remove (k_readyQ k ! d) (k_threads k) = (None, k_readyQ k ! d, k_threads k)"
    by (rule mos_tlist_remove_nil)
  have step: "pick_loop d k = pick_loop (Suc d) (k\<lparr>k_current := None\<rparr>)"
    using Suc(5) r q(1) by (simp add: pick_loop.simps [of d])
  show ?case
  proof (cases "Suc d < NUM_PRIORITIES")
    case True
    moreover have "n = NUM_PRIORITIES - Suc d" using Suc(2) by linarith
    ultimately show ?thesis using Suc.hyps(1) [of "Suc d" "k\<lparr>k_current := None\<rparr>"] Suc(3,4) step by simp
  next
    case False
    then show ?thesis using step by (simp add: pick_loop.simps [of "Suc d"])
  qed
qed simp

text \<open>The state in which the dispatcher is called: the queues are right and only the current
  thread may be RUNNING, in which case it is in no queue.\<close>

definition at_dispatch :: "kernel \<Rightarrow> ready \<Rightarrow> tid list \<Rightarrow> tid \<Rightarrow> bool" where
  "at_dispatch k qs sl c \<longleftrightarrow> queues_ok (k_threads k) (k_readyQ k) (k_sleepQ k) qs sl \<and>
     k_current k = Some c \<and> c < MAX_THREADS \<and>
     (\<forall>x < MAX_THREADS. t_state (k_threads k x) = RUNNING \<longrightarrow> x = c)"

definition requeue_running :: "kernel \<Rightarrow> tid \<Rightarrow> ready \<Rightarrow> ready" where
  "requeue_running k c qs =
     (if t_state (k_threads k c) = RUNNING then requeue (prio_of (k_threads k)) [c] qs else qs)"

lemma dispatcher_requeue:
  assumes "at_dispatch k qs sl c"
  shows "\<exists>k1. (if t_state (k_threads k c) = RUNNING
      then ready_add c (k\<lparr>k_running := False, k_elapsed := 0, k_threads := set_state c READY (k_threads k)\<rparr>)
      else Some (k\<lparr>k_running := False, k_elapsed := 0\<rparr>)) = Some k1 \<and>
    queues_ok (k_threads k1) (k_readyQ k1) (k_sleepQ k) (requeue_running k c qs) sl \<and>
    k_sleepQ k1 = k_sleepQ k \<and> k_mem k1 = k_mem k \<and> k_elapsed k1 = 0 \<and> same_times (k_threads k) (k_threads k1) \<and>
    blocked_same (k_threads k) (k_threads k1) \<and>
    (\<forall>x. t_state (k_threads k1 x) =
       (if x = c \<and> t_state (k_threads k c) = RUNNING then READY else t_state (k_threads k x)))"
proof (cases "t_state (k_threads k c) = RUNNING")
  case False
  then show ?thesis using assms by (auto simp: at_dispatch_def requeue_running_def)
next
  case True
  let ?h = "k_threads k" and ?t = "(k_threads k c)\<lparr>t_state := READY\<rparr>"
  let ?k = "k\<lparr>k_running := False, k_elapsed := 0, k_threads := set_state c READY ?h\<rparr>"
  have q: "queues_ok ?h (k_readyQ ?k) (k_sleepQ k) qs sl" and c: "c < MAX_THREADS"
    using assms by (auto simp: at_dispatch_def)
  from ready_add_ok [OF q c, of ?t] True obtain rq h' where r:
    "ready_add c ?k = Some (?k\<lparr>k_readyQ := rq, k_threads := h'\<rparr>)"
    "links_only (insert c (set (qs (unat (t_priority ?t))))) (k_threads ?k) h'"
    "\<forall>t'. t_next t' = t_next (h' c) \<and> t_priority t' = t_priority ?t \<and> t_state t' = READY \<longrightarrow>
       queues_ok (h'(c := t')) rq (k_sleepQ k)
         (qs(unat (t_priority ?t) := qs (unat (t_priority ?t)) @ [c])) sl" by auto
  have st: "t_state (h' x) = (if x = c then READY else t_state (?h x))"
    "t_st (h' x) = t_st (?h x)" "t_priority (h' x) = t_priority (?h x)" for x
    using links_only_fields [OF r(2), of x] by auto
  have "queues_ok h' rq (k_sleepQ k) (requeue_running k c qs) sl"
    using r(3) [rule_format, of "h' c"] st True
    by (simp add: requeue_running_def requeue_simps prio_of_def)
  moreover have "blocked_same ?h h'"
  proof (rule links_only_blocked)
    show "links_only (insert c (set (qs (unat (t_priority (?h c)))))) (?h(c := ?t)) h'" using r(2) by simp
  qed (use True queues_ok_not_blocked [OF q c] in auto)
  ultimately show ?thesis using r(1) True st by (auto simp: same_times_def)
qed

lemma dispatcher_eq:
  assumes "k_current k = Some c" and "(if t_state (k_threads k c) = RUNNING
      then ready_add c (k\<lparr>k_running := False, k_elapsed := 0, k_threads := set_state c READY (k_threads k)\<rparr>)
      else Some (k\<lparr>k_running := False, k_elapsed := 0\<rparr>)) = Some k1"
  shows "dispatcher k = do {
     k \<leftarrow> pick_loop 0 k1;
     c \<leftarrow> k_current k;
     Some (k\<lparr>k_threads := set_state c RUNNING (k_threads k), k_running := True\<rparr>) }"
  using assms by (auto simp: dispatcher_def split: if_splits)

definition dispatched :: "kernel \<Rightarrow> tid \<Rightarrow> kernel \<Rightarrow> ready \<Rightarrow> tid list \<Rightarrow> tid \<Rightarrow> bool" where
  "dispatched k c k' qs sl x \<longleftrightarrow> at_dispatch k' qs sl x \<and> k_running k' \<and> k_elapsed k' = 0 \<and>
     k_sleepQ k' = k_sleepQ k \<and> k_mem k' = k_mem k \<and> same_times (k_threads k) (k_threads k') \<and>
     blocked_same (k_threads k) (k_threads k') \<and>
     (\<forall>y. t_state (k_threads k' y) = (if y = x then RUNNING
        else if y = c \<and> t_state (k_threads k c) = RUNNING then READY else t_state (k_threads k y)))"

lemma dispatcher_ok:
  assumes at: "at_dispatch k qs sl c" and nxt: "next_thread (requeue_running k c qs) = Some (x, qs')"
  shows "\<exists>k'. dispatcher k = Some k' \<and> dispatched k c k' qs' sl x"
proof -
  from dispatcher_requeue [OF at] obtain k1 where k1:
    "(if t_state (k_threads k c) = RUNNING
      then ready_add c (k\<lparr>k_running := False, k_elapsed := 0, k_threads := set_state c READY (k_threads k)\<rparr>)
      else Some (k\<lparr>k_running := False, k_elapsed := 0\<rparr>)) = Some k1"
    "queues_ok (k_threads k1) (k_readyQ k1) (k_sleepQ k) (requeue_running k c qs) sl"
    "k_sleepQ k1 = k_sleepQ k" "k_mem k1 = k_mem k" "k_elapsed k1 = 0" "same_times (k_threads k) (k_threads k1)"
    "blocked_same (k_threads k) (k_threads k1)"
    "\<forall>x. t_state (k_threads k1 x) =
       (if x = c \<and> t_state (k_threads k c) = RUNNING then READY else t_state (k_threads k x))" by blast
  from next_threadD [OF nxt] obtain p ys where p: "p < NUM_PRIORITIES"
    "requeue_running k c qs p = x # ys" "qs' = (requeue_running k c qs)(p := ys)"
    "\<forall>r < p. requeue_running k c qs r = []" by blast
  from pick_loop_ok [OF k1(2) p(1,2,4), of 0] obtain l' where l':
    "pick_loop 0 k1 = Some (k1\<lparr>k_current := Some x, k_readyQ := (k_readyQ k1)[p := l'],
      k_threads := set_next x None (k_threads k1)\<rparr>)"
    "tlist_rep (set_next x None (k_threads k1)) l' ys" by auto
  let ?h = "set_state x RUNNING (set_next x None (k_threads k1))"
  let ?k = "k1\<lparr>k_current := Some x, k_readyQ := (k_readyQ k1)[p := l'], k_threads := ?h, k_running := True\<rparr>"
  have c: "k_current k = Some c" using at by (simp add: at_dispatch_def)
  have run: "dispatcher k = Some ?k"
    using dispatcher_eq [OF c k1(1)] l'(1) by simp
  have xin: "x \<in> ready_set (k_threads k1) p"
    using queues_okD(3) [OF k1(2) p(1)] p(2) by auto
  have "queues_ok ?h ((k_readyQ k1)[p := l']) (k_sleepQ k) ((requeue_running k c qs)(p := ys)) sl"
  proof (rule queues_ok_deq [OF k1(2) p(1,2)])
    show "tlist_rep ?h l' ys" by (rule tlist_rep_frame [OF l'(2)]) simp
  qed simp_all
  moreover have "x < MAX_THREADS" using xin by (simp add: ready_set_def)
  moreover have only: "\<forall>y < MAX_THREADS. t_state (k_threads ?k y) = RUNNING \<longrightarrow> y = x"
  proof (intro allI impI, rule ccontr)
    fix y assume that: "y < MAX_THREADS" "t_state (k_threads ?k y) = RUNNING"
    assume "y \<noteq> x"
    then have "t_state (k_threads k1 y) = RUNNING" using that(2) by simp
    then have "t_state (k_threads k y) = RUNNING" "\<not> (y = c \<and> t_state (k_threads k c) = RUNNING)"
      using k1(8) [rule_format, of y] by (simp_all split: if_splits)
    with at that(1) show False by (simp add: at_dispatch_def)
  qed
  ultimately have "at_dispatch ?k qs' sl x"
    unfolding at_dispatch_def p(3) by (intro conjI only) (simp_all add: k1(3))
  moreover have "same_times (k_threads k) (k_threads ?k)"
    using k1(6) by (simp add: same_times_def)
  moreover have "blocked_same (k_threads k) (k_threads ?k)"
  proof -
    have "t_state (k_threads k1 x) \<noteq> BLOCKED" using xin by (simp add: ready_set_def)
    then have "blocked_same (k_threads k1) (k_threads ?k)" by (auto simp: blocked_same_def)
    with k1(7) show ?thesis by (rule blocked_same_trans)
  qed
  ultimately have "dispatched k c ?k qs' sl x"
    using k1(3,4,5,8) by (simp add: dispatched_def)
  with run show ?thesis by blast
qed

lemma dispatcher_stuck:
  assumes at: "at_dispatch k qs sl c" and nxt: "next_thread (requeue_running k c qs) = None"
  shows "dispatcher k = None"
proof -
  from dispatcher_requeue [OF at] obtain k1 where k1:
    "(if t_state (k_threads k c) = RUNNING
      then ready_add c (k\<lparr>k_running := False, k_elapsed := 0, k_threads := set_state c READY (k_threads k)\<rparr>)
      else Some (k\<lparr>k_running := False, k_elapsed := 0\<rparr>)) = Some k1"
    "queues_ok (k_threads k1) (k_readyQ k1) (k_sleepQ k) (requeue_running k c qs) sl" by blast
  have c: "k_current k = Some c" using at by (simp add: at_dispatch_def)
  have "pick_loop 0 k1 = Some (k1\<lparr>k_current := None\<rparr>)"
    using nxt by (intro pick_loop_empty [OF k1(2)]) (simp_all add: next_thread_None NUM_PRIORITIES_def)
  then show ?thesis using dispatcher_eq [OF c k1(1)] by simp
qed

section \<open>Waking the threads that are due\<close>

lemma wake_loop_ok:
  assumes "queues_ok (k_threads k) (k_readyQ k) (k_sleepQ k) qs sl"
  defines "w \<equiv> takeWhile (\<lambda>x. t_st (k_threads k x) = 0) sl"
  shows "\<exists>rq sq h. wake_loop k = Some (k\<lparr>k_readyQ := rq, k_sleepQ := sq, k_threads := h\<rparr>) \<and>
    queues_ok h rq sq (requeue (prio_of (k_threads k)) w qs) (dropWhile (\<lambda>x. t_st (k_threads k x) = 0) sl) \<and>
    same_times (k_threads k) h \<and> blocked_same (k_threads k) h \<and>
    (\<forall>y. t_state (h y) = (if y \<in> set w then READY else t_state (k_threads k y)))"
  using assms(1) unfolding w_def
proof (induction sl arbitrary: k qs)
  case Nil
  then have "mos_tlist_head (k_sleepQ k) = None"
    using queues_okD(4) [OF Nil] by (simp add: mos_tlist_head_def tlist_rep_def)
  with Nil show ?case
    by (intro exI [of _ "k_readyQ k"] exI [of _ "k_sleepQ k"] exI [of _ "k_threads k"])
      (simp add: wake_loop.simps requeue_simps)
next
  case (Cons x sl)
  let ?h = "k_threads k"
  note q = queues_okD [OF Cons.prems]
  have hd: "mos_tlist_head (k_sleepQ k) = Some x" using q(4) by (simp add: mos_tlist_head_def tlist_rep_def)
  show ?case
  proof (cases "t_st (?h x) = 0")
    case False
    with hd Cons.prems show ?thesis
      by (intro exI [of _ "k_readyQ k"] exI [of _ "k_sleepQ k"] exI [of _ "k_threads k"])
        (simp add: wake_loop.simps requeue_simps)
  next
    case True
    let ?l = "(k_sleepQ k)\<lparr>tl_head := t_next (?h x)\<rparr>" and ?t = "(?h x)\<lparr>t_next := None, t_state := READY\<rparr>"
    let ?hb = "set_state x BLOCKED (set_next x None ?h)"
    let ?k1 = "k\<lparr>k_sleepQ := ?l, k_threads := ?h(x := ?t)\<rparr>"
    have x: "x \<in> sleep_set ?h" using q(5) by auto
    then have xm: "x < MAX_THREADS" by (simp add: sleep_set_def)
    have rm: "mos_tlist_remove (k_sleepQ k) ?h = (Some x, ?l, set_next x None ?h)"
      using mos_tlist_remove_ok(1) [OF q(4)] .
    have "queues_ok ?hb (k_readyQ k) ?l qs sl"
    proof (rule queues_ok_deq_sleep [OF Cons.prems])
      show "tlist_rep ?hb ?l sl"
        by (rule tlist_rep_frame [OF mos_tlist_remove_ok(2) [OF q(4)]]) simp
    qed simp_all
    from ready_add_ok [where k = ?k1 and t = ?t, simplified, OF this xm] obtain rq h' where r:
      "ready_add x ?k1 = Some (?k1\<lparr>k_readyQ := rq, k_threads := h'\<rparr>)"
      "links_only (insert x (set (qs (prio_of ?h x)))) (?h(x := ?t)) h'"
      "\<forall>t'. t_next t' = t_next (h' x) \<and> t_priority t' = t_priority (?h x) \<and> t_state t' = READY \<longrightarrow>
        queues_ok (h'(x := t')) rq ?l (qs(prio_of ?h x := qs (prio_of ?h x) @ [x])) sl"
      by (auto simp: prio_of_def)
    have st: "t_state (h' y) = (if y = x then READY else t_state (?h y))"
      "t_st (h' y) = t_st (?h y)" "t_priority (h' y) = t_priority (?h y)" for y
      using links_only_fields [OF r(2), of y] by auto
    let ?k2 = "?k1\<lparr>k_readyQ := rq, k_threads := h'\<rparr>"
    have "queues_ok h' rq ?l (qs(prio_of ?h x := qs (prio_of ?h x) @ [x])) sl"
      using r(3) [rule_format, of "h' x"] st by simp
    then have "queues_ok (k_threads ?k2) (k_readyQ ?k2) (k_sleepQ ?k2)
        (qs(prio_of ?h x := qs (prio_of ?h x) @ [x])) sl" by simp
    from Cons.IH [OF this] obtain rq' sq' g where ih2:
      "wake_loop ?k2 = Some (?k2\<lparr>k_readyQ := rq', k_sleepQ := sq', k_threads := g\<rparr>)"
      "queues_ok g rq' sq' (requeue (prio_of (k_threads ?k2)) (takeWhile (\<lambda>x. t_st (k_threads ?k2 x) = 0) sl)
         (qs(prio_of ?h x := qs (prio_of ?h x) @ [x]))) (dropWhile (\<lambda>x. t_st (k_threads ?k2 x) = 0) sl)"
      "same_times (k_threads ?k2) g" "blocked_same (k_threads ?k2) g"
      "\<forall>y. t_state (g y) = (if y \<in> set (takeWhile (\<lambda>x. t_st (k_threads ?k2 x) = 0) sl)
         then READY else t_state (k_threads ?k2 y))" by blast
    have k2: "k_threads ?k2 = h'" by simp
    note ih = ih2 [unfolded k2, unfolded st(2)]
    have run: "wake_loop k = wake_loop ?k2"
      using hd True rm r(1) by (simp add: wake_loop.simps [of k])
    have sm: "same_times ?h h'" using st by (simp add: same_times_def)
    have pr: "prio_of h' = prio_of ?h" using sm by (rule same_times_prio)
    have "t_state (g y) = (if y \<in> set (takeWhile (\<lambda>x. t_st (?h x) = 0) (x # sl)) then READY
        else t_state (?h y))" for y
      using ih(5) [rule_format, of y] st(1) [of y] True by auto
    moreover have "same_times ?h g" using same_times_trans [OF sm ih(3)] .
    moreover have "blocked_same ?h g"
    proof (rule blocked_same_trans [OF _ ih(4)], rule links_only_blocked [OF r(2)])
      show "t_state (?h x) \<noteq> BLOCKED" "t_state ?t \<noteq> BLOCKED" using x by (simp_all add: sleep_set_def)
    qed (use queues_ok_not_blocked [OF Cons.prems xm] in \<open>simp add: prio_of_def\<close>)
    ultimately show ?thesis
      using run ih(1,2) True pr
      by (intro exI [of _ rq'] exI [of _ sq'] exI [of _ g]) (simp add: requeue_simps)
  qed
qed

text \<open>The relative times that \<open>mos_tlist_adjustst\<close> leaves: the threads with time zero at the
  front of the queue are those that were due.\<close>

lemma tdue_takeWhile:
  "takeWhile (\<lambda>x. t_st (h x) = 0) xs = map fst (takeWhile (\<lambda>(x, d). d \<le> acc) (tdue h acc xs)) \<and>
   dropWhile (\<lambda>x. t_st (h x) = 0) xs = map fst (dropWhile (\<lambda>(x, d). d \<le> acc) (tdue h acc xs)) \<and>
   tdue h acc (dropWhile (\<lambda>x. t_st (h x) = 0) xs) = dropWhile (\<lambda>(x, d). d \<le> acc) (tdue h acc xs)"
  using due_takeWhile [of "\<lambda>x. unat (t_st (h x))" xs acc] unfolding unat_eq_0 .

text \<open>The abstract state a kernel stands for: its ready queues and its sleepers with the
  absolute times until they are due.\<close>

definition represents :: "kernel \<Rightarrow> ready \<Rightarrow> sleepers \<Rightarrow> tid \<Rightarrow> bool" where
  "represents k qs sl c \<longleftrightarrow> at_dispatch k qs (map fst sl) c \<and> tdue (k_threads k) 0 (map fst sl) = sl"

lemma wakeup_wake:
  assumes "represents k qs sl c"
  shows "\<exists>k1. do {
      h \<leftarrow> mos_tlist_adjustst (k_sleepQ k) t (k_threads k);
      wake_loop (k\<lparr>k_threads := h\<rparr>) } = Some k1 \<and>
    (\<exists>qs' sl'. wake_due (prio_of (k_threads k)) (unat t) qs sl = (qs', sl') \<and> represents k1 qs' sl' c) \<and>
    prio_of (k_threads k1) = prio_of (k_threads k) \<and> k_mem k1 = k_mem k \<and>
    blocked_same (k_threads k) (k_threads k1) \<and>
    (\<forall>y. t_state (k_threads k1 y) = (if y \<in> set (map fst (takeWhile (\<lambda>(x, d). d \<le> unat t) sl))
       then READY else t_state (k_threads k y)))"
proof -
  let ?h = "k_threads k" and ?xs = "map fst sl"
  have q: "queues_ok ?h (k_readyQ k) (k_sleepQ k) qs ?xs" and c: "k_current k = Some c" "c < MAX_THREADS"
    and run: "\<forall>x < MAX_THREADS. t_state (?h x) = RUNNING \<longrightarrow> x = c"
    and d: "tdue ?h 0 ?xs = sl"
    using assms by (auto simp: represents_def at_dispatch_def)
  have rep: "tlist_rep ?h (k_sleepQ k) ?xs" using queues_okD(4) [OF q] .
  then have "tchain ?h (tl_head (k_sleepQ k)) ?xs" "distinct ?xs" by (auto simp: tlist_rep_def)
  from adjustst_loop_ok [OF this, of t] obtain h where h:
    "mos_tlist_adjustst (k_sleepQ k) t ?h = Some h" "\<forall>y. \<exists>v. h y = (?h y)\<lparr>t_st := v\<rparr>"
    "tdue h 0 ?xs = map (\<lambda>(x, s). (x, s - unat t)) sl" "\<forall>y. y \<notin> set ?xs \<longrightarrow> h y = ?h y"
    unfolding mos_tlist_adjustst_def d by blast
  have bs: "blocked_same ?h h"
    unfolding blocked_same_def
  proof (intro allI impI)
    fix y assume "t_state (?h y) = BLOCKED \<or> t_state (h y) = BLOCKED"
    moreover have "t_state (h y) = t_state (?h y)" using h(2) [rule_format, of y] by auto
    ultimately have "y \<notin> set ?xs" using queues_okD(5) [OF q] by (simp add: sleep_set_def)
    then show "h y = ?h y" using h(4) by blast
  qed
  have f: "t_next (h y) = t_next (?h y)" "t_state (h y) = t_state (?h y)"
    "t_priority (h y) = t_priority (?h y)" for y
  proof -
    from h(2) obtain v where "h y = (?h y)\<lparr>t_st := v\<rparr>" by blast
    then show "t_next (h y) = t_next (?h y)" "t_state (h y) = t_state (?h y)"
      "t_priority (h y) = t_priority (?h y)" by simp_all
  qed
  have "tlist_rep h l xs = tlist_rep ?h l xs" for l xs
    using tchain_frame [of xs h ?h "tl_head l"] f(1) by (simp add: tlist_rep_def)
  then have "queues_ok h (k_readyQ k) (k_sleepQ k) qs ?xs"
    using q f by (simp add: queues_ok_def ready_set_def sleep_set_def)
  then have "queues_ok (k_threads (k\<lparr>k_threads := h\<rparr>)) (k_readyQ (k\<lparr>k_threads := h\<rparr>))
      (k_sleepQ (k\<lparr>k_threads := h\<rparr>)) qs ?xs" by simp
  from wake_loop_ok [OF this] obtain rq sq g where g:
    "wake_loop (k\<lparr>k_threads := h\<rparr>) = Some (k\<lparr>k_readyQ := rq, k_sleepQ := sq, k_threads := g\<rparr>)"
    "queues_ok g rq sq (requeue (prio_of h) (takeWhile (\<lambda>x. t_st (h x) = 0) ?xs) qs)
       (dropWhile (\<lambda>x. t_st (h x) = 0) ?xs)" "same_times h g" "blocked_same h g"
    "\<forall>y. t_state (g y) = (if y \<in> set (takeWhile (\<lambda>x. t_st (h x) = 0) ?xs) then READY else t_state (h y))"
    by auto
  have ph: "prio_of h = prio_of ?h" using f(3) by (simp add: prio_of_def fun_eq_iff)
  have W: "takeWhile (\<lambda>x. t_st (h x) = 0) ?xs = map fst (takeWhile (\<lambda>(x, s). s \<le> unat t) sl)"
    "dropWhile (\<lambda>x. t_st (h x) = 0) ?xs = map fst (dropWhile (\<lambda>(x, s). s \<le> unat t) sl)"
    "tdue h 0 (dropWhile (\<lambda>x. t_st (h x) = 0) ?xs) =
      map (\<lambda>(x, s). (x, s - unat t)) (dropWhile (\<lambda>(x, s). s \<le> unat t) sl)"
    using tdue_takeWhile [of h ?xs 0, THEN conjunct1] tdue_takeWhile [of h ?xs 0, THEN conjunct2, THEN conjunct1]
      tdue_takeWhile [of h ?xs 0, THEN conjunct2, THEN conjunct2] unfolding h(3)
    by (simp_all only: takeWhile_map dropWhile_map comp_def case_prod_unfold map_map fst_conv snd_conv
      diff_is_0_eq le_zero_eq)
  let ?k = "k\<lparr>k_readyQ := rq, k_sleepQ := sq, k_threads := g\<rparr>"
  let ?qs = "requeue (prio_of ?h) (map fst (takeWhile (\<lambda>(x, s). s \<le> unat t) sl)) qs"
  let ?sl = "map (\<lambda>(x, s). (x, s - unat t)) (dropWhile (\<lambda>(x, s). s \<le> unat t) sl)"
  have fs: "map fst ?sl = map fst (dropWhile (\<lambda>(x, s). s \<le> unat t) sl)"
    by (simp add: case_prod_beta)
  have "\<forall>x < MAX_THREADS. t_state (g x) = RUNNING \<longrightarrow> x = c"
    using g(5) f(2) run by (simp split: if_splits)
  then have "represents ?k ?qs ?sl c"
    using g(2) W c same_times_due [OF g(3)] unfolding represents_def at_dispatch_def fs
    by (simp add: ph)
  moreover have "prio_of g = prio_of ?h" using same_times_prio [OF g(3)] ph by simp
  moreover have "\<forall>y. t_state (g y) = (if y \<in> set (map fst (takeWhile (\<lambda>(x, d). d \<le> unat t) sl))
       then READY else t_state (?h y))"
    using g(5) f(2) W(1) by simp
  moreover have "blocked_same ?h g" using blocked_same_trans [OF bs g(4)] .
  ultimately show ?thesis
    using h(1) g(1) by (intro exI [of _ ?k]) (simp add: wake_due_def)
qed

section \<open>The operations against the abstract scheduler\<close>

text \<open>A context switch after \<open>t\<close> ticks; \<open>run\<close> says that the current thread is still running
  and so goes to the end of its queue.\<close>

definition switch_to :: "(tid \<Rightarrow> nat) \<Rightarrow> nat \<Rightarrow> bool \<Rightarrow> tid \<Rightarrow> ready \<Rightarrow> sleepers \<Rightarrow> (tid \<times> ready \<times> sleepers) option" where
  "switch_to prio t run c qs sl =
     (case wake_due prio t qs sl of (qs, sl) \<Rightarrow>
        (case next_thread (if run then requeue prio [c] qs else qs) of
           None \<Rightarrow> None
         | Some (x, qs) \<Rightarrow> Some (x, qs, sl)))"

definition switched :: "kernel \<Rightarrow> kernel option \<Rightarrow> (tid \<times> ready \<times> sleepers) option \<Rightarrow> bool" where
  "switched k r a \<longleftrightarrow>
     (case a of
        None \<Rightarrow> r = None
      | Some (x, qs, sl) \<Rightarrow> \<exists>k'. r = Some k' \<and> represents k' qs sl x \<and>
          t_state (k_threads k' x) = RUNNING \<and> k_running k' \<and> k_elapsed k' = 0 \<and>
          k_mem k' = k_mem k \<and> prio_of (k_threads k') = prio_of (k_threads k))"

lemma representsI:
  assumes "queues_ok (k_threads k) (k_readyQ k) (k_sleepQ k) qs (map fst sl)"
    and "k_current k = Some c" and "c < MAX_THREADS"
    and "\<And>y. y < MAX_THREADS \<Longrightarrow> t_state (k_threads k y) = RUNNING \<Longrightarrow> y = c"
    and "tdue (k_threads k) 0 (map fst sl) = sl"
  shows "represents k qs sl c"
  using assms unfolding represents_def at_dispatch_def by blast

lemma representsD:
  assumes "represents k qs sl c"
  shows "queues_ok (k_threads k) (k_readyQ k) (k_sleepQ k) qs (map fst sl)"
    and "k_current k = Some c" and "c < MAX_THREADS"
    and "y < MAX_THREADS \<Longrightarrow> t_state (k_threads k y) = RUNNING \<Longrightarrow> y = c"
    and "tdue (k_threads k) 0 (map fst sl) = sl"
  using assms unfolding represents_def at_dispatch_def by blast+

lemma represents_due_fst: "represents k qs sl c \<Longrightarrow> set (map fst sl) = sleep_set (k_threads k)"
  using queues_okD(5) [OF representsD(1)] .

lemma not_woken_running:
  assumes "represents k qs sl c" and "t_state (k_threads k c) = RUNNING"
  shows "c \<notin> set (map fst (takeWhile P sl))"
proof -
  have "c \<notin> set (map fst sl)" using represents_due_fst [OF assms(1)] assms(2) by (simp add: sleep_set_def)
  then show ?thesis using set_takeWhileD by fastforce
qed

lemma wakeup_ok:
  assumes rep: "represents k qs sl c"
  shows "switched k (mos_thread_wakeup t k)
    (switch_to (prio_of (k_threads k)) (unat t) (t_state (k_threads k c) = RUNNING) c qs sl)"
proof -
  let ?prio = "prio_of (k_threads k)" and ?run = "t_state (k_threads k c) = RUNNING"
  from wakeup_wake [OF rep, of t] obtain k1 qs1 sl1 where k1:
    "do { h \<leftarrow> mos_tlist_adjustst (k_sleepQ k) t (k_threads k); wake_loop (k\<lparr>k_threads := h\<rparr>) } = Some k1"
    "wake_due ?prio (unat t) qs sl = (qs1, sl1)" "represents k1 qs1 sl1 c"
    "prio_of (k_threads k1) = ?prio" "k_mem k1 = k_mem k" "blocked_same (k_threads k) (k_threads k1)"
    "\<forall>y. t_state (k_threads k1 y) = (if y \<in> set (map fst (takeWhile (\<lambda>(x, d). d \<le> unat t) sl))
       then READY else t_state (k_threads k y))" by blast
  have run1: "t_state (k_threads k1 c) = RUNNING \<longleftrightarrow> ?run"
    using k1(7) [rule_format, of c] not_woken_running [OF rep] by auto
  have wk: "mos_thread_wakeup t k = dispatcher k1"
    using k1(1) by (auto simp: mos_thread_wakeup_def bind_eq_Some_conv)
  have at: "at_dispatch k1 qs1 (map fst sl1) c" and due1: "tdue (k_threads k1) 0 (map fst sl1) = sl1"
    using k1(3) by (auto simp: represents_def)
  have rq: "requeue_running k1 c qs1 = (if ?run then requeue ?prio [c] qs1 else qs1)"
    using run1 k1(4) by (simp add: requeue_running_def)
  show ?thesis
  proof (cases "next_thread (requeue_running k1 c qs1)")
    case None
    then show ?thesis
      using dispatcher_stuck [OF at None] wk k1(2) rq by (simp add: switched_def switch_to_def)
  next
    case (Some r)
    obtain x qs' where r: "r = (x, qs')" by (cases r)
    from dispatcher_ok [OF at, of x qs'] Some r obtain k' where k':
      "dispatcher k1 = Some k'" "dispatched k1 c k' qs' (map fst sl1) x" by auto
    from k'(2) have sm: "same_times (k_threads k1) (k_threads k')"
      and rest: "at_dispatch k' qs' (map fst sl1) x" "k_running k'" "k_elapsed k' = 0"
        "k_mem k' = k_mem k1" "t_state (k_threads k' x) = RUNNING"
      by (simp_all add: dispatched_def)
    have "represents k' qs' sl1 x"
      using rest(1) same_times_due [OF sm, of 0 "map fst sl1"] due1 by (simp add: represents_def)
    moreover have "prio_of (k_threads k') = ?prio" using same_times_prio [OF sm] k1(4) by simp
    ultimately show ?thesis
      using k'(1) rest(2-5) k1(2,5) wk rq Some r by (simp add: switched_def switch_to_def)
  qed
qed

lemma dispatcher_keeps:
  assumes rep: "represents k qs sl c" and run: "dispatcher k = Some k'"
  shows "blocked_same (k_threads k) (k_threads k')"
proof -
  have at: "at_dispatch k qs (map fst sl) c" using rep by (simp add: represents_def)
  obtain x qs' where "next_thread (requeue_running k c qs) = Some (x, qs')"
    using dispatcher_stuck [OF at] run by fastforce
  from dispatcher_ok [OF at this] run show ?thesis by (auto simp: dispatched_def)
qed

lemma wakeup_keeps:
  assumes rep: "represents k qs sl c" and run: "mos_thread_wakeup t k = Some k'"
  shows "blocked_same (k_threads k) (k_threads k')"
proof -
  from wakeup_wake [OF rep, of t] obtain k1 qs1 sl1 where k1:
    "do { h \<leftarrow> mos_tlist_adjustst (k_sleepQ k) t (k_threads k); wake_loop (k\<lparr>k_threads := h\<rparr>) } = Some k1"
    "represents k1 qs1 sl1 c" "blocked_same (k_threads k) (k_threads k1)" by blast
  have "dispatcher k1 = Some k'"
    using k1(1) run by (auto simp: mos_thread_wakeup_def bind_eq_Some_conv)
  from blocked_same_trans [OF k1(3) dispatcher_keeps [OF k1(2) this]] show ?thesis .
qed

lemma wakeup_noints_eq: "mos_thread_wakeup_noints = mos_thread_wakeup"
  by (simp add: mos_thread_wakeup_noints_def mos_thread_wakeup_def fun_eq_iff)

lemma switched_cong:
  "switched k1 r a \<Longrightarrow> k_mem k1 = k_mem k \<Longrightarrow> prio_of (k_threads k1) = prio_of (k_threads k) \<Longrightarrow> switched k r a"
  by (auto simp: switched_def split: option.splits)

text \<open>A thread outside all queues may change without the queues noticing.\<close>

lemma queues_ok_other:
  assumes q: "queues_ok h rq sq qs sl"
    and st: "t_state (h x) \<noteq> READY" "t_state (h x) \<noteq> SLEEPING"
    and new: "t_state t \<noteq> READY" "t_state t \<noteq> SLEEPING" "unat (t_priority t) < NUM_PRIORITIES"
  shows "queues_ok (h(x := t)) rq sq qs sl"
proof -
  note d = queues_okD [OF q]
  have rs: "ready_set (h(x := t)) p = ready_set h p" for p
    using st new by (auto simp: ready_set_def)
  have ss: "sleep_set (h(x := t)) = sleep_set h"
    using st new by (auto simp: sleep_set_def)
  have nx: "x \<notin> set (qs p)" if "p < NUM_PRIORITIES" for p
    using d(3) [OF that] st by (simp add: ready_set_def)
  have ns: "x \<notin> set sl" using d(5) st by (simp add: sleep_set_def)
  have "tlist_rep (h(x := t)) (rq ! p) (qs p)" if "p < NUM_PRIORITIES" for p
    using tlist_rep_frame1 [OF d(2) [OF that] nx [OF that], of "h(x := t)"] by simp
  moreover have "tlist_rep (h(x := t)) sq sl"
    using tlist_rep_frame1 [OF d(4) ns, of "h(x := t)"] by simp
  ultimately show ?thesis using d(1,3,5,6) rs ss new(3) by (simp add: queues_ok_def)
qed

lemma represents_other:
  assumes rep: "represents k qs sl c"
    and st: "t_state (k_threads k x) \<noteq> READY" "t_state (k_threads k x) \<noteq> SLEEPING"
    and new: "t_state t \<noteq> READY" "t_state t \<noteq> SLEEPING" "unat (t_priority t) < NUM_PRIORITIES"
    and run: "t_state t = RUNNING \<longrightarrow> x = c"
  shows "represents (k\<lparr>k_threads := (k_threads k)(x := t)\<rparr>) qs sl c"
proof -
  let ?h = "(k_threads k)(x := t)"
  have q: "queues_ok (k_threads k) (k_readyQ k) (k_sleepQ k) qs (map fst sl)"
    and d: "tdue (k_threads k) 0 (map fst sl) = sl"
    using rep by (auto simp: represents_def at_dispatch_def)
  have "x \<notin> set (map fst sl)" using represents_due_fst [OF rep] st by (simp add: sleep_set_def)
  then have "tdue ?h 0 (map fst sl) = sl"
    using tdue_frame [of "map fst sl" ?h "k_threads k" 0] d by (metis fun_upd_other)
  moreover have "\<forall>y < MAX_THREADS. t_state (?h y) = RUNNING \<longrightarrow> y = c"
    using rep run by (simp add: represents_def at_dispatch_def)
  ultimately show ?thesis
    using queues_ok_other [OF q st new] rep by (simp add: represents_def at_dispatch_def)
qed

lemma suspend_state_ok:
  assumes rep: "represents k qs sl c" and run: "t_state (k_threads k c) = RUNNING"
  shows "\<exists>k1. block_current s k = Some k1 \<and> represents k1 qs sl c \<and> k_elapsed k1 = k_elapsed k \<and>
    k_mem k1 = k_mem k \<and> prio_of (k_threads k1) = prio_of (k_threads k) \<and>
    t_state (k_threads k1 c) = BLOCKED \<and> t_next (k_threads k1 c) = None \<and>
    (\<forall>y. y \<noteq> c \<longrightarrow> k_threads k1 y = k_threads k y)"
proof -
  let ?t = "(k_threads k c)\<lparr>t_next := None, t_state := BLOCKED,
        t_st := ucast (t_suspend_state (k_threads k c)), t_suspend_state := s\<rparr>"
  have c: "k_current k = Some c" "unat (t_priority (k_threads k c)) < NUM_PRIORITIES"
    using rep queues_okD(6) [of "k_threads k"] by (auto simp: represents_def at_dispatch_def)
  have "represents (k\<lparr>k_threads := (k_threads k)(c := ?t)\<rparr>) qs sl c"
    using c(2) run by (intro represents_other [OF rep]) simp_all
  then show ?thesis using c(1) by (auto simp: block_current_def prio_of_def fun_eq_iff Let_def)
qed

lemma suspend_ok:
  assumes rep: "represents k qs sl c" and run: "t_state (k_threads k c) = RUNNING"
  shows "switched k (mos_thread_suspend_noints k)
    (switch_to (prio_of (k_threads k)) (unat (k_elapsed k)) False c qs sl)"
proof -
  from suspend_state_ok [OF assms, of SUSPEND_STATE_IDLE] obtain k1 where k1:
    "block_current SUSPEND_STATE_IDLE k = Some k1" "represents k1 qs sl c" "k_elapsed k1 = k_elapsed k"
    "k_mem k1 = k_mem k" "prio_of (k_threads k1) = prio_of (k_threads k)"
    "t_state (k_threads k1 c) = BLOCKED" by blast
  have "unat (ucast (k_elapsed k) :: u16) = unat (k_elapsed k)"
    by (simp add: unsigned_ucast_eq take_bit_nat_eq_self unat_u8_less [THEN less_trans])
  then have "switched k1 (mos_thread_suspend_noints k)
      (switch_to (prio_of (k_threads k)) (unat (k_elapsed k)) False c qs sl)"
    using wakeup_ok [OF k1(2), of "ucast (k_elapsed k)"] k1(1,3,5,6)
    by (simp add: mos_thread_suspend_noints_def wakeup_noints_eq)
  then show ?thesis using k1(4,5) by (rule switched_cong)
qed

lemma unblock_ok:
  assumes rep: "represents k qs sl c" and x: "x < MAX_THREADS" and b: "t_state (k_threads k x) = BLOCKED"
  shows "\<exists>k1. unblock x k = Some k1 \<and>
    represents k1 (requeue (prio_of (k_threads k)) [x] qs) sl c \<and> k_elapsed k1 = k_elapsed k \<and>
    k_mem k1 = k_mem k \<and> prio_of (k_threads k1) = prio_of (k_threads k) \<and>
    (\<forall>y. t_state (k_threads k1 y) = (if y = x then READY else t_state (k_threads k y))) \<and>
    (\<forall>y. y \<noteq> x \<longrightarrow> t_state (k_threads k y) = BLOCKED \<longrightarrow> k_threads k1 y = k_threads k y)"
proof -
  let ?h = "k_threads k"
  have q: "queues_ok ?h (k_readyQ k) (k_sleepQ k) qs (map fst sl)" and d: "tdue ?h 0 (map fst sl) = sl"
    and c: "k_current k = Some c" "c < MAX_THREADS" "\<forall>y < MAX_THREADS. t_state (?h y) = RUNNING \<longrightarrow> y = c"
    using rep by (auto simp: represents_def at_dispatch_def)
  have "?h = ?h(x := ?h x)" by simp
  from ready_add_ok [OF q x _ _ this refl] b obtain rq h' where r:
    "ready_add x k = Some (k\<lparr>k_readyQ := rq, k_threads := h'\<rparr>)"
    "links_only (insert x (set (qs (unat (t_priority (?h x)))))) ?h h'"
    "\<forall>t'. t_next t' = t_next (h' x) \<and> t_priority t' = t_priority (?h x) \<and> t_state t' = READY \<longrightarrow>
       queues_ok (h'(x := t')) rq (k_sleepQ k)
         (qs(unat (t_priority (?h x)) := qs (unat (t_priority (?h x))) @ [x])) (map fst sl)" by auto
  note f = links_only_fields [OF r(2)]
  let ?t = "(h' x)\<lparr>t_state := READY, t_suspend_state := ucast (t_st (h' x))\<rparr>"
  let ?k = "k\<lparr>k_readyQ := rq, k_threads := h'(x := ?t)\<rparr>"
  have run: "unblock x k = Some ?k" using b r(1) by (simp add: unblock_def Let_def)
  have q': "queues_ok (h'(x := ?t)) rq (k_sleepQ k) (requeue (prio_of ?h) [x] qs) (map fst sl)"
    using r(3) [rule_format, of ?t] f(3) [of x] by (simp add: requeue_simps prio_of_def)
  have "x \<notin> set (map fst sl)" using represents_due_fst [OF rep] b by (simp add: sleep_set_def)
  then have "tdue (h'(x := ?t)) 0 (map fst sl) = sl"
    using tdue_frame [of "map fst sl" "h'(x := ?t)" ?h 0] d f(1) by (metis fun_upd_other)
  moreover have st: "\<forall>y. t_state ((h'(x := ?t)) y) = (if y = x then READY else t_state (?h y))"
    using f(2) by simp
  ultimately have "represents ?k (requeue (prio_of ?h) [x] qs) sl c"
  proof (intro representsI)
    fix y assume "y < MAX_THREADS" "t_state (k_threads ?k y) = RUNNING"
    then show "y = c" using representsD(4) [OF rep, of y] f(2) by (simp split: if_splits)
  qed (use q' c(1,2) in simp_all)
  moreover have "prio_of (h'(x := ?t)) = prio_of ?h" using f(3) by (simp add: prio_of_def fun_eq_iff)
  moreover have "(h'(x := ?t)) y = ?h y" if y: "y \<noteq> x" "t_state (?h y) = BLOCKED" for y
  proof -
    have "y \<notin> insert x (set (qs (unat (t_priority (?h x)))))"
      using y queues_ok_not_blocked [OF q x, of y] by auto
    then show ?thesis using links_only_same [OF r(2)] y(1) by simp
  qed
  ultimately show ?thesis using run st by (intro exI [of _ ?k]) simp
qed

lemma resume_ok:
  assumes rep: "represents k qs sl c" and run: "t_state (k_threads k c) = RUNNING" and x: "x < MAX_THREADS"
  shows "switched k (mos_thread_resume_noints x k)
    (switch_to (prio_of (k_threads k)) (unat (k_elapsed k)) True c
      (if t_state (k_threads k x) = BLOCKED then requeue (prio_of (k_threads k)) [x] qs else qs) sl)"
proof -
  have u: "unat (ucast (k_elapsed k) :: u16) = unat (k_elapsed k)"
    by (simp add: unsigned_ucast_eq take_bit_nat_eq_self unat_u8_less [THEN less_trans])
  show ?thesis
  proof (cases "t_state (k_threads k x) = BLOCKED")
    case False
    then have "mos_thread_resume_noints x k = mos_thread_wakeup (ucast (k_elapsed k)) k"
      by (simp add: mos_thread_resume_noints_def unblock_def wakeup_noints_eq)
    with wakeup_ok [OF rep, of "ucast (k_elapsed k)"] run u False show ?thesis by simp
  next
    case True
    from unblock_ok [OF rep x True] obtain k1 where k1: "unblock x k = Some k1"
      "represents k1 (requeue (prio_of (k_threads k)) [x] qs) sl c" "k_elapsed k1 = k_elapsed k"
      "k_mem k1 = k_mem k" "prio_of (k_threads k1) = prio_of (k_threads k)"
      "\<forall>y. t_state (k_threads k1 y) = (if y = x then READY else t_state (k_threads k y))" by blast
    have "c \<noteq> x" using True run by auto
    then have "t_state (k_threads k1 c) = RUNNING" using k1(6) run by simp
    then have "switched k1 (mos_thread_resume_noints x k)
        (switch_to (prio_of (k_threads k)) (unat (k_elapsed k)) True c
          (requeue (prio_of (k_threads k)) [x] qs) sl)"
      using wakeup_ok [OF k1(2), of "ucast (k_elapsed k)"] k1(1,3,5) u
      by (simp add: mos_thread_resume_noints_def wakeup_noints_eq)
    then show ?thesis using True switched_cong k1(4,5) by auto
  qed
qed

lemma sleep_insert:
  assumes rep: "represents k qs sl c" and run: "t_state (k_threads k c) = RUNNING"
  shows "\<exists>l' h'. mos_tlist_ordadd (k_sleepQ k) c ((k_threads k)(c := (k_threads k c)
      \<lparr>t_state := SLEEPING, t_st := s + ucast (k_elapsed k)\<rparr>)) = Some (l', h') \<and>
    represents (k\<lparr>k_sleepQ := l', k_threads := h'\<rparr>) qs
      (due_insert c (unat (s + ucast (k_elapsed k))) sl) c \<and>
    prio_of h' = prio_of (k_threads k) \<and> t_state (h' c) = SLEEPING \<and> blocked_same (k_threads k) h'"
proof -
  let ?h = "k_threads k" and ?st = "s + ucast (k_elapsed k)"
  let ?t = "(?h c)\<lparr>t_state := SLEEPING, t_st := ?st\<rparr>"
  have q: "queues_ok ?h (k_readyQ k) (k_sleepQ k) qs (map fst sl)" and d: "tdue ?h 0 (map fst sl) = sl"
    and c: "k_current k = Some c" "c < MAX_THREADS" "\<forall>y < MAX_THREADS. t_state (?h y) = RUNNING \<longrightarrow> y = c"
    using rep by (auto simp: represents_def at_dispatch_def)
  note qd = queues_okD [OF q]
  have nc: "c \<notin> set (map fst sl)" using represents_due_fst [OF rep] run by (simp add: sleep_set_def)
  have rep1: "tlist_rep (?h(c := ?t)) (k_sleepQ k) (map fst sl)"
    using tlist_rep_frame1 [OF qd(4) nc, of "?h(c := ?t)"] by simp
  have d1: "tdue (?h(c := ?t)) 0 (map fst sl) = sl"
    using tdue_frame [of "map fst sl" "?h(c := ?t)" ?h 0] d nc by (metis fun_upd_other)
  from mos_tlist_ordadd_ok [OF rep1 nc] obtain l' h' ys where o:
    "mos_tlist_ordadd (k_sleepQ k) c (?h(c := ?t)) = Some (l', h')" "tlist_rep h' l' ys"
    "tdue h' 0 ys = due_insert c (unat ?st) sl"
    "\<forall>y. t_state (h' y) = t_state ((?h(c := ?t)) y) \<and> t_priority (h' y) = t_priority ((?h(c := ?t)) y)"
    "\<forall>y. y \<noteq> c \<longrightarrow> y \<notin> set (map fst sl) \<longrightarrow> h' y = (?h(c := ?t)) y"
    unfolding d1 by auto
  have ys: "ys = map fst (due_insert c (unat ?st) sl)" using o(3) map_fst_due by metis
  have sty: "t_state (h' y) = (if y = c then SLEEPING else t_state (?h y))"
    "t_priority (h' y) = t_priority (?h y)" for y
    using o(4) by simp_all
  have rs: "ready_set h' p = ready_set ?h p" for p
    using sty run by (auto simp: ready_set_def)
  have ss: "sleep_set h' = insert c (sleep_set ?h)"
    using sty c(2) by (auto simp: sleep_set_def)
  have rq: "tlist_rep h' (k_readyQ k ! p) (qs p)" if p: "p < NUM_PRIORITIES" for p
  proof (rule tlist_rep_frame [OF qd(2) [OF p]])
    fix y assume "y \<in> set (qs p)"
    then have "t_state (?h y) = READY" using qd(3) [OF p] by (simp add: ready_set_def)
    then have "y \<noteq> c" "y \<notin> set (map fst sl)" using run qd(5) by (auto simp: sleep_set_def)
    then show "t_next (h' y) = t_next (?h y)" using o(5) by (metis fun_upd_other)
  qed
  have "set ys = sleep_set h'" using ss qd(5) by (simp add: ys set_due_insert image_image)
  then have "queues_ok h' (k_readyQ k) l' qs ys"
    using qd(1,3,6) rq rs o(2) sty(2) by (simp add: queues_ok_def)
  then have rep2: "represents (k\<lparr>k_sleepQ := l', k_threads := h'\<rparr>) qs (due_insert c (unat ?st) sl) c"
  proof (intro representsI)
    fix y assume "y < MAX_THREADS" "t_state (k_threads (k\<lparr>k_sleepQ := l', k_threads := h'\<rparr>) y) = RUNNING"
    then show "y = c" using sty(1) [of y] representsD(4) [OF rep, of y] by (simp split: if_splits)
  qed (use c(1,2) o(3) in \<open>simp_all add: ys\<close>)
  have "prio_of h' = prio_of ?h" using sty(2) by (simp add: prio_of_def fun_eq_iff)
  moreover have "blocked_same ?h h'"
    unfolding blocked_same_def
  proof (intro allI impI)
    fix y assume b: "t_state (?h y) = BLOCKED \<or> t_state (h' y) = BLOCKED"
    then have "y \<noteq> c" "t_state (?h y) = BLOCKED" using sty(1) [of y] run by (auto split: if_splits)
    moreover from this have "y \<notin> set (map fst sl)" using qd(5) by (simp add: sleep_set_def)
    ultimately show "h' y = ?h y" using o(5) by (metis fun_upd_other)
  qed
  ultimately show ?thesis using o(1) rep2 sty(1) [of c] by auto
qed

lemma sleep_ok:
  assumes rep: "represents k qs sl c" and run: "t_state (k_threads k c) = RUNNING"
  shows "switched k (mos_thread_sleep s k)
    (switch_to (prio_of (k_threads k)) (unat (k_elapsed k)) False c qs
      (due_insert c (unat (s + ucast (k_elapsed k))) sl))"
proof -
  from sleep_insert [OF assms, of s] obtain l' h' where o:
    "mos_tlist_ordadd (k_sleepQ k) c ((k_threads k)(c := (k_threads k c)
      \<lparr>t_state := SLEEPING, t_st := s + ucast (k_elapsed k)\<rparr>)) = Some (l', h')"
    "represents (k\<lparr>k_sleepQ := l', k_threads := h'\<rparr>) qs
      (due_insert c (unat (s + ucast (k_elapsed k))) sl) c"
    "prio_of h' = prio_of (k_threads k)" "t_state (h' c) = SLEEPING" by blast
  have "unat (ucast (k_elapsed k) :: u16) = unat (k_elapsed k)"
    by (simp add: unsigned_ucast_eq take_bit_nat_eq_self unat_u8_less [THEN less_trans])
  then have "switched (k\<lparr>k_sleepQ := l', k_threads := h'\<rparr>) (mos_thread_sleep s k)
      (switch_to (prio_of (k_threads k)) (unat (k_elapsed k)) False c qs
        (due_insert c (unat (s + ucast (k_elapsed k))) sl))"
    using wakeup_ok [OF o(2), of "ucast (k_elapsed k)"] representsD(2) [OF rep] o(1,3,4)
    by (simp add: mos_thread_sleep_def wakeup_noints_eq Let_def)
  then show ?thesis using o(3) by (auto intro: switched_cong)
qed

section \<open>Start of the kernel, creation and exit of threads\<close>

lemma represents_mem: "represents (k\<lparr>k_mem := m\<rparr>) qs sl c \<longleftrightarrow> represents k qs sl c"
  by (simp add: represents_def at_dispatch_def)

lemma fold_init_thread:
  "fold init_thread [0..<n] h x = (if x < n then (h x)\<lparr>t_sp := 0, t_state := EMPTY,
     t_suspend_state := SUSPEND_STATE_SLEEP, t_priority := 0, t_next := None, t_waiting_for := None\<rparr>
   else h x)"
  by (induction n) (auto simp: init_thread_def less_Suc_eq)

lemma sched_init_represents:
  assumes "tl_head (k_sleepQ k) = None"
  shows "represents (sched_init lo sz k) (\<lambda>_. []) [] 0"
proof (rule representsI)
  let ?k = "sched_init lo sz k"
  have st: "t_state (k_threads ?k x) = (if x = 0 then RUNNING else EMPTY)"
    "unat (t_priority (k_threads ?k x)) < NUM_PRIORITIES" if "x < MAX_THREADS" for x
    using that by (auto simp: sched_init_def Let_def fold_init_thread PRIORITY_IDLE_def NUM_PRIORITIES_def)
  then have "ready_set (k_threads ?k) p = {}" "sleep_set (k_threads ?k) = {}" for p
    by (auto simp: ready_set_def sleep_set_def split: if_splits)
  moreover have "k_readyQ ?k = replicate NUM_PRIORITIES mos_tlist_init" "k_sleepQ ?k = k_sleepQ k"
    by (simp_all add: sched_init_def Let_def)
  ultimately show "queues_ok (k_threads ?k) (k_readyQ ?k) (k_sleepQ ?k) (\<lambda>_. []) (map fst [])"
    using st assms by (simp add: queues_ok_def tlist_rep_empty mos_tlist_init_def)
  fix y assume "y < MAX_THREADS" "t_state (k_threads ?k y) = RUNNING"
  then show "y = 0" using st(1) [of y] by (simp split: if_splits)
qed (simp_all add: sched_init_def Let_def MAX_THREADS_def)

lemma find_emptyD: "find_empty h = Some i \<Longrightarrow> i < MAX_THREADS \<and> t_state (h i) = EMPTY"
  by (auto simp: find_empty_def find_Some_iff)

lemma ready_new:
  assumes rep: "represents k qs sl c" and i: "i < MAX_THREADS"
    and st: "t_state (k_threads k i) \<noteq> READY" "t_state (k_threads k i) \<noteq> SLEEPING"
    and t: "t_state t = READY" "unat (t_priority t) < NUM_PRIORITIES"
  shows "\<exists>rq h'. ready_add i (k\<lparr>k_threads := (k_threads k)(i := t)\<rparr>) =
      Some (k\<lparr>k_threads := (k_threads k)(i := t), k_readyQ := rq, k_threads := h'\<rparr>) \<and>
    represents (k\<lparr>k_threads := (k_threads k)(i := t), k_readyQ := rq, k_threads := h'\<rparr>)
      (qs(unat (t_priority t) := qs (unat (t_priority t)) @ [i])) sl c \<and>
    (\<exists>n. h' i = t\<lparr>t_next := n\<rparr>) \<and> (t_state (k_threads k i) \<noteq> BLOCKED \<longrightarrow> blocked_same (k_threads k) h') \<and>
    (\<forall>y. t_state (h' y) = (if y = i then READY else t_state (k_threads k y)))"
proof -
  let ?p0 = "(k_threads k i)\<lparr>t_priority := t_priority t\<rparr>"
  let ?hb = "(k_threads k)(i := (k_threads k i)\<lparr>t_priority := t_priority t\<rparr>)"
  let ?k = "k\<lparr>k_threads := (k_threads k)(i := t)\<rparr>"
  note r = representsD [OF rep]
  have "queues_ok ?hb (k_readyQ ?k) (k_sleepQ k) qs (map fst sl)"
    using queues_ok_other [OF r(1), of i ?p0] st t by simp
  from ready_add_ok [OF this i, of t] st obtain rq h' where a:
    "ready_add i ?k = Some (?k\<lparr>k_readyQ := rq, k_threads := h'\<rparr>)"
    "links_only (insert i (set (qs (unat (t_priority t))))) (k_threads ?k) h'"
    "\<forall>t'. t_next t' = t_next (h' i) \<and> t_priority t' = t_priority t \<and> t_state t' = READY \<longrightarrow>
       queues_ok (h'(i := t')) rq (k_sleepQ k)
         (qs(unat (t_priority t) := qs (unat (t_priority t)) @ [i])) (map fst sl)"
    by auto
  let ?k1 = "?k\<lparr>k_readyQ := rq, k_threads := h'\<rparr>"
  have f: "t_state (h' y) = (if y = i then READY else t_state (k_threads k y))"
    "y \<noteq> i \<Longrightarrow> t_st (h' y) = t_st (k_threads k y)" for y
    using links_only_fields [OF a(2), of y] t(1) by simp_all
  have hi: "h' i = t\<lparr>t_next := t_next (h' i)\<rparr>"
    using links_onlyD [OF a(2), of i] by simp
  have pi: "t_priority (h' i) = t_priority t" by (subst hi) simp
  have ni: "i \<notin> set (map fst sl)" using represents_due_fst [OF rep] st by (simp add: sleep_set_def)
  have "represents ?k1 (qs(unat (t_priority t) := qs (unat (t_priority t)) @ [i])) sl c"
  proof (rule representsI)
    show "queues_ok (k_threads ?k1) (k_readyQ ?k1) (k_sleepQ ?k1)
        (qs(unat (t_priority t) := qs (unat (t_priority t)) @ [i])) (map fst sl)"
      using a(3) [rule_format, of "h' i"] f(1) [of i] pi by simp
    have "tdue h' 0 (map fst sl) = tdue (k_threads k) 0 (map fst sl)"
      by (rule tdue_frame) (metis f(2) ni)
    then show "tdue (k_threads ?k1) 0 (map fst sl) = sl" using r(5) by simp
    fix y assume "y < MAX_THREADS" "t_state (k_threads ?k1 y) = RUNNING"
    then show "y = c" using f(1) [of y] r(4) [of y] by (simp split: if_splits)
  qed (use r(2,3) in simp_all)
  moreover have "blocked_same (k_threads k) h'" if b: "t_state (k_threads k i) \<noteq> BLOCKED"
  proof (rule links_only_blocked)
    show "links_only (insert i (set (qs (unat (t_priority t))))) ((k_threads k)(i := t)) h'"
      using a(2) by simp
    show "t_state t \<noteq> BLOCKED" using t(1) by simp
    fix y assume "y \<in> set (qs (unat (t_priority t)))"
    then show "t_state (k_threads k y) \<noteq> BLOCKED"
      using queues_okD(3) [OF r(1) t(2)] by (simp add: ready_set_def)
  qed (rule b)
  ultimately show ?thesis using a(1) hi f(1) by blast
qed

text \<open>C24. \<open>mos_thread_new\<close> with a free slot, a valid priority and memory for the stack: the new
  thread is READY at the end of the queue of its priority, its stack has at least the size asked
  for (and at least the minimum) and is disjoint from the memory that stays free, all other queues
  are as before, and the dispatcher runs only when the scheduler is already running.\<close>
theorem thread_new_ready:
  assumes rep: "represents k qs sl c" and heap: "heap_inv lo hi (k_mem k) xs"
    and pr: "priority < of_nat NUM_PRIORITIES" and slot: "find_empty (k_threads k) = Some i"
    and sz: "sz = (if stack_size < MIN_STACK_SIZE then MIN_STACK_SIZE else stack_size)"
    and fit: "\<exists>x \<in> set xs. round_size sz \<le> n_size (m_nodes (k_mem k) x)"
  shows "\<exists>k1 ys p. mos_thread_new f stack_size priority k =
      (if k_running k then map_option (Pair THREAD_OK) (dispatcher k1) else Some (THREAD_OK, k1)) \<and>
    represents k1 (qs(unat priority := qs (unat priority) @ [i])) sl c \<and>
    t_func (k_threads k1 i) = f \<and> heap_inv lo hi (k_mem k1) ys \<and>
    unat (round_size sz) \<le> nsize (m_nodes (k_mem k1)) (p - sizeof_node) \<and>
    block_bytes (k_mem k1) p \<inter> free_bytes (k_mem k1) ys = {} \<and>
    free_bytes (k_mem k) xs = block_bytes (k_mem k1) p \<union> free_bytes (k_mem k1) ys \<and>
    t_stack (k_threads k1 i) = of_nat p"
proof -
  from mos_mem_alloc_some [OF heap fit] obtain p m ys where al:
    "mos_mem_alloc sz (k_mem k) = Some (Some p, m)" "alloc_post lo hi (round_size sz) (k_mem k) xs p m ys"
    by blast
  have i: "i < MAX_THREADS" "t_state (k_threads k i) = EMPTY" using find_emptyD [OF slot] by auto
  let ?t = "(k_threads k i)\<lparr>t_stack := of_nat p, t_stackSize := sz,
                  t_func := f, t_state := READY, t_suspend_state := SUSPEND_STATE_IDLE,
                  t_priority := priority, t_thread_id := of_nat i, t_sp := stack_top p sz - 28\<rparr>"
  let ?k = "k\<lparr>k_mem := m\<rparr>"
  have rep': "represents ?k qs sl c" using rep represents_mem by blast
  have pn: "unat priority < NUM_PRIORITIES"
    using pr by (simp add: NUM_PRIORITIES_def word_less_nat_alt)
  from ready_new [OF rep' i(1), of ?t] i(2) pn obtain rq h' n where a:
    "ready_add i (?k\<lparr>k_threads := (k_threads k)(i := ?t)\<rparr>) =
      Some (?k\<lparr>k_threads := (k_threads k)(i := ?t), k_readyQ := rq, k_threads := h'\<rparr>)"
    "represents (?k\<lparr>k_threads := (k_threads k)(i := ?t), k_readyQ := rq, k_threads := h'\<rparr>)
      (qs(unat priority := qs (unat priority) @ [i])) sl c" "h' i = ?t\<lparr>t_next := n\<rparr>"
    by auto
  let ?k1 = "?k\<lparr>k_threads := (k_threads k)(i := ?t), k_readyQ := rq, k_threads := h'\<rparr>"
  have "mos_thread_new f stack_size priority k =
      (if k_running k then map_option (Pair THREAD_OK) (dispatcher ?k1) else Some (THREAD_OK, ?k1))"
    using not_le [THEN iffD2, OF pr] slot al(1) a(1) sz
    by (cases "dispatcher ?k1") (simp_all add: mos_thread_new_def Let_def)
  then show ?thesis
    using al(2) a(2,3) by (intro exI [of _ ?k1] exI [of _ ys] exI [of _ p])
      (auto simp: alloc_post_def sizeof_node_def)
qed

text \<open>\<open>mos_thread_exit\<close> gives the slot and the stack of the running thread back: the bytes of
  the stack block are free again, the slot is EMPTY, no queue changes, and then the dispatcher
  runs.\<close>
theorem thread_exit_frees:
  assumes rep: "represents k qs sl c" and run: "t_state (k_threads k c) = RUNNING"
    and heap: "heap_inv lo hi (k_mem k) xs"
    and stack: "block_bytes (k_mem k) (unat (t_stack (k_threads k c))) \<inter> free_bytes (k_mem k) xs = {}"
      "block_bytes (k_mem k) (unat (t_stack (k_threads k c))) \<subseteq> {lo ..< hi}"
  shows "\<exists>k1 ys. mos_thread_exit k = dispatcher k1 \<and> represents k1 qs sl c \<and>
    t_state (k_threads k1 c) = EMPTY \<and> heap_inv lo hi (k_mem k1) ys \<and>
    free_bytes (k_mem k1) ys =
      free_bytes (k_mem k) xs \<union> block_bytes (k_mem k) (unat (t_stack (k_threads k c)))"
proof -
  note r = representsD [OF rep]
  from mos_mem_free_ok [OF heap stack] obtain m ys where m:
    "mos_mem_free (unat (t_stack (k_threads k c))) (k_mem k) = Some m" "heap_inv lo hi m ys"
    "free_bytes m ys = free_bytes (k_mem k) xs \<union> block_bytes (k_mem k) (unat (t_stack (k_threads k c)))"
    by blast
  let ?t = "(k_threads k c)\<lparr>t_state := EMPTY, t_suspend_state := SUSPEND_STATE_SLEEP\<rparr>"
  let ?k = "k\<lparr>k_mem := m, k_threads := (k_threads k)(c := ?t)\<rparr>"
  have "represents (k\<lparr>k_mem := m\<rparr>) qs sl c" using rep represents_mem by blast
  from represents_other [OF this, of c ?t] have "represents ?k qs sl c"
    using run queues_okD(6) [OF r(1) r(3)] by simp
  moreover have "List.find (\<lambda>i. k_current k = Some i) [0..<MAX_THREADS] = Some c"
    unfolding find_Some_iff
  proof (intro exI [of _ c] conjI allI impI)
    fix j assume "j < c"
    then have "[0..<MAX_THREADS] ! j = j" using r(3) by simp
    with \<open>j < c\<close> r(2) show "k_current k \<noteq> Some ([0..<MAX_THREADS] ! j)" by simp
  qed (use r(2,3) in simp_all)
  then have "mos_thread_exit k = dispatcher ?k"
    using m(1) by (simp add: mos_thread_exit_def Let_def)
  ultimately show ?thesis
    using m(2,3) by (intro exI [of _ ?k] exI [of _ ys]) simp
qed

end
