(* ===== verification/Sched_Properties.thy ===== *)
theory Sched_Properties
  imports Sched
begin

text \<open>
  The properties of the scheduler: its operations implement the abstract scheduler of
  theory \<open>Sched\<close>, the thread chosen has the highest priority of all that are ready, and the
  step relation of the whole component keeps every thread in exactly the queue of its state.
\<close>

section \<open>A sample kernel\<close>

text \<open>Thread 0 (idle) is ready, 1 runs, 2 is blocked, 3 sleeps for 40 ticks; 5 of the ticks have
  passed since the last context switch.\<close>

definition thread_of :: "thread_state \<Rightarrow> u8 \<Rightarrow> u32 \<Rightarrow> mos_thread" where
  "thread_of s p st = \<lparr>t_sp = 0, t_stack = 0, t_stackSize = 128, t_func = 0x4000, t_st = st, t_state = s,
     t_suspend_state = 0, t_priority = p, t_port = 0, t_next = None, t_waiting_for = None, t_thread_id = 0\<rparr>"

definition sample_kernel :: kernel where
  "sample_kernel = \<lparr>k_threads = (\<lambda>_. thread_of EMPTY 0 0)
       (0 := thread_of READY 4 0, 1 := thread_of RUNNING 3 0, 2 := thread_of BLOCKED 2 1,
        3 := thread_of SLEEPING 3 40),
     k_current = Some 1,
     k_readyQ = (replicate 5 mos_tlist_init)[4 := \<lparr>tl_head = Some 0, tl_tail = Some 0\<rparr>],
     k_sleepQ = \<lparr>tl_head = Some 3, tl_tail = Some 3\<rparr>, k_running = True, k_elapsed = 5, k_switch = True,
     k_last_sleep_time = 0, k_mem = sample_mem\<rparr>"

definition sample_ready :: ready where "sample_ready = (\<lambda>_. [])(4 := [0])"

lemma threads_upto: "x < MAX_THREADS \<longleftrightarrow> x \<in> {0, 1, 2, 3, 4, 5, 6, 7, 8, 9}"
  by (auto simp: MAX_THREADS_def)

lemma priorities_upto: "p < NUM_PRIORITIES \<longleftrightarrow> p \<in> {0, 1, 2, 3, 4}"
  by (auto simp: NUM_PRIORITIES_def)

lemma sample_fields:
  "t_priority (k_threads sample_kernel x) = (if x = 0 then 4 else if x = 1 \<or> x = 3 then 3 else if x = 2 then 2 else 0)"
  "t_state (k_threads sample_kernel x) = (if x = 0 then READY else if x = 1 then RUNNING
     else if x = 2 then BLOCKED else if x = 3 then SLEEPING else EMPTY)"
  "t_next (k_threads sample_kernel x) = None" "t_st (k_threads sample_kernel 3) = 40"
  by (simp_all add: sample_kernel_def thread_of_def)

lemma sample_represents: "represents sample_kernel sample_ready [(3, 40)] 1"
proof (rule representsI)
  have rs: "ready_set (k_threads sample_kernel) p = (if p = 4 then {0} else {})" for p
    by (auto simp: ready_set_def sample_fields MAX_THREADS_def split: if_splits)
  have ss: "sleep_set (k_threads sample_kernel) = {3}"
    by (auto simp: sleep_set_def sample_fields MAX_THREADS_def split: if_splits)
  have q: "tlist_rep (k_threads sample_kernel) (k_readyQ sample_kernel ! p) (sample_ready p)"
    if "p < NUM_PRIORITIES" for p
    using that unfolding priorities_upto
    by (auto simp: tlist_rep_def sample_ready_def sample_fields)
      (simp_all add: sample_kernel_def mos_tlist_init_def)
  have sq: "tlist_rep (k_threads sample_kernel) (k_sleepQ sample_kernel) [3]"
    by (simp add: tlist_rep_def sample_fields) (simp add: sample_kernel_def)
  have "length (k_readyQ sample_kernel) = NUM_PRIORITIES"
    by (simp add: sample_kernel_def NUM_PRIORITIES_def)
  then show "queues_ok (k_threads sample_kernel) (k_readyQ sample_kernel) (k_sleepQ sample_kernel)
      sample_ready (map fst [(3, 40)])"
    using rs ss q sq unfolding queues_ok_def
    by (auto simp: sample_ready_def sample_fields NUM_PRIORITIES_def)
next
  fix y assume "y < MAX_THREADS" "t_state (k_threads sample_kernel y) = RUNNING"
  then show "y = 1" by (simp add: sample_fields split: if_splits)
qed (simp_all add: sample_fields MAX_THREADS_def, simp add: sample_kernel_def)

lemma sample_running: "t_state (k_threads sample_kernel 1) = RUNNING"
  by (simp add: sample_kernel_def thread_of_def)

section \<open>The operations refine the abstract scheduler\<close>



text \<open>\<open>mos_thread_suspend_noints\<close> blocks the running thread: it is put in no queue, the
  threads that are due wake up and the dispatcher's choice runs.\<close>
theorem thread_suspend_refines:
  assumes "represents k qs sl c" and "t_state (k_threads k c) = RUNNING"
  shows "switched k (mos_thread_suspend_noints k)
    (switch_to (prio_of (k_threads k)) (unat (k_elapsed k)) False c qs sl)"
  by (rule suspend_ok [OF assms])

theorem thread_suspend_refines_witness:
  "switched sample_kernel (mos_thread_suspend_noints sample_kernel)
    (switch_to (prio_of (k_threads sample_kernel)) 5 False 1 sample_ready [(3, 40)])"
  using thread_suspend_refines [OF sample_represents sample_running] by (simp add: sample_kernel_def)

text \<open>\<open>mos_thread_resume_noints\<close> puts a blocked thread at the end of the ready queue of its
  priority (a thread that is not blocked stays where it is); the running thread goes to the end of
  its own queue, and the dispatcher's choice runs.\<close>
theorem thread_resume_refines:
  assumes "represents k qs sl c" and "t_state (k_threads k c) = RUNNING" and "x < MAX_THREADS"
  shows "switched k (mos_thread_resume_noints x k)
    (switch_to (prio_of (k_threads k)) (unat (k_elapsed k)) True c
      (if t_state (k_threads k x) = BLOCKED then requeue (prio_of (k_threads k)) [x] qs else qs) sl)"
  by (rule resume_ok [OF assms])

theorem thread_resume_refines_witness:
  "switched sample_kernel (mos_thread_resume_noints 2 sample_kernel)
    (switch_to (prio_of (k_threads sample_kernel)) 5 True 1
      (requeue (prio_of (k_threads sample_kernel)) [2] sample_ready) [(3, 40)])"
  using thread_resume_refines [OF sample_represents sample_running, of 2]
  by (simp add: sample_kernel_def MAX_THREADS_def thread_of_def)

section \<open>The choice of the dispatcher\<close>

lemma requeue_prio: "\<forall>y \<in> set (qs q). prio y = q \<Longrightarrow> \<forall>y \<in> set (requeue prio ws qs q). prio y = q"
  by (auto simp: requeue_def)

lemma requeue_mem: "x \<in> set (qs p) \<Longrightarrow> x \<in> set (requeue prio ws qs p)"
  by (simp add: requeue_def)

text \<open>C12. As long as the idle thread is ready or running, a timer wake-up never finds all queues
  empty (the dispatcher would dereference NULL), and the thread that runs afterwards has the
  highest priority of all threads that are ready.\<close>
theorem wakeup_highest_priority:
  assumes rep: "represents k qs sl c" and idle: "i < MAX_THREADS"
    "t_state (k_threads k i) = READY \<or> t_state (k_threads k i) = RUNNING"
  shows "\<exists>k' x. mos_thread_wakeup t k = Some k' \<and> k_current k' = Some x \<and>
    t_state (k_threads k' x) = RUNNING \<and>
    (\<forall>y < MAX_THREADS. t_state (k_threads k' y) = READY \<longrightarrow>
       prio_of (k_threads k') x \<le> prio_of (k_threads k') y)"
proof -
  let ?prio = "prio_of (k_threads k)" and ?run = "t_state (k_threads k c) = RUNNING"
  note r = representsD [OF rep]
  obtain qs1 sl1 where w: "wake_due ?prio (unat t) qs sl = (qs1, sl1)" by fastforce
  let ?qs = "if ?run then requeue ?prio [c] qs1 else qs1"
  have pi: "?prio i < NUM_PRIORITIES" using queues_okD(6) [OF r(1) idle(1)] by (simp add: prio_of_def)
  have qs1: "qs1 = requeue ?prio (map fst (takeWhile (\<lambda>(x, d). d \<le> unat t) sl)) qs"
    using w by (simp add: wake_due_def)
  have "i \<in> set (?qs (?prio i))"
  proof (cases "t_state (k_threads k i) = READY")
    case True
    then have "i \<in> ready_set (k_threads k) (?prio i)" using idle(1) by (simp add: ready_set_def prio_of_def)
    then have "i \<in> set (qs (?prio i))" using queues_okD(3) [OF r(1) pi] by simp
    then show ?thesis using requeue_mem qs1 by simp
  next
    case False
    then have "t_state (k_threads k i) = RUNNING" using idle(2) by simp
    with r(4) [OF idle(1)] have "i = c" ?run by auto
    then show ?thesis by (simp add: requeue_def)
  qed
  then have "next_thread ?qs \<noteq> None" using pi by (auto simp: next_thread_None)
  then obtain x qs2 where n: "next_thread ?qs = Some (x, qs2)" by auto
  then have "switch_to ?prio (unat t) ?run c qs sl = Some (x, qs2, sl1)"
    using w by (simp add: switch_to_def)
  with wakeup_ok [OF rep, of t] obtain k' where k': "mos_thread_wakeup t k = Some k'"
    "represents k' qs2 sl1 x" "t_state (k_threads k' x) = RUNNING" "prio_of (k_threads k') = ?prio"
    by (auto simp: switched_def)
  note r' = representsD [OF k'(2)]
  from next_threadD [OF n] obtain p ys where p: "p < NUM_PRIORITIES" "?qs p = x # ys"
    "qs2 = ?qs(p := ys)" "\<forall>q < p. ?qs q = []" by blast
  have px: "?prio x = p"
  proof -
    have "\<forall>y \<in> set (qs p). ?prio y = p"
      using queues_okD(3) [OF r(1) p(1)] by (auto simp: ready_set_def prio_of_def)
    then have "\<forall>y \<in> set (qs1 p). ?prio y = p" unfolding qs1 by (rule requeue_prio)
    then have "\<forall>y \<in> set (?qs p). ?prio y = p" using requeue_prio [of qs1 p ?prio "[c]"] by simp
    then show ?thesis using p(2) by simp
  qed
  have "p \<le> prio_of (k_threads k') y" if y: "y < MAX_THREADS" "t_state (k_threads k' y) = READY" for y
  proof (rule ccontr)
    let ?q = "prio_of (k_threads k') y"
    assume "\<not> p \<le> ?q"
    then have q: "?q < p" "?q < NUM_PRIORITIES" using p(1) by auto
    have "y \<in> ready_set (k_threads k') ?q" using y by (simp add: ready_set_def prio_of_def)
    then have "y \<in> set (qs2 ?q)" using queues_okD(3) [OF r'(1) q(2)] by simp
    with p(3,4) q(1) show False by auto
  qed
  then show ?thesis using k' r'(2) px by auto
qed

theorem wakeup_highest_priority_witness:
  "\<exists>k' x. mos_thread_wakeup 50 sample_kernel = Some k' \<and> k_current k' = Some x \<and>
    t_state (k_threads k' x) = RUNNING"
  using wakeup_highest_priority [OF sample_represents, of 0 50]
  by (auto simp: sample_kernel_def thread_of_def MAX_THREADS_def)

section \<open>Every reachable state of the kernel is well formed\<close>

text \<open>The transitions: every operation a thread, an interrupt handler or the timer can perform,
  where it does not run into undefined behaviour.\<close>

inductive kstep :: "kernel \<Rightarrow> kernel \<Rightarrow> bool" where
  sleep: "mos_thread_sleep s k = Some k' \<Longrightarrow> kstep k k'"
| suspend_state: "mos_thread_suspend_state s k = Some k' \<Longrightarrow> kstep k k'"
| suspend: "mos_thread_suspend_noints k = Some k' \<Longrightarrow> kstep k k'"
| resume: "x < MAX_THREADS \<Longrightarrow> mos_thread_resume x k = Some k' \<Longrightarrow> kstep k k'"
| resume_noints: "x < MAX_THREADS \<Longrightarrow> mos_thread_resume_noints x k = Some k' \<Longrightarrow> kstep k k'"
| resume_nodispatch: "x < MAX_THREADS \<Longrightarrow> mos_thread_resume_noints_nodispatch x k = Some k' \<Longrightarrow> kstep k k'"
| wakeup: "mos_thread_wakeup t k = Some k' \<Longrightarrow> kstep k k'"
| check: "check_sleep_time u k = Some (b, k') \<Longrightarrow> kstep k k'"
| new: "mos_thread_new f sz pr k = Some (r, k') \<Longrightarrow> kstep k k'"
| havestack: "mos_thread_new_havestack f sz a pr k = Some (r, k') \<Longrightarrow> kstep k k'"
| exit: "mos_thread_exit k = Some k' \<Longrightarrow> kstep k k'"
| sched_start: "mos_sched_start k = Some k' \<Longrightarrow> kstep k k'"
| tick: "kstep k (k\<lparr>k_elapsed := k_elapsed k + 1\<rparr>)"
| single: "kstep k (mos_single_threaded k)"
| multi: "kstep k (mos_multi_threaded k)"

text \<open>Exactly one thread is RUNNING, the current one; a thread is in the ready queue of its priority
  when it is READY, in the sleep queue when it is SLEEPING, and in no queue otherwise.\<close>

definition kernel_ok :: "kernel \<Rightarrow> bool" where
  "kernel_ok k \<longleftrightarrow> (\<exists>qs sl c. represents k qs sl c \<and> t_state (k_threads k c) = RUNNING)"

lemma kernel_okI: "represents k qs sl c \<Longrightarrow> t_state (k_threads k c) = RUNNING \<Longrightarrow> kernel_ok k"
  by (auto simp: kernel_ok_def)

lemma switched_kernel_ok: "switched k r a \<Longrightarrow> r = Some k' \<Longrightarrow> kernel_ok k'"
  by (auto simp: switched_def kernel_ok_def split: option.splits)

lemma represents_fields:
  assumes "represents k qs sl c" and "k_threads k' = k_threads k" "k_readyQ k' = k_readyQ k"
    "k_sleepQ k' = k_sleepQ k" "k_current k' = k_current k"
  shows "represents k' qs sl c"
  using assms(1) unfolding represents_def at_dispatch_def assms(2-5) .

lemma kernel_ok_fields:
  "kernel_ok k \<Longrightarrow> k_threads k' = k_threads k \<Longrightarrow> k_readyQ k' = k_readyQ k \<Longrightarrow>
   k_sleepQ k' = k_sleepQ k \<Longrightarrow> k_current k' = k_current k \<Longrightarrow> kernel_ok k'"
  unfolding kernel_ok_def using represents_fields by metis

lemma dispatcher_kernel_ok:
  assumes rep: "represents k qs sl c" and run: "dispatcher k = Some k'"
  shows "kernel_ok k'"
proof -
  have at: "at_dispatch k qs (map fst sl) c" and d: "tdue (k_threads k) 0 (map fst sl) = sl"
    using rep by (auto simp: represents_def)
  obtain x qs' where "next_thread (requeue_running k c qs) = Some (x, qs')"
    using dispatcher_stuck [OF at] run by fastforce
  from dispatcher_ok [OF at this] run have "dispatched k c k' qs' (map fst sl) x" by simp
  then have "at_dispatch k' qs' (map fst sl) x" "same_times (k_threads k) (k_threads k')"
    "t_state (k_threads k' x) = RUNNING" by (simp_all add: dispatched_def)
  with d same_times_due [of "k_threads k" "k_threads k'" 0 "map fst sl"] show ?thesis
    by (intro kernel_okI [of k' qs' sl x]) (simp_all add: represents_def)
qed

lemma resume_eq: "mos_thread_resume = mos_thread_resume_noints"
  by (simp add: mos_thread_resume_def mos_thread_resume_noints_def fun_eq_iff)

text \<open>What the functions that create a thread do before the dispatcher, if they call that at all.\<close>

definition create :: "tid \<Rightarrow> mos_thread \<Rightarrow> kernel \<Rightarrow> (u8 \<times> kernel) option" where
  "create i t k = do {
     k \<leftarrow> ready_add i (k\<lparr>k_threads := (k_threads k)(i := t)\<rparr>);
     k \<leftarrow> (if k_running k then dispatcher k else Some k);
     Some (THREAD_OK, k) }"

definition created :: "kernel \<Rightarrow> kernel \<Rightarrow> (nat \<times> nat) list \<Rightarrow> tid \<Rightarrow> bool" where
  "created k k' sl c \<longleftrightarrow> (\<exists>k1 qs1. represents k1 qs1 sl c \<and> t_state (k_threads k1 c) = RUNNING \<and>
     blocked_same (k_threads k) (k_threads k1) \<and> (k' = k1 \<or> dispatcher k1 = Some k'))"

lemma created_same:
  "represents (k\<lparr>k_mem := m\<rparr>) qs sl c \<Longrightarrow> t_state (k_threads k c) = RUNNING \<Longrightarrow> created k (k\<lparr>k_mem := m\<rparr>) sl c"
  unfolding created_def by (intro exI [of _ "k\<lparr>k_mem := m\<rparr>"] exI [of _ qs]) simp

lemma create_cases:
  assumes rep: "represents k qs sl c" and run: "t_state (k_threads k c) = RUNNING"
    and i: "find_empty (k_threads k) = Some i" and t: "t_state t = READY" "\<not> of_nat NUM_PRIORITIES \<le> t_priority t"
    and new: "create i t (k\<lparr>k_mem := m\<rparr>) = Some (r, k')"
  shows "created k k' sl c"
proof -
  have rep': "represents (k\<lparr>k_mem := m\<rparr>) qs sl c" using rep represents_mem by blast
  have "unat (t_priority t) < NUM_PRIORITIES" using t(2) by (simp add: NUM_PRIORITIES_def word_le_nat_alt)
  with ready_new [OF rep', of i t] find_emptyD [OF i] t(1) obtain rq h' where a:
    "ready_add i (k\<lparr>k_mem := m, k_threads := (k_threads k)(i := t)\<rparr>) =
      Some (k\<lparr>k_mem := m, k_threads := (k_threads k)(i := t), k_readyQ := rq, k_threads := h'\<rparr>)"
    "represents (k\<lparr>k_mem := m, k_threads := (k_threads k)(i := t), k_readyQ := rq, k_threads := h'\<rparr>)
      (qs(unat (t_priority t) := qs (unat (t_priority t)) @ [i])) sl c" "blocked_same (k_threads k) h'"
    "\<forall>y. t_state (h' y) = (if y = i then READY else t_state (k_threads k y))"
    by auto
  let ?k1 = "k\<lparr>k_mem := m, k_threads := (k_threads k)(i := t), k_readyQ := rq, k_threads := h'\<rparr>"
  have "create i t (k\<lparr>k_mem := m\<rparr>) =
      (if k_running k then map_option (Pair THREAD_OK) (dispatcher ?k1) else Some (THREAD_OK, ?k1))"
    using a(1) by (cases "dispatcher ?k1") (simp_all add: create_def)
  then have "k' = ?k1 \<or> dispatcher ?k1 = Some k'"
    using new by (cases "k_running k"; cases "dispatcher ?k1") auto
  moreover have "c \<noteq> i" using run find_emptyD [OF i] by auto
  then have "t_state (h' c) = RUNNING" using a(4) [rule_format, of c] run by simp
  ultimately show ?thesis using a(2,3) unfolding created_def by (intro exI [of _ ?k1]) auto
qed

lemma thread_new_cases:
  assumes new: "mos_thread_new f sz pr k = Some (r, k')"
    and rep: "represents k qs sl c" and run: "t_state (k_threads k c) = RUNNING"
  shows "created k k' sl c"
proof (cases "of_nat NUM_PRIORITIES \<le> pr \<or> find_empty (k_threads k) = None")
  case True
  then have "k' = k" using new by (auto simp: mos_thread_new_def Let_def split: if_splits)
  then show ?thesis using created_same [where k = k and m = "k_mem k"] rep run by simp
next
  case False
  let ?sz = "if sz < MIN_STACK_SIZE then MIN_STACK_SIZE else sz"
  from False obtain i where i: "find_empty (k_threads k) = Some i" and pr: "\<not> of_nat NUM_PRIORITIES \<le> pr" by auto
  with new obtain p m where al: "mos_mem_alloc ?sz (k_mem k) = Some (p, m)"
    by (auto simp: mos_thread_new_def Let_def bind_eq_Some_conv)
  show ?thesis
  proof (cases p)
    case None
    then have "k' = k\<lparr>k_mem := m\<rparr>" using new i pr al by (auto simp: mos_thread_new_def Let_def)
    then show ?thesis using rep run represents_mem created_same by blast
  next
    case (Some addr)
    let ?t = "(k_threads k i)\<lparr>t_stack := of_nat addr, t_stackSize := ?sz,
      t_func := f, t_state := READY, t_suspend_state := SUSPEND_STATE_IDLE,
      t_priority := pr, t_thread_id := of_nat i, t_sp := stack_top addr ?sz - 28\<rparr>"
    have "create i ?t (k\<lparr>k_mem := m\<rparr>) = Some (r, k')"
      using new pr i al Some by (simp add: mos_thread_new_def create_def Let_def)
    then show ?thesis using create_cases [OF rep run i, of ?t] pr by simp
  qed
qed

lemma havestack_create:
  assumes "\<not> of_nat NUM_PRIORITIES \<le> pr" and "find_empty (k_threads k) = Some i"
  shows "mos_thread_new_havestack f stack_size (Some block) pr k =
    create i ((k_threads k i)\<lparr>t_stack := of_nat (block + 2 * sizeof_node), t_stackSize := stack_size - of_nat sizeof_node,
        t_func := f, t_state := READY, t_suspend_state := SUSPEND_STATE_IDLE, t_priority := pr,
        t_sp := of_nat (block + 2 * sizeof_node) + 2 * (stack_size - of_nat sizeof_node - 1) - 28\<rparr>)
      (k\<lparr>k_mem := fill_words (block + 2 * sizeof_node) (stack_size - of_nat sizeof_node)
        ((k_mem k)\<lparr>m_nodes := upd_size block (stack_size - of_nat sizeof_node) (m_nodes (k_mem k))\<rparr>)\<rparr>)"
  using assms by (simp add: mos_thread_new_havestack_def create_def Let_def)

lemma havestack_cases:
  assumes new: "mos_thread_new_havestack f sz a pr k = Some (r, k')"
    and rep: "represents k qs sl c" and run: "t_state (k_threads k c) = RUNNING"
  shows "created k k' sl c"
proof (cases "of_nat NUM_PRIORITIES \<le> pr \<or> find_empty (k_threads k) = None \<or> a = None")
  case True
  then have "k' = k" using new by (auto simp: mos_thread_new_havestack_def split: if_splits option.splits)
  then show ?thesis using created_same [where k = k and m = "k_mem k"] rep run by simp
next
  case False
  then obtain i block where "find_empty (k_threads k) = Some i" "\<not> of_nat NUM_PRIORITIES \<le> pr" "a = Some block" by auto
  with new havestack_create [of pr k i f sz block] show ?thesis
    by (intro create_cases [OF rep run]) simp_all
qed

lemma created_kernel_ok: "created k k' sl c \<Longrightarrow> kernel_ok k'"
  unfolding created_def using dispatcher_kernel_ok kernel_okI by blast

text \<open>The same for \<open>mos_thread_exit\<close>.\<close>

lemma thread_exit_cases:
  assumes ex: "mos_thread_exit k = Some k'"
    and rep: "represents k qs sl c" and run: "t_state (k_threads k c) = RUNNING"
  shows "\<exists>k1. represents k1 qs sl c \<and> blocked_same (k_threads k) (k_threads k1) \<and> dispatcher k1 = Some k'"
proof -
  note r = representsD [OF rep]
  obtain i m where im: "List.find (\<lambda>i. k_current k = Some i) [0..<MAX_THREADS] = Some i"
    "dispatcher (k\<lparr>k_mem := m, k_threads := (k_threads k)(i := (k_threads k i)
       \<lparr>t_state := EMPTY, t_suspend_state := SUSPEND_STATE_SLEEP\<rparr>)\<rparr>) = Some k'"
    using ex by (auto simp: mos_thread_exit_def bind_eq_Some_conv Let_def)
  have "i = c" using im(1) r(2) by (auto simp: find_Some_iff)
  let ?t = "(k_threads k c)\<lparr>t_state := EMPTY, t_suspend_state := SUSPEND_STATE_SLEEP\<rparr>"
  have "represents (k\<lparr>k_mem := m\<rparr>) qs sl c" using rep represents_mem by blast
  from represents_other [OF this, of c ?t] have "represents (k\<lparr>k_mem := m, k_threads := (k_threads k)(c := ?t)\<rparr>) qs sl c"
    using run queues_okD(6) [OF r(1) r(3)] by simp
  moreover have "blocked_same (k_threads k) ((k_threads k)(c := ?t))"
    using run by (auto simp: blocked_same_def)
  ultimately show ?thesis using im(2) \<open>i = c\<close>
    by (intro exI [of _ "k\<lparr>k_mem := m, k_threads := (k_threads k)(c := ?t)\<rparr>"]) simp
qed

lemma kstep_kernel_ok:
  assumes "kstep k k'" and "kernel_ok k"
  shows "kernel_ok k'"
  using assms
proof (induction rule: kstep.induct)
  case (sleep s k k')
  then show ?case using sleep_ok switched_kernel_ok by (metis kernel_ok_def)
next
  case (suspend_state s k k')
  from suspend_state.prems obtain qs sl c where rep: "represents k qs sl c"
    "t_state (k_threads k c) = RUNNING" by (auto simp: kernel_ok_def)
  let ?s = "if SUSPEND_STATE_MAX \<le> s then SUSPEND_STATE_IDLE else s"
  from suspend_state_ok [OF rep, of ?s] obtain k1 where "block_current ?s k = Some k1"
    "represents k1 qs sl c" by blast
  moreover from this have "mos_thread_wakeup (ucast (k_elapsed k1)) k1 = Some k'"
    using suspend_state.hyps by (simp add: mos_thread_suspend_state_def wakeup_noints_eq Let_def)
  ultimately show ?case using wakeup_ok switched_kernel_ok by blast
next
  case (suspend k k')
  then show ?case using suspend_ok switched_kernel_ok by (metis kernel_ok_def)
next
  case (resume x k k')
  then show ?case using resume_ok switched_kernel_ok by (metis kernel_ok_def resume_eq)
next
  case (resume_noints x k k')
  then show ?case using resume_ok switched_kernel_ok by (metis kernel_ok_def)
next
  case (resume_nodispatch x k k')
  from resume_nodispatch.prems obtain qs sl c where rep: "represents k qs sl c"
    "t_state (k_threads k c) = RUNNING" by (auto simp: kernel_ok_def)
  show ?case
  proof (cases "t_state (k_threads k x) = BLOCKED")
    case False
    then show ?thesis using resume_nodispatch by (simp add: mos_thread_resume_noints_nodispatch_def)
  next
    case True
    from unblock_ok [OF rep(1) resume_nodispatch.hyps(1) True] obtain k1 where k1:
      "unblock x k = Some k1" "represents k1 (requeue (prio_of (k_threads k)) [x] qs) sl c"
      "\<forall>y. t_state (k_threads k1 y) = (if y = x then READY else t_state (k_threads k y))" by blast
    let ?t = "(k_threads k1 x)\<lparr>t_waiting_for := None\<rparr>"
    have k': "k' = k1\<lparr>k_threads := (k_threads k1)(x := ?t)\<rparr>"
      using resume_nodispatch.hyps(2) True k1(1) by (simp add: mos_thread_resume_noints_nodispatch_def)
    have eq: "t_next (k_threads k' y) = t_next (k_threads k1 y)" "t_st (k_threads k' y) = t_st (k_threads k1 y)"
      "t_state (k_threads k' y) = t_state (k_threads k1 y)"
      "t_priority (k_threads k' y) = t_priority (k_threads k1 y)" for y
      by (simp_all add: k')
    have ch: "tlist_rep (k_threads k') l xs = tlist_rep (k_threads k1) l xs" for l xs
      using tchain_frame [of xs "k_threads k'" "k_threads k1"] eq(1) by (simp add: tlist_rep_def)
    have du: "tdue (k_threads k') acc xs = tdue (k_threads k1) acc xs" for acc xs
      using eq(2) by (intro tdue_frame) simp
    have fl: "k_readyQ k' = k_readyQ k1" "k_sleepQ k' = k_sleepQ k1" "k_current k' = k_current k1"
      by (simp_all add: k')
    have "represents k' (requeue (prio_of (k_threads k)) [x] qs) sl c"
      using k1(2) unfolding represents_def at_dispatch_def queues_ok_def ready_set_def sleep_set_def
        ch du fl eq .
    moreover have "t_state (k_threads k' c) = RUNNING" using eq(3) k1(3) rep(2) True by auto
    ultimately show ?thesis by (rule kernel_okI)
  qed
next
  case (wakeup t k k')
  then show ?case using wakeup_ok switched_kernel_ok by (metis kernel_ok_def)
next
  case (check u k b k')
  then consider "k' = k" | "mos_thread_wakeup (ucast u) k = Some k'"
    by (auto simp: check_sleep_time_def bind_eq_Some_conv split: option.splits if_splits)
  then show ?case using check.prems wakeup_ok switched_kernel_ok by cases (simp, metis kernel_ok_def)
next
  case (exit k k')
  from exit.prems obtain qs sl c where "represents k qs sl c"
    "t_state (k_threads k c) = RUNNING" by (auto simp: kernel_ok_def)
  from thread_exit_cases [OF exit.hyps this] show ?case using dispatcher_kernel_ok by blast
next
  case (new f sz pr k r k')
  from new.prems obtain qs sl c where "represents k qs sl c"
    "t_state (k_threads k c) = RUNNING" by (auto simp: kernel_ok_def)
  from thread_new_cases [OF new.hyps this] show ?case by (rule created_kernel_ok)
next
  case (havestack f sz a pr k r k')
  from havestack.prems obtain qs sl c where "represents k qs sl c"
    "t_state (k_threads k c) = RUNNING" by (auto simp: kernel_ok_def)
  from havestack_cases [OF havestack.hyps this] show ?case by (rule created_kernel_ok)
next
  case (sched_start k k')
  then obtain qs sl c where "represents k qs sl c" by (auto simp: kernel_ok_def)
  then have "represents (k\<lparr>k_running := True\<rparr>) qs sl c" by (rule represents_fields) simp_all
  then show ?case using dispatcher_kernel_ok sched_start.hyps by (simp add: mos_sched_start_def)
qed (auto simp: mos_single_threaded_def mos_multi_threaded_def intro: kernel_ok_fields)

inductive kreachable :: "kernel \<Rightarrow> bool" where
  start: "tl_head (k_sleepQ k) = None \<Longrightarrow> kreachable (sched_init lo sz k)"
| step: "kreachable k \<Longrightarrow> kstep k k' \<Longrightarrow> kreachable k'"

lemma kreachable_ok: "kreachable k \<Longrightarrow> kernel_ok k"
proof (induction rule: kreachable.induct)
  case (start k lo sz)
  have "t_state (k_threads (sched_init lo sz k) 0) = RUNNING"
    by (simp add: sched_init_def Let_def)
  with sched_init_represents [OF start] show ?case by (rule kernel_okI)
qed (rule kstep_kernel_ok)

text \<open>C1. In every state the kernel can reach from its initialisation by any sequence of
  operations and interrupts, exactly one thread is RUNNING (the current one), every READY thread
  is in the ready queue of its priority and every SLEEPING thread in the sleep queue, each exactly
  once, and no queue holds any other thread.\<close>
theorem kernel_invariant:
  assumes "kreachable k"
  shows "\<exists>qs sl c. k_current k = Some c \<and> c < MAX_THREADS \<and>
    (\<forall>x < MAX_THREADS. t_state (k_threads k x) = RUNNING \<longleftrightarrow> x = c) \<and>
    (\<forall>p < NUM_PRIORITIES. tlist_rep (k_threads k) (k_readyQ k ! p) (qs p) \<and> distinct (qs p) \<and>
       set (qs p) = ready_set (k_threads k) p) \<and>
    tlist_rep (k_threads k) (k_sleepQ k) sl \<and> distinct sl \<and> set sl = sleep_set (k_threads k)"
proof -
  from kreachable_ok [OF assms] obtain qs sl c where rep: "represents k qs sl c"
    "t_state (k_threads k c) = RUNNING" by (auto simp: kernel_ok_def)
  note r = representsD [OF rep(1)]
  note q = queues_okD [OF r(1)]
  have "t_state (k_threads k x) = RUNNING \<longleftrightarrow> x = c" if "x < MAX_THREADS" for x
    using r(4) [OF that] rep(2) by auto
  moreover have "distinct (qs p)" if "p < NUM_PRIORITIES" for p
    using q(2) [OF that] by (simp add: tlist_rep_def)
  moreover have "distinct (map fst sl)" using q(4) by (simp add: tlist_rep_def)
  ultimately show ?thesis using r(2,3) q(2-5) by blast
qed

theorem kernel_invariant_witness:
  "k_current (sched_init 0x1100 0x1000 sample_kernel\<lparr>k_sleepQ := mos_tlist_init\<rparr>) = Some 0 \<and>
   (\<exists>c. k_current (mos_single_threaded (sched_init 0x1100 0x1000 (sample_kernel\<lparr>k_sleepQ := mos_tlist_init\<rparr>))) = Some c \<and>
      c < MAX_THREADS)"
proof -
  have "kreachable (mos_single_threaded (sched_init 0x1100 0x1000 (sample_kernel\<lparr>k_sleepQ := mos_tlist_init\<rparr>)))"
    by (rule kreachable.step [OF kreachable.start kstep.single]) (simp add: mos_tlist_init_def)
  from kernel_invariant [OF this] show ?thesis by (auto simp: sched_init_def Let_def)
qed

section \<open>Stacks that the caller provides\<close>

lemma fill_words_bytes:
  "m_bytes (fill_words a n m) x = (if a \<le> x \<and> x < a + 2 * unat n then 0xEF else m_bytes m x)"
proof -
  have "fold (\<lambda>j b. b(a + 2 * j := 0xEF, a + 2 * j + 1 := 0xEF)) [0..<k] b x =
      (if a \<le> x \<and> x < a + 2 * k then 0xEF else b x)" for k and b :: "nat \<Rightarrow> u8"
    by (induction k) auto
  then show ?thesis by (simp add: fill_words_def)
qed

lemma fill_words_nodes [simp]: "m_nodes (fill_words a n m) = m_nodes m" "m_free (fill_words a n m) = m_free m"
  by (simp_all add: fill_words_def)


text \<open>\<open>mos_check_stack\<close>: for a stack whose lowest \<open>n\<close> words still have the pattern and whose next word has not,
  the result is \<open>n\<close>, half of the number of free bytes that it is said to return.\<close>
theorem check_stack_counts_words:
  assumes "\<forall>i < n. stack_word m (unat (t_stack t) + 2 * i) = 0xEFEF"
    and "stack_word m (unat (t_stack t) + 2 * n) \<noteq> 0xEFEF" and "n < unat (t_stackSize t)"
  shows "unat (mos_check_stack t m) = n"
proof -
  let ?P = "\<lambda>i. stack_word m (unat (t_stack t) + 2 * i) = 0xEFEF"
  have "[0 ..< unat (t_stackSize t)] = [0 ..< n] @ n # [Suc n ..< unat (t_stackSize t)]"
    using assms(3) upt_add_eq_append [of 0 n "unat (t_stackSize t) - n"] by (simp add: upt_conv_Cons)
  then have "takeWhile ?P [0 ..< unat (t_stackSize t)] = [0 ..< n]" using assms(1,2) by (simp add: takeWhile_append)
  moreover have "n < 65536" using assms(3) unat_u16_less [of "t_stackSize t"] by linarith
  ultimately show ?thesis by (simp add: mos_check_stack_def unat_of_nat_small_u16)
qed

section \<open>Witnesses for creation and exit\<close>

lemma sample_heap: "heap_inv 0x1100 0x2100 (k_mem sample_kernel) [0x1100]"
  using sample_mem_inv by (simp add: sample_kernel_def)

theorem thread_new_ready_witness:
  "\<exists>k1 ys p. mos_thread_new 0x5000 100 2 sample_kernel = map_option (Pair THREAD_OK) (dispatcher k1) \<and>
     represents k1 (sample_ready(2 := [4])) [(3, 40)] 1 \<and> t_func (k_threads k1 4) = 0x5000"
proof -
  have slot: "find_empty (k_threads sample_kernel) = Some 4"
    by (simp add: find_empty_def sample_fields MAX_THREADS_def upt_conv_Cons)
  have fit: "\<exists>x \<in> set [0x1100]. round_size 128 \<le> n_size (m_nodes (k_mem sample_kernel) x)"
    by (simp add: round_size_def sample_kernel_def sample_mem_def mem_init_def sizeof_node_def)
  have "(2 :: u8) < of_nat NUM_PRIORITIES" by (simp add: NUM_PRIORITIES_def)
  from thread_new_ready [where stack_size = 100 and f = "0x5000", OF sample_represents sample_heap this slot refl] fit show ?thesis
    by (auto simp: MIN_STACK_SIZE_def sample_ready_def sample_kernel_def)
qed


theorem check_stack_counts_words_witness:
  "unat (mos_check_stack ((k_threads sample_kernel 1)\<lparr>t_stack := 0, t_stackSize := 8\<rparr>) (fill_words 0 2 (k_mem sample_kernel))) = 2"
proof -
  have e: "le16 0xEF 0xEF = 0xEFEF" "le16 0 0 = 0" by code_simp+
  have "m_bytes (k_mem sample_kernel) a = 0" for a by (simp add: sample_kernel_def sample_mem_def mem_init_def)
  then have w: "stack_word (fill_words 0 2 (k_mem sample_kernel)) (2 * i) = (if i < 2 then 0xEFEF else 0)" for i
    by (cases "i < 2") (simp_all add: stack_word_def fill_words_bytes e)
  show ?thesis using w [of 2] by (intro check_stack_counts_words) (simp_all add: w)
qed

theorem thread_exit_frees_witness:
  "\<exists>k1. mos_thread_exit (sample_kernel\<lparr>k_mem := used_mem, k_threads := (k_threads sample_kernel)
       (1 := (k_threads sample_kernel 1)\<lparr>t_stack := 0x3006\<rparr>)\<rparr>) = dispatcher k1 \<and>
     t_state (k_threads k1 1) = EMPTY"
proof -
  let ?t = "(k_threads sample_kernel 1)\<lparr>t_stack := 0x3006\<rparr>"
  let ?k = "sample_kernel\<lparr>k_mem := used_mem, k_threads := (k_threads sample_kernel)(1 := ?t)\<rparr>"
  have "represents (sample_kernel\<lparr>k_mem := used_mem\<rparr>) sample_ready [(3, 40)] 1"
    using sample_represents represents_mem by blast
  from represents_other [OF this, of 1 ?t] have rep: "represents ?k sample_ready [(3, 40)] 1"
    by (simp add: sample_fields NUM_PRIORITIES_def)
  have "heap_inv 0x1100 0x4000 (k_mem ?k) [0x1100]"
    by (simp add: heap_inv_def cyc_def nsize_def used_mem_def sample_mem_def mem_init_def)
  moreover have "block_bytes (k_mem ?k) (unat (t_stack (k_threads ?k 1))) \<inter> free_bytes (k_mem ?k) [0x1100] = {}"
    "block_bytes (k_mem ?k) (unat (t_stack (k_threads ?k 1))) \<subseteq> {0x1100 ..< 0x4000}"
    by (auto simp: block_bytes_def free_bytes_def blk_def nsize_def sizeof_node_def used_mem_def
      sample_mem_def mem_init_def)
  ultimately show ?thesis
    using thread_exit_frees [where lo = "0x1100" and hi = "0x4000" and xs = "[0x1100]", OF rep] by (auto simp: sample_fields)
qed

end
