(* ===== verification/Clock.thy ===== *)
theory Clock
  imports Sched_Properties
begin

text \<open>
  The software timers of the kernel (\<open>kernel/micro/clock.c\<close>, \<open>kernel/include/clock.h\<close>): the
  delta queue of alarms, the firing of the alarms that are due, and the handler of the
  millisecond interrupt that drives the alarms, the sleep queue and the time slices.  An alarm
  pointer is a number, NULL is \<open>None\<close>.  The code goes into an endless loop with a blinking LED
  when it passes more than ten alarms; like undefined behaviour this is the value \<open>None\<close>.
\<close>

section \<open>The alarms and the operations on them\<close>

type_synonym aid = nat

record alarm =
  a_func :: u16
  a_data :: u16
  a_msecs :: u32
  a_reset_to :: u32
  a_next :: "aid option"

record clock =
  c_alarms :: "aid \<Rightarrow> alarm"
  c_head :: "aid option"
  c_real_time :: u32
  c_tslice :: u16

type_synonym alarms = "aid \<Rightarrow> alarm"

abbreviation set_anext :: "aid \<Rightarrow> aid option \<Rightarrow> alarms \<Rightarrow> alarms" where
  "set_anext x n h \<equiv> h(x := (h x)\<lparr>a_next := n\<rparr>)"

abbreviation set_msecs :: "aid \<Rightarrow> u32 \<Rightarrow> alarms \<Rightarrow> alarms" where
  "set_msecs x v h \<equiv> h(x := (h x)\<lparr>a_msecs := v\<rparr>)"

definition mos_get_realtime :: "clock \<Rightarrow> u32" where
  "mos_get_realtime c = c_real_time c"

definition mos_inc_realtime :: "u16 \<Rightarrow> clock \<Rightarrow> clock" where
  "mos_inc_realtime inc c = c\<lparr>c_real_time := c_real_time c + ucast inc\<rparr>"

definition mos_have_alarms :: "clock \<Rightarrow> bool" where
  "mos_have_alarms c \<longleftrightarrow> c_head c \<noteq> None"

definition mos_get_next_alarm :: "clock \<Rightarrow> aid option" where
  "mos_get_next_alarm c = c_head c"

partial_function (option) find_alarm_loop :: "alarms \<Rightarrow> aid \<Rightarrow> aid option \<Rightarrow> bool option" where
  "find_alarm_loop h alarm current =
     (case current of
        None \<Rightarrow> Some False
      | Some x \<Rightarrow> if x = alarm then Some True else find_alarm_loop h alarm (a_next (h x)))"

definition mos_find_alarm :: "aid option \<Rightarrow> clock \<Rightarrow> bool option" where
  "mos_find_alarm alarm c =
     (case alarm of None \<Rightarrow> Some False | Some a \<Rightarrow> find_alarm_loop (c_alarms c) a (c_head c))"

text \<open>\<open>clock_add(current->next, current)\<close>\<close>

definition clock_add :: "aid \<Rightarrow> aid \<Rightarrow> alarms \<Rightarrow> alarms" where
  "clock_add a1 a2 h = set_msecs a1 (a_msecs (h a1) + a_msecs (h a2)) h"

definition remove_at :: "aid \<Rightarrow> aid option \<Rightarrow> clock \<Rightarrow> clock" where
  "remove_at x prev c =
     (let h = c_alarms c;
          c = (if c_head c = Some x then c\<lparr>c_head := a_next (h x)\<rparr>
               else (case prev of None \<Rightarrow> c | Some p \<Rightarrow> c\<lparr>c_alarms := set_anext p (a_next (h x)) h\<rparr>));
          h = c_alarms c
      in (case a_next (h x) of None \<Rightarrow> c | Some n \<Rightarrow> c\<lparr>c_alarms := clock_add n x h\<rparr>))"

function remove_loop :: "aid \<Rightarrow> aid option \<Rightarrow> aid option \<Rightarrow> nat \<Rightarrow> clock \<Rightarrow> (bool \<times> clock) option" where
  "remove_loop alarm prev current iter c =
     (case current of
        None \<Rightarrow> Some (False, c)
      | Some x \<Rightarrow>
          if x = alarm then Some (True, remove_at x prev c)
          else if 10 < Suc iter then None
          else remove_loop alarm current (a_next (c_alarms c x)) (Suc iter) c)"
  by pat_completeness auto
termination by (relation "measure (\<lambda>(_, _, _, iter, _). 10 - iter)") auto

declare remove_loop.simps [simp del]

definition mos_remove_alarm :: "aid option \<Rightarrow> clock \<Rightarrow> (bool \<times> clock) option" where
  "mos_remove_alarm alarm c =
     (case alarm of None \<Rightarrow> Some (False, c) | Some a \<Rightarrow> remove_loop a None (c_head c) 0 c)"

text \<open>The loop of \<open>set_alarm_timer\<close> that looks for the place of the alarm, and what is done there.\<close>

definition insert_before :: "aid \<Rightarrow> aid \<Rightarrow> aid option \<Rightarrow> u32 \<Rightarrow> clock \<Rightarrow> clock" where
  "insert_before alarm cur prev tot c =
     (let h = c_alarms c in
      case prev of
        Some p \<Rightarrow>
          (let h = set_anext p (Some alarm) h;
               h = set_anext alarm (Some cur) h;
               h = set_msecs alarm (a_msecs (h alarm) - (tot - a_msecs (h cur))) h;
               h = set_msecs cur (a_msecs (h cur) - a_msecs (h alarm)) h
           in c\<lparr>c_alarms := h\<rparr>)
      | None \<Rightarrow>
          (case c_head c of
             None \<Rightarrow> c
           | Some n \<Rightarrow>
               (let h = set_anext alarm (Some n) h;
                    h = set_msecs n (a_msecs (h n) - a_msecs (h alarm)) h
                in c\<lparr>c_head := Some alarm, c_alarms := h\<rparr>)))"

function set_loop :: "aid \<Rightarrow> aid option \<Rightarrow> aid option \<Rightarrow> u32 \<Rightarrow> nat \<Rightarrow> clock \<Rightarrow> clock option" where
  "set_loop alarm prev cur tot iter c =
     (case cur of
        None \<Rightarrow>
          (case prev of
             None \<Rightarrow> Some c
           | Some p \<Rightarrow>
               (let h = set_anext p (Some alarm) (c_alarms c);
                    h = set_anext alarm None h;
                    h = set_msecs alarm (a_msecs (h alarm) - tot) h
                in Some (c\<lparr>c_alarms := h\<rparr>)))
      | Some x \<Rightarrow>
          (let tot = tot + a_msecs (c_alarms c x) in
           if a_msecs (c_alarms c alarm) < tot then Some (insert_before alarm x prev tot c)
           else if 10 < Suc iter then None
           else set_loop alarm cur (a_next (c_alarms c x)) tot (Suc iter) c))"
  by pat_completeness auto
termination by (relation "measure (\<lambda>(_, _, _, _, iter, _). 10 - iter)") auto

declare set_loop.simps [simp del]

definition set_alarm_timer :: "aid \<Rightarrow> clock \<Rightarrow> clock option" where
  "set_alarm_timer alarm c =
     (if c_head c = None
      then Some (c\<lparr>c_head := Some alarm, c_alarms := set_anext alarm None (c_alarms c)\<rparr>)
      else do {
        (_, c) \<leftarrow> mos_remove_alarm (Some alarm) c;
        let c = c\<lparr>c_alarms := set_anext alarm None (c_alarms c)\<rparr>;
        set_loop alarm None (c_head c) 0 0 c })"

definition mos_alarm :: "aid \<Rightarrow> clock \<Rightarrow> clock option" where
  "mos_alarm new c =
     (let h = c_alarms c;
          h = (if a_msecs (h new) = 0 then set_msecs new 1 h else h)
      in set_alarm_timer new (c\<lparr>c_alarms := h\<rparr>))"

text \<open>Firing: the callback of an alarm is code of the application, the argument \<open>call\<close>; it may
  itself set and remove alarms.\<close>

function fire_loop :: "(u16 \<Rightarrow> u16 \<Rightarrow> clock \<Rightarrow> clock option) \<Rightarrow> nat \<Rightarrow> clock \<Rightarrow> clock option" where
  "fire_loop call iter c =
     (case c_head c of
        None \<Rightarrow> Some c
      | Some x \<Rightarrow>
          if a_msecs (c_alarms c x) = 0 then do {
            let c = c\<lparr>c_head := a_next (c_alarms c x)\<rparr>;
            c \<leftarrow> call (a_func (c_alarms c x)) (a_data (c_alarms c x)) c;
            c \<leftarrow> (if a_reset_to (c_alarms c x) \<noteq> 0
                  then set_alarm_timer x
                    (c\<lparr>c_alarms := set_msecs x (a_reset_to (c_alarms c x)) (c_alarms c)\<rparr>)
                  else Some c);
            if 10 < Suc iter then None else fire_loop call (Suc iter) c
          } else Some c)"
  by pat_completeness auto
termination by (relation "measure (\<lambda>(_, iter, _). 10 - iter)") auto

declare fire_loop.simps [simp del]

definition fire_alarm :: "(u16 \<Rightarrow> u16 \<Rightarrow> clock \<Rightarrow> clock option) \<Rightarrow> clock \<Rightarrow> clock option" where
  "fire_alarm call c = fire_loop call 0 c"

definition process_alarm :: "(u16 \<Rightarrow> u16 \<Rightarrow> clock \<Rightarrow> clock option) \<Rightarrow> clock \<Rightarrow> clock option" where
  "process_alarm call c =
     (case c_head c of
        None \<Rightarrow> Some c
      | Some x \<Rightarrow> if a_msecs (c_alarms c x) = 0 then fire_alarm call c else Some c)"

definition tslice_expired :: "kernel \<Rightarrow> kernel option" where
  "tslice_expired k = mos_thread_wakeup (ucast (k_elapsed k)) k"

text \<open>The millisecond interrupt.  When \<open>check_sleep_time\<close> switches to another thread, the reset of
  the slice counter that follows it is executed only when the interrupted thread runs again, so it
  is not part of the step; the reset before \<open>tslice_expired\<close> is.\<close>

definition tick_alarms :: "(u16 \<Rightarrow> u16 \<Rightarrow> clock \<Rightarrow> clock option) \<Rightarrow> clock \<Rightarrow> clock option" where
  "tick_alarms call c = do {
     c \<leftarrow> process_alarm call c;
     (case c_head c of
        None \<Rightarrow> Some c
      | Some x \<Rightarrow>
          (let c = c\<lparr>c_alarms := set_msecs x (a_msecs (c_alarms c x) - 1) (c_alarms c)\<rparr>
           in if a_msecs (c_alarms c x) = 0 then fire_alarm call c else Some c)) }"

definition alarm_tick ::
    "(u16 \<Rightarrow> u16 \<Rightarrow> clock \<Rightarrow> clock option) \<Rightarrow> clock \<times> kernel \<Rightarrow> (clock \<times> kernel) option" where
  "alarm_tick call s = (case s of (c, k) \<Rightarrow> do {
     let k = k\<lparr>k_elapsed := k_elapsed k + 1\<rparr>;
     let c = c\<lparr>c_real_time := c_real_time c + 1, c_tslice := c_tslice c + 1\<rparr>;
     c \<leftarrow> tick_alarms call c;
     (woken, k) \<leftarrow> check_sleep_time (ucast (c_tslice c)) k;
     if woken then Some (c, k)
     else if 20 \<le> c_tslice c \<and> k_switch k then do {
       k \<leftarrow> tslice_expired k;
       Some (c\<lparr>c_tslice := 0\<rparr>, k)
     } else Some (c, k) })"

section \<open>The queue of alarms and its due times\<close>

abbreviation ms :: "alarms \<Rightarrow> nat \<Rightarrow> nat" where
  "ms h \<equiv> (\<lambda>x. unat (a_msecs (h x)))"

definition alarm_rep :: "clock \<Rightarrow> aid list \<Rightarrow> bool" where
  "alarm_rep c xs \<longleftrightarrow> chain (\<lambda>x. a_next (c_alarms c x)) (c_head c) xs \<and> distinct xs"

definition alarm_due :: "clock \<Rightarrow> aid list \<Rightarrow> (aid \<times> nat) list" where
  "alarm_due c xs = due (ms (c_alarms c)) 0 xs"

text \<open>The times fit into the 32 bits of the sum that the code computes.\<close>

definition times_fit :: "clock \<Rightarrow> aid list \<Rightarrow> bool" where
  "times_fit c xs \<longleftrightarrow> (\<Sum>x\<leftarrow>xs. ms (c_alarms c) x) < 4294967296"

lemma alarm_rep_head: "alarm_rep c xs \<Longrightarrow> c_head c = headp xs"
  by (auto simp: alarm_rep_def intro: chain_headp)

lemma unat_add_u32_small: "unat a + unat b < 4294967296 \<Longrightarrow> unat (a + b :: u32) = unat a + unat b"
  by (simp add: unat_word_ariths)

lemma insert_before_ok:
  assumes ch: "chain (\<lambda>x. a_next (c_alarms c x)) (c_head c) (ps @ y # ys)"
    and d: "distinct (ps @ y # ys)" and a: "a \<notin> set (ps @ y # ys)"
    and sum: "unat s = (\<Sum>x\<leftarrow>ps. ms (c_alarms c) x)"
    and lo: "unat s \<le> ms (c_alarms c) a" and hi: "ms (c_alarms c) a < unat s + ms (c_alarms c) y"
    and fit: "unat s + ms (c_alarms c) y < 4294967296"
  defines "c' \<equiv> insert_before a y (lastp ps) (s + a_msecs (c_alarms c y)) c"
  shows "alarm_rep c' (ps @ a # y # ys)"
    and "alarm_due c' (ps @ a # y # ys) =
      due (ms (c_alarms c)) 0 ps @ (a, ms (c_alarms c) a) # due (ms (c_alarms c)) (unat s) (y # ys)"
    and "\<And>x. x \<notin> set (ps @ a # y # ys) \<Longrightarrow> c_alarms c' x = c_alarms c x"
proof -
  let ?h = "c_alarms c" and ?h' = "c_alarms c'"
  have ne: "a \<noteq> y" "a \<notin> set ps" "a \<notin> set ys" "y \<notin> set ps" "y \<notin> set ys" using a d by auto
  have lp: "ps \<noteq> [] \<Longrightarrow> last ps \<in> set ps" by (rule last_in_set)
  have hd: "c_head c = headp (ps @ y # ys)" using chain_headp [OF ch] .
  have rel: "s + a_msecs (?h y) - a_msecs (?h y) = s" by simp
  have h': "?h' = (if ps = [] then set_msecs y (a_msecs (?h y) - a_msecs (?h a)) (set_anext a (Some y) ?h)
      else set_msecs y (a_msecs (?h y) - (a_msecs (?h a) - s))
        (set_msecs a (a_msecs (?h a) - s) (set_anext a (Some y) (set_anext (last ps) (Some a) ?h))))"
    using ne lp hd by (auto simp: c'_def insert_before_def Let_def lastp_def)
  have hd': "c_head c' = (if ps = [] then Some a else c_head c)"
    using hd by (auto simp: c'_def insert_before_def Let_def lastp_def)
  have nx: "a_next (?h' a) = Some y" "ps \<noteq> [] \<Longrightarrow> a_next (?h' (last ps)) = Some a"
    "\<And>x. x \<noteq> a \<Longrightarrow> (ps \<noteq> [] \<Longrightarrow> x \<noteq> last ps) \<Longrightarrow> a_next (?h' x) = a_next (?h x)"
    using ne lp by (auto simp: h')
  show "alarm_rep c' (ps @ a # y # ys)"
  proof (cases "ps = []")
    case True
    have "chain (\<lambda>x. a_next (?h' x)) (Some y) (y # ys) = chain (\<lambda>x. a_next (?h x)) (Some y) (y # ys)"
      using ne by (intro chain_frame nx(3)) (auto simp: True)
    with True ch hd' nx(1) d a show ?thesis by (simp add: alarm_rep_def)
  next
    case False
    have "chain (\<lambda>x. a_next (?h' x)) (c_head c) (ps @ a # y # ys)"
    proof (rule chain_insertI [OF ch d False a])
      fix x assume "x \<in> set (ps @ y # ys)" "x \<noteq> last ps"
      then show "a_next (?h' x) = a_next (?h x)" using a by (intro nx(3)) auto
    qed (use nx(1,2) False in simp_all)
    with False hd' d a show ?thesis by (simp add: alarm_rep_def)
  qed
  have s0: "ps = [] \<Longrightarrow> s = 0" using sum by (simp add: unat_eq_0)
  have ua: "ms ?h' a = ms ?h a - unat s"
    using ne s0 lo by (simp add: h' unat_sub word_le_nat_alt)
  have "unat (a_msecs (?h a) - s) \<le> ms ?h y" using lo hi by (simp add: unat_sub word_le_nat_alt)
  then have uy: "ms ?h' y = ms ?h y - (ms ?h a - unat s)"
    using ne s0 lo by (cases "ps = []") (simp_all add: h' unat_sub word_le_nat_alt)
  have uo: "ms ?h' x = ms ?h x" if "x \<noteq> a" "x \<noteq> y" for x using that by (simp add: h')
  have up: "ms ?h' x = ms ?h x" if "x \<in> set ps \<or> x \<in> set ys" for x
    using that uo ne by metis
  have "due (ms ?h') 0 ps = due (ms ?h) 0 ps" "due (ms ?h') t ys = due (ms ?h) t ys" for t
    by (rule due_frame, rule up, simp)+
  moreover have "(\<Sum>x\<leftarrow>ps. ms ?h' x) = unat s"
    unfolding sum by (intro arg_cong [of _ _ sum_list] map_cong refl up) simp
  moreover have "ms ?h a + (ms ?h y - (ms ?h a - unat s)) = unat s + ms ?h y" using lo hi by simp
  ultimately show "alarm_due c' (ps @ a # y # ys) =
      due (ms ?h) 0 ps @ (a, ms ?h a) # due (ms ?h) (unat s) (y # ys)"
    using lo by (simp add: alarm_due_def due_append ua uy)
  fix x assume "x \<notin> set (ps @ a # y # ys)"
  then have "x \<noteq> a" "x \<noteq> y" "ps \<noteq> [] \<Longrightarrow> x \<noteq> last ps" using lp by auto
  then show "c_alarms c' x = c_alarms c x" by (simp add: h')
qed

lemma set_loop_ok:
  assumes "chain (\<lambda>x. a_next (c_alarms c x)) (c_head c) (ps @ ys)" and "distinct (ps @ ys)"
    and "a \<notin> set (ps @ ys)" and "ps @ ys \<noteq> []" and "unat s = (\<Sum>x\<leftarrow>ps. ms (c_alarms c) x)"
    and "unat s \<le> ms (c_alarms c) a" and "times_fit c (ps @ ys)" and "iter + length ys \<le> 10"
  shows "\<exists>c' zs. set_loop a (lastp ps) (headp ys) s iter c = Some c' \<and> alarm_rep c' zs \<and>
    alarm_due c' zs = due (ms (c_alarms c)) 0 ps @
      due_insert_after a (ms (c_alarms c) a) (due (ms (c_alarms c)) (unat s) ys) \<and>
    (\<forall>x. x \<notin> set (a # ps @ ys) \<longrightarrow> c_alarms c' x = c_alarms c x)"
  using assms
proof (induction ys arbitrary: ps s iter)
  case Nil
  let ?h = "c_alarms c"
  let ?h' = "set_msecs a (a_msecs (?h a) - s) (set_anext a None (set_anext (last ps) (Some a) ?h))"
  let ?c = "c\<lparr>c_alarms := ?h'\<rparr>"
  have ps: "ps \<noteq> []" "last ps \<in> set ps" "a \<noteq> last ps" using Nil.prems(3,4) last_in_set [of ps] by auto
  have run: "set_loop a (lastp ps) (headp []) s iter c = Some ?c"
    using ps by (simp add: set_loop.simps lastp_def Let_def)
  have "chain (\<lambda>x. a_next (?h' x)) (c_head c) (ps @ [a])"
    using Nil.prems(1-3) ps
    by (intro chain_insertI [of "\<lambda>x. a_next (?h x)" _ ps "[]"]) auto
  then have "alarm_rep ?c (ps @ [a])" using Nil.prems(2,3) by (simp add: alarm_rep_def)
  moreover have "ms ?h' x = ms ?h x" if "x \<noteq> a" for x using that by simp
  then have "due (ms ?h') 0 ps = due (ms ?h) 0 ps" "(\<Sum>x\<leftarrow>ps. ms ?h' x) = unat s"
    using Nil.prems(3,5) by (auto intro!: due_frame arg_cong [of _ _ sum_list] map_cong)
  then have "alarm_due ?c (ps @ [a]) = due (ms ?h) 0 ps @ [(a, ms ?h a)]"
    using Nil.prems(6) by (simp add: alarm_due_def due_append unat_sub word_le_nat_alt)
  moreover have "\<forall>x. x \<notin> set (a # ps @ []) \<longrightarrow> ?h' x = ?h x" using ps by auto
  ultimately show ?case using run by (intro exI [of _ ?c] exI [of _ "ps @ [a]"]) simp
next
  case (Cons y ys)
  let ?h = "c_alarms c"
  have fit: "unat s + ms ?h y < 4294967296"
    using Cons.prems(5,7) by (simp add: times_fit_def)
  then have sy: "unat (s + a_msecs (?h y)) = unat s + ms ?h y" by (simp add: unat_add_u32_small)
  show ?case
  proof (cases "ms ?h a < unat s + ms ?h y")
    case True
    let ?c = "insert_before a y (lastp ps) (s + a_msecs (?h y)) c"
    have "set_loop a (lastp ps) (headp (y # ys)) s iter c = Some ?c"
      using True sy by (simp add: set_loop.simps Let_def word_less_nat_alt)
    with insert_before_ok [OF Cons.prems(1-3,5,6) True fit] True show ?thesis
      by (intro exI [of _ ?c] exI [of _ "ps @ a # y # ys"]) auto
  next
    case False
    have "chain (\<lambda>x. a_next (?h x)) (Some y) (y # ys)" using Cons.prems(1) by (rule chain_append)
    then have n: "a_next (?h y) = headp ys" using chain_headp by simp
    have run: "set_loop a (lastp ps) (headp (y # ys)) s iter c =
        set_loop a (lastp (ps @ [y])) (headp ys) (s + a_msecs (?h y)) (Suc iter) c"
      using False sy n Cons.prems(8)
      by (simp add: set_loop.simps [of _ "lastp ps"] Let_def word_less_nat_alt)
    have "\<exists>c' zs. set_loop a (lastp (ps @ [y])) (headp ys) (s + a_msecs (?h y)) (Suc iter) c = Some c' \<and>
      alarm_rep c' zs \<and> alarm_due c' zs = due (ms ?h) 0 (ps @ [y]) @
      due_insert_after a (ms ?h a) (due (ms ?h) (unat (s + a_msecs (?h y))) ys) \<and>
      (\<forall>x. x \<notin> set (a # (ps @ [y]) @ ys) \<longrightarrow> c_alarms c' x = c_alarms c x)"
      using Cons.prems False sy by (intro Cons.IH) auto
    then show ?thesis unfolding run using False sy Cons.prems(5) by (simp add: due_append)
  qed
qed

lemma remove_loop_miss:
  "chain (\<lambda>x. a_next (c_alarms c x)) p ys \<Longrightarrow> a \<notin> set ys \<Longrightarrow> iter + length ys \<le> 10 \<Longrightarrow>
   remove_loop a prev p iter c = Some (False, c)"
proof (induction ys arbitrary: p prev iter)
  case (Cons y ys)
  then show ?case
    by (subst remove_loop.simps) (auto intro!: Cons.IH)
qed (simp add: remove_loop.simps)

lemma remove_loop_hit:
  "chain (\<lambda>x. a_next (c_alarms c x)) p (qs @ a # zs) \<Longrightarrow> a \<notin> set qs \<Longrightarrow> iter + length qs \<le> 10 \<Longrightarrow>
   remove_loop a (lastp ps) p iter c = Some (True, remove_at a (lastp (ps @ qs)) c)"
proof (induction qs arbitrary: p ps iter)
  case Nil
  then show ?case by (simp add: remove_loop.simps)
next
  case (Cons y ys)
  have "remove_loop a (lastp ps) p iter c =
      remove_loop a (lastp (ps @ [y])) (a_next (c_alarms c y)) (Suc iter) c"
    using Cons.prems by (subst remove_loop.simps) auto
  also have "\<dots> = Some (True, remove_at a (lastp ((ps @ [y]) @ ys)) c)"
    using Cons.prems by (intro Cons.IH) auto
  finally show ?case by simp
qed

lemma filter_due: "a \<notin> set xs \<Longrightarrow> filter (\<lambda>(y, _). y \<noteq> a) (due s acc xs) = due s acc xs"
  by (induction xs arbitrary: acc) auto

lemma remove_at_ok:
  assumes rep: "alarm_rep c (qs @ a # zs)" and fit: "times_fit c (qs @ a # zs)"
  defines "c' \<equiv> remove_at a (lastp qs) c"
  shows "alarm_rep c' (qs @ zs)"
    and "alarm_due c' (qs @ zs) = filter (\<lambda>(y, _). y \<noteq> a) (alarm_due c (qs @ a # zs))"
    and "c_alarms c' a = c_alarms c a"
    and "(\<Sum>x\<leftarrow>qs @ zs. ms (c_alarms c') x) \<le> (\<Sum>x\<leftarrow>qs @ a # zs. ms (c_alarms c) x)"
proof -
  let ?h = "c_alarms c" and ?h' = "c_alarms c'"
  have ch: "chain (\<lambda>x. a_next (?h x)) (c_head c) (qs @ a # zs)" and d: "distinct (qs @ a # zs)"
    using rep by (auto simp: alarm_rep_def)
  have hd: "c_head c = headp (qs @ a # zs)" using chain_headp [OF ch] .
  have "chain (\<lambda>x. a_next (?h x)) (Some a) (a # zs)" using ch by (rule chain_append)
  then have na: "a_next (?h a) = headp zs" using chain_headp by simp
  have nq: "a \<notin> set qs" "a \<notin> set zs" "set qs \<inter> set zs = {}" using d by auto
  have lq: "qs \<noteq> [] \<Longrightarrow> last qs \<in> set qs" by (rule last_in_set)
  have hne: "c_head c = Some a \<longleftrightarrow> qs = []" using hd nq by (cases qs) auto
  define g where "g = (if qs = [] then ?h else set_anext (last qs) (headp zs) ?h)"
  have h': "?h' = (case zs of [] \<Rightarrow> g | z # _ \<Rightarrow> set_msecs z (a_msecs (g z) + a_msecs (g a)) g)"
    using hne na by (cases zs) (auto simp: c'_def remove_at_def Let_def g_def lastp_def clock_add_def)
  have hd': "c_head c' = headp (qs @ zs)"
    using hne na hd by (cases zs; cases qs) (auto simp: c'_def remove_at_def Let_def lastp_def)
  have nx: "a_next (?h' x) = (if qs \<noteq> [] \<and> x = last qs then headp zs else a_next (?h x))" for x
    by (cases zs) (auto simp: h' g_def)
  show "alarm_rep c' (qs @ zs)"
  proof (cases "qs = []")
    case True
    have "chain (\<lambda>x. a_next (?h' x)) (headp zs) zs = chain (\<lambda>x. a_next (?h x)) (headp zs) zs"
      using nx True by (intro chain_frame) simp
    with ch True na hd' d show ?thesis by (simp add: alarm_rep_def)
  next
    case False
    have "chain (\<lambda>x. a_next (?h' x)) (c_head c) (qs @ zs)"
      by (rule chain_unlinkI [OF ch d False]) (use nx False na in simp_all)
    with False hd hd' d show ?thesis by (cases qs) (simp_all add: alarm_rep_def)
  qed
  have anz: "zs \<noteq> [] \<Longrightarrow> hd zs \<noteq> a" using nq by (cases zs) auto
  show "?h' a = ?h a" using nq lq anz by (cases zs) (auto simp: h' g_def)
  have mz: "ms ?h' x = (if zs \<noteq> [] \<and> x = hd zs then ms ?h x + ms ?h a else ms ?h x)" for x
  proof (cases zs)
    case (Cons z zs')
    have "ms ?h z + ms ?h a < 4294967296" using fit Cons by (simp add: times_fit_def)
    then have "unat (a_msecs (g z) + a_msecs (g a)) = ms ?h z + ms ?h a"
    proof -
      have "a_msecs (g x) = a_msecs (?h x)" for x by (simp add: g_def)
      then show ?thesis using \<open>ms ?h z + ms ?h a < 4294967296\<close> by (simp add: unat_add_u32_small)
    qed
    then show ?thesis using Cons by (simp add: h' g_def)
  qed (simp add: h' g_def)
  have q: "due (ms ?h') 0 qs = due (ms ?h) 0 qs"
  proof (rule due_frame)
    fix x assume x: "x \<in> set qs"
    have "zs \<noteq> [] \<Longrightarrow> hd zs \<in> set zs" by (rule hd_in_set)
    with x nq(3) have "\<not> (zs \<noteq> [] \<and> x = hd zs)" by blast
    then show "ms ?h' x = ms ?h x" unfolding mz by (simp only: if_False)
  qed
  have sq: "(\<Sum>x\<leftarrow>qs. ms ?h' x) = (\<Sum>x\<leftarrow>qs. ms ?h x)"
  proof (rule arg_cong [of _ _ sum_list], rule map_cong [OF refl])
    fix x assume x: "x \<in> set qs"
    have "zs \<noteq> [] \<Longrightarrow> hd zs \<in> set zs" by (rule hd_in_set)
    with x nq(3) have "\<not> (zs \<noteq> [] \<and> x = hd zs)" by blast
    then show "ms ?h' x = ms ?h x" unfolding mz by (simp only: if_False)
  qed
  have z: "due (ms ?h') t zs = due (ms ?h) (t + ms ?h a) zs \<and>
      (\<Sum>x\<leftarrow>zs. ms ?h' x) \<le> (\<Sum>x\<leftarrow>zs. ms ?h x) + ms ?h a" for t
  proof (cases zs)
    case (Cons z zs')
    have zz: "z \<notin> set zs'" using d Cons by simp
    have same: "ms ?h' x = ms ?h x" if "x \<in> set zs'" for x
      using that zz mz [of x] Cons by auto
    have "due (ms ?h') t' zs' = due (ms ?h) t' zs'" for t'
      by (rule due_frame) (rule same)
    moreover have "(\<Sum>x\<leftarrow>zs'. ms ?h' x) = (\<Sum>x\<leftarrow>zs'. ms ?h x)"
      by (intro arg_cong [of _ _ sum_list] map_cong refl same)
    moreover have "ms ?h' z = ms ?h z + ms ?h a" using mz [of z] Cons by simp
    ultimately show ?thesis using Cons by (simp add: ac_simps)
  qed simp
  show "alarm_due c' (qs @ zs) = filter (\<lambda>(y, _). y \<noteq> a) (alarm_due c (qs @ a # zs))"
    using q sq z nq filter_due [of a qs] filter_due [of a zs]
    by (simp add: alarm_due_def due_append)
  show "(\<Sum>x\<leftarrow>qs @ zs. ms ?h' x) \<le> (\<Sum>x\<leftarrow>qs @ a # zs. ms ?h x)"
    using sq z [of 0, THEN conjunct2] by simp
qed

section \<open>Setting an alarm\<close>

lemma times_fit_remove1: "times_fit c xs \<Longrightarrow> times_fit c (remove1 x xs)"
proof -
  have "(\<Sum>y\<leftarrow>remove1 x xs. f y) \<le> (\<Sum>y\<leftarrow>xs. f y)" for f :: "nat \<Rightarrow> nat"
    by (induction xs) auto
  then show "times_fit c xs \<Longrightarrow> times_fit c (remove1 x xs)"
    unfolding times_fit_def by (rule le_less_trans)
qed

lemma mos_remove_alarm_ok:
  assumes rep: "alarm_rep c xs" and len: "length xs \<le> 10" and fit: "times_fit c xs"
  shows "\<exists>c'. mos_remove_alarm (Some a) c = Some (a \<in> set xs, c') \<and> alarm_rep c' (remove1 a xs) \<and>
    alarm_due c' (remove1 a xs) = filter (\<lambda>(y, _). y \<noteq> a) (alarm_due c xs) \<and>
    c_alarms c' a = c_alarms c a \<and> times_fit c' (remove1 a xs)"
proof (cases "a \<in> set xs")
  case False
  have "chain (\<lambda>x. a_next (c_alarms c x)) (c_head c) xs" using rep by (simp add: alarm_rep_def)
  from remove_loop_miss [OF this False, of 0 None] len False rep fit filter_due [OF False]
  show ?thesis by (simp add: mos_remove_alarm_def remove1_idem alarm_due_def)
next
  case True
  then obtain qs zs where xs: "xs = qs @ a # zs" "a \<notin> set qs" by (meson split_list_first)
  have "chain (\<lambda>x. a_next (c_alarms c x)) (c_head c) (qs @ a # zs)"
    using rep xs by (simp add: alarm_rep_def)
  from remove_loop_hit [OF this xs(2), of 0 "[]"] len xs
  have run: "mos_remove_alarm (Some a) c = Some (True, remove_at a (lastp qs) c)"
    by (simp add: mos_remove_alarm_def)
  have r1: "remove1 a xs = qs @ zs" using xs by (simp add: remove1_append)
  note k = remove_at_ok [OF rep [unfolded xs(1)] fit [unfolded xs(1)]]
  have "times_fit (remove_at a (lastp qs) c) (qs @ zs)"
    using k(4) fit unfolding times_fit_def xs(1) by linarith
  with k(1-3) run r1 True xs(1) show ?thesis by simp
qed

lemma set_alarm_timer_ok:
  assumes rep: "alarm_rep c xs" and len: "length xs \<le> 10" and fit: "times_fit c xs" and ne: "xs \<noteq> [a]"
  shows "\<exists>c' zs. set_alarm_timer a c = Some c' \<and> alarm_rep c' zs \<and>
    alarm_due c' zs = due_insert_after a (ms (c_alarms c) a) (filter (\<lambda>(y, _). y \<noteq> a) (alarm_due c xs))"
proof (cases "xs = []")
  case True
  then have "c_head c = None" using alarm_rep_head [OF rep] by simp
  with True show ?thesis
    by (intro exI [of _ "c\<lparr>c_head := Some a, c_alarms := set_anext a None (c_alarms c)\<rparr>"] exI [of _ "[a]"])
      (simp add: set_alarm_timer_def alarm_rep_def alarm_due_def)
next
  case False
  then have hd: "c_head c \<noteq> None" using alarm_rep_head [OF rep] by (cases xs) auto
  let ?ys = "remove1 a xs"
  have d: "distinct xs" using rep by (simp add: alarm_rep_def)
  then have ys: "a \<notin> set ?ys" "distinct ?ys" by simp_all
  have yne: "?ys \<noteq> []" using False ne by (cases xs) auto
  from mos_remove_alarm_ok [OF rep len fit, of a] obtain c1 where c1:
    "mos_remove_alarm (Some a) c = Some (a \<in> set xs, c1)" "alarm_rep c1 ?ys"
    "alarm_due c1 ?ys = filter (\<lambda>(y, _). y \<noteq> a) (alarm_due c xs)" "c_alarms c1 a = c_alarms c a"
    "times_fit c1 ?ys" by blast
  let ?c = "c1\<lparr>c_alarms := set_anext a None (c_alarms c1)\<rparr>"
  have msc: "ms (c_alarms ?c) x = ms (c_alarms c1) x" for x by simp
  have run: "set_alarm_timer a c = set_loop a None (c_head ?c) 0 0 ?c"
    using hd c1(1) by (auto simp: set_alarm_timer_def)
  have ch: "chain (\<lambda>x. a_next (c_alarms ?c x)) (c_head ?c) ([] @ ?ys)"
  proof -
    have "a_next (c_alarms ?c x) = a_next (c_alarms c1 x)" if "x \<in> set ?ys" for x
      using that ys(1) by auto
    then have "chain (\<lambda>x. a_next (c_alarms ?c x)) (c_head ?c) ?ys =
        chain (\<lambda>x. a_next (c_alarms c1 x)) (c_head ?c) ?ys" by (rule chain_frame)
    then show ?thesis using c1(2) unfolding alarm_rep_def by simp
  qed
  have hy: "c_head ?c = headp ?ys" using chain_headp [OF ch] by simp
  have "times_fit ?c ([] @ ?ys)" using c1(5) msc by (simp add: times_fit_def)
  moreover have "0 + length ?ys \<le> 10" using len length_remove1 [of a xs] by (auto split: if_splits)
  ultimately have "\<exists>c' zs. set_loop a (lastp []) (headp ?ys) 0 0 ?c = Some c' \<and> alarm_rep c' zs \<and>
    alarm_due c' zs = due (ms (c_alarms ?c)) 0 [] @
      due_insert_after a (ms (c_alarms ?c) a) (due (ms (c_alarms ?c)) (unat (0 :: u32)) ?ys) \<and>
    (\<forall>x. x \<notin> set (a # [] @ ?ys) \<longrightarrow> c_alarms c' x = c_alarms ?c x)"
    using ys yne by (intro set_loop_ok [OF ch]) simp_all
  moreover have "due (ms (c_alarms ?c)) 0 ?ys = alarm_due c1 ?ys"
    unfolding alarm_due_def by (rule due_frame) (rule msc)
  ultimately show ?thesis using run hy c1(3,4) by auto
qed

section \<open>Properties\<close>

definition armed :: "aid \<Rightarrow> clock \<Rightarrow> clock" where
  "armed x c = (if a_msecs (c_alarms c x) = 0 then c\<lparr>c_alarms := set_msecs x 1 (c_alarms c)\<rparr> else c)"

lemma armed_rep: "alarm_rep (armed x c) xs = alarm_rep c xs"
  using chain_frame [of xs "\<lambda>y. a_next (c_alarms (armed x c) y)" "\<lambda>y. a_next (c_alarms c y)"]
  by (simp add: alarm_rep_def armed_def)

lemma mos_alarm_armed: "mos_alarm x c = set_alarm_timer x (armed x c)"
  by (simp add: mos_alarm_def armed_def Let_def)

text \<open>C26. \<open>mos_alarm\<close> of an alarm that is not pending puts it into the queue behind all alarms
  that are due at the same time or earlier and before those due later, with a time of at least one
  millisecond, and leaves the due times of all other alarms as they were, although the queue
  stores differences of times (up to ten pending alarms, whose times fit into 32 bits).\<close>
theorem alarm_insert:
  assumes "alarm_rep c xs" and "length xs \<le> 10" and "times_fit c xs" and "x \<notin> set xs"
  shows "\<exists>c' zs. mos_alarm x c = Some c' \<and> alarm_rep c' zs \<and>
    alarm_due c' zs = due_insert_after x (max 1 (ms (c_alarms c) x)) (alarm_due c xs)"
proof -
  have same: "ms (c_alarms (armed x c)) y = ms (c_alarms c) y" if "y \<in> set xs" for y
    using that assms(4) by (auto simp: armed_def)
  have "(\<Sum>y\<leftarrow>xs. ms (c_alarms (armed x c)) y) = (\<Sum>y\<leftarrow>xs. ms (c_alarms c) y)"
    by (intro arg_cong [of _ _ sum_list] map_cong refl same)
  then have fit: "times_fit (armed x c) xs" using assms(3) by (simp add: times_fit_def)
  have du: "alarm_due (armed x c) xs = alarm_due c xs"
    unfolding alarm_due_def by (rule due_frame) (rule same)
  have mx: "ms (c_alarms (armed x c)) x = max 1 (ms (c_alarms c) x)"
    by (auto simp: armed_def max_def unat_gt_0 Suc_le_eq)
  have "xs \<noteq> [x]" using assms(4) by auto
  from set_alarm_timer_ok [OF _ assms(2) fit this] assms(1) show ?thesis
    using filter_due [OF assms(4)] du mx by (simp add: mos_alarm_armed armed_rep alarm_due_def)
qed


text \<open>Setting the only pending alarm again loses it: \<open>set_alarm_timer\<close> first takes it out of
  the queue, then walks the empty queue and returns because there is no predecessor, so the
  alarm never fires.\<close>
theorem alarm_lost:
  assumes "alarm_rep c [x]"
  shows "\<exists>c'. mos_alarm x c = Some c' \<and> alarm_rep c' []"
proof -
  have rep: "alarm_rep (armed x c) ([] @ x # [])" using assms armed_rep by simp
  have fit: "times_fit (armed x c) ([] @ x # [])" using unat_u32_less by (simp add: times_fit_def)
  from remove_at_ok(1) [OF rep fit] have r: "alarm_rep (remove_at x None (armed x c)) []" by simp
  have "remove_loop x None (c_head (armed x c)) 0 (armed x c) = Some (True, remove_at x None (armed x c))"
    using rep by (simp add: alarm_rep_def remove_loop.simps)
  moreover have "c_head (armed x c) \<noteq> None" using rep by (simp add: alarm_rep_def)
  moreover have "c_head (remove_at x None (armed x c)) = None" using alarm_rep_head [OF r] by simp
  ultimately show ?thesis
    by (simp add: mos_alarm_armed set_alarm_timer_def mos_remove_alarm_def set_loop.simps
      alarm_rep_def)
qed

definition sample_clock :: clock where
  "sample_clock = \<lparr>c_alarms = (\<lambda>x. \<lparr>a_func = 0x4100, a_data = of_nat x, a_msecs = [50, 10, 55] ! (x mod 3),
       a_reset_to = 0, a_next = (if x = 0 then Some 1 else None)\<rparr>),
     c_head = Some 0, c_real_time = 0, c_tslice = 0\<rparr>"

lemma sample_clock_rep: "alarm_rep sample_clock [0, 1]" "alarm_rep (sample_clock\<lparr>c_head := Some 1\<rparr>) [1]"
  by (simp_all add: alarm_rep_def sample_clock_def)

lemma sample_clock_fit: "times_fit sample_clock [0, 1]"
  by (simp add: times_fit_def sample_clock_def)

theorem alarm_insert_witness:
  "\<exists>c' zs. mos_alarm 2 sample_clock = Some c' \<and> alarm_rep c' zs \<and>
    alarm_due c' zs = [(0, 50), (2, 55), (1, 60)]"
  using alarm_insert [OF sample_clock_rep(1) _ sample_clock_fit, of 2]
  by (simp add: alarm_due_def sample_clock_def)


theorem alarm_lost_witness:
  "\<exists>c'. mos_alarm 1 (sample_clock\<lparr>c_head := Some 1\<rparr>) = Some c' \<and> alarm_rep c' []"
  by (rule alarm_lost [OF sample_clock_rep(2)])

end
