(* ===== verification/Timer_Tick.thy ===== *)
theory Timer_Tick
  imports Clock
begin

text \<open>
  The millisecond interrupt of \<open>clock.c\<close> at work on the alarms (\<open>Clock\<close>) and on the scheduler
  (\<open>Sched\<close>), and the time the idle thread sleeps: what one tick does to the due times, and a run
  of ticks in which a sleeping thread is woken too early.
\<close>

section \<open>What a tick does to the alarms\<close>

text \<open>Callbacks that leave the alarms alone.\<close>

definition leaves_alarms :: "(u16 \<Rightarrow> u16 \<Rightarrow> clock \<Rightarrow> clock option) \<Rightarrow> bool" where
  "leaves_alarms call \<longleftrightarrow> (\<forall>f d c. call f d c = Some c)"

lemma fire_loop_ok:
  assumes "leaves_alarms call" and "chain (\<lambda>x. a_next (c_alarms c x)) (c_head c) xs"
    and "\<forall>x \<in> set xs. a_reset_to (c_alarms c x) = 0" and "iter + length xs \<le> 10"
  shows "fire_loop call iter c = Some (c\<lparr>c_head := headp (dropWhile (\<lambda>x. ms (c_alarms c) x = 0) xs)\<rparr>)"
  using assms
proof (induction xs arbitrary: c iter)
  case Nil
  then show ?case by (simp add: fire_loop.simps)
next
  case (Cons x xs)
  show ?case
  proof (cases "ms (c_alarms c) x = 0")
    case False
    with Cons.prems show ?thesis by (simp add: fire_loop.simps unat_eq_0)
  next
    case True
    then have "fire_loop call iter c = fire_loop call (Suc iter) (c\<lparr>c_head := a_next (c_alarms c x)\<rparr>)"
      using Cons.prems by (simp add: fire_loop.simps [of _ iter] leaves_alarms_def unat_eq_0)
    also have "\<dots> = Some ((c\<lparr>c_head := a_next (c_alarms c x)\<rparr>)
        \<lparr>c_head := headp (dropWhile (\<lambda>y. ms (c_alarms (c\<lparr>c_head := a_next (c_alarms c x)\<rparr>)) y = 0) xs)\<rparr>)"
      using Cons.prems by (intro Cons.IH) simp_all
    finally show ?thesis using True by simp
  qed
qed

lemma chain_dropWhile: "chain n p xs \<Longrightarrow> chain n (headp (dropWhile P xs)) (dropWhile P xs)"
  by (induction xs arbitrary: p) auto



text \<open>Setting a pending alarm again shifts the alarms behind it: the client has already
  overwritten the time left with the new time, and that is what removing the alarm adds to the
  next one.  Here alarm 1, due in 60 milliseconds, is due in 110 after alarm 0 was set to 100.\<close>
theorem alarm_rearm_delays_others:
  "alarm_due sample_clock [0, 1] = [(0, 50), (1, 60)] \<and>
   (\<exists>c' zs. mos_alarm 0 (sample_clock\<lparr>c_alarms := set_msecs 0 100 (c_alarms sample_clock)\<rparr>) = Some c' \<and>
      alarm_rep c' zs \<and> alarm_due c' zs = [(0, 100), (1, 110)])"
proof -
  let ?c = "sample_clock\<lparr>c_alarms := set_msecs 0 100 (c_alarms sample_clock)\<rparr>"
  have "alarm_rep ?c [0, 1]" "times_fit ?c [0, 1]"
    by (simp_all add: alarm_rep_def times_fit_def sample_clock_def)
  from set_alarm_timer_ok [OF this(1) _ this(2), of 0] show ?thesis
    by (simp add: mos_alarm_def alarm_due_def sample_clock_def)
qed

section \<open>The end of a sleep\<close>

text \<open>The interrupt that ends the sleep of the idle thread: the time slept is added to the clock, and the
  threads that are due by then wake up.\<close>

definition sleep_interrupt :: "kernel \<Rightarrow> clock \<Rightarrow> (kernel \<times> clock) option" where
  "sleep_interrupt k c =
     (if k_running k then do {
        k' \<leftarrow> mos_thread_wakeup (k_last_sleep_time k) k;
        Some (k', mos_inc_realtime (k_last_sleep_time k) c)
      } else Some (k, c))"

lemma sleep_interrupt_kernel: "sleep_interrupt k c = Some (k', c') \<Longrightarrow> kernel_ok k \<Longrightarrow> kernel_ok k'"
  by (auto simp: sleep_interrupt_def bind_eq_Some_conv split: if_splits intro: kstep_kernel_ok kstep.wakeup)

section \<open>Ticks and the scheduler\<close>

primrec ticks :: "(u16 \<Rightarrow> u16 \<Rightarrow> clock \<Rightarrow> clock option) \<Rightarrow> nat \<Rightarrow> clock \<times> kernel \<Rightarrow> (clock \<times> kernel) option" where
  "ticks call 0 s = Some s"
| "ticks call (Suc n) s = Option.bind (alarm_tick call s) (ticks call n)"

definition two_threads :: kernel where
  "two_threads = sample_kernel\<lparr>k_threads := (\<lambda>_. thread_of EMPTY 0 0)
       (0 := thread_of READY 4 0, 1 := thread_of RUNNING 3 0),
     k_readyQ := [mos_tlist_init, mos_tlist_init, mos_tlist_init, mos_tlist_init,
        \<lparr>tl_head = Some 0, tl_tail = Some 0\<rparr>],
     k_sleepQ := mos_tlist_init, k_elapsed := 0\<rparr>"

definition no_alarms :: clock where
  "no_alarms = sample_clock\<lparr>c_head := None\<rparr>"

text \<open>A tick with no alarm pending, before the end of the slice, that wakes nobody.\<close>

lemma tick_quiet:
  assumes "c_head c = None" and "unat (c_tslice c) < 19"
    and "case tl_head (k_sleepQ k) of None \<Rightarrow> True
      | Some x \<Rightarrow> k_current k \<noteq> None \<and> t_st (k_threads k x) \<noteq> ucast (ucast (c_tslice c + 1) :: u8)"
  shows "alarm_tick call (c, k) = Some (c\<lparr>c_real_time := c_real_time c + 1, c_tslice := c_tslice c + 1\<rparr>,
     k\<lparr>k_elapsed := k_elapsed k + 1\<rparr>)"
proof -
  have "unat (c_tslice c + 1) = unat (c_tslice c) + 1" using assms(2) by (simp add: unat_add_u16)
  then have "\<not> 20 \<le> c_tslice c + 1" using assms(2) by (simp add: word_le_nat_alt)
  then show ?thesis
    using assms(1,3)
    by (auto simp: alarm_tick_def tick_alarms_def process_alarm_def check_sleep_time_def
      mos_tlist_head_def Let_def split: option.splits)
qed

lemma ticks_quiet:
  assumes "c_head c = None" and "unat (c_tslice c) + n < 20"
    and "case tl_head (k_sleepQ k) of None \<Rightarrow> True
      | Some x \<Rightarrow> k_current k \<noteq> None \<and> unat (c_tslice c) + n < unat (t_st (k_threads k x))"
  shows "ticks call n (c, k) = Some (c\<lparr>c_real_time := c_real_time c + of_nat n,
     c_tslice := c_tslice c + of_nat n\<rparr>, k\<lparr>k_elapsed := k_elapsed k + of_nat n\<rparr>)"
  using assms
proof (induction n arbitrary: c k)
  case (Suc n)
  have u: "unat (c_tslice c + 1) = unat (c_tslice c) + 1" using Suc.prems(2) by (simp add: unat_add_u16)
  have "unat (ucast (ucast (c_tslice c + 1) :: u8) :: u32) = unat (c_tslice c) + 1"
  proof -
    have "unat (ucast (c_tslice c + 1) :: u8) = unat (c_tslice c + 1) mod 256"
      by (simp add: unsigned_ucast_eq take_bit_eq_mod)
    moreover have "unat (ucast (w :: u8) :: u32) = unat w" for w
      by (simp add: unsigned_ucast_eq take_bit_nat_eq_self unat_u8_less [THEN less_trans])
    ultimately show ?thesis using u Suc.prems(2) by simp
  qed
  then have "alarm_tick call (c, k) = Some (c\<lparr>c_real_time := c_real_time c + 1, c_tslice := c_tslice c + 1\<rparr>,
     k\<lparr>k_elapsed := k_elapsed k + 1\<rparr>)"
    using Suc.prems by (intro tick_quiet) (auto split: option.splits)
  then show ?case
    using Suc.prems u Suc.IH [of "c\<lparr>c_real_time := c_real_time c + 1, c_tslice := c_tslice c + 1\<rparr>"
      "k\<lparr>k_elapsed := k_elapsed k + 1\<rparr>"]
    by (simp add: ac_simps split: option.splits)
qed simp

definition slept :: kernel where
  "slept = two_threads\<lparr>k_threads := (\<lambda>_. thread_of EMPTY 0 0)
       (0 := thread_of RUNNING 4 0, 1 := thread_of SLEEPING 3 15),
     k_current := Some 0,
     k_readyQ := [mos_tlist_init, mos_tlist_init, mos_tlist_init, mos_tlist_init,
        \<lparr>tl_head = None, tl_tail = Some 0\<rparr>],
     k_sleepQ := \<lparr>tl_head = Some 1, tl_tail = Some 1\<rparr>\<rparr>"

lemmas run_simps = Let_def mos_tlist_init_def mos_tlist_head_def mos_tlist_adjustst_def mos_tlist_remove_def
  mos_tlist_add_def adjustst_loop.simps wake_loop.simps pick_loop.simps dispatcher_def NUM_PRIORITIES_def
  rd_def ready_add_def

lemma sleeps: "mos_thread_sleep 15 (two_threads\<lparr>k_elapsed := 10\<rparr>) = Some slept"
  by (simp add: mos_thread_sleep_def two_threads_def slept_def sample_kernel_def thread_of_def
    mos_tlist_ordadd_def mos_thread_wakeup_noints_def run_simps fun_upd_twist)

lemma wakes: "\<exists>k. check_sleep_time 15 (slept\<lparr>k_elapsed := 5\<rparr>) = Some (True, k) \<and>
    k_current k = Some 1 \<and> t_state (k_threads k 1) = RUNNING"
  by (simp add: check_sleep_time_def slept_def two_threads_def sample_kernel_def thread_of_def
    mos_thread_wakeup_def run_simps)

lemma ticks_add: "ticks call (n + m) s = Option.bind (ticks call n s) (ticks call m)"
  by (induction n arbitrary: s) (auto simp: bind_eq_None_conv split: option.splits bind_splits)

text \<open>A sleeping thread can be woken too early.  \<open>check_sleep_time\<close> is called with the number of
  ticks of the time slice, which does not start again when a thread gives up the processor, while
  the sleep times are relative to the last context switch.  Here thread 1 sleeps for 15
  milliseconds after ten ticks of the slice and runs again after five.\<close>
theorem sleeper_woken_early:
  "mos_thread_sleep 15 (two_threads\<lparr>k_elapsed := 10\<rparr>) = Some slept \<and>
   ticks call 10 (no_alarms, two_threads) =
     Some (no_alarms\<lparr>c_real_time := 10, c_tslice := 10\<rparr>, two_threads\<lparr>k_elapsed := 10\<rparr>) \<and>
   (\<exists>c k. ticks call 5 (no_alarms\<lparr>c_real_time := 10, c_tslice := 10\<rparr>, slept) = Some (c, k) \<and>
      k_current k = Some 1 \<and> t_state (k_threads k 1) = RUNNING)"
proof -
  let ?c = "no_alarms\<lparr>c_real_time := 10, c_tslice := 10\<rparr>"
  have na: "c_head no_alarms = None" "c_tslice no_alarms = 0" "c_real_time no_alarms = 0"
    by (simp_all add: no_alarms_def sample_clock_def)
  have two: "tl_head (k_sleepQ two_threads) = None" "k_elapsed two_threads = 0"
    by (simp_all add: two_threads_def mos_tlist_init_def)
  have 1: "ticks call 10 (no_alarms, two_threads) = Some (?c, two_threads\<lparr>k_elapsed := 10\<rparr>)"
    using ticks_quiet [of no_alarms 10 two_threads call] na two by simp
  have sl: "tl_head (k_sleepQ slept) = Some 1" "k_current slept = Some 0" "t_st (k_threads slept 1) = 15"
    "k_elapsed slept = 0"
    by (simp_all add: slept_def two_threads_def thread_of_def)
  have 2: "ticks call 4 (?c, slept) = Some (no_alarms\<lparr>c_real_time := 14, c_tslice := 14\<rparr>, slept\<lparr>k_elapsed := 4\<rparr>)"
    using ticks_quiet [of ?c 4 slept call] na sl by simp
  obtain k where k: "check_sleep_time 15 (slept\<lparr>k_elapsed := 5\<rparr>) = Some (True, k)"
    "k_current k = Some 1" "t_state (k_threads k 1) = RUNNING" using wakes by blast
  have 3: "alarm_tick call (no_alarms\<lparr>c_real_time := 14, c_tslice := 14\<rparr>, slept\<lparr>k_elapsed := 4\<rparr>) =
      Some (no_alarms\<lparr>c_real_time := 15, c_tslice := 15\<rparr>, k)"
    using k(1) na by (simp add: alarm_tick_def tick_alarms_def process_alarm_def Let_def)
  have "ticks call 5 (?c, slept) = Option.bind (ticks call 4 (?c, slept)) (ticks call 1)"
    using ticks_add [of call 4 1 "(?c, slept)"] by simp
  with 2 3 have "ticks call 5 (?c, slept) = Some (no_alarms\<lparr>c_real_time := 15, c_tslice := 15\<rparr>, k)" by simp
  with sleeps 1 k(2,3) show ?thesis by blast
qed

section \<open>The time the processor sleeps\<close>

text \<open>The compare value that \<open>set_last_sleep_time\<close> computes for the 32 kHz timer is never zero,
  does not overflow its 16 bits and stands for the sleep time (4.1 timer units for a millisecond),
  which is at most 15984 milliseconds and never longer than the sleep time of the first
  sleeping thread or the time until the next alarm.\<close>
theorem sleep_compare_value:
  assumes "set_last_sleep_time x next_alarm k = (ocr, next_alarm', k')"
  shows "ocr \<noteq> 0 \<and> unat ocr \<le> 0xFFFE \<and>
    unat (k_last_sleep_time k') \<le> min 15984 (unat (t_st (k_threads k x))) \<and>
    (case next_alarm of None \<Rightarrow> True | Some a \<Rightarrow> unat (k_last_sleep_time k') \<le> unat a) \<and>
    (0 < unat (k_last_sleep_time k') \<longrightarrow> unat (k_last_sleep_time k') < 15984 \<longrightarrow>
       unat ocr = unat (k_last_sleep_time k') * 4 + unat (k_last_sleep_time k') div 10)"
proof -
  define st where "st = (case next_alarm of None \<Rightarrow> t_st (k_threads k x)
    | Some a \<Rightarrow> if a < t_st (k_threads k x) then a else t_st (k_threads k x))"
  have le: "unat st \<le> unat (t_st (k_threads k x))"
    "case next_alarm of None \<Rightarrow> True | Some a \<Rightarrow> unat st \<le> unat a"
    by (auto simp: st_def word_less_nat_alt split: option.splits)
  show ?thesis
  proof (cases "15984 < st")
    case True
    then have "ocr = 0xFFFE" "k_last_sleep_time k' = 15984"
      using assms by (auto simp: set_last_sleep_time_def Let_def st_def [symmetric])
    moreover have "15984 < unat st" using True by (simp add: word_less_nat_alt)
    ultimately show ?thesis using le by (auto split: option.splits)
  next
    case False
    then have s: "unat st \<le> 15984" by (simp add: word_less_nat_alt)
    let ?o = "ucast (st * 4 + st div 10) :: u16"
    have "unat (st * 4) = unat st * 4" using s by (simp add: unat_word_ariths)
    moreover have "unat (st div 10) = unat st div 10" by (simp add: unat_div)
    moreover have "unat st * 4 + unat st div 10 \<le> 65534" using s by linarith
    ultimately have "unat (st * 4 + st div 10) = unat st * 4 + unat st div 10"
      by (simp add: unat_add_u32_small)
    then have o: "unat ?o = unat st * 4 + unat st div 10"
      using s by (simp add: unsigned_ucast_eq take_bit_nat_eq_self)
    have l: "unat (ucast st :: u16) = unat st"
      using s by (simp add: unsigned_ucast_eq take_bit_nat_eq_self)
    have r: "ocr = (if ?o = 0 then 1 else ?o)" "k_last_sleep_time k' = ucast st"
      using assms False by (auto simp: set_last_sleep_time_def Let_def st_def [symmetric])
    have "?o = 0 \<longleftrightarrow> unat st = 0" using o by (metis add_is_0 div_0 mult_is_0 unat_eq_0 zero_neq_numeral)
    then show ?thesis using r o l s le by (auto split: option.splits)
  qed
qed

theorem sleep_compare_value_witness:
  "\<exists>o' a k'. set_last_sleep_time 3 (Some 100) sample_kernel = (o', a, k') \<and> o' \<noteq> 0 \<and>
     unat (k_last_sleep_time k') \<le> 40"
proof -
  obtain o' a k' where r: "set_last_sleep_time 3 (Some 100) sample_kernel = (o', a, k')"
    by (cases "set_last_sleep_time 3 (Some 100) sample_kernel") auto
  from sleep_compare_value [OF r] r show ?thesis by (simp add: sample_fields)
qed

end
