(* ===== verification/Wait_Queue.thy ===== *)
theory Wait_Queue
  imports Sched_Properties
begin

text \<open>
  What the synchronisation primitives share: a queue of blocked threads.  A primitive puts the
  running thread into its queue and suspends it, or takes the first thread out of the queue and
  resumes it.  The lemmas say what each of the two does to the kernel, to the queue, and to the
  queues of all other primitives (nothing).
\<close>

section \<open>Queues of blocked threads\<close>

definition waiting :: "kernel \<Rightarrow> tlist_t \<Rightarrow> tid list \<Rightarrow> bool" where
  "waiting k l ws \<longleftrightarrow> tlist_rep (k_threads k) l ws \<and>
     (\<forall>x \<in> set ws. x < MAX_THREADS \<and> t_state (k_threads k x) = BLOCKED)"

lemma waitingD:
  assumes "waiting k l ws"
  shows "tlist_rep (k_threads k) l ws" and "distinct ws"
    and "x \<in> set ws \<Longrightarrow> x < MAX_THREADS" and "x \<in> set ws \<Longrightarrow> t_state (k_threads k x) = BLOCKED"
  using assms by (auto simp: waiting_def tlist_rep_def)

lemma waiting_frame:
  assumes "waiting k l ws" and "\<And>x. x \<in> set ws \<Longrightarrow> k_threads k' x = k_threads k x"
  shows "waiting k' l ws"
  using assms tlist_rep_frame [of "k_threads k" l ws "k_threads k'"] by (simp add: waiting_def)

lemma waiting_init: "waiting k mos_tlist_init []"
  by (simp add: waiting_def tlist_rep_init)

lemma waiting_head: "waiting k l ws \<Longrightarrow> tl_head l = None \<longleftrightarrow> ws = []"
  using waitingD(1) [of k l ws] by (cases ws) (auto simp: tlist_rep_def)

text \<open>There are never more waiting threads than threads.\<close>

lemma waiting_length: "waiting k l ws \<Longrightarrow> length ws \<le> MAX_THREADS"
  using card_mono [of "{..<MAX_THREADS}" "set ws"] waitingD(2,3) [of k l ws]
  by (auto simp: distinct_card)

text \<open>A change of the links of threads outside the queues of the scheduler.\<close>

lemma represents_links:
  assumes rep: "represents k qs sl c" and lo: "links_only X (k_threads k) h"
    and X: "\<And>x. x \<in> X \<Longrightarrow> t_state (k_threads k x) \<noteq> READY \<and> t_state (k_threads k x) \<noteq> SLEEPING"
  shows "represents (k\<lparr>k_threads := h\<rparr>) qs sl c"
proof (rule representsI)
  note r = representsD [OF rep]
  note q = queues_okD [OF r(1)]
  note f = links_only_fields [OF lo]
  have sets: "ready_set h p = ready_set (k_threads k) p" "sleep_set h = sleep_set (k_threads k)" for p
    by (simp_all add: ready_set_def sleep_set_def f)
  have "tlist_rep h (k_readyQ k ! p) (qs p)" if p: "p < NUM_PRIORITIES" for p
  proof (rule tlist_rep_frame [OF q(2) [OF p]])
    fix y assume "y \<in> set (qs p)"
    then have "y \<notin> X" using q(3) [OF p] X by (auto simp: ready_set_def)
    then show "t_next (h y) = t_next (k_threads k y)" using links_only_same [OF lo] by simp
  qed
  moreover have "tlist_rep h (k_sleepQ k) (map fst sl)"
  proof (rule tlist_rep_frame [OF q(4)])
    fix y assume "y \<in> set (map fst sl)"
    then have "y \<notin> X" unfolding q(5) using X by (auto simp: sleep_set_def)
    then show "t_next (h y) = t_next (k_threads k y)" using links_only_same [OF lo] by simp
  qed
  ultimately show "queues_ok (k_threads (k\<lparr>k_threads := h\<rparr>)) (k_readyQ (k\<lparr>k_threads := h\<rparr>))
      (k_sleepQ (k\<lparr>k_threads := h\<rparr>)) qs (map fst sl)"
    using q(1,3,5,6) by (simp add: queues_ok_def sets f)
  show "tdue (k_threads (k\<lparr>k_threads := h\<rparr>)) 0 (map fst sl) = sl"
    using tdue_frame [of "map fst sl" h "k_threads k" 0] f(1) r(5) by simp
  show "k_current (k\<lparr>k_threads := h\<rparr>) = Some c" "c < MAX_THREADS" using r(2,3) by simp_all
  fix y assume "y < MAX_THREADS" "t_state (k_threads (k\<lparr>k_threads := h\<rparr>) y) = RUNNING"
  then show "y = c" using r(4) [of y] f(2) by simp
qed

lemma represents_same:
  assumes rep: "represents k qs sl c"
    and n: "\<And>y. t_next (h y) = t_next (k_threads k y)" and s: "\<And>y. t_state (h y) = t_state (k_threads k y)"
    and p: "\<And>y. t_priority (h y) = t_priority (k_threads k y)" and t: "\<And>y. t_st (h y) = t_st (k_threads k y)"
  shows "represents (k\<lparr>k_threads := h\<rparr>) qs sl c"
proof -
  note r = representsD [OF rep]
  have "tlist_rep h l xs = tlist_rep (k_threads k) l xs" for l xs
    by (simp add: tlist_rep_def n)
  then have "queues_ok h (k_readyQ k) (k_sleepQ k) qs (map fst sl)"
    using r(1) by (simp add: queues_ok_def ready_set_def sleep_set_def s p)
  moreover have "tdue h 0 (map fst sl) = sl" using r(5) by (simp add: t)
  ultimately show ?thesis
  proof (intro representsI)
    fix y assume "y < MAX_THREADS" "t_state (k_threads (k\<lparr>k_threads := h\<rparr>) y) = RUNNING"
    then show "y = c" using r(4) [of y] by (simp add: s)
  qed (use r(2,3) in simp_all)
qed

lemma waiting_idle:
  assumes "waiting k l ws" and "t_state (k_threads k c) = RUNNING" and "y \<in> insert c (set ws)"
  shows "t_state (k_threads k y) \<noteq> READY \<and> t_state (k_threads k y) \<noteq> SLEEPING"
  using assms(2,3) waitingD(4) [OF assms(1), of y] by (cases "y = c") simp_all

section \<open>Blocking the running thread\<close>

text \<open>\<open>mos_tlist_add(&q, current); mos_thread_suspend_noints(...)\<close>\<close>

lemma block_on:
  assumes rep: "represents k qs sl c" and run: "t_state (k_threads k c) = RUNNING"
    and w: "waiting k l ws"
  shows "\<exists>l' h. mos_tlist_add l c (k_threads k) = Some (l', h) \<and>
    switched k (mos_thread_suspend_noints (k\<lparr>k_threads := h\<rparr>))
      (switch_to (prio_of (k_threads k)) (unat (k_elapsed k)) False c qs sl) \<and>
    (\<forall>k'. mos_thread_suspend_noints (k\<lparr>k_threads := h\<rparr>) = Some k' \<longrightarrow>
       waiting k' l' (ws @ [c]) \<and>
       (\<forall>y. y \<notin> set ws \<longrightarrow> t_state (k_threads k y) = BLOCKED \<longrightarrow> k_threads k' y = k_threads k y))"
proof -
  have nc: "c \<notin> set ws" using waitingD(4) [OF w] run by force
  from mos_tlist_add_ok [OF waitingD(1) [OF w] nc] obtain l' h where a:
    "mos_tlist_add l c (k_threads k) = Some (l', h)" "tlist_rep h l' (ws @ [c])"
    "links_only (insert c (set ws)) (k_threads k) h" by blast
  let ?k = "k\<lparr>k_threads := h\<rparr>"
  note f = links_only_fields [OF a(3)]
  have rep1: "represents ?k qs sl c"
    by (rule represents_links [OF rep a(3) waiting_idle [OF w run]])
  have run1: "t_state (k_threads ?k c) = RUNNING" using run f(2) by simp
  have pr: "prio_of h = prio_of (k_threads k)" using f(3) by (simp add: prio_of_def fun_eq_iff)
  have sw: "switched k (mos_thread_suspend_noints ?k)
      (switch_to (prio_of (k_threads k)) (unat (k_elapsed k)) False c qs sl)"
    by (rule switched_cong [OF suspend_ok [OF rep1 run1, simplified, unfolded pr]]) (simp_all add: pr)
  have "waiting k' l' (ws @ [c]) \<and>
      (\<forall>y. y \<notin> set ws \<longrightarrow> t_state (k_threads k y) = BLOCKED \<longrightarrow> k_threads k' y = k_threads k y)"
    if s: "mos_thread_suspend_noints ?k = Some k'" for k'
  proof -
    from suspend_state_ok [OF rep1 run1, of SUSPEND_STATE_IDLE] obtain k1 where k1:
      "block_current SUSPEND_STATE_IDLE ?k = Some k1" "represents k1 qs sl c" "k_elapsed k1 = k_elapsed ?k"
      "t_state (k_threads k1 c) = BLOCKED" "t_next (k_threads k1 c) = None"
      "\<forall>y. y \<noteq> c \<longrightarrow> k_threads k1 y = h y" by auto
    have "mos_thread_wakeup (ucast (k_elapsed k1)) k1 = Some k'"
      using s k1(1) by (simp add: mos_thread_suspend_noints_def wakeup_noints_eq)
    note bs = blocked_sameD(1) [OF wakeup_keeps [OF k1(2) this]]
    have last: "t_next (h c) = None"
      using chain_append [of _ _ ws c "[]"] a(2) by (auto simp: tlist_rep_def)
    have k': "k_threads k' y = k_threads k1 y" if "y \<in> insert c (set ws)" for y
    proof (cases "y = c")
      case False
      then have "t_state (k_threads k1 y) = BLOCKED"
        using that k1(6) f(2) waitingD(4) [OF w] by simp
      then show ?thesis by (rule bs)
    qed (use bs k1(4) in simp)
    have "tlist_rep (k_threads k') l' (ws @ [c])"
    proof (rule tlist_rep_frame [OF a(2)])
      fix y assume "y \<in> set (ws @ [c])"
      then show "t_next (k_threads k' y) = t_next (h y)" using k' k1(5,6) last by (cases "y = c") auto
    qed
    moreover have "x < MAX_THREADS \<and> t_state (k_threads k' x) = BLOCKED" if "x \<in> set (ws @ [c])" for x
      using that k' [of x] k1(4,6) f(2) waitingD(3,4) [OF w, of x] representsD(3) [OF rep]
      by (cases "x = c") auto
    moreover have "k_threads k' y = k_threads k y" if y: "y \<notin> set ws" "t_state (k_threads k y) = BLOCKED" for y
    proof -
      have "y \<noteq> c" using y run by auto
      then have "k_threads k1 y = k_threads k y" using k1(6) links_only_same [OF a(3)] y(1) by simp
      then show ?thesis using bs [of y] y(2) by simp
    qed
    ultimately show ?thesis by (simp add: waiting_def)
  qed
  with a(1) sw show ?thesis by blast
qed

section \<open>Resuming the first thread of a queue\<close>

lemma wake_none:
  assumes "waiting k l []"
  shows "mos_tlist_remove l (k_threads k) = (None, l, k_threads k)"
  using mos_tlist_remove_nil [OF waitingD(1) [OF assms]] .

lemma unlink_first:
  assumes rep: "represents k qs sl c" and w: "waiting k l (x # ws)"
  shows "\<exists>l' h. mos_tlist_remove l (k_threads k) = (Some x, l', h) \<and>
    represents (k\<lparr>k_threads := h\<rparr>) qs sl c \<and> waiting (k\<lparr>k_threads := h\<rparr>) l' ws \<and>
    links_only {x} (k_threads k) h"
proof -
  let ?l = "l\<lparr>tl_head := t_next (k_threads k x)\<rparr>" and ?h = "set_next x None (k_threads k)"
  note a = mos_tlist_remove_ok [OF waitingD(1) [OF w]]
  have lo: "links_only {x} (k_threads k) ?h" by (auto simp: links_only_def ex_next)
  moreover have "represents (k\<lparr>k_threads := ?h\<rparr>) qs sl c"
    using waitingD(4) [OF w] by (intro represents_links [OF rep lo]) simp
  moreover have "waiting (k\<lparr>k_threads := ?h\<rparr>) ?l ws"
    using a(2) waitingD(2-4) [OF w] by (simp add: waiting_def)
  ultimately show ?thesis using a(1) by blast
qed

text \<open>Resumed with a context switch (\<open>mos_thread_resume_noints\<close>, \<open>mos_thread_resume\<close>).\<close>

lemma resume_keeps:
  assumes rep: "represents k qs sl c" and run: "t_state (k_threads k c) = RUNNING"
    and x: "x < MAX_THREADS" and s: "mos_thread_resume_noints x k = Some k'"
    and y: "y \<noteq> x" "t_state (k_threads k y) = BLOCKED"
  shows "k_threads k' y = k_threads k y"
proof (cases "t_state (k_threads k x) = BLOCKED")
  case False
  then have "mos_thread_wakeup (ucast (k_elapsed k)) k = Some k'"
    using s by (simp add: mos_thread_resume_noints_def unblock_def wakeup_noints_eq)
  with blocked_sameD(1) [OF wakeup_keeps [OF rep]] y(2) show ?thesis by blast
next
  case True
  from unblock_ok [OF rep x True] obtain k1 qs1 where k1: "unblock x k = Some k1"
    "represents k1 qs1 sl c" "\<forall>y. y \<noteq> x \<longrightarrow> t_state (k_threads k y) = BLOCKED \<longrightarrow> k_threads k1 y = k_threads k y"
    by blast
  have "mos_thread_wakeup (ucast (k_elapsed k1)) k1 = Some k'"
    using s k1(1) by (simp add: mos_thread_resume_noints_def wakeup_noints_eq)
  from blocked_sameD(1) [OF wakeup_keeps [OF k1(2) this], of y] k1(3) y show ?thesis by simp
qed

lemma wake_first:
  assumes rep: "represents k qs sl c" and run: "t_state (k_threads k c) = RUNNING"
    and w: "waiting k l (x # ws)"
  shows "\<exists>l' h. mos_tlist_remove l (k_threads k) = (Some x, l', h) \<and>
    switched k (mos_thread_resume_noints x (k\<lparr>k_threads := h\<rparr>))
      (switch_to (prio_of (k_threads k)) (unat (k_elapsed k)) True c
         (requeue (prio_of (k_threads k)) [x] qs) sl) \<and>
    (\<forall>k'. mos_thread_resume_noints x (k\<lparr>k_threads := h\<rparr>) = Some k' \<longrightarrow> waiting k' l' ws \<and>
       (\<forall>y. y \<noteq> x \<longrightarrow> t_state (k_threads k y) = BLOCKED \<longrightarrow> k_threads k' y = k_threads k y))"
proof -
  from unlink_first [OF rep w] obtain l' h where a:
    "mos_tlist_remove l (k_threads k) = (Some x, l', h)" "represents (k\<lparr>k_threads := h\<rparr>) qs sl c"
    "waiting (k\<lparr>k_threads := h\<rparr>) l' ws" "links_only {x} (k_threads k) h" by blast
  let ?k = "k\<lparr>k_threads := h\<rparr>"
  note f = links_only_fields [OF a(4)]
  have x: "x < MAX_THREADS" "t_state (k_threads k x) = BLOCKED" "x \<notin> set ws"
    using waitingD(2-4) [OF w] by auto
  have run1: "t_state (k_threads ?k c) = RUNNING" using run f(2) by simp
  have pr: "prio_of h = prio_of (k_threads k)" using f(3) by (simp add: prio_of_def fun_eq_iff)
  have sw: "switched k (mos_thread_resume_noints x ?k)
      (switch_to (prio_of (k_threads k)) (unat (k_elapsed k)) True c
         (requeue (prio_of (k_threads k)) [x] qs) sl)"
  proof (rule switched_cong)
    have "t_state (k_threads ?k x) = BLOCKED" using x(2) f(2) by simp
    with resume_ok [OF a(2) run1 x(1)] show "switched ?k (mos_thread_resume_noints x ?k)
        (switch_to (prio_of (k_threads k)) (unat (k_elapsed k)) True c
          (requeue (prio_of (k_threads k)) [x] qs) sl)"
      by (simp add: pr)
  qed (simp_all add: pr)
  have "waiting k' l' ws \<and>
      (\<forall>y. y \<noteq> x \<longrightarrow> t_state (k_threads k y) = BLOCKED \<longrightarrow> k_threads k' y = k_threads k y)"
    if s: "mos_thread_resume_noints x ?k = Some k'" for k'
  proof -
    have keep: "k_threads k' y = h y" if "y \<noteq> x" "t_state (h y) = BLOCKED" for y
      using resume_keeps [OF a(2) run1 x(1) s, of y] that by simp
    have "waiting k' l' ws"
    proof (rule waiting_frame [OF a(3)])
      fix y assume "y \<in> set ws"
      then have "y \<noteq> x" "t_state (h y) = BLOCKED" using waitingD(4) [OF a(3), of y] x(3) by auto
      then show "k_threads k' y = k_threads ?k y" using keep by simp
    qed
    moreover have "k_threads k' y = k_threads k y" if "y \<noteq> x" "t_state (k_threads k y) = BLOCKED" for y
      using keep [of y] that f(2) links_only_same [OF a(4), of y] by simp
    ultimately show ?thesis by blast
  qed
  with a(1) sw show ?thesis by blast
qed

text \<open>Resumed without a context switch (\<open>mos_thread_resume_noints_nodispatch\<close>).\<close>

lemma wake_first_nodispatch:
  assumes rep: "represents k qs sl c" and run: "t_state (k_threads k c) = RUNNING"
    and w: "waiting k l (x # ws)"
  shows "\<exists>l' h k'. mos_tlist_remove l (k_threads k) = (Some x, l', h) \<and>
    mos_thread_resume_noints_nodispatch x (k\<lparr>k_threads := h\<rparr>) = Some k' \<and>
    represents k' (requeue (prio_of (k_threads k)) [x] qs) sl c \<and> waiting k' l' ws \<and>
    (\<forall>y. t_state (k_threads k' y) = (if y = x then READY else t_state (k_threads k y))) \<and>
    (\<forall>y. y \<noteq> x \<longrightarrow> t_state (k_threads k y) = BLOCKED \<longrightarrow> k_threads k' y = k_threads k y)"
proof -
  from unlink_first [OF rep w] obtain l' h where a:
    "mos_tlist_remove l (k_threads k) = (Some x, l', h)" "represents (k\<lparr>k_threads := h\<rparr>) qs sl c"
    "waiting (k\<lparr>k_threads := h\<rparr>) l' ws" "links_only {x} (k_threads k) h" by blast
  let ?k = "k\<lparr>k_threads := h\<rparr>"
  note f = links_only_fields [OF a(4)]
  have x: "x < MAX_THREADS" "t_state (k_threads k x) = BLOCKED" "x \<notin> set ws"
    using waitingD(2-4) [OF w] by auto
  have b: "t_state (k_threads ?k x) = BLOCKED" using x(2) f(2) by simp
  have pr: "prio_of h = prio_of (k_threads k)" using f(3) by (simp add: prio_of_def fun_eq_iff)
  from unblock_ok [OF a(2) x(1) b] obtain k1 where k1: "unblock x ?k = Some k1"
    "represents k1 (requeue (prio_of (k_threads k)) [x] qs) sl c"
    "\<forall>y. t_state (k_threads k1 y) = (if y = x then READY else t_state (h y))"
    "\<forall>y. y \<noteq> x \<longrightarrow> t_state (h y) = BLOCKED \<longrightarrow> k_threads k1 y = h y" using pr by auto
  let ?t = "(k_threads k1 x)\<lparr>t_waiting_for := None\<rparr>"
  let ?k' = "k1\<lparr>k_threads := (k_threads k1)(x := ?t)\<rparr>"
  have s: "mos_thread_resume_noints_nodispatch x ?k = Some ?k'"
    using b k1(1) by (simp add: mos_thread_resume_noints_nodispatch_def)
  note r = representsD [OF k1(2)]
  have st': "t_state (k_threads ?k' y) = t_state (k_threads k1 y)" for y by simp
  have "represents ?k' (requeue (prio_of (k_threads k)) [x] qs) sl c"
    by (rule represents_same [OF k1(2)]) simp_all
  moreover have "waiting ?k' l' ws"
  proof (rule waiting_frame [OF a(3)])
    fix y assume "y \<in> set ws"
    then show "k_threads ?k' y = k_threads ?k y" using k1(4) waitingD(4) [OF a(3), of y] x(3) by auto
  qed
  moreover have "t_state (k_threads ?k' y) = (if y = x then READY else t_state (k_threads k y))" for y
    unfolding st' using k1(3) f(2) by simp
  moreover have "k_threads ?k' y = k_threads k y" if "y \<noteq> x" "t_state (k_threads k y) = BLOCKED" for y
    using k1(4) that f(2) links_only_same [OF a(4), of y] by simp
  ultimately show ?thesis using a(1) s by blast
qed

section \<open>What any step of the kernel does to a blocked thread\<close>

text \<open>A thread that is blocked before and after a step of the kernel is not touched by it.\<close>

definition untouched :: "tid \<Rightarrow> kernel \<Rightarrow> kernel \<Rightarrow> bool" where
  "untouched x k k' \<longleftrightarrow> (t_state (k_threads k x) = BLOCKED \<longrightarrow> t_state (k_threads k' x) = BLOCKED \<longrightarrow>
     k_threads k' x = k_threads k x)"

lemma untouchedI: "blocked_same (k_threads k) (k_threads k') \<Longrightarrow> untouched x k k'"
  by (simp add: untouched_def blocked_sameD(1))

lemma untouched_before:
  assumes "blocked_same (k_threads k1) (k_threads k')"
    and "t_state (k_threads k x) = BLOCKED \<Longrightarrow> t_state (k_threads k1 x) = BLOCKED \<Longrightarrow>
      k_threads k1 x = k_threads k x"
  shows "untouched x k k'"
  unfolding untouched_def using blocked_sameD(2) [OF assms(1), of x] assms(2) by metis

lemma unblock_untouched:
  assumes rep: "represents k qs sl c" and z: "z < MAX_THREADS" and u: "unblock z k = Some k1"
    and x: "t_state (k_threads k x) = BLOCKED" "t_state (k_threads k1 x) = BLOCKED"
  shows "k_threads k1 x = k_threads k x"
proof (cases "t_state (k_threads k z) = BLOCKED")
  case False
  then show ?thesis using u by (simp add: unblock_def)
next
  case True
  from unblock_ok [OF rep z True] u have
    "\<forall>y. t_state (k_threads k1 y) = (if y = z then READY else t_state (k_threads k y))"
    "\<forall>y. y \<noteq> z \<longrightarrow> t_state (k_threads k y) = BLOCKED \<longrightarrow> k_threads k1 y = k_threads k y" by simp_all
  with x show ?thesis by (cases "x = z") auto
qed

lemma resume_untouched:
  assumes rep: "represents k qs sl c" and z: "z < MAX_THREADS" and s: "mos_thread_resume_noints z k = Some k'"
  shows "untouched x k k'"
proof -
  obtain k1 where k1: "unblock z k = Some k1" "mos_thread_wakeup (ucast (k_elapsed k1)) k1 = Some k'"
    using s by (auto simp: mos_thread_resume_noints_def wakeup_noints_eq bind_eq_Some_conv)
  have "\<exists>qs1. represents k1 qs1 sl c"
  proof (cases "t_state (k_threads k z) = BLOCKED")
    case False
    then show ?thesis using rep k1(1) by (auto simp: unblock_def)
  next
    case True
    from unblock_ok [OF rep z True] k1(1) show ?thesis by auto
  qed
  then obtain qs1 where "represents k1 qs1 sl c" by blast
  from untouched_before [OF wakeup_keeps [OF this k1(2)] unblock_untouched [OF rep z k1(1)]]
  show ?thesis .
qed

lemma sleep_untouched:
  assumes rep: "represents k qs sl c" and run: "t_state (k_threads k c) = RUNNING"
    and s: "mos_thread_sleep d k = Some k'"
  shows "untouched x k k'"
proof -
  from sleep_insert [OF rep run, of d] obtain l h sl' where o:
    "mos_tlist_ordadd (k_sleepQ k) c ((k_threads k)(c := (k_threads k c)
      \<lparr>t_state := SLEEPING, t_st := d + ucast (k_elapsed k)\<rparr>)) = Some (l, h)"
    "represents (k\<lparr>k_sleepQ := l, k_threads := h\<rparr>) qs sl' c" "blocked_same (k_threads k) h" by blast
  have "mos_thread_wakeup (ucast (k_elapsed k)) (k\<lparr>k_sleepQ := l, k_threads := h\<rparr>) = Some k'"
    using s representsD(2) [OF rep] o(1) by (simp add: mos_thread_sleep_def wakeup_noints_eq Let_def)
  from wakeup_keeps [OF o(2) this] blocked_same_trans [OF o(3)] show ?thesis
    by (intro untouchedI) simp
qed

lemma block_untouched:
  assumes rep: "represents k qs sl c" and run: "t_state (k_threads k c) = RUNNING"
    and s: "block_current u k = Some k1" "mos_thread_wakeup t k1 = Some k'"
  shows "untouched x k k'"
proof -
  from suspend_state_ok [OF rep run, of u] s(1) have k1: "represents k1 qs sl c"
    "\<forall>y. y \<noteq> c \<longrightarrow> k_threads k1 y = k_threads k y" by simp_all
  have "k_threads k1 x = k_threads k x" if "t_state (k_threads k x) = BLOCKED"
  proof -
    have "x \<noteq> c" using run that by auto
    then show ?thesis using k1(2) by blast
  qed
  from untouched_before [OF wakeup_keeps [OF k1(1) s(2)] this] show ?thesis .
qed

lemma created_untouched:
  assumes "created k k' sl c"
  shows "untouched x k k'"
proof -
  from assms obtain k1 qs1 where k1: "represents k1 qs1 sl c"
    "blocked_same (k_threads k) (k_threads k1)" "k' = k1 \<or> dispatcher k1 = Some k'" unfolding created_def by blast
  from k1(3) show ?thesis
    using k1(2) blocked_same_trans [OF k1(2) dispatcher_keeps [OF k1(1)]] untouchedI by blast
qed

lemma kstep_untouched:
  assumes "kstep k k'" and "kernel_ok k"
  shows "untouched x k k'"
  using assms
proof (induction rule: kstep.induct)
  case (sleep s k k')
  then show ?case using sleep_untouched by (metis kernel_ok_def)
next
  case (suspend_state s k k')
  then obtain k1 u where "block_current u k = Some k1" "mos_thread_wakeup (ucast (k_elapsed k1)) k1 = Some k'"
    by (auto simp: mos_thread_suspend_state_def wakeup_noints_eq bind_eq_Some_conv Let_def)
  with suspend_state.prems show ?case using block_untouched by (metis kernel_ok_def)
next
  case (suspend k k')
  then obtain k1 where "block_current SUSPEND_STATE_IDLE k = Some k1"
    "mos_thread_wakeup (ucast (k_elapsed k1)) k1 = Some k'"
    by (auto simp: mos_thread_suspend_noints_def wakeup_noints_eq bind_eq_Some_conv Let_def)
  with suspend.prems show ?case using block_untouched by (metis kernel_ok_def)
next
  case (resume z k k')
  then show ?case using resume_untouched by (metis kernel_ok_def resume_eq)
next
  case (resume_noints z k k')
  then show ?case using resume_untouched by (metis kernel_ok_def)
next
  case (resume_nodispatch z k k')
  then obtain qs sl c where rep: "represents k qs sl c" by (auto simp: kernel_ok_def)
  show ?case
  proof (cases "t_state (k_threads k z) = BLOCKED")
    case False
    then show ?thesis using resume_nodispatch by (simp add: mos_thread_resume_noints_nodispatch_def untouched_def)
  next
    case True
    then obtain k1 where k1: "unblock z k = Some k1"
      "k' = k1\<lparr>k_threads := (k_threads k1)(z := (k_threads k1 z)\<lparr>t_waiting_for := None\<rparr>)\<rparr>"
      using resume_nodispatch.hyps(2)
      by (auto simp: mos_thread_resume_noints_nodispatch_def bind_eq_Some_conv Let_def)
    from unblock_ok [OF rep resume_nodispatch.hyps(1) True] k1(1) have st:
      "t_state (k_threads k1 z) = READY" by simp
    show ?thesis
    proof (cases "x = z")
      case True
      then show ?thesis using k1(2) st by (simp add: untouched_def)
    next
      case False
      then show ?thesis
        using unblock_untouched [OF rep resume_nodispatch.hyps(1) k1(1), of x] k1(2)
        by (simp add: untouched_def)
    qed
  qed
next
  case (wakeup t k k')
  then show ?case using wakeup_keeps untouchedI by (metis kernel_ok_def)
next
  case (check u k b k')
  then consider "k' = k" | "mos_thread_wakeup (ucast u) k = Some k'"
    by (auto simp: check_sleep_time_def bind_eq_Some_conv split: option.splits if_splits)
  then show ?case
  proof cases
    case 2
    with check.prems show ?thesis using wakeup_keeps untouchedI by (metis kernel_ok_def)
  qed (simp add: untouched_def)
next
  case (new f sz pr k r k')
  then obtain qs sl c where "represents k qs sl c" "t_state (k_threads k c) = RUNNING"
    by (auto simp: kernel_ok_def)
  from thread_new_cases [OF new.hyps this] show ?case by (rule created_untouched)
next
  case (havestack f sz a pr k r k')
  then obtain qs sl c where "represents k qs sl c" "t_state (k_threads k c) = RUNNING"
    by (auto simp: kernel_ok_def)
  from havestack_cases [OF havestack.hyps this] show ?case by (rule created_untouched)
next
  case (sched_start k k')
  then obtain qs sl c where "represents k qs sl c" by (auto simp: kernel_ok_def)
  then have "represents (k\<lparr>k_running := True\<rparr>) qs sl c" by (rule represents_fields) simp_all
  from dispatcher_keeps [OF this] sched_start.hyps have "blocked_same (k_threads k) (k_threads k')"
    by (simp add: mos_sched_start_def)
  then show ?case by (rule untouchedI)
next
  case (exit k k')
  then obtain qs sl c where "represents k qs sl c" "t_state (k_threads k c) = RUNNING"
    by (auto simp: kernel_ok_def)
  from thread_exit_cases [OF exit.hyps this] obtain k1 where k1: "represents k1 qs sl c"
    "blocked_same (k_threads k) (k_threads k1)" "dispatcher k1 = Some k'" by blast
  from blocked_same_trans [OF k1(2) dispatcher_keeps [OF k1(1,3)]] show ?case by (rule untouchedI)
qed (simp_all add: untouched_def mos_single_threaded_def mos_multi_threaded_def)

lemma waiting_step:
  assumes "kstep k k'" and "kernel_ok k" and w: "waiting k l ws"
    and "\<And>x. x \<in> set ws \<Longrightarrow> t_state (k_threads k' x) = BLOCKED"
  shows "waiting k' l ws"
  using kstep_untouched [OF assms(1,2)] waitingD(4) [OF w] assms(4)
  by (intro waiting_frame [OF w]) (simp add: untouched_def)

end
