(* ===== verification/Semaphore.thy ===== *)
theory Semaphore
  imports Wait_Queue
begin

text \<open>
  The counting semaphores of the kernel (\<open>kernel/micro/semaphore.c\<close>).  Every operation runs with
  interrupts disabled and ends with at most one context switch, so it is one atomic transition of
  the semaphore and the kernel.
\<close>

section \<open>The operations\<close>

record mos_sem =
  s_val :: u8
  s_q :: tlist_t

definition SEM_SUCCESS :: u8 where "SEM_SUCCESS = 0"
definition SEM_FAIL :: u8 where "SEM_FAIL = 1"

definition mos_sem_init :: "u16 \<Rightarrow> mos_sem" where
  "mos_sem_init value = \<lparr>s_val = ucast value, s_q = mos_tlist_init\<rparr>"

definition mos_sem_select_post :: "tid option \<Rightarrow> mos_sem \<Rightarrow> kernel \<Rightarrow> (mos_sem \<times> kernel) option" where
  "mos_sem_select_post thread s k = do {
     let s = s\<lparr>s_val := s_val s + 1\<rparr>;
     (selected, q, h) \<leftarrow> mos_tlist_get_thread (s_q s) thread (k_threads k);
     let s = s\<lparr>s_q := q\<rparr>;
     let k = k\<lparr>k_threads := h\<rparr>;
     case selected of
       Some x \<Rightarrow> do { k \<leftarrow> mos_thread_resume_noints x k; Some (s, k) }
     | None \<Rightarrow> Some (s, k) }"

definition mos_sem_post_dispatch :: "mos_sem \<Rightarrow> kernel \<Rightarrow> (mos_sem \<times> kernel) option" where
  "mos_sem_post_dispatch s k = do {
     let s = s\<lparr>s_val := s_val s + 1\<rparr>;
     let (thread, q, h) = mos_tlist_remove (s_q s) (k_threads k);
     let s = s\<lparr>s_q := q\<rparr>;
     let k = k\<lparr>k_threads := h\<rparr>;
     case thread of
       Some x \<Rightarrow> do { k \<leftarrow> mos_thread_resume_noints x k; Some (s, k) }
     | None \<Rightarrow> Some (s, k) }"

definition mos_sem_post :: "mos_sem \<Rightarrow> kernel \<Rightarrow> (mos_sem \<times> kernel) option" where
  "mos_sem_post s k = do {
     let s = s\<lparr>s_val := s_val s + 1\<rparr>;
     let (thread, q, h) = mos_tlist_remove (s_q s) (k_threads k);
     let s = s\<lparr>s_q := q\<rparr>;
     let k = k\<lparr>k_threads := h\<rparr>;
     case thread of
       Some x \<Rightarrow> do { k \<leftarrow> mos_thread_resume_noints_nodispatch x k; Some (s, k) }
     | None \<Rightarrow> Some (s, k) }"

text \<open>The value is an \<open>int8_t\<close>: the comparisons are signed.\<close>

definition mos_sem_wait :: "mos_sem \<Rightarrow> kernel \<Rightarrow> (mos_sem \<times> kernel) option" where
  "mos_sem_wait s k = do {
     let s = s\<lparr>s_val := s_val s - 1\<rparr>;
     if sint (s_val s) < 0 then do {
       x \<leftarrow> k_current k;
       (q, h) \<leftarrow> mos_tlist_add (s_q s) x (k_threads k);
       k \<leftarrow> mos_thread_suspend_noints (k\<lparr>k_threads := h\<rparr>);
       Some (s\<lparr>s_q := q\<rparr>, k)
     } else Some (s, k) }"

definition mos_sem_try_wait :: "mos_sem \<Rightarrow> u8 \<times> mos_sem" where
  "mos_sem_try_wait s =
     (if 0 < sint (s_val s) then (SEM_SUCCESS, s\<lparr>s_val := s_val s - 1\<rparr>) else (SEM_FAIL, s))"

section \<open>The abstract semaphore\<close>

text \<open>The units that are free and the threads that wait, in the order in which they came; the
  code keeps the difference of the two numbers.\<close>

definition sem_rep :: "kernel \<Rightarrow> mos_sem \<Rightarrow> nat \<Rightarrow> tid list \<Rightarrow> bool" where
  "sem_rep k s n ws \<longleftrightarrow> waiting k (s_q s) ws \<and> sint (s_val s) = int n - int (length ws) \<and>
     (n = 0 \<or> ws = [])"

lemma sem_repD:
  assumes "sem_rep k s n ws"
  shows "waiting k (s_q s) ws" and "sint (s_val s) = int n - int (length ws)" and "n = 0 \<or> ws = []"
  using assms by (simp_all add: sem_rep_def)

lemma sint_u8_range: "- 128 \<le> sint (v :: u8)" "sint (v :: u8) < 128"
  using sint_greater_eq [of v] sint_less [of v] by simp_all

lemma sint_u8_add1: "sint (v :: u8) < 127 \<Longrightarrow> sint (v + 1) = sint v + 1"
  using sint_u8_range [of v] by (simp add: sint_word_ariths signed_take_bit_int_eq_self)

lemma sint_u8_sub1: "- 128 < sint (v :: u8) \<Longrightarrow> sint (v - 1) = sint v - 1"
  using sint_u8_range [of v] by (simp add: sint_word_ariths signed_take_bit_int_eq_self)

lemma sem_init_rep:
  assumes "v < 128"
  shows "sem_rep k (mos_sem_init v) (unat v) []"
proof -
  have u: "uint v < 128" "- 128 \<le> uint v"
    using assms uint_ge_0 [of v] by (simp add: word_less_alt, linarith)
  have "uint (ucast v :: u8) = uint v"
    using u by (simp add: unsigned_ucast_eq take_bit_int_eq_self)
  then have "sint (ucast v :: u8) = int (unat v)"
    using u by (simp add: sint_uint signed_take_bit_int_eq_self)
  then show ?thesis by (simp add: sem_rep_def mos_sem_init_def waiting_init)
qed

text \<open>Waiting: a free unit is taken at once; otherwise the thread joins the end of the queue.\<close>

lemma sem_wait_free:
  assumes "sem_rep k s n ws" and "0 < n"
  shows "\<exists>s'. mos_sem_wait s k = Some (s', k) \<and> sem_rep k s' (n - 1) []"
proof -
  note r = sem_repD [OF assms(1)]
  have "sint (s_val s - 1) = sint (s_val s) - 1" using r(2,3) assms(2) by (intro sint_u8_sub1) auto
  then show ?thesis using r assms(2) by (auto simp: mos_sem_wait_def sem_rep_def Let_def)
qed

lemma sem_wait_block:
  assumes s: "sem_rep k s 0 ws" and rep: "represents k qs sl c" and run: "t_state (k_threads k c) = RUNNING"
  shows "switched k (map_option snd (mos_sem_wait s k))
      (switch_to (prio_of (k_threads k)) (unat (k_elapsed k)) False c qs sl) \<and>
    (\<forall>s' k'. mos_sem_wait s k = Some (s', k') \<longrightarrow> sem_rep k' s' 0 (ws @ [c]) \<and>
       (\<forall>y. y \<notin> set ws \<longrightarrow> t_state (k_threads k y) = BLOCKED \<longrightarrow> k_threads k' y = k_threads k y))"
proof -
  note r = sem_repD [OF s]
  have len: "length ws \<le> 10" using waiting_length [OF r(1)] by (simp add: MAX_THREADS_def)
  have v: "sint (s_val s - 1) = - int (length (ws @ [c]))"
    using sint_u8_sub1 [of "s_val s"] r(2) len by simp
  from block_on [OF rep run r(1)] obtain l' h where b:
    "mos_tlist_add (s_q s) c (k_threads k) = Some (l', h)"
    "switched k (mos_thread_suspend_noints (k\<lparr>k_threads := h\<rparr>))
      (switch_to (prio_of (k_threads k)) (unat (k_elapsed k)) False c qs sl)"
    "\<forall>k'. mos_thread_suspend_noints (k\<lparr>k_threads := h\<rparr>) = Some k' \<longrightarrow> waiting k' l' (ws @ [c]) \<and>
       (\<forall>y. y \<notin> set ws \<longrightarrow> t_state (k_threads k y) = BLOCKED \<longrightarrow> k_threads k' y = k_threads k y)" by blast
  have "mos_sem_wait s k = map_option (Pair (s\<lparr>s_val := s_val s - 1, s_q := l'\<rparr>))
      (mos_thread_suspend_noints (k\<lparr>k_threads := h\<rparr>))"
    using v representsD(2) [OF rep] b(1)
    by (cases "mos_thread_suspend_noints (k\<lparr>k_threads := h\<rparr>)") (simp_all add: mos_sem_wait_def Let_def)
  then show ?thesis using b(2,3) v by (auto simp: sem_rep_def option.map_comp comp_def option.map_ident)
qed

text \<open>Posting: with nobody waiting the unit is kept; otherwise the first thread gets it.\<close>

lemma sem_post_none:
  assumes s: "sem_rep k s n []" and n: "n < 127"
  shows "\<exists>s'. mos_sem_post s k = Some (s', k) \<and> mos_sem_post_dispatch s k = Some (s', k) \<and>
    sem_rep k s' (n + 1) []"
proof -
  note r = sem_repD [OF s]
  have "sint (s_val s + 1) = sint (s_val s) + 1" using r(2) n by (intro sint_u8_add1) simp
  then show ?thesis
    using r wake_none [OF r(1)] by (auto simp: mos_sem_post_def mos_sem_post_dispatch_def sem_rep_def Let_def)
qed

lemma sem_post_value:
  assumes "sem_rep k s n (x # ws)"
  shows "n = 0" and "sint (s_val s + 1) = - int (length ws)"
  using sem_repD(2,3) [OF assms] sint_u8_add1 [of "s_val s"] by auto

lemma sem_post_first:
  assumes s: "sem_rep k s n (x # ws)" and rep: "represents k qs sl c"
    and run: "t_state (k_threads k c) = RUNNING"
  shows "\<exists>s' k'. mos_sem_post s k = Some (s', k') \<and> sem_rep k' s' 0 ws \<and>
    represents k' (requeue (prio_of (k_threads k)) [x] qs) sl c \<and>
    (\<forall>y. t_state (k_threads k' y) = (if y = x then READY else t_state (k_threads k y))) \<and>
    (\<forall>y. y \<noteq> x \<longrightarrow> t_state (k_threads k y) = BLOCKED \<longrightarrow> k_threads k' y = k_threads k y)"
proof -
  note v = sem_post_value [OF s]
  from wake_first_nodispatch [OF rep run sem_repD(1) [OF s]] obtain l' h k' where a:
    "mos_tlist_remove (s_q s) (k_threads k) = (Some x, l', h)"
    "mos_thread_resume_noints_nodispatch x (k\<lparr>k_threads := h\<rparr>) = Some k'"
    "represents k' (requeue (prio_of (k_threads k)) [x] qs) sl c" "waiting k' l' ws"
    "\<forall>y. t_state (k_threads k' y) = (if y = x then READY else t_state (k_threads k y))"
    "\<forall>y. y \<noteq> x \<longrightarrow> t_state (k_threads k y) = BLOCKED \<longrightarrow> k_threads k' y = k_threads k y" by blast
  have "mos_sem_post s k = Some (s\<lparr>s_val := s_val s + 1, s_q := l'\<rparr>, k')"
    using a(1,2) by (simp add: mos_sem_post_def Let_def)
  moreover have "sem_rep k' (s\<lparr>s_val := s_val s + 1, s_q := l'\<rparr>) 0 ws"
    using a(4) v(2) by (simp add: sem_rep_def)
  ultimately show ?thesis using a(3,5,6) by blast
qed

lemma sem_post_dispatch_first:
  assumes s: "sem_rep k s n (x # ws)" and rep: "represents k qs sl c"
    and run: "t_state (k_threads k c) = RUNNING"
  shows "switched k (map_option snd (mos_sem_post_dispatch s k))
      (switch_to (prio_of (k_threads k)) (unat (k_elapsed k)) True c
         (requeue (prio_of (k_threads k)) [x] qs) sl) \<and>
    (\<forall>s' k'. mos_sem_post_dispatch s k = Some (s', k') \<longrightarrow> sem_rep k' s' 0 ws \<and>
       (\<forall>y. y \<noteq> x \<longrightarrow> t_state (k_threads k y) = BLOCKED \<longrightarrow> k_threads k' y = k_threads k y))"
proof -
  note v = sem_post_value [OF s]
  from wake_first [OF rep run sem_repD(1) [OF s]] obtain l' h where a:
    "mos_tlist_remove (s_q s) (k_threads k) = (Some x, l', h)"
    "switched k (mos_thread_resume_noints x (k\<lparr>k_threads := h\<rparr>))
      (switch_to (prio_of (k_threads k)) (unat (k_elapsed k)) True c
         (requeue (prio_of (k_threads k)) [x] qs) sl)"
    "\<forall>k'. mos_thread_resume_noints x (k\<lparr>k_threads := h\<rparr>) = Some k' \<longrightarrow> waiting k' l' ws \<and>
       (\<forall>y. y \<noteq> x \<longrightarrow> t_state (k_threads k y) = BLOCKED \<longrightarrow> k_threads k' y = k_threads k y)" by blast
  have "mos_sem_post_dispatch s k = map_option (Pair (s\<lparr>s_val := s_val s + 1, s_q := l'\<rparr>))
      (mos_thread_resume_noints x (k\<lparr>k_threads := h\<rparr>))"
    using a(1) by (cases "mos_thread_resume_noints x (k\<lparr>k_threads := h\<rparr>)")
      (simp_all add: mos_sem_post_dispatch_def Let_def)
  then show ?thesis using a(2,3) v(2) by (auto simp: sem_rep_def option.map_comp comp_def option.map_ident)
qed

text \<open>Posting to a chosen thread: it leaves the queue, the others keep their order.\<close>

lemma sem_select_post_hit:
  assumes s: "sem_rep k s n ws" and x: "x \<in> set ws" and rep: "represents k qs sl c"
    and run: "t_state (k_threads k c) = RUNNING"
  shows "switched k (map_option snd (mos_sem_select_post (Some x) s k))
      (switch_to (prio_of (k_threads k)) (unat (k_elapsed k)) True c
         (requeue (prio_of (k_threads k)) [x] qs) sl) \<and>
    (\<forall>s' k'. mos_sem_select_post (Some x) s k = Some (s', k') \<longrightarrow> sem_rep k' s' 0 (remove1 x ws) \<and>
       (\<forall>y. y \<notin> set ws \<longrightarrow> t_state (k_threads k y) = BLOCKED \<longrightarrow> k_threads k' y = k_threads k y))"
proof -
  note r = sem_repD [OF s]
  note w = waitingD [OF r(1)]
  have ne: "ws \<noteq> []" using x by auto
  have v: "sint (s_val s + 1) = - int (length (remove1 x ws))"
    using sint_u8_add1 [of "s_val s"] r(2,3) ne x by (auto simp: length_remove1 Suc_leI length_pos_if_in_set of_nat_diff)
  from get_thread_ok [OF w(1) ne, of x] x obtain l' h where g:
    "mos_tlist_get_thread (s_q s) (Some x) (k_threads k) = Some (Some x, l', h)"
    "tlist_rep h l' (remove1 x ws)" "links_only (set ws - {x}) (k_threads k) h" by blast
  let ?k = "k\<lparr>k_threads := h\<rparr>"
  note f = links_only_fields [OF g(3)]
  have rep1: "represents ?k qs sl c"
    by (rule represents_links [OF rep g(3)]) (use w(4) in auto)
  have xm: "x < MAX_THREADS" "t_state (h x) = BLOCKED" using w(3,4) x f(2) by auto
  have run1: "t_state (k_threads ?k c) = RUNNING" using run f(2) by simp
  have pr: "prio_of h = prio_of (k_threads k)" using f(3) by (simp add: prio_of_def fun_eq_iff)
  have sw: "switched k (mos_thread_resume_noints x ?k)
      (switch_to (prio_of (k_threads k)) (unat (k_elapsed k)) True c
         (requeue (prio_of (k_threads k)) [x] qs) sl)"
  proof (rule switched_cong)
    from resume_ok [OF rep1 run1 xm(1)] xm(2) show "switched ?k (mos_thread_resume_noints x ?k)
        (switch_to (prio_of (k_threads k)) (unat (k_elapsed k)) True c
          (requeue (prio_of (k_threads k)) [x] qs) sl)" by (simp add: pr)
  qed (simp_all add: pr)
  have after: "waiting k' l' (remove1 x ws) \<and>
      (\<forall>y. y \<notin> set ws \<longrightarrow> t_state (k_threads k y) = BLOCKED \<longrightarrow> k_threads k' y = k_threads k y)"
    if k': "mos_thread_resume_noints x ?k = Some k'" for k'
  proof
    have w1: "waiting ?k l' (remove1 x ws)"
      using g(2) w(3,4) f(2) notin_set_remove1 by (fastforce simp: waiting_def)
    have nx: "x \<notin> set (remove1 x ws)" using w(2) by simp
    show "waiting k' l' (remove1 x ws)"
    proof (rule waiting_frame [OF w1])
      fix y assume y: "y \<in> set (remove1 x ws)"
      then have "y \<noteq> x" using nx by auto
      then show "k_threads k' y = k_threads ?k y"
        using resume_keeps [OF rep1 run1 xm(1) k', of y] waitingD(4) [OF w1 y] by simp
    qed
    show "\<forall>y. y \<notin> set ws \<longrightarrow> t_state (k_threads k y) = BLOCKED \<longrightarrow> k_threads k' y = k_threads k y"
    proof (intro allI impI)
      fix y assume y: "y \<notin> set ws" "t_state (k_threads k y) = BLOCKED"
      then have "y \<noteq> x" "h y = k_threads k y" using x links_only_same [OF g(3), of y] by auto
      then show "k_threads k' y = k_threads k y"
        using resume_keeps [OF rep1 run1 xm(1) k', of y] y(2) by simp
    qed
  qed
  have "mos_sem_select_post (Some x) s k =
      map_option (Pair (s\<lparr>s_val := s_val s + 1, s_q := l'\<rparr>)) (mos_thread_resume_noints x ?k)"
    using g(1) by (cases "mos_thread_resume_noints x ?k") (simp_all add: mos_sem_select_post_def Let_def)
  then show ?thesis using sw after v
    by (auto simp: sem_rep_def option.map_comp comp_def option.map_ident)
qed

lemma sem_try_wait:
  assumes "sem_rep k s n ws"
  shows "mos_sem_try_wait s = (r, s') \<Longrightarrow>
    (if 0 < n then r = SEM_SUCCESS \<and> sem_rep k s' (n - 1) [] else r = SEM_FAIL \<and> s' = s)"
  using sem_repD [OF assms] sint_u8_sub1 [of "s_val s"]
  by (cases "0 < n") (auto simp: mos_sem_try_wait_def sem_rep_def split: if_splits)

section \<open>A semaphore among all other activity\<close>

text \<open>The steps: the operations on the semaphore by whichever thread runs, and all steps of the
  kernel, also those on behalf of other primitives, that do not resume a thread waiting here.  A
  post at the largest value of the \<open>int8_t\<close> and a selective post to a thread that does not wait are
  left out (see \<open>sem_post_overflow\<close>).\<close>

abbreviation sem_waiters :: "mos_sem \<Rightarrow> kernel \<Rightarrow> tid set" where
  "sem_waiters s k \<equiv> set (tl_items (s_q s, k_threads k))"

inductive sem_step :: "mos_sem \<times> kernel \<Rightarrow> mos_sem \<times> kernel \<Rightarrow> bool" where
  wait: "mos_sem_wait s k = Some r \<Longrightarrow> sem_step (s, k) r"
| try_wait: "mos_sem_try_wait s = (u, s') \<Longrightarrow> sem_step (s, k) (s', k)"
| post: "sint (s_val s) < 127 \<Longrightarrow> mos_sem_post s k = Some r \<Longrightarrow> sem_step (s, k) r"
| post_dispatch: "sint (s_val s) < 127 \<Longrightarrow> mos_sem_post_dispatch s k = Some r \<Longrightarrow> sem_step (s, k) r"
| select_post: "x \<in> sem_waiters s k \<Longrightarrow> mos_sem_select_post (Some x) s k = Some r \<Longrightarrow> sem_step (s, k) r"
| kernel: "kstep k k' \<Longrightarrow> \<forall>x \<in> sem_waiters s k. t_state (k_threads k' x) = BLOCKED \<Longrightarrow>
    sem_step (s, k) (s, k')"

inductive sem_reachable :: "mos_sem \<times> kernel \<Rightarrow> bool" where
  init: "kreachable k \<Longrightarrow> v < 128 \<Longrightarrow> sem_reachable (mos_sem_init v, k)"
| step: "sem_reachable r \<Longrightarrow> sem_step r r' \<Longrightarrow> sem_reachable r'"

definition sem_inv :: "mos_sem \<times> kernel \<Rightarrow> bool" where
  "sem_inv r \<longleftrightarrow> kernel_ok (snd r) \<and> (\<exists>n ws. sem_rep (snd r) (fst r) n ws)"

lemma sem_invI: "kernel_ok k \<Longrightarrow> sem_rep k s n ws \<Longrightarrow> sem_inv (s, k)"
  by (auto simp: sem_inv_def)

lemma sem_invE:
  assumes "sem_inv (s, k)"
  obtains n ws qs sl c where "sem_rep k s n ws" "represents k qs sl c" "t_state (k_threads k c) = RUNNING"
    "sem_waiters s k = set ws"
proof -
  from assms obtain n ws qs sl c where r: "sem_rep k s n ws" "represents k qs sl c"
    "t_state (k_threads k c) = RUNNING" by (auto simp: sem_inv_def kernel_ok_def)
  moreover have "tl_items (s_q s, k_threads k) = ws"
    using tl_repI [OF waitingD(1) waiting_length] sem_repD(1) [OF r(1)] by blast
  ultimately show thesis using that by simp
qed

lemma switched_snd_kernel_ok: "switched k (map_option snd r) a \<Longrightarrow> r = Some (s, k') \<Longrightarrow> kernel_ok k'"
  by (drule switched_kernel_ok) auto

lemma sem_switched_inv:
  assumes "switched k (map_option snd r) a \<and> (\<forall>s' k'. r = Some (s', k') \<longrightarrow> sem_rep k' s' n ws \<and> P s' k')"
    and "r = Some (s', k')"
  shows "sem_inv (s', k')"
  using sem_invI [OF switched_snd_kernel_ok [OF conjunct1 [OF assms(1)] assms(2)]] assms by blast

lemma sem_step_inv:
  assumes "sem_step r r'" and "sem_inv r"
  shows "sem_inv r'"
  using assms
proof (induction rule: sem_step.induct)
  case (wait s k r)
  from sem_invE [OF wait.prems] obtain n ws qs sl c where i: "sem_rep k s n ws" "represents k qs sl c"
    "t_state (k_threads k c) = RUNNING" by metis
  obtain s' k' where r: "r = (s', k')" by (cases r)
  show ?case
  proof (cases "0 < n")
    case True
    from sem_wait_free [OF i(1) True] wait r show ?thesis by (auto simp: sem_inv_def)
  next
    case False
    with i(1) have "sem_rep k s 0 ws" by simp
    from sem_switched_inv [OF sem_wait_block [OF this i(2,3)]] wait.hyps r show ?thesis by blast
  qed
next
  case (try_wait s u s' k)
  from sem_invE [OF try_wait.prems] obtain n ws where i: "sem_rep k s n ws" by metis
  from sem_try_wait [OF i try_wait.hyps] show ?case
    using try_wait.prems i by (cases "0 < n") (auto simp: sem_inv_def)
next
  case (post s k r)
  from sem_invE [OF post.prems] obtain n ws qs sl c where i: "sem_rep k s n ws" "represents k qs sl c"
    "t_state (k_threads k c) = RUNNING" by metis
  show ?case
  proof (cases ws)
    case Nil
    then have "n < 127" using post.hyps(1) sem_repD(2) [OF i(1)] by simp
    with sem_post_none [of k s n] i(1) Nil obtain s' where s': "mos_sem_post s k = Some (s', k)"
      "sem_rep k s' (n + 1) []" by blast
    have "kernel_ok k" using post.prems by (simp add: sem_inv_def)
    from sem_invI [OF this s'(2)] s'(1) post.hyps(2) show ?thesis by simp
  next
    case (Cons x ws')
    with sem_post_first [of k s n x ws'] i obtain s' k' where p: "mos_sem_post s k = Some (s', k')"
      "sem_rep k' s' 0 ws'" "represents k' (requeue (prio_of (k_threads k)) [x] qs) sl c"
      "\<forall>y. t_state (k_threads k' y) = (if y = x then READY else t_state (k_threads k y))" by blast
    have "x \<noteq> c" using waitingD(4) [OF sem_repD(1) [OF i(1)], of x] Cons i(3) by auto
    then have "t_state (k_threads k' c) = RUNNING" using p(4) i(3) by simp
    with p(3) have "kernel_ok k'" by (rule kernel_okI)
    then have "sem_inv (s', k')" using p(2) by (rule sem_invI)
    then show ?thesis using p(1) post.hyps(2) by simp
  qed
next
  case (post_dispatch s k r)
  from sem_invE [OF post_dispatch.prems] obtain n ws qs sl c where i: "sem_rep k s n ws"
    "represents k qs sl c" "t_state (k_threads k c) = RUNNING" by metis
  obtain s' k' where r: "r = (s', k')" by (cases r)
  show ?case
  proof (cases ws)
    case Nil
    then have "n < 127" using post_dispatch.hyps(1) sem_repD(2) [OF i(1)] by simp
    with sem_post_none [of k s n] i(1) Nil obtain s' where s': "mos_sem_post_dispatch s k = Some (s', k)"
      "sem_rep k s' (n + 1) []" by blast
    have "kernel_ok k" using post_dispatch.prems by (simp add: sem_inv_def)
    from sem_invI [OF this s'(2)] s'(1) post_dispatch.hyps(2) show ?thesis by simp
  next
    case (Cons x ws')
    with i(1) have "sem_rep k s n (x # ws')" by simp
    from sem_switched_inv [OF sem_post_dispatch_first [OF this i(2,3)]] post_dispatch.hyps r
    show ?thesis by blast
  qed
next
  case (select_post x s k r)
  from sem_invE [OF select_post.prems] obtain n ws qs sl c where i: "sem_rep k s n ws"
    "represents k qs sl c" "t_state (k_threads k c) = RUNNING" "sem_waiters s k = set ws" by metis
  obtain s' k' where r: "r = (s', k')" by (cases r)
  have "x \<in> set ws" using select_post.hyps(1) i(4) by simp
  from sem_switched_inv [OF sem_select_post_hit [OF i(1) this i(2,3)]] select_post.hyps r
  show ?case by blast
next
  case (kernel k k' s)
  from sem_invE [OF kernel.prems] obtain n ws where i: "sem_rep k s n ws" "sem_waiters s k = set ws" by metis
  have ok: "kernel_ok k" using kernel.prems by (simp add: sem_inv_def)
  have "waiting k' (s_q s) ws"
    using waiting_step [OF kernel.hyps(1) ok sem_repD(1) [OF i(1)]] kernel.hyps(2) i(2) by blast
  then have "sem_rep k' s n ws" using i(1) by (simp add: sem_rep_def)
  with kstep_kernel_ok [OF kernel.hyps(1) ok] show ?case by (rule sem_invI)
qed

lemma sem_reachable_inv: "sem_reachable r \<Longrightarrow> sem_inv r"
proof (induction rule: sem_reachable.induct)
  case (init k v)
  then show ?case using kreachable_ok sem_init_rep sem_invI by blast
qed (rule sem_step_inv)


lemma sample_kernel_reachable:
  "kreachable (sched_init 0x1100 0x1000 (sample_kernel\<lparr>k_sleepQ := mos_tlist_init\<rparr>))"
  by (rule kreachable.start) (simp add: mos_tlist_init_def)


text \<open>Units and waiting threads are handed out in order: a wait with no free unit puts the
  running thread at the end of the queue and the scheduler's choice runs; a post then makes the
  first thread of the queue READY at the end of its ready queue, takes it out of the queue, and
  lets the posting thread go on.\<close>
theorem semaphore_fifo:
  assumes "sem_rep k s 0 ws" and "represents k qs sl c" and "t_state (k_threads k c) = RUNNING"
  shows "switched k (map_option snd (mos_sem_wait s k))
      (switch_to (prio_of (k_threads k)) (unat (k_elapsed k)) False c qs sl) \<and>
    (\<forall>s' k'. mos_sem_wait s k = Some (s', k') \<longrightarrow> sem_rep k' s' 0 (ws @ [c])) \<and>
    (\<forall>x ws'. ws = x # ws' \<longrightarrow> (\<exists>s' k'. mos_sem_post s k = Some (s', k') \<and> sem_rep k' s' 0 ws' \<and>
       represents k' (requeue (prio_of (k_threads k)) [x] qs) sl c \<and> t_state (k_threads k' x) = READY))"
proof (intro conjI allI impI)
  fix x ws' assume "ws = x # ws'"
  with assms(1) have "sem_rep k s 0 (x # ws')" by simp
  from sem_post_first [OF this assms(2,3)]
  show "\<exists>s' k'. mos_sem_post s k = Some (s', k') \<and> sem_rep k' s' 0 ws' \<and>
       represents k' (requeue (prio_of (k_threads k)) [x] qs) sl c \<and> t_state (k_threads k' x) = READY"
    by metis
qed (use sem_wait_block [OF assms] in blast)+

text \<open>A semaphore on which thread 2 of the sample kernel waits.\<close>

definition sample_sem :: mos_sem where
  "sample_sem = \<lparr>s_val = 255, s_q = \<lparr>tl_head = Some 2, tl_tail = Some 2\<rparr>\<rparr>"

lemma sample_waiting: "waiting sample_kernel \<lparr>tl_head = Some 2, tl_tail = Some 2\<rparr> [2]"
  by (simp add: waiting_def tlist_rep_def sample_fields MAX_THREADS_def)

theorem semaphore_fifo_witness:
  "\<exists>s' k'. mos_sem_post sample_sem sample_kernel = Some (s', k') \<and> sem_rep k' s' 0 [] \<and>
     t_state (k_threads k' 2) = READY"
proof -
  have "sem_rep sample_kernel sample_sem 0 [2]"
    using sample_waiting by (simp add: sem_rep_def sample_sem_def)
  from semaphore_fifo [OF this sample_represents sample_running] show ?thesis by blast
qed

text \<open>The counter overflows: a post to a semaphore with 127 free units makes its value -128,
  and the next thread that waits is blocked although all the units are free.\<close>
theorem sem_post_overflow:
  "mos_sem_post (mos_sem_init 127) k = Some (\<lparr>s_val = 128, s_q = mos_tlist_init\<rparr>, k) \<and>
   sint (128 :: u8) = -128 \<and>
   mos_sem_try_wait \<lparr>s_val = 128, s_q = mos_tlist_init\<rparr> = (SEM_FAIL, \<lparr>s_val = 128, s_q = mos_tlist_init\<rparr>)"
  by (simp add: mos_sem_post_def mos_sem_init_def mos_sem_try_wait_def mos_tlist_remove_def
    mos_tlist_init_def Let_def)

end
