(* ===== verification/Mutex.thy ===== *)
theory Mutex
  imports Semaphore
begin

text \<open>
  Mutexes (\<open>kernel/micro/mutex.c\<close>) and condition variables (\<open>kernel/micro/cond.c\<close>).  A mutex has an
  owner and a queue of blocked threads; unlocking hands it over to the first thread of the queue.
\<close>

section \<open>The operations on a mutex\<close>

record mos_mutex =
  mt_owner :: "tid option"
  mt_q :: tlist_t

definition MUTEX_LOCKED :: u8 where "MUTEX_LOCKED = 1"
definition MUTEX_OK :: u8 where "MUTEX_OK = 0"

definition mos_mutex_init :: mos_mutex where
  "mos_mutex_init = \<lparr>mt_owner = None, mt_q = mos_tlist_init\<rparr>"

definition mos_mutex_lock :: "mos_mutex \<Rightarrow> kernel \<Rightarrow> (mos_mutex \<times> kernel) option" where
  "mos_mutex_lock mt k =
     (if mt_owner mt \<noteq> None then do {
        x \<leftarrow> k_current k;
        (q, h) \<leftarrow> mos_tlist_add (mt_q mt) x (k_threads k);
        k \<leftarrow> mos_thread_suspend_noints (k\<lparr>k_threads := h\<rparr>);
        Some (mt\<lparr>mt_q := q\<rparr>, k)
      } else Some (mt\<lparr>mt_owner := k_current k\<rparr>, k))"

definition mos_mutex_unlock :: "mos_mutex \<Rightarrow> kernel \<Rightarrow> (mos_mutex \<times> kernel) option" where
  "mos_mutex_unlock mt k =
     (if mt_owner mt \<noteq> k_current k then Some (mt, k)
      else do {
        let (next, q, h) = mos_tlist_remove (mt_q mt) (k_threads k);
        let mt = mt\<lparr>mt_q := q\<rparr>;
        let k = k\<lparr>k_threads := h\<rparr>;
        case next of
          Some x \<Rightarrow> do { k \<leftarrow> mos_thread_resume_noints x k; Some (mt\<lparr>mt_owner := Some x\<rparr>, k) }
        | None \<Rightarrow> Some (mt\<lparr>mt_owner := None\<rparr>, k) })"

definition mos_mutex_try_lock :: "mos_mutex \<Rightarrow> kernel \<Rightarrow> u8 \<times> mos_mutex" where
  "mos_mutex_try_lock mt k =
     (if mt_owner mt \<noteq> None then (MUTEX_LOCKED, mt) else (MUTEX_OK, mt\<lparr>mt_owner := k_current k\<rparr>))"

section \<open>What each operation does\<close>

lemma mutex_lock_wait:
  assumes w: "waiting k (mt_q mt) ws" and rep: "represents k qs sl c"
    and run: "t_state (k_threads k c) = RUNNING" and own: "mt_owner mt = Some x"
  shows "switched k (map_option snd (mos_mutex_lock mt k))
      (switch_to (prio_of (k_threads k)) (unat (k_elapsed k)) False c qs sl) \<and>
    (\<forall>mt' k'. mos_mutex_lock mt k = Some (mt', k') \<longrightarrow> waiting k' (mt_q mt') (ws @ [c]) \<and>
       mt_owner mt' = Some x)"
proof -
  from block_on [OF rep run w] obtain l' h where b:
    "mos_tlist_add (mt_q mt) c (k_threads k) = Some (l', h)"
    "switched k (mos_thread_suspend_noints (k\<lparr>k_threads := h\<rparr>))
      (switch_to (prio_of (k_threads k)) (unat (k_elapsed k)) False c qs sl)"
    "\<forall>k'. mos_thread_suspend_noints (k\<lparr>k_threads := h\<rparr>) = Some k' \<longrightarrow> waiting k' l' (ws @ [c])" by blast
  have "mos_mutex_lock mt k = map_option (Pair (mt\<lparr>mt_q := l'\<rparr>)) (mos_thread_suspend_noints (k\<lparr>k_threads := h\<rparr>))"
    using own representsD(2) [OF rep] b(1)
    by (cases "mos_thread_suspend_noints (k\<lparr>k_threads := h\<rparr>)") (simp_all add: mos_mutex_lock_def)
  then show ?thesis using b(2,3) own by (auto simp: option.map_comp comp_def option.map_ident)
qed

lemma mutex_unlock_hand:
  assumes w: "waiting k (mt_q mt) (x # ws)" and rep: "represents k qs sl c"
    and run: "t_state (k_threads k c) = RUNNING" and own: "mt_owner mt = Some c"
  shows "switched k (map_option snd (mos_mutex_unlock mt k))
      (switch_to (prio_of (k_threads k)) (unat (k_elapsed k)) True c
         (requeue (prio_of (k_threads k)) [x] qs) sl) \<and>
    (\<forall>mt' k'. mos_mutex_unlock mt k = Some (mt', k') \<longrightarrow> waiting k' (mt_q mt') ws \<and>
       mt_owner mt' = Some x \<and>
       (\<forall>y. y \<noteq> x \<longrightarrow> t_state (k_threads k y) = BLOCKED \<longrightarrow> k_threads k' y = k_threads k y))"
proof -
  from wake_first [OF rep run w] obtain l' h where a:
    "mos_tlist_remove (mt_q mt) (k_threads k) = (Some x, l', h)"
    "switched k (mos_thread_resume_noints x (k\<lparr>k_threads := h\<rparr>))
      (switch_to (prio_of (k_threads k)) (unat (k_elapsed k)) True c
         (requeue (prio_of (k_threads k)) [x] qs) sl)"
    "\<forall>k'. mos_thread_resume_noints x (k\<lparr>k_threads := h\<rparr>) = Some k' \<longrightarrow> waiting k' l' ws \<and>
       (\<forall>y. y \<noteq> x \<longrightarrow> t_state (k_threads k y) = BLOCKED \<longrightarrow> k_threads k' y = k_threads k y)" by blast
  have "mos_mutex_unlock mt k = map_option (Pair (mt\<lparr>mt_q := l', mt_owner := Some x\<rparr>))
      (mos_thread_resume_noints x (k\<lparr>k_threads := h\<rparr>))"
    using own representsD(2) [OF rep] a(1)
    by (cases "mos_thread_resume_noints x (k\<lparr>k_threads := h\<rparr>)") (simp_all add: mos_mutex_unlock_def Let_def)
  then show ?thesis using a(2,3) by (auto simp: option.map_comp comp_def option.map_ident)
qed

lemma mutex_unlock_free:
  assumes "waiting k (mt_q mt) []" and "mt_owner mt = k_current k"
  shows "mos_mutex_unlock mt k = Some (mt\<lparr>mt_owner := None\<rparr>, k)"
  using wake_none [OF assms(1)] assms(2) by (simp add: mos_mutex_unlock_def Let_def)

section \<open>Mutual exclusion\<close>

text \<open>A mutex in use: besides the mutex and the kernel, the threads that hold it (their lock call
  has returned, their unlock call has not begun) and those inside a lock call that had to wait.  The
  call of such a thread returns when the thread runs again.  A thread neither locks a mutex that it
  holds nor does anything else during a lock call; the steps of the kernel are all those that do not
  resume a thread waiting here.\<close>

type_synonym mutex_system = "mos_mutex \<times> kernel \<times> tid set \<times> tid set"

abbreviation mutex_waiters :: "mos_mutex \<Rightarrow> kernel \<Rightarrow> tid set" where
  "mutex_waiters mt k \<equiv> set (tl_items (mt_q mt, k_threads k))"

inductive mutex_step :: "mutex_system \<Rightarrow> mutex_system \<Rightarrow> bool" where
  lock_free: "k_current k = Some c \<Longrightarrow> c \<notin> I \<union> P \<Longrightarrow> mt_owner mt = None \<Longrightarrow>
    mos_mutex_lock mt k = Some (mt', k') \<Longrightarrow> mutex_step (mt, k, I, P) (mt', k', insert c I, P)"
| lock_wait: "k_current k = Some c \<Longrightarrow> c \<notin> I \<union> P \<Longrightarrow> mt_owner mt \<noteq> None \<Longrightarrow>
    mos_mutex_lock mt k = Some (mt', k') \<Longrightarrow> mutex_step (mt, k, I, P) (mt', k', I, insert c P)"
| lock_returns: "k_current k = Some c \<Longrightarrow> c \<in> P \<Longrightarrow> mutex_step (mt, k, I, P) (mt, k, insert c I, P - {c})"
| try_lock: "k_current k = Some c \<Longrightarrow> c \<notin> I \<union> P \<Longrightarrow> mos_mutex_try_lock mt k = (r, mt') \<Longrightarrow>
    mutex_step (mt, k, I, P) (mt', k, if r = MUTEX_OK then insert c I else I, P)"
| unlock: "k_current k = Some c \<Longrightarrow> c \<notin> P \<Longrightarrow> mos_mutex_unlock mt k = Some (mt', k') \<Longrightarrow>
    mutex_step (mt, k, I, P) (mt', k', I - {c}, P)"
| kernel: "kstep k k' \<Longrightarrow> \<forall>x \<in> mutex_waiters mt k. t_state (k_threads k' x) = BLOCKED \<Longrightarrow>
    mutex_step (mt, k, I, P) (mt, k', I, P)"

inductive mutex_reachable :: "mutex_system \<Rightarrow> bool" where
  init: "kreachable k \<Longrightarrow> mutex_reachable (mos_mutex_init, k, {}, {})"
| step: "mutex_reachable r \<Longrightarrow> mutex_step r r' \<Longrightarrow> mutex_reachable r'"

text \<open>The owner either holds the mutex or its lock call is about to return; all other threads
  inside a lock call are in the queue.\<close>

definition holders :: "mos_mutex \<Rightarrow> tid list \<Rightarrow> tid set \<Rightarrow> tid set \<Rightarrow> bool" where
  "holders mt ws I P \<longleftrightarrow> (case mt_owner mt of
        None \<Rightarrow> ws = [] \<and> I = {} \<and> P = {}
      | Some x \<Rightarrow> x \<notin> set ws \<and> (I = {x} \<and> P = set ws \<or> I = {} \<and> P = insert x (set ws)))"

lemma holders_simps:
  "mt_owner mt = None \<Longrightarrow> holders mt ws I P \<longleftrightarrow> ws = [] \<and> I = {} \<and> P = {}"
  "mt_owner mt = Some x \<Longrightarrow> holders mt ws I P \<longleftrightarrow>
     x \<notin> set ws \<and> (I = {x} \<and> P = set ws \<or> I = {} \<and> P = insert x (set ws))"
  by (simp_all add: holders_def)

definition mutex_inv :: "mutex_system \<Rightarrow> bool" where
  "mutex_inv r = (case r of (mt, k, I, P) \<Rightarrow> kernel_ok k \<and> (\<exists>ws. waiting k (mt_q mt) ws \<and>
     holders mt ws I P))"

lemma mutex_invI:
  assumes "kernel_ok k" and "waiting k (mt_q mt) ws"
    and "holders mt ws I P"
  shows "mutex_inv (mt, k, I, P)"
  using assms by (auto simp: mutex_inv_def)

lemma mutex_invE:
  assumes "mutex_inv (mt, k, I, P)"
  obtains ws qs sl c where "waiting k (mt_q mt) ws" "represents k qs sl c" "k_current k = Some c"
    "t_state (k_threads k c) = RUNNING" "c \<notin> set ws" "mutex_waiters mt k = set ws"
    "holders mt ws I P"
proof -
  from assms obtain ws qs sl c where r: "waiting k (mt_q mt) ws" "represents k qs sl c"
    "t_state (k_threads k c) = RUNNING" "holders mt ws I P"
    by (auto simp: mutex_inv_def kernel_ok_def)
  moreover have "tl_items (mt_q mt, k_threads k) = ws"
    using tl_repI [OF waitingD(1) waiting_length] r(1) by blast
  moreover have "c \<notin> set ws" using waitingD(4) [OF r(1), of c] r(3) by auto
  ultimately show thesis using that representsD(2) [OF r(2)] by simp
qed

lemma mutex_step_inv:
  assumes "mutex_step r r'" and "mutex_inv r"
  shows "mutex_inv r'"
  using assms
proof (induction rule: mutex_step.induct)
  case (lock_free k c I P mt mt' k')
  from mutex_invE [OF lock_free.prems] obtain ws where i: "waiting k (mt_q mt) ws"
    "holders mt ws I P" by metis
  have "kernel_ok k" using lock_free.prems by (simp add: mutex_inv_def)
  moreover have "mt' = mt\<lparr>mt_owner := Some c\<rparr>" "k' = k"
    using lock_free.hyps by (simp_all add: mos_mutex_lock_def)
  ultimately show ?case using i lock_free.hyps(3) by (intro mutex_invI [of _ _ ws]) (simp_all add: holders_simps)
next
  case (lock_wait k c I P mt mt' k')
  from mutex_invE [OF lock_wait.prems] obtain ws qs sl d where i: "waiting k (mt_q mt) ws"
    "represents k qs sl d" "k_current k = Some d" "t_state (k_threads k d) = RUNNING"
    "holders mt ws I P" by metis
  from lock_wait.hyps(3) obtain x where own: "mt_owner mt = Some x" by auto
  have d: "d = c" using i(3) lock_wait.hyps(1) by simp
  note l = mutex_lock_wait [OF i(1,2,4) own]
  have "kernel_ok k'" by (rule switched_snd_kernel_ok [OF conjunct1 [OF l] lock_wait.hyps(4)])
  moreover have "waiting k' (mt_q mt') (ws @ [c])" "mt_owner mt' = Some x"
    using conjunct2 [OF l] lock_wait.hyps(4) d by blast+
  ultimately show ?case using i(5) own lock_wait.hyps(2) by (intro mutex_invI [of _ _ "ws @ [c]"]) (auto simp: holders_simps)
next
  case (lock_returns k c P mt I)
  from mutex_invE [OF lock_returns.prems] obtain ws d where i: "waiting k (mt_q mt) ws"
    "k_current k = Some d" "d \<notin> set ws"
    "holders mt ws I P" by metis
  have "kernel_ok k" using lock_returns.prems by (simp add: mutex_inv_def)
  then show ?case
    using i lock_returns.hyps by (intro mutex_invI [of _ _ ws]) (auto simp: holders_def split: option.splits)
next
  case (try_lock k c I P mt r mt')
  from mutex_invE [OF try_lock.prems] obtain ws where i: "waiting k (mt_q mt) ws"
    "holders mt ws I P" by metis
  have ok: "kernel_ok k" using try_lock.prems by (simp add: mutex_inv_def)
  show ?case
  proof (cases "mt_owner mt")
    case None
    then have "mt' = mt\<lparr>mt_owner := Some c\<rparr>" "r = MUTEX_OK"
      using try_lock.hyps by (simp_all add: mos_mutex_try_lock_def)
    then show ?thesis using i None ok by (intro mutex_invI [of _ _ ws]) (simp_all add: holders_simps)
  next
    case (Some x)
    then have "mt' = mt" "r \<noteq> MUTEX_OK"
      using try_lock.hyps by (auto simp: mos_mutex_try_lock_def MUTEX_OK_def MUTEX_LOCKED_def)
    then show ?thesis using try_lock.prems by simp
  qed
next
  case (unlock k c P mt mt' k' I)
  from mutex_invE [OF unlock.prems] obtain ws qs sl d where i: "waiting k (mt_q mt) ws"
    "represents k qs sl d" "k_current k = Some d" "t_state (k_threads k d) = RUNNING" "d \<notin> set ws"
    "holders mt ws I P" by metis
  have ok: "kernel_ok k" using unlock.prems by (simp add: mutex_inv_def)
  have d: "d = c" using i(3) unlock.hyps(1) by simp
  show ?case
  proof (cases "mt_owner mt = Some c")
    case False
    then have "mt' = mt" "k' = k" "c \<notin> I"
      using unlock.hyps i(6) by (auto simp: mos_mutex_unlock_def holders_def split: option.splits)
    then show ?thesis using unlock.prems by simp
  next
    case own: True
    with i(6) unlock.hyps(2) have IP: "I = {c}" "P = set ws" by (auto simp: holders_simps)
    show ?thesis
    proof (cases ws)
      case Nil
      then have "mt' = mt\<lparr>mt_owner := None\<rparr>" "k' = k"
        using mutex_unlock_free [of k mt] i(1) own unlock.hyps(1,3) by auto
      then show ?thesis using i(1) ok IP Nil by (intro mutex_invI [of _ _ ws]) (simp_all add: holders_simps)
    next
      case (Cons x ws')
      with i(1) have w: "waiting k (mt_q mt) (x # ws')" by simp
      have "mt_owner mt = Some d" using own d by simp
      note l = mutex_unlock_hand [OF w i(2,4) this]
      have "kernel_ok k'" by (rule switched_snd_kernel_ok [OF conjunct1 [OF l] unlock.hyps(3)])
      moreover have "waiting k' (mt_q mt') ws'" "mt_owner mt' = Some x"
        using conjunct2 [OF l] unlock.hyps(3) by blast+
      moreover have "x \<notin> set ws'" using waitingD(2) [OF w] by simp
      ultimately show ?thesis using IP Cons by (intro mutex_invI [of _ _ ws']) (simp_all add: holders_simps)
    qed
  qed
next
  case (kernel k k' mt I P)
  from mutex_invE [OF kernel.prems] obtain ws where i: "waiting k (mt_q mt) ws" "mutex_waiters mt k = set ws"
    "holders mt ws I P" by metis
  have ok: "kernel_ok k" using kernel.prems by (simp add: mutex_inv_def)
  have "waiting k' (mt_q mt) ws"
    using waiting_step [OF kernel.hyps(1) ok i(1)] kernel.hyps(2) i(2) by blast
  with kstep_kernel_ok [OF kernel.hyps(1) ok] show ?case using i(3) by (rule mutex_invI)
qed

lemma mutex_reachable_inv: "mutex_reachable r \<Longrightarrow> mutex_inv r"
proof (induction rule: mutex_reachable.induct)
  case (init k)
  then show ?case
    using kreachable_ok waiting_init by (intro mutex_invI [of _ _ "[]"]) (simp_all add: mos_mutex_init_def holders_simps)
qed (rule mutex_step_inv)



text \<open>An unlock by the owner hands the mutex over to the thread that has waited longest: it is
  the owner before any other thread can run, it goes to the end of its ready queue, and the order
  of the others in the queue is kept.\<close>
theorem mutex_handover:
  assumes "waiting k (mt_q mt) (x # ws)" and "represents k qs sl c"
    and "t_state (k_threads k c) = RUNNING" and "mt_owner mt = Some c"
  shows "switched k (map_option snd (mos_mutex_unlock mt k))
      (switch_to (prio_of (k_threads k)) (unat (k_elapsed k)) True c
         (requeue (prio_of (k_threads k)) [x] qs) sl) \<and>
    (\<forall>mt' k'. mos_mutex_unlock mt k = Some (mt', k') \<longrightarrow> waiting k' (mt_q mt') ws \<and> mt_owner mt' = Some x)"
  using mutex_unlock_hand [OF assms] by blast

definition sample_mutex :: mos_mutex where
  "sample_mutex = \<lparr>mt_owner = Some 1, mt_q = \<lparr>tl_head = Some 2, tl_tail = Some 2\<rparr>\<rparr>"

theorem mutex_handover_witness:
  "switched sample_kernel (map_option snd (mos_mutex_unlock sample_mutex sample_kernel))
    (switch_to (prio_of (k_threads sample_kernel)) 5 True 1
       (requeue (prio_of (k_threads sample_kernel)) [2] sample_ready) [(3, 40)])"
  using mutex_handover [OF _ sample_represents sample_running, of sample_mutex 2 "[]"] sample_waiting
  by (simp add: sample_mutex_def sample_kernel_def)

end
