(* ===== verification/Condition.thy ===== *)
theory Condition
  imports Mutex
begin

text \<open>
  Condition variables (\<open>kernel/micro/cond.c\<close>) and read-write locks (\<open>kernel/micro/rwlock.c\<close>).  Some of
  these functions go on after a context switch; they are split at these points, and a result says
  where the calling thread continues when it runs again.
\<close>

section \<open>Condition variables\<close>

record mos_cond =
  c_q :: tlist_t

definition mos_cond_init :: mos_cond where
  "mos_cond_init = \<lparr>c_q = mos_tlist_init\<rparr>"

definition mos_cond_signal :: "mos_cond \<Rightarrow> kernel \<Rightarrow> (mos_cond \<times> kernel) option" where
  "mos_cond_signal cond k = do {
     let (next, q, h) = mos_tlist_remove (c_q cond) (k_threads k);
     let cond = cond\<lparr>c_q := q\<rparr>;
     let k = k\<lparr>k_threads := h\<rparr>;
     case next of
       Some x \<Rightarrow> do { k \<leftarrow> mos_thread_resume x k; Some (cond, k) }
     | None \<Rightarrow> Some (cond, k) }"

text \<open>One round of the loop of \<open>mos_cond_broadcast\<close>: resuming a thread switches the context, and the
  loop goes on (\<open>True\<close>) when the broadcasting thread runs again.\<close>

definition mos_cond_broadcast :: "mos_cond \<Rightarrow> kernel \<Rightarrow> (bool \<times> mos_cond \<times> kernel) option" where
  "mos_cond_broadcast cond k = do {
     let (next, q, h) = mos_tlist_remove (c_q cond) (k_threads k);
     let cond = cond\<lparr>c_q := q\<rparr>;
     let k = k\<lparr>k_threads := h\<rparr>;
     case next of
       Some x \<Rightarrow> do { k \<leftarrow> mos_thread_resume x k; Some (True, cond, k) }
     | None \<Rightarrow> Some (False, cond, k) }"

text \<open>\<open>mos_cond_wait\<close> has three parts: unlocking the mutex, which may switch the context; joining the
  queue and blocking; and locking the mutex again, which is \<open>mos_mutex_lock\<close>.  \<open>Unlocked\<close> says
  that the context was switched by the unlock, so that the thread has yet to join the queue when
  it runs again; \<open>Blocked\<close> that it is in the queue and has yet to lock the mutex.\<close>

datatype wait_point = Unlocked | Blocked

definition cond_block :: "mos_cond \<Rightarrow> kernel \<Rightarrow> (mos_cond \<times> kernel) option" where
  "cond_block cond k = do {
     x \<leftarrow> k_current k;
     (q, h) \<leftarrow> mos_tlist_add (c_q cond) x (k_threads k);
     k \<leftarrow> mos_thread_suspend_noints (k\<lparr>k_threads := h\<rparr>);
     Some (cond\<lparr>c_q := q\<rparr>, k) }"

definition mos_cond_wait ::
    "mos_cond \<Rightarrow> mos_mutex \<Rightarrow> kernel \<Rightarrow> (wait_point \<times> mos_cond \<times> mos_mutex \<times> kernel) option" where
  "mos_cond_wait cond mt k = do {
     let x = k_current k;
     (mt, k) \<leftarrow> mos_mutex_unlock mt k;
     if k_current k = x then do {
       (cond, k) \<leftarrow> cond_block cond k;
       Some (Blocked, cond, mt, k)
     } else Some (Unlocked, cond, mt, k) }"

text \<open>C29. When no thread waits for the mutex, \<open>mos_cond_wait\<close> is atomic: the calling thread is in
  the queue of the condition variable behind those that wait already, and the mutex is free,
  before any other thread runs.\<close>
theorem cond_wait_atomic:
  assumes mutex: "waiting k (mt_q mt) []" "mt_owner mt = Some c" and cond: "waiting k (c_q cond) ws"
    and rep: "represents k qs sl c" and run: "t_state (k_threads k c) = RUNNING"
  shows "switched k (map_option (\<lambda>r. snd (snd (snd r))) (mos_cond_wait cond mt k))
      (switch_to (prio_of (k_threads k)) (unat (k_elapsed k)) False c qs sl) \<and>
    (\<forall>w cond' mt' k'. mos_cond_wait cond mt k = Some (w, cond', mt', k') \<longrightarrow>
       w = Blocked \<and> waiting k' (c_q cond') (ws @ [c]) \<and> mt_owner mt' = None)"
proof -
  have c: "k_current k = Some c" using representsD(2) [OF rep] .
  have u: "mos_mutex_unlock mt k = Some (mt\<lparr>mt_owner := None\<rparr>, k)"
    using mutex_unlock_free [OF mutex(1)] mutex(2) c by simp
  from block_on [OF rep run cond] obtain l' h where b:
    "mos_tlist_add (c_q cond) c (k_threads k) = Some (l', h)"
    "switched k (mos_thread_suspend_noints (k\<lparr>k_threads := h\<rparr>))
      (switch_to (prio_of (k_threads k)) (unat (k_elapsed k)) False c qs sl)"
    "\<forall>k'. mos_thread_suspend_noints (k\<lparr>k_threads := h\<rparr>) = Some k' \<longrightarrow> waiting k' l' (ws @ [c])" by blast
  have "mos_cond_wait cond mt k =
      map_option (\<lambda>k'. (Blocked, cond\<lparr>c_q := l'\<rparr>, mt\<lparr>mt_owner := None\<rparr>, k'))
        (mos_thread_suspend_noints (k\<lparr>k_threads := h\<rparr>))"
    using u c b(1) by (cases "mos_thread_suspend_noints (k\<lparr>k_threads := h\<rparr>)")
      (simp_all add: mos_cond_wait_def cond_block_def Let_def)
  then show ?thesis using b(2,3) by (auto simp: option.map_comp comp_def option.map_ident)
qed

text \<open>When a thread waits for the mutex, \<open>mos_cond_wait\<close> is not atomic: the unlock resumes that
  thread and switches to the dispatcher's choice \<open>y\<close> before the caller has joined the queue of the
  condition variable.  A signal given now, with the mutex held as the comments of the header ask
  for, finds no waiting thread and changes nothing; the caller will block afterwards and has
  missed it.\<close>
theorem cond_wait_misses_signal:
  assumes mutex: "waiting k (mt_q mt) (x # ws)" "mt_owner mt = Some c" and cond: "waiting k (c_q cond) []"
    and rep: "represents k qs sl c" and run: "t_state (k_threads k c) = RUNNING"
    and next_run: "switch_to (prio_of (k_threads k)) (unat (k_elapsed k)) True c
         (requeue (prio_of (k_threads k)) [x] qs) sl = Some (y, qs', sl')" and other: "y \<noteq> c"
  shows "\<exists>mt' k'. mos_cond_wait cond mt k = Some (Unlocked, cond, mt', k') \<and> mt_owner mt' = Some x \<and>
    k_current k' = Some y \<and> mos_cond_signal cond k' = Some (cond, k')"
proof -
  have c: "k_current k = Some c" using representsD(2) [OF rep] .
  note u = mutex_unlock_hand [OF mutex(1) rep run mutex(2)]
  have "\<exists>k'. map_option snd (mos_mutex_unlock mt k) = Some k' \<and> represents k' qs' sl' y"
    using conjunct1 [OF u] unfolding next_run by (simp add: switched_def) blast
  then obtain mt' k' where r: "mos_mutex_unlock mt k = Some (mt', k')" "represents k' qs' sl' y" by auto
  have cy: "k_current k' = Some y" using representsD(2) [OF r(2)] .
  have "mos_cond_wait cond mt k = Some (Unlocked, cond, mt', k')"
    using r(1) c cy other by (simp add: mos_cond_wait_def Let_def)
  moreover have "mt_owner mt' = Some x" using conjunct2 [OF u] r(1) by blast
  moreover have "tl_head (c_q cond) = None" using waiting_head [OF cond] by simp
  then have "mos_cond_signal cond k' = Some (cond, k')"
    by (simp add: mos_cond_signal_def mos_tlist_remove_def Let_def)
  ultimately show ?thesis using cy by blast
qed

text \<open>Thread 1 of the sample kernel holds a mutex for which thread 2, of a higher priority, waits.\<close>

lemma sample_switch:
  "switch_to (prio_of (k_threads sample_kernel)) 5 True 1
     (requeue (prio_of (k_threads sample_kernel)) [2] sample_ready) [(3, 40)] =
   Some (2, sample_ready(3 := [1]), [(3, 35)])"
  by (auto simp: switch_to_def wake_due_def requeue_def next_thread_def sample_ready_def prio_of_def
    sample_fields NUM_PRIORITIES_def upt_conv_Cons fun_eq_iff)

theorem cond_wait_misses_signal_witness:
  "\<exists>mt' k'. mos_cond_wait mos_cond_init sample_mutex sample_kernel = Some (Unlocked, mos_cond_init, mt', k') \<and>
     k_current k' = Some 2 \<and> mos_cond_signal mos_cond_init k' = Some (mos_cond_init, k')"
proof -
  have e: "unat (k_elapsed sample_kernel) = 5" by (simp add: sample_kernel_def)
  have m: "waiting sample_kernel (mt_q sample_mutex) [2]" "mt_owner sample_mutex = Some 1"
    using sample_waiting by (simp_all add: sample_mutex_def)
  have c: "waiting sample_kernel (c_q mos_cond_init) []" by (simp add: mos_cond_init_def waiting_init)
  from cond_wait_misses_signal [OF m c sample_represents sample_running, unfolded e, OF sample_switch]
  show ?thesis by fastforce
qed

theorem cond_wait_atomic_witness:
  "switched sample_kernel (map_option (\<lambda>r. snd (snd (snd r)))
      (mos_cond_wait mos_cond_init \<lparr>mt_owner = Some 1, mt_q = mos_tlist_init\<rparr> sample_kernel))
    (switch_to (prio_of (k_threads sample_kernel)) 5 False 1 sample_ready [(3, 40)])"
proof -
  have e: "unat (k_elapsed sample_kernel) = 5" by (simp add: sample_kernel_def)
  have m: "waiting sample_kernel (mt_q \<lparr>mt_owner = Some 1, mt_q = mos_tlist_init\<rparr>) []"
    "mt_owner \<lparr>mt_owner = Some 1, mt_q = mos_tlist_init\<rparr> = Some 1" by (simp_all add: waiting_init)
  have c: "waiting sample_kernel (c_q mos_cond_init) []" by (simp add: mos_cond_init_def waiting_init)
  from cond_wait_atomic [OF m c sample_represents sample_running, unfolded e] show ?thesis by blast
qed

end
