(* ===== verification/Rwlock.thy ===== *)
theory Rwlock
  imports Condition
begin

text \<open>
  Read-write locks (\<open>kernel/micro/rwlock.c\<close>).  The lock functions loop: a thread that finds the lock
  taken joins a queue and blocks, and tries again when it runs again.
\<close>

section \<open>The operations\<close>

record mos_rwlock =
  rw_rq :: tlist_t
  rw_wq :: tlist_t
  rw_rlocked :: u8
  rw_wlocked :: u8

definition RWLOCK_LOCKED :: u8 where "RWLOCK_LOCKED = 1"
definition RWLOCK_OK :: u8 where "RWLOCK_OK = 0"

definition rwlock_init :: mos_rwlock where
  "rwlock_init = \<lparr>rw_rq = mos_tlist_init, rw_wq = mos_tlist_init, rw_rlocked = 0, rw_wlocked = 0\<rparr>"

text \<open>One round of the loops; the result says whether the lock is taken (or the thread suspended).\<close>

definition rwlock_rdlock :: "mos_rwlock \<Rightarrow> kernel \<Rightarrow> (bool \<times> mos_rwlock \<times> kernel) option" where
  "rwlock_rdlock l k =
     (if rw_wlocked l \<noteq> 0 then do {
        x \<leftarrow> k_current k;
        (q, h) \<leftarrow> mos_tlist_add (rw_rq l) x (k_threads k);
        k \<leftarrow> mos_thread_suspend_noints (k\<lparr>k_threads := h\<rparr>);
        Some (False, l\<lparr>rw_rq := q\<rparr>, k)
      } else Some (True, l\<lparr>rw_rlocked := rw_rlocked l + 1\<rparr>, k))"

definition rwlock_tryrdlock :: "mos_rwlock \<Rightarrow> u8 \<times> mos_rwlock" where
  "rwlock_tryrdlock l =
     (if rw_wlocked l \<noteq> 0 then (RWLOCK_LOCKED, l)
      else (RWLOCK_OK, l\<lparr>rw_rlocked := rw_rlocked l + 1\<rparr>))"

definition rwlock_wrlock :: "mos_rwlock \<Rightarrow> kernel \<Rightarrow> (bool \<times> mos_rwlock \<times> kernel) option" where
  "rwlock_wrlock l k =
     (if rw_wlocked l \<noteq> 0 \<or> rw_rlocked l \<noteq> 0 then do {
        x \<leftarrow> k_current k;
        (q, h) \<leftarrow> mos_tlist_add (rw_wq l) x (k_threads k);
        k \<leftarrow> mos_thread_suspend_noints (k\<lparr>k_threads := h\<rparr>);
        Some (False, l\<lparr>rw_wq := q\<rparr>, k)
      } else Some (True, l\<lparr>rw_wlocked := 1\<rparr>, k))"

definition rwlock_trywrlock :: "mos_rwlock \<Rightarrow> u8 \<times> mos_rwlock" where
  "rwlock_trywrlock l =
     (if rw_wlocked l \<noteq> 0 \<or> rw_rlocked l \<noteq> 0 then (RWLOCK_LOCKED, l)
      else (RWLOCK_OK, l\<lparr>rw_wlocked := 1\<rparr>))"

text \<open>Unlocking: resuming a thread switches the context.  \<open>Wake_Readers\<close> says that the loop over the
  waiting readers is to go on when the thread runs again.\<close>

datatype unlock_point = Unlock_Done | Wake_Readers

definition wake_writer :: "mos_rwlock \<Rightarrow> kernel \<Rightarrow> (bool \<times> mos_rwlock \<times> kernel) option" where
  "wake_writer l k = do {
     let (next, q, h) = mos_tlist_remove (rw_wq l) (k_threads k);
     let l = l\<lparr>rw_wq := q\<rparr>;
     let k = k\<lparr>k_threads := h\<rparr>;
     case next of
       Some x \<Rightarrow> do { k \<leftarrow> mos_thread_resume x k; Some (True, l, k) }
     | None \<Rightarrow> Some (False, l, k) }"

definition wake_reader :: "mos_rwlock \<Rightarrow> kernel \<Rightarrow> (unlock_point \<times> mos_rwlock \<times> kernel) option" where
  "wake_reader l k = do {
     let (next, q, h) = mos_tlist_remove (rw_rq l) (k_threads k);
     let l = l\<lparr>rw_rq := q\<rparr>;
     let k = k\<lparr>k_threads := h\<rparr>;
     case next of
       Some x \<Rightarrow> do { k \<leftarrow> mos_thread_resume x k; Some (Wake_Readers, l, k) }
     | None \<Rightarrow> Some (Unlock_Done, l, k) }"

definition rwlock_unlock :: "mos_rwlock \<Rightarrow> kernel \<Rightarrow> (unlock_point \<times> mos_rwlock \<times> kernel) option" where
  "rwlock_unlock l k =
     (if rw_wlocked l \<noteq> 0 then do {
        (woken, l, k) \<leftarrow> wake_writer (l\<lparr>rw_wlocked := 0\<rparr>) k;
        if woken then Some (Unlock_Done, l, k) else wake_reader l k
      } else if rw_rlocked l \<noteq> 0 then do {
        let l = l\<lparr>rw_rlocked := rw_rlocked l - 1\<rparr>;
        if rw_rlocked l = 0 then do {
          (woken, l, k) \<leftarrow> wake_writer l k;
          Some (Unlock_Done, l, k)
        } else Some (Unlock_Done, l, k)
      } else Some (Unlock_Done, l, k))"

section \<open>Readers and writers exclude each other\<close>

text \<open>A lock in use: with the lock and the kernel, the threads that hold it for reading and for
  writing, and those in the loop of an unlock.  A thread takes the lock only if it does not hold it,
  and releases it only if it does; the kernel may do anything in between.\<close>

type_synonym rw_system = "mos_rwlock \<times> kernel \<times> tid set \<times> tid set \<times> tid set"

abbreviation thread_is :: "tid \<Rightarrow> kernel \<Rightarrow> bool" where
  "thread_is c k \<equiv> k_current k = Some c \<and> c < MAX_THREADS"

inductive rw_step :: "rw_system \<Rightarrow> rw_system \<Rightarrow> bool" where
  rdlock: "thread_is c k \<Longrightarrow> c \<notin> R \<union> W \<union> U \<Longrightarrow> rwlock_rdlock l k = Some (b, l', k') \<Longrightarrow>
    rw_step (l, k, R, W, U) (l', k', if b then insert c R else R, W, U)"
| tryrdlock: "thread_is c k \<Longrightarrow> c \<notin> R \<union> W \<union> U \<Longrightarrow> rwlock_tryrdlock l = (r, l') \<Longrightarrow>
    rw_step (l, k, R, W, U) (l', k, if r = RWLOCK_OK then insert c R else R, W, U)"
| wrlock: "thread_is c k \<Longrightarrow> c \<notin> R \<union> W \<union> U \<Longrightarrow> rwlock_wrlock l k = Some (b, l', k') \<Longrightarrow>
    rw_step (l, k, R, W, U) (l', k', R, if b then insert c W else W, U)"
| trywrlock: "thread_is c k \<Longrightarrow> c \<notin> R \<union> W \<union> U \<Longrightarrow> rwlock_trywrlock l = (r, l') \<Longrightarrow>
    rw_step (l, k, R, W, U) (l', k, R, if r = RWLOCK_OK then insert c W else W, U)"
| unlock: "thread_is c k \<Longrightarrow> c \<in> R \<union> W \<Longrightarrow> rwlock_unlock l k = Some (p, l', k') \<Longrightarrow>
    rw_step (l, k, R, W, U) (l', k', R - {c}, W - {c}, if p = Wake_Readers then insert c U else U)"
| unlock_loop: "thread_is c k \<Longrightarrow> c \<in> U \<Longrightarrow> wake_reader l k = Some (p, l', k') \<Longrightarrow>
    rw_step (l, k, R, W, U) (l', k', R, W, if p = Wake_Readers then U else U - {c})"
| other: "rw_step (l, k, R, W, U) (l, k', R, W, U)"

inductive rw_reachable :: "rw_system \<Rightarrow> bool" where
  init: "rw_reachable (rwlock_init, k, {}, {}, {})"
| step: "rw_reachable r \<Longrightarrow> rw_step r r' \<Longrightarrow> rw_reachable r'"

definition rw_inv :: "rw_system \<Rightarrow> bool" where
  "rw_inv r = (case r of (l, k, R, W, U) \<Rightarrow> R \<subseteq> {..<MAX_THREADS} \<and> unat (rw_rlocked l) = card R \<and>
     (if rw_wlocked l = 0 then W = {} else R = {} \<and> (\<exists>x. W = {x})))"

lemma wake_writer_counts: "wake_writer l k = Some (b, l', k') \<Longrightarrow>
    rw_rlocked l' = rw_rlocked l \<and> rw_wlocked l' = rw_wlocked l"
  by (auto simp: wake_writer_def bind_eq_Some_conv Let_def split: prod.splits option.splits)

lemma wake_reader_counts: "wake_reader l k = Some (p, l', k') \<Longrightarrow>
    rw_rlocked l' = rw_rlocked l \<and> rw_wlocked l' = rw_wlocked l"
  by (auto simp: wake_reader_def bind_eq_Some_conv Let_def split: prod.splits option.splits)

lemma rwlock_unlock_counts:
  assumes "rwlock_unlock l k = Some (p, l', k')"
  shows "rw_wlocked l' = 0"
    and "rw_rlocked l' = (if rw_wlocked l \<noteq> 0 \<or> rw_rlocked l = 0 then rw_rlocked l else rw_rlocked l - 1)"
  using assms
  by (auto simp: rwlock_unlock_def bind_eq_Some_conv Let_def split: if_splits
    dest!: wake_writer_counts wake_reader_counts)

lemma rwlock_rdlock_counts:
  assumes "rwlock_rdlock l k = Some (b, l', k')"
  shows "rw_wlocked l' = rw_wlocked l" and "b \<longleftrightarrow> rw_wlocked l = 0"
    and "rw_rlocked l' = (if b then rw_rlocked l + 1 else rw_rlocked l)"
  using assms by (auto simp: rwlock_rdlock_def bind_eq_Some_conv split: if_splits)

lemma rwlock_wrlock_counts:
  assumes "rwlock_wrlock l k = Some (b, l', k')"
  shows "rw_rlocked l' = rw_rlocked l" and "b \<longleftrightarrow> rw_wlocked l = 0 \<and> rw_rlocked l = 0"
    and "rw_wlocked l' = (if b then 1 else rw_wlocked l)"
  using assms by (auto simp: rwlock_wrlock_def bind_eq_Some_conv split: if_splits)

lemma add_reader:
  assumes "R \<subseteq> {..<MAX_THREADS}" and "c < MAX_THREADS" and "c \<notin> R" and "unat (v :: u8) = card R"
  shows "insert c R \<subseteq> {..<MAX_THREADS} \<and> unat (v + 1) = card (insert c R)"
proof -
  have fin: "finite R" using assms(1) finite_subset by blast
  have "card (insert c R) \<le> card {..<MAX_THREADS}" using assms(1,2) by (intro card_mono) auto
  then have "card R < 255" using fin assms(3) by (simp add: MAX_THREADS_def)
  then have "unat (v + 1) = unat v + 1" using assms(4) by (subst unat_add_lem [THEN iffD1]) simp_all
  then show ?thesis using assms fin by simp
qed

lemma rw_step_inv:
  assumes "rw_step r r'" and "rw_inv r"
  shows "rw_inv r'"
  using assms
proof (induction rule: rw_step.induct)
  case (rdlock c k R W U l b l' k')
  note n = rwlock_rdlock_counts [OF rdlock.hyps(3)]
  show ?case
  proof (cases b)
    case True
    with rdlock.prems rdlock.hyps(1,2) n add_reader [of R c "rw_rlocked l"] show ?thesis
      by (auto simp: rw_inv_def)
  qed (use rdlock.prems n in \<open>auto simp: rw_inv_def\<close>)
next
  case (tryrdlock c k R W U l r l')
  show ?case
  proof (cases "rw_wlocked l = 0")
    case True
    with tryrdlock.prems tryrdlock.hyps add_reader [of R c "rw_rlocked l"] show ?thesis
      by (auto simp: rw_inv_def rwlock_tryrdlock_def)
  next
    case False
    with tryrdlock show ?thesis
      by (simp add: rwlock_tryrdlock_def RWLOCK_OK_def RWLOCK_LOCKED_def)
  qed
next
  case (wrlock c k R W U l b l' k')
  note n = rwlock_wrlock_counts [OF wrlock.hyps(3)]
  have "R = {}" if "rw_rlocked l = 0"
    using wrlock.prems that finite_subset [of R "{..<MAX_THREADS}"] by (simp add: rw_inv_def)
  then show ?case using wrlock.prems n by (auto simp: rw_inv_def)
next
  case (trywrlock c k R W U l r l')
  have "R = {}" if "rw_rlocked l = 0"
    using trywrlock.prems that finite_subset [of R "{..<MAX_THREADS}"] by (simp add: rw_inv_def)
  then show ?case using trywrlock.prems trywrlock.hyps(3)
    by (auto simp: rw_inv_def rwlock_trywrlock_def RWLOCK_OK_def RWLOCK_LOCKED_def split: if_splits)
next
  case (unlock c k R W l p l' k' U)
  note n = rwlock_unlock_counts [OF unlock.hyps(3)]
  have R: "R \<subseteq> {..<MAX_THREADS}" "finite R" "unat (rw_rlocked l) = card R"
    using unlock.prems finite_subset [of R "{..<MAX_THREADS}"] by (simp_all add: rw_inv_def)
  show ?case
  proof (cases "rw_wlocked l = 0")
    case True
    then have c: "c \<in> R" "W = {}" using unlock by (auto simp: rw_inv_def)
    then have "rw_rlocked l \<noteq> 0" using R by (metis card_eq_0_iff empty_iff unat_eq_0)
    then have "unat (rw_rlocked l') = unat (rw_rlocked l) - 1"
      using n(2) True by (simp add: unat_minus_one)
    then show ?thesis using n(1) R c by (auto simp: rw_inv_def)
  next
    case False
    then show ?thesis using unlock.prems unlock.hyps(2) n R by (auto simp: rw_inv_def)
  qed
next
  case (unlock_loop c k U l p l' k' R W)
  then show ?case using wake_reader_counts [OF unlock_loop.hyps(3)] by (simp add: rw_inv_def)
qed (simp add: rw_inv_def)

lemma rw_reachable_inv: "rw_reachable r \<Longrightarrow> rw_inv r"
  by (induction rule: rw_reachable.induct) (simp add: rw_inv_def rwlock_init_def, rule rw_step_inv)

text \<open>C20. A read-write lock is held by any number of readers or by one writer, never by both; its
  reader count is the number of readers, which does not overflow, although a thread that was
  resumed can find the lock taken again and waking the readers is interleaved with other threads.\<close>
theorem rwlock_exclusion:
  assumes "rw_reachable (l, k, R, W, U)"
  shows "(W = {} \<or> R = {} \<and> (\<exists>x. W = {x})) \<and> unat (rw_rlocked l) = card R"
  using rw_reachable_inv [OF assms] by (auto simp: rw_inv_def split: if_splits)

theorem rwlock_exclusion_witness:
  "rw_reachable (rwlock_init\<lparr>rw_rlocked := 1\<rparr>, sample_kernel, {1}, {}, {}) \<and>
   unat (rw_rlocked (rwlock_init\<lparr>rw_rlocked := 1\<rparr>)) = card {1 :: tid}"
proof -
  have t: "thread_is 1 sample_kernel" by (simp add: sample_kernel_def MAX_THREADS_def)
  have "rw_step (rwlock_init, sample_kernel, {}, {}, {}) (rwlock_init\<lparr>rw_rlocked := 1\<rparr>, sample_kernel,
      if RWLOCK_OK = RWLOCK_OK then insert 1 {} else {}, {}, {})"
    by (rule rw_step.tryrdlock [OF t]) (simp_all add: rwlock_tryrdlock_def rwlock_init_def)
  with rw_reachable.init have r: "rw_reachable (rwlock_init\<lparr>rw_rlocked := 1\<rparr>, sample_kernel, {1}, {}, {})"
    by (auto intro: rw_reachable.step)
  from rwlock_exclusion [OF this] r show ?thesis by blast
qed

end
