(* ===== verification/Atmel_Flash.thy ===== *)
theory Atmel_Flash
  imports Crc
begin

text \<open>
  The driver of the external flash (\<open>dev/atmel-flash.c\<close>): 2048 pages of 264 bytes behind an SPI
  interface, with two page buffers on the chip.  In the buffered mode a page is written back only
  when another page is written.  The chip is hardware: a transaction (the bytes sent after the chip
  is selected, the number of bytes then clocked in) is an argument \<open>spi\<close> of all functions, and
  what the driver relies on is stated below as documented behaviour of the chip.
\<close>

section \<open>The state of the driver\<close>

definition PAGE_SIZE :: nat where "PAGE_SIZE = 264"
definition MAX_PAGES :: nat where "MAX_PAGES = 2048"
definition FLASH_SIZE :: nat where "FLASH_SIZE = 540672"
definition BUFFER_1 :: u8 where "BUFFER_1 = 1"
definition BUFFER_2 :: u8 where "BUFFER_2 = 2"
definition DEFAULT_BUFFER :: u8 where "DEFAULT_BUFFER = BUFFER_1"
definition MODE_UNBUFFERED :: u8 where "MODE_UNBUFFERED = 3"
definition MODE_BUFFERED :: u8 where "MODE_BUFFERED = 4"
definition DEV_SEEK :: u8 where "DEV_SEEK = 1"
definition DEV_FLUSH :: u8 where "DEV_FLUSH = 2"
definition DEV_LOCK :: u8 where "DEV_LOCK = 3"
definition DEV_UNLOCK :: u8 where "DEV_UNLOCK = 4"
definition DEV_OK :: u8 where "DEV_OK = 0"
definition DEV_BAD_IOCTL :: u8 where "DEV_BAD_IOCTL = 103"
definition DEV_BAD_MODE :: u8 where "DEV_BAD_MODE = 104"

record 'c atmel =
  a_addr :: u32
  a_buff :: u8
  a_page :: u16
  a_dirty :: bool
  a_mode :: u8
  a_chip :: 'c

type_synonym 'c spi = "u8 list \<Rightarrow> nat \<Rightarrow> 'c \<Rightarrow> u8 list \<times> 'c"

section \<open>The commands to the chip\<close>

definition C_REQ_STATUS :: u8 where "C_REQ_STATUS = 0xd7"
definition C_READ_THROUGH_MEMORY :: u8 where "C_READ_THROUGH_MEMORY = 0xE8"
definition C_ERASE_PAGE :: u8 where "C_ERASE_PAGE = 0x81"

definition C_WRITE_BUFFER :: "u8 \<Rightarrow> u8" where
  "C_WRITE_BUFFER selected = (if selected = 1 then 0x84 else 0x87)"
definition C_FLUSH_BUFFER :: "u8 \<Rightarrow> u8" where
  "C_FLUSH_BUFFER selected = (if selected = 1 then 0x83 else 0x86)"
definition C_COMPARE_BUFFER :: "u8 \<Rightarrow> u8" where
  "C_COMPARE_BUFFER selected = (if selected = 1 then 0x60 else 0x61)"
definition C_FILL_BUFFER :: "u8 \<Rightarrow> u8" where
  "C_FILL_BUFFER selected = (if selected = 1 then 0x53 else 0x55)"

definition page_command :: "u8 \<Rightarrow> u16 \<Rightarrow> u8 list" where
  "page_command op page = [op, ucast (drop_bit 7 page), ucast (push_bit 1 page), 0]"

definition read_command :: "u16 \<Rightarrow> u16 \<Rightarrow> u8 list" where
  "read_command page offset = [C_READ_THROUGH_MEMORY, ucast (drop_bit 7 page),
     ucast (push_bit 1 page OR drop_bit 8 offset), ucast offset, 0, 0, 0, 0]"

definition atmel_flash_read_memory :: "'c spi \<Rightarrow> u16 \<Rightarrow> u16 \<Rightarrow> u16 \<Rightarrow> 'c \<Rightarrow> u8 list \<times> 'c" where
  "atmel_flash_read_memory spi page offset len c = spi (read_command page offset) (unat len) c"

definition atmel_flash_crc_memory :: "'c spi \<Rightarrow> u16 \<Rightarrow> u16 \<Rightarrow> u32 \<Rightarrow> 'c \<Rightarrow> u16 \<times> 'c" where
  "atmel_flash_crc_memory spi page offset len c =
     (case spi (read_command page offset) (unat len) c of
        (bytes, c) \<Rightarrow> (crc_augment 16 (fold crc_byte bytes INITIAL_VALUE), c))"

definition atmel_flash_busy :: "'c spi \<Rightarrow> 'c \<Rightarrow> bool \<times> 'c" where
  "atmel_flash_busy spi c =
     (case spi [C_REQ_STATUS] 1 c of (bytes, c) \<Rightarrow> (hd bytes AND 0x80 = 0, c))"

text \<open>\<open>while (atmel_flash_busy());\<close>\<close>

partial_function (option) busy_wait :: "'c spi \<Rightarrow> 'c \<Rightarrow> 'c option" where
  "busy_wait spi c =
     (case atmel_flash_busy spi c of (busy, c) \<Rightarrow> if busy then busy_wait spi c else Some c)"

definition atmel_flash_write_buffer :: "'c spi \<Rightarrow> u8 \<Rightarrow> u16 \<Rightarrow> u8 list \<Rightarrow> 'c \<Rightarrow> 'c" where
  "atmel_flash_write_buffer spi selected offset data c =
     snd (spi ([C_WRITE_BUFFER selected, 0, ucast (drop_bit 8 offset), ucast offset] @ data) 0 c)"

definition atmel_flash_flush_buffer :: "'c spi \<Rightarrow> u8 \<Rightarrow> u16 \<Rightarrow> 'c \<Rightarrow> 'c" where
  "atmel_flash_flush_buffer spi selected page c =
     snd (spi (page_command (C_FLUSH_BUFFER selected) page) 0 c)"

text \<open>The loop waits as long as bit 7 of the status is set.\<close>

partial_function (option) compare_wait :: "'c spi \<Rightarrow> 'c \<Rightarrow> (u8 \<times> 'c) option" where
  "compare_wait spi c =
     (case spi [C_REQ_STATUS] 1 c of (bytes, c) \<Rightarrow>
        if hd bytes AND 0x80 \<noteq> 0 then compare_wait spi c else Some (hd bytes, c))"

definition atmel_flash_compare_buffer :: "'c spi \<Rightarrow> u8 \<Rightarrow> u16 \<Rightarrow> 'c \<Rightarrow> (u8 \<times> 'c) option" where
  "atmel_flash_compare_buffer spi selected page c = do {
     (status, c) \<leftarrow> compare_wait spi (snd (spi (page_command (C_COMPARE_BUFFER selected) page) 0 c));
     Some (status AND 0x40, c) }"

definition atmel_flash_fill_buffer :: "'c spi \<Rightarrow> u8 \<Rightarrow> u16 \<Rightarrow> 'c \<Rightarrow> 'c" where
  "atmel_flash_fill_buffer spi selected page c =
     snd (spi (page_command (C_FILL_BUFFER selected) page) 0 c)"

definition atmel_flash_erase_page :: "'c spi \<Rightarrow> u16 \<Rightarrow> 'c \<Rightarrow> 'c" where
  "atmel_flash_erase_page spi page c = snd (spi (page_command C_ERASE_PAGE page) 0 c)"

section \<open>The device operations\<close>

text \<open>Starting values of the driver; the pins are not modelled.\<close>

definition atmel_flash_init :: "'c \<Rightarrow> 'c atmel" where
  "atmel_flash_init c = \<lparr>a_addr = 0, a_buff = BUFFER_1, a_page = of_nat MAX_PAGES, a_dirty = False,
     a_mode = MODE_UNBUFFERED, a_chip = c\<rparr>"

text \<open>Waiting for the chip and writing back the buffer (it occurs in five places).\<close>

definition write_back :: "'c spi \<Rightarrow> 'c atmel \<Rightarrow> 'c atmel option" where
  "write_back spi f = do {
     c \<leftarrow> busy_wait spi (a_chip f);
     Some (f\<lparr>a_chip := atmel_flash_flush_buffer spi (a_buff f) (a_page f) c, a_dirty := False\<rparr>) }"

definition wait_chip :: "'c spi \<Rightarrow> 'c atmel \<Rightarrow> 'c atmel option" where
  "wait_chip spi f = do { c \<leftarrow> busy_wait spi (a_chip f); Some (f\<lparr>a_chip := c\<rparr>) }"

definition dev_mode_DEV_ATMEL_FLASH :: "'c spi \<Rightarrow> u8 \<Rightarrow> 'c atmel \<Rightarrow> (u8 \<times> 'c atmel) option" where
  "dev_mode_DEV_ATMEL_FLASH spi mode f =
     (if a_mode f = mode then Some (DEV_OK, f)
      else (let f = f\<lparr>a_mode := mode\<rparr> in
        if mode = MODE_UNBUFFERED then
          (if a_dirty f then do {
             f \<leftarrow> write_back spi f;
             f \<leftarrow> wait_chip spi f;
             Some (DEV_OK, f)
           } else Some (DEV_OK, f))
        else if mode = MODE_BUFFERED then
          Some (DEV_OK, f\<lparr>a_buff := BUFFER_1, a_page := of_nat MAX_PAGES, a_dirty := False\<rparr>)
        else Some (DEV_BAD_MODE, f)))"

definition dev_ioctl_DEV_ATMEL_FLASH :: "'c spi \<Rightarrow> u8 \<Rightarrow> u32 \<Rightarrow> 'c atmel \<Rightarrow> (u8 \<times> 'c atmel) option" where
  "dev_ioctl_DEV_ATMEL_FLASH spi request arg f =
     (if request = DEV_SEEK then Some (DEV_OK, f\<lparr>a_addr := arg\<rparr>)
      else if request = DEV_FLUSH then
        (if a_dirty f then do {
           f \<leftarrow> write_back spi f;
           f \<leftarrow> wait_chip spi f;
           Some (DEV_OK, f)
         } else Some (DEV_OK, f))
      else if request = DEV_LOCK then Some (DEV_OK, f)
      else if request = DEV_UNLOCK then Some (DEV_OK, f)
      else Some (DEV_BAD_IOCTL, f))"

definition addr_page :: "u32 \<Rightarrow> u16" where "addr_page a = ucast (a div 264)"
definition addr_offset :: "u32 \<Rightarrow> u16" where "addr_offset a = ucast (a mod 264)"

definition dev_read_DEV_ATMEL_FLASH :: "'c spi \<Rightarrow> u16 \<Rightarrow> 'c atmel \<Rightarrow> (u8 list \<times> 'c atmel) option" where
  "dev_read_DEV_ATMEL_FLASH spi count f = do {
     let page = addr_page (a_addr f);
     let offset = addr_offset (a_addr f);
     f \<leftarrow> (if a_dirty f \<and> page \<le> a_page f \<and> a_page f \<le> page + (offset + count) div 264
           then write_back spi f else Some f);
     f \<leftarrow> wait_chip spi f;
     let (bytes, c) = atmel_flash_read_memory spi page offset count (a_chip f);
     Some (bytes, f\<lparr>a_chip := c\<rparr>) }"

text \<open>The part of \<open>dev_write\<close> for one page.\<close>

definition write_buffered :: "'c spi \<Rightarrow> u16 \<Rightarrow> u16 \<Rightarrow> u8 list \<Rightarrow> u16 \<Rightarrow> 'c atmel \<Rightarrow> 'c atmel option" where
  "write_buffered spi page offset data num_bytes f = do {
     f \<leftarrow> (if page \<noteq> a_page f then do {
        f \<leftarrow> (if a_dirty f then write_back spi f else Some f);
        let f = f\<lparr>a_buff := (if a_buff f = BUFFER_1 then BUFFER_2 else BUFFER_1), a_page := page\<rparr>;
        f \<leftarrow> (if num_bytes < 264 then do {
           f \<leftarrow> wait_chip spi f;
           Some (f\<lparr>a_chip := atmel_flash_fill_buffer spi (a_buff f) page (a_chip f)\<rparr>)
         } else Some f);
        f \<leftarrow> wait_chip spi f;
        Some (f\<lparr>a_chip := atmel_flash_erase_page spi page (a_chip f)\<rparr>)
      } else Some f);
     Some (f\<lparr>a_chip := atmel_flash_write_buffer spi (a_buff f) offset data (a_chip f), a_dirty := True\<rparr>) }"

definition write_unbuffered :: "'c spi \<Rightarrow> u16 \<Rightarrow> u16 \<Rightarrow> u8 list \<Rightarrow> 'c atmel \<Rightarrow> 'c atmel option" where
  "write_unbuffered spi page offset data f = do {
     c \<leftarrow> busy_wait spi (atmel_flash_fill_buffer spi DEFAULT_BUFFER page (a_chip f));
     c \<leftarrow> busy_wait spi (atmel_flash_erase_page spi page c);
     let c = atmel_flash_write_buffer spi DEFAULT_BUFFER offset data c;
     c \<leftarrow> busy_wait spi (atmel_flash_flush_buffer spi DEFAULT_BUFFER page c);
     Some (f\<lparr>a_chip := c\<rparr>) }"

definition num_bytes_of :: "u16 \<Rightarrow> u16 \<Rightarrow> u16" where
  "num_bytes_of count offset = (if 264 < count + offset then 264 - offset else count)"

partial_function (option) write_pages ::
    "'c spi \<Rightarrow> u8 list \<Rightarrow> u16 \<Rightarrow> u16 \<Rightarrow> u16 \<Rightarrow> u16 \<Rightarrow> 'c atmel \<Rightarrow> 'c atmel option" where
  "write_pages spi buf index count page offset f =
     (if 0 < count then do {
        let num_bytes = num_bytes_of count offset;
        data \<leftarrow> rd_block buf (unat index) (unat num_bytes);
        f \<leftarrow> (if a_mode f = MODE_BUFFERED then write_buffered spi page offset data num_bytes f
              else write_unbuffered spi page offset data f);
        write_pages spi buf (index + num_bytes) (count - num_bytes) (page + 1) 0
          (f\<lparr>a_addr := a_addr f + ucast num_bytes\<rparr>)
      } else Some f)"

text \<open>The result is \<open>count\<close> after the loop has counted it down.\<close>

definition dev_write_DEV_ATMEL_FLASH :: "'c spi \<Rightarrow> u8 list \<Rightarrow> u16 \<Rightarrow> 'c atmel \<Rightarrow> (u16 \<times> 'c atmel) option" where
  "dev_write_DEV_ATMEL_FLASH spi buf count f = do {
     let page = addr_page (a_addr f);
     let offset = addr_offset (a_addr f);
     f \<leftarrow> wait_chip spi f;
     f \<leftarrow> write_pages spi buf 0 count page offset f;
     Some (0, f) }"

partial_function (option) compare_pages ::
    "'c spi \<Rightarrow> u8 list \<Rightarrow> u16 \<Rightarrow> u16 \<Rightarrow> 'c atmel \<Rightarrow> (u8 \<times> u16 \<times> 'c atmel) option" where
  "compare_pages spi buf index count f =
     (if 0 < count then do {
        let page = addr_page (a_addr f);
        let offset = addr_offset (a_addr f);
        let num_bytes = num_bytes_of count offset;
        f \<leftarrow> (if num_bytes < 264 then do {
           c \<leftarrow> busy_wait spi (atmel_flash_fill_buffer spi DEFAULT_BUFFER page (a_chip f));
           Some (f\<lparr>a_chip := c\<rparr>)
         } else Some f);
        data \<leftarrow> rd_block buf (unat index) (unat num_bytes);
        (differs, c) \<leftarrow> atmel_flash_compare_buffer spi DEFAULT_BUFFER page
          (atmel_flash_write_buffer spi DEFAULT_BUFFER offset data (a_chip f));
        let f = f\<lparr>a_chip := c\<rparr>;
        if differs \<noteq> 0 then Some (1, count, f)
        else compare_pages spi buf (index + num_bytes) (count - num_bytes)
               (f\<lparr>a_addr := a_addr f + ucast num_bytes\<rparr>)
      } else Some (0, count, f))"

definition atmel_flash_compare :: "'c spi \<Rightarrow> u8 list \<Rightarrow> u16 \<Rightarrow> 'c atmel \<Rightarrow> (u8 \<times> 'c atmel) option" where
  "atmel_flash_compare spi buf count f = do {
     f \<leftarrow> (if a_dirty f then write_back spi f else Some f);
     f \<leftarrow> wait_chip spi f;
     (compare, count, f) \<leftarrow> compare_pages spi buf 0 count f;
     Some (compare, f\<lparr>a_addr := a_addr f + ucast count\<rparr>) }"

definition atmel_flash_crc :: "'c spi \<Rightarrow> u32 \<Rightarrow> 'c atmel \<Rightarrow> (u16 \<times> 'c atmel) option" where
  "atmel_flash_crc spi count f = do {
     let page = addr_page (a_addr f);
     let offset = addr_offset (a_addr f);
     f \<leftarrow> (if a_dirty f \<and> page \<le> a_page f \<and>
              (ucast (a_page f) :: u32) \<le> ucast page + (ucast offset + count) div 264
           then write_back spi f else Some f);
     f \<leftarrow> wait_chip spi f;
     let (crc, c) = atmel_flash_crc_memory spi page offset count (a_chip f);
     Some (crc, f\<lparr>a_chip := c\<rparr>) }"

end
