(* ===== verification/Atmel_Chip.thy ===== *)
theory Atmel_Chip
  imports Atmel_Flash
begin

text \<open>
  What the flash driver relies on: the documented behaviour of the chip, as a contract over the
  transactions of \<open>Atmel_Flash\<close>, and a simulated chip that fulfils it.
\<close>

section \<open>What the driver relies on\<close>

text \<open>The documented behaviour of the chip, over the pages and buffers of a chip state.  A chip that
  is \<open>idle\<close> accepts every command; while a page is being erased the buffers can be written
  (\<open>accessible\<close>), and nothing is said of other commands to a busy chip.  Bit 7 of the status is set
  when the chip is idle, and a chip that is asked again and again becomes idle.\<close>

definition poll :: "'c spi \<Rightarrow> 'c \<Rightarrow> 'c" where
  "poll spi c = snd (spi [C_REQ_STATUS] 1 c)"

definition overwrite :: "'a list \<Rightarrow> nat \<Rightarrow> 'a list \<Rightarrow> 'a list" where
  "overwrite xs i ys = take i xs @ ys @ drop (i + length ys) xs"

definition flat :: "(nat \<Rightarrow> u8 list) \<Rightarrow> nat \<Rightarrow> u8" where
  "flat pages a = pages (a div 264) ! (a mod 264)"

definition at45_status ::
    "'c spi \<Rightarrow> ('c \<Rightarrow> nat \<Rightarrow> u8 list) \<Rightarrow> ('c \<Rightarrow> u8 \<Rightarrow> u8 list) \<Rightarrow> ('c \<Rightarrow> bool) \<Rightarrow> bool" where
  "at45_status spi pages buf idle \<longleftrightarrow> (\<forall>c. pages (poll spi c) = pages c \<and> buf (poll spi c) = buf c \<and>
     (hd (fst (spi [C_REQ_STATUS] 1 c)) AND 0x80 \<noteq> 0 \<longleftrightarrow> idle c) \<and> (idle c \<longrightarrow> idle (poll spi c)) \<and>
     (\<exists>n. idle ((poll spi ^^ n) c)))"

definition at45_pages ::
    "'c spi \<Rightarrow> ('c \<Rightarrow> nat \<Rightarrow> u8 list) \<Rightarrow> ('c \<Rightarrow> u8 \<Rightarrow> u8 list) \<Rightarrow> ('c \<Rightarrow> bool) \<Rightarrow> ('c \<Rightarrow> bool) \<Rightarrow> bool" where
  "at45_pages spi pages buf idle accessible \<longleftrightarrow> (\<forall>c page s. idle c \<longrightarrow> unat page < MAX_PAGES \<longrightarrow> s \<in> {1, 2} \<longrightarrow>
     pages (atmel_flash_fill_buffer spi s page c) = pages c \<and>
     buf (atmel_flash_fill_buffer spi s page c) = (buf c)(s := pages c (unat page)) \<and>
     pages (atmel_flash_flush_buffer spi s page c) = (pages c)(unat page := buf c s) \<and>
     buf (atmel_flash_flush_buffer spi s page c) = buf c \<and>
     pages (atmel_flash_erase_page spi page c) = (pages c)(unat page := replicate 264 0xFF) \<and>
     buf (atmel_flash_erase_page spi page c) = buf c \<and>
     accessible (atmel_flash_erase_page spi page c))"

definition at45_buffers ::
    "'c spi \<Rightarrow> ('c \<Rightarrow> nat \<Rightarrow> u8 list) \<Rightarrow> ('c \<Rightarrow> u8 \<Rightarrow> u8 list) \<Rightarrow> ('c \<Rightarrow> bool) \<Rightarrow> ('c \<Rightarrow> bool) \<Rightarrow> bool" where
  "at45_buffers spi pages buf idle accessible \<longleftrightarrow> (\<forall>c s offset data. accessible c \<longrightarrow> s \<in> {1, 2} \<longrightarrow>
     unat offset + length data \<le> PAGE_SIZE \<longrightarrow>
     pages (atmel_flash_write_buffer spi s offset data c) = pages c \<and>
     buf (atmel_flash_write_buffer spi s offset data c) = (buf c)(s := overwrite (buf c s) (unat offset) data) \<and>
     (idle c \<longrightarrow> idle (atmel_flash_write_buffer spi s offset data c)))"

definition at45_read ::
    "'c spi \<Rightarrow> ('c \<Rightarrow> nat \<Rightarrow> u8 list) \<Rightarrow> ('c \<Rightarrow> u8 \<Rightarrow> u8 list) \<Rightarrow> ('c \<Rightarrow> bool) \<Rightarrow> bool" where
  "at45_read spi pages buf idle \<longleftrightarrow> (\<forall>c page offset n. idle c \<longrightarrow> unat offset < PAGE_SIZE \<longrightarrow>
     unat page * PAGE_SIZE + unat offset + n \<le> FLASH_SIZE \<longrightarrow>
     fst (spi (read_command page offset) n c) =
       map (flat (pages c)) [unat page * PAGE_SIZE + unat offset ..< unat page * PAGE_SIZE + unat offset + n] \<and>
     pages (snd (spi (read_command page offset) n c)) = pages c \<and>
     buf (snd (spi (read_command page offset) n c)) = buf c)"

definition at45 ::
    "'c spi \<Rightarrow> ('c \<Rightarrow> nat \<Rightarrow> u8 list) \<Rightarrow> ('c \<Rightarrow> u8 \<Rightarrow> u8 list) \<Rightarrow> ('c \<Rightarrow> bool) \<Rightarrow> ('c \<Rightarrow> bool) \<Rightarrow> bool" where
  "at45 spi pages buf idle accessible \<longleftrightarrow>
     (\<forall>c p. length (pages c p) = PAGE_SIZE) \<and> (\<forall>c s. length (buf c s) = PAGE_SIZE) \<and>
     (\<forall>c. idle c \<longrightarrow> accessible c) \<and>
     at45_status spi pages buf idle \<and> at45_pages spi pages buf idle accessible \<and>
     at45_buffers spi pages buf idle accessible \<and> at45_read spi pages buf idle"

lemma at45D:
  assumes "at45 spi pages buf idle accessible"
  shows "at45_status spi pages buf idle" and "at45_pages spi pages buf idle accessible"
    and "at45_buffers spi pages buf idle accessible" and "at45_read spi pages buf idle"
    and "length (pages c p) = 264" and "length (buf c s) = 264" and "idle c \<Longrightarrow> accessible c"
  using assms by (auto simp: at45_def PAGE_SIZE_def)

lemma overwrite_length: "i + length ys \<le> length xs \<Longrightarrow> length (overwrite xs i ys) = length xs"
  by (simp add: overwrite_def)

lemma overwrite_nth:
  assumes "i + length ys \<le> length xs" and "k < length xs"
  shows "overwrite xs i ys ! k = (if i \<le> k \<and> k < i + length ys then ys ! (k - i) else xs ! k)"
  using wr_block_nth [of xs i ys "overwrite xs i ys" k] assms by (simp add: wr_block_Some overwrite_def)

lemma overwrite_all: "length ys = length xs \<Longrightarrow> overwrite xs 0 ys = ys"
  by (simp add: overwrite_def)

section \<open>A simulated chip\<close>

text \<open>It decodes the commands, is busy for two polls after each command that works on a page, and
  becomes idle then.\<close>

record chip =
  ch_main :: "nat \<Rightarrow> nat \<Rightarrow> u8"
  ch_buf :: "u8 \<Rightarrow> nat \<Rightarrow> u8"
  ch_busy :: nat

definition arg_page :: "u8 list \<Rightarrow> nat" where
  "arg_page args = unat (args ! 0) * 128 + unat (args ! 1) div 2"

definition arg_offset :: "u8 list \<Rightarrow> nat" where
  "arg_offset args = unat (args ! 1) mod 2 * 256 + unat (args ! 2)"

definition chip_pages :: "chip \<Rightarrow> nat \<Rightarrow> u8 list" where
  "chip_pages c p = map (ch_main c p) [0..<264]"

definition chip_buf :: "chip \<Rightarrow> u8 \<Rightarrow> u8 list" where
  "chip_buf c s = map (ch_buf c s) [0..<264]"

definition chip_idle :: "chip \<Rightarrow> bool" where "chip_idle c \<longleftrightarrow> ch_busy c = 0"

definition store_bytes :: "nat \<Rightarrow> u8 list \<Rightarrow> (nat \<Rightarrow> u8) \<Rightarrow> nat \<Rightarrow> u8" where
  "store_bytes i ys g = (\<lambda>k. if i \<le> k \<and> k < i + length ys then ys ! (k - i) else g k)"

definition chip_command :: "u8 \<Rightarrow> u8 list \<Rightarrow> chip \<Rightarrow> chip" where
  "chip_command op args c =
     (let p = arg_page args in
      if op = 0x53 then c\<lparr>ch_buf := (ch_buf c)(1 := ch_main c p), ch_busy := 2\<rparr>
      else if op = 0x55 then c\<lparr>ch_buf := (ch_buf c)(2 := ch_main c p), ch_busy := 2\<rparr>
      else if op = 0x83 then c\<lparr>ch_main := (ch_main c)(p := ch_buf c 1), ch_busy := 2\<rparr>
      else if op = 0x86 then c\<lparr>ch_main := (ch_main c)(p := ch_buf c 2), ch_busy := 2\<rparr>
      else if op = 0x81 then c\<lparr>ch_main := (ch_main c)(p := \<lambda>_. 0xFF), ch_busy := 2\<rparr>
      else if op = 0x84 then c\<lparr>ch_buf := (ch_buf c)(1 := store_bytes (arg_offset args) (drop 3 args) (ch_buf c 1))\<rparr>
      else if op = 0x87 then c\<lparr>ch_buf := (ch_buf c)(2 := store_bytes (arg_offset args) (drop 3 args) (ch_buf c 2))\<rparr>
      else c)"

definition chip_spi :: "chip spi" where
  "chip_spi sent n c =
     (if hd sent = C_REQ_STATUS
      then (replicate n (if ch_busy c = 0 then 0x80 else 0), c\<lparr>ch_busy := ch_busy c - 1\<rparr>)
      else if hd sent = C_READ_THROUGH_MEMORY
      then (let a = arg_page (tl sent) * 264 + arg_offset (tl sent)
            in (map (flat (chip_pages c)) [a ..< a + n], c))
      else ([], chip_command (hd sent) (tl sent) c))"

lemma unat_drop_bit_u16: "unat (drop_bit n (w :: u16)) = unat w div 2 ^ n"
  by (simp add: unat_drop_bit_eq drop_bit_eq_div [where 'a = nat])

lemma unat_low_byte: "unat (ucast (w :: u16) :: u8) = unat w mod 256"
  by (simp add: unsigned_ucast_eq take_bit_eq_mod)

lemma unat_push_bit_1: "unat (push_bit 1 (w :: u16)) = 2 * unat w mod 65536"
  by (simp add: push_bit_eq_mult unat_word_ariths mult.commute)

lemma arg_page_command:
  assumes "unat page < 32768"
  shows "arg_page (tl (page_command op page)) = unat page"
proof -
  have "unat (ucast (drop_bit 7 page) :: u8) = unat page div 128"
    using assms by (simp add: unat_low_byte unat_drop_bit_u16)
  moreover have "unat (ucast (push_bit 1 page) :: u8) = 2 * (unat page mod 128)"
    unfolding unat_low_byte unat_push_bit_1 by (simp add: mod_mod_cancel mult_mod_right)
  ultimately show ?thesis by (simp add: arg_page_def page_command_def)
qed

lemma shifted_or:
  assumes "unat offset < 512"
  shows "unat (push_bit 1 page OR drop_bit 8 offset) = 2 * unat (page :: u16) mod 65536 + unat (offset :: u16) div 256"
proof -
  have d: "unat (drop_bit 8 offset) = unat offset div 256" by (simp add: unat_drop_bit_u16)
  then have l: "unat (drop_bit 8 offset) < 2" using assms by simp
  have "push_bit 1 page AND drop_bit 8 offset = 0"
  proof (rule bit_word_eqI)
    fix n
    have "unat (drop_bit 8 offset) = unat (0 :: u16) \<or> unat (drop_bit 8 offset) = unat (1 :: u16)"
      using l by auto
    then have "drop_bit 8 offset = 0 \<or> drop_bit 8 offset = 1" using unsigned_word_eqI by blast
    then show "bit (push_bit 1 page AND drop_bit 8 offset) n = bit (0 :: u16) n"
      by (auto simp: bit_and_iff bit_push_bit_iff bit_1_iff)
  qed
  then have "push_bit 1 page OR drop_bit 8 offset = push_bit 1 page + drop_bit 8 offset"
    by (simp add: disjunctive_add_eq_or)
  moreover have "unat (push_bit 1 page + drop_bit 8 offset) = unat (push_bit 1 page) + unat (drop_bit 8 offset)"
  proof (rule unat_add_u16_small)
    have "unat (push_bit 1 page) = 2 * (unat page mod 32768)"
      unfolding unat_push_bit_1 by (simp add: mult_mod_right)
    moreover have "unat page mod 32768 < 32768" by simp
    ultimately have "unat (push_bit 1 page) < 65535" by linarith
    with l show "unat (push_bit 1 page) + unat (drop_bit 8 offset) < 65536" by linarith
  qed
  ultimately show ?thesis unfolding unat_push_bit_1 d by simp
qed

lemma args_read_command:
  assumes "unat page < 32768" and "unat offset < 264"
  shows "arg_page (tl (read_command page offset)) = unat page"
    and "arg_offset (tl (read_command page offset)) = unat offset"
proof -
  have o: "unat offset div 256 < 2" using assms(2) by auto
  have h: "unat (ucast (drop_bit 7 page) :: u8) = unat page div 128"
    using assms(1) by (simp add: unat_low_byte unat_drop_bit_u16)
  have "unat (ucast (push_bit 1 page OR drop_bit 8 offset) :: u8) =
      (2 * unat page mod 65536 + unat offset div 256) mod 256"
    using assms(2) unfolding unat_low_byte by (subst shifted_or) simp_all
  also have "\<dots> = (2 * (unat page mod 128) + unat offset div 256) mod 256"
    using mod_add_left_eq [of "2 * unat page mod 65536" 256 "unat offset div 256"]
    by (simp add: mod_mod_cancel mult_mod_right)
  also have "\<dots> = 2 * (unat page mod 128) + unat offset div 256"
    using o by (intro mod_less) linarith
  finally have m: "unat (ucast (push_bit 1 page OR drop_bit 8 offset) :: u8) =
      2 * (unat page mod 128) + unat offset div 256" .
  show "arg_page (tl (read_command page offset)) = unat page"
    using o by (simp add: arg_page_def read_command_def h m del: One_nat_def)
  show "arg_offset (tl (read_command page offset)) = unat offset"
    using o by (simp add: arg_offset_def read_command_def m unat_low_byte [of offset] del: One_nat_def)
qed

lemma chip_length: "length (chip_pages c p) = 264" "length (chip_buf c s) = 264"
  by (simp_all add: chip_pages_def chip_buf_def)

lemma store_bytes_overwrite:
  assumes "i + length ys \<le> 264"
  shows "map (store_bytes i ys g) [0..<264] = overwrite (map g [0..<264]) i ys"
proof (rule nth_equalityI)
  show "length (map (store_bytes i ys g) [0..<264]) = length (overwrite (map g [0..<264]) i ys)"
    using assms by (simp add: overwrite_length)
  fix k assume "k < length (map (store_bytes i ys g) [0..<264])"
  then show "map (store_bytes i ys g) [0..<264] ! k = overwrite (map g [0..<264]) i ys ! k"
    using assms by (simp add: overwrite_nth store_bytes_def)
qed

lemma poll_funpow_busy: "ch_busy ((poll chip_spi ^^ n) c) = ch_busy c - n"
  by (induction n) (simp_all add: poll_def chip_spi_def)

lemma chip_at45_status: "at45_status chip_spi chip_pages chip_buf chip_idle"
proof -
  have "\<exists>n. chip_idle ((poll chip_spi ^^ n) c)" for c
    by (rule exI [of _ "ch_busy c"]) (simp add: chip_idle_def poll_funpow_busy)
  moreover have "chip_pages (poll chip_spi c) = chip_pages c" "chip_buf (poll chip_spi c) = chip_buf c"
    "chip_idle c \<longrightarrow> chip_idle (poll chip_spi c)" for c
    by (simp_all add: poll_def chip_spi_def chip_pages_def chip_buf_def chip_idle_def fun_eq_iff)
  moreover have "hd (fst (chip_spi [C_REQ_STATUS] 1 c)) AND 0x80 \<noteq> 0 \<longleftrightarrow> chip_idle c" for c
    by (simp add: chip_spi_def chip_idle_def)
  ultimately show ?thesis unfolding at45_status_def by blast
qed

lemma chip_spi_command:
  assumes "op \<noteq> C_REQ_STATUS" and "op \<noteq> C_READ_THROUGH_MEMORY"
  shows "chip_spi (op # args) n c = ([], chip_command op args c)"
  using assms by (simp add: chip_spi_def)

lemma chip_spi_page:
  assumes "op \<noteq> C_REQ_STATUS" and "op \<noteq> C_READ_THROUGH_MEMORY" and "unat page < MAX_PAGES"
  shows "\<exists>args. arg_page args = unat page \<and>
    snd (chip_spi (page_command op page) n c) = chip_command op args c"
proof (intro exI conjI)
  show "arg_page (tl (page_command op page)) = unat page"
    using assms(3) by (intro arg_page_command) (simp add: MAX_PAGES_def)
  show "snd (chip_spi (page_command op page) n c) = chip_command op (tl (page_command op page)) c"
    using chip_spi_command [OF assms(1,2)] by (simp add: page_command_def)
qed

lemmas opcode_defs = C_REQ_STATUS_def C_READ_THROUGH_MEMORY_def C_ERASE_PAGE_def C_WRITE_BUFFER_def
  C_FLUSH_BUFFER_def C_FILL_BUFFER_def C_COMPARE_BUFFER_def

lemma chip_at45_pages: "at45_pages chip_spi chip_pages chip_buf chip_idle (\<lambda>_. True)"
  unfolding at45_pages_def
proof (intro allI impI)
  fix c and page :: u16 and s :: u8
  assume p: "unat page < MAX_PAGES" and s: "s \<in> {1, 2}"
  have op: "op \<noteq> C_REQ_STATUS" "op \<noteq> C_READ_THROUGH_MEMORY"
    if "op \<in> {C_FILL_BUFFER s, C_FLUSH_BUFFER s, C_ERASE_PAGE}" for op
    using that by (auto simp: opcode_defs split: if_splits)
  have fill: "\<exists>a. arg_page a = unat page \<and>
      atmel_flash_fill_buffer chip_spi s page c = chip_command (C_FILL_BUFFER s) a c"
    using chip_spi_page [OF op p, of "C_FILL_BUFFER s"] by (simp add: atmel_flash_fill_buffer_def)
  have flush: "\<exists>a. arg_page a = unat page \<and>
      atmel_flash_flush_buffer chip_spi s page c = chip_command (C_FLUSH_BUFFER s) a c"
    using chip_spi_page [OF op p, of "C_FLUSH_BUFFER s"] by (simp add: atmel_flash_flush_buffer_def)
  have erase: "\<exists>a. arg_page a = unat page \<and>
      atmel_flash_erase_page chip_spi page c = chip_command C_ERASE_PAGE a c"
    using chip_spi_page [OF op p, of C_ERASE_PAGE] by (simp add: atmel_flash_erase_page_def)
  have r: "map (\<lambda>_. 0xFF) [0..<264] = replicate 264 (0xFF :: u8)" by (simp add: map_replicate_const)
  show "chip_pages (atmel_flash_fill_buffer chip_spi s page c) = chip_pages c \<and>
     chip_buf (atmel_flash_fill_buffer chip_spi s page c) = (chip_buf c)(s := chip_pages c (unat page)) \<and>
     chip_pages (atmel_flash_flush_buffer chip_spi s page c) = (chip_pages c)(unat page := chip_buf c s) \<and>
     chip_buf (atmel_flash_flush_buffer chip_spi s page c) = chip_buf c \<and>
     chip_pages (atmel_flash_erase_page chip_spi page c) = (chip_pages c)(unat page := replicate 264 0xFF) \<and>
     chip_buf (atmel_flash_erase_page chip_spi page c) = chip_buf c \<and> True"
    using fill flush erase s r
    by (auto simp: chip_command_def opcode_defs chip_pages_def chip_buf_def fun_eq_iff Let_def)
qed

lemma chip_at45_buffers: "at45_buffers chip_spi chip_pages chip_buf chip_idle (\<lambda>_. True)"
  unfolding at45_buffers_def
proof (intro allI impI)
  fix c and s :: u8 and offset :: u16 and data :: "u8 list"
  assume s: "s \<in> {1, 2}" and room: "unat offset + length data \<le> PAGE_SIZE"
  let ?args = "[0, ucast (drop_bit 8 offset), ucast offset] @ data"
  have o: "unat offset < 512" using room by (simp add: PAGE_SIZE_def)
  then have "unat (ucast (drop_bit 8 offset) :: u8) = unat offset div 256" "unat offset div 256 < 2"
    by (simp_all add: unat_low_byte [of "drop_bit 8 offset"] unat_drop_bit_u16)
  then have a: "arg_offset ?args = unat offset" by (simp add: arg_offset_def unat_low_byte [of offset])
  have w: "atmel_flash_write_buffer chip_spi s offset data c = chip_command (C_WRITE_BUFFER s) ?args c"
    using s by (simp add: atmel_flash_write_buffer_def) (subst chip_spi_command, auto simp: opcode_defs)
  have st: "map (store_bytes (unat offset) data (ch_buf c s)) [0..<264] = overwrite (chip_buf c s) (unat offset) data"
    using room store_bytes_overwrite [of "unat offset" data "ch_buf c s"] by (simp add: PAGE_SIZE_def chip_buf_def)
  have c: "atmel_flash_write_buffer chip_spi s offset data c =
      c\<lparr>ch_buf := (ch_buf c)(s := store_bytes (unat offset) data (ch_buf c s))\<rparr>"
    unfolding w chip_command_def Let_def a using s by (auto simp: opcode_defs)
  show "chip_pages (atmel_flash_write_buffer chip_spi s offset data c) = chip_pages c \<and>
     chip_buf (atmel_flash_write_buffer chip_spi s offset data c) =
       (chip_buf c)(s := overwrite (chip_buf c s) (unat offset) data) \<and>
     (chip_idle c \<longrightarrow> chip_idle (atmel_flash_write_buffer chip_spi s offset data c))"
    unfolding c st [symmetric] by (auto simp: chip_pages_def chip_buf_def chip_idle_def fun_eq_iff)
qed

lemma chip_at45_read: "at45_read chip_spi chip_pages chip_buf chip_idle"
  unfolding at45_read_def
proof (intro allI impI)
  fix c and page offset :: u16 and n
  assume o: "unat offset < PAGE_SIZE" and f: "unat page * PAGE_SIZE + unat offset + n \<le> FLASH_SIZE"
  have "unat page < 32768" "unat offset < 264" using o f by (auto simp: PAGE_SIZE_def FLASH_SIZE_def)
  note a = args_read_command [OF this]
  have "hd (read_command page offset) = C_READ_THROUGH_MEMORY" by (simp add: read_command_def)
  then have "chip_spi (read_command page offset) n c =
      (map (flat (chip_pages c)) [unat page * 264 + unat offset ..< unat page * 264 + unat offset + n], c)"
    by (simp add: chip_spi_def Let_def a) (simp add: opcode_defs)
  then show "fst (chip_spi (read_command page offset) n c) =
       map (flat (chip_pages c)) [unat page * PAGE_SIZE + unat offset ..< unat page * PAGE_SIZE + unat offset + n] \<and>
     chip_pages (snd (chip_spi (read_command page offset) n c)) = chip_pages c \<and>
     chip_buf (snd (chip_spi (read_command page offset) n c)) = chip_buf c"
    by (simp add: PAGE_SIZE_def)
qed

lemma chip_at45: "at45 chip_spi chip_pages chip_buf chip_idle (\<lambda>_. True)"
  using chip_at45_status chip_at45_pages chip_at45_buffers chip_at45_read
  by (simp add: at45_def chip_length PAGE_SIZE_def)

end
