(* ===== verification/Atmel_Flash_Properties.thy ===== *)
theory Atmel_Flash_Properties
  imports Atmel_Chip
begin

text \<open>
  What the flash driver promises to its clients: the chip with its page buffers behaves like one
  array of bytes.  The contents the driver stands for are those of the pages on the chip, but for
  the page whose newer version is in the buffer.
\<close>

section \<open>The array of bytes the driver stands for\<close>

definition page_of :: "('c \<Rightarrow> nat \<Rightarrow> u8 list) \<Rightarrow> ('c \<Rightarrow> u8 \<Rightarrow> u8 list) \<Rightarrow> 'c atmel \<Rightarrow> nat \<Rightarrow> u8 list" where
  "page_of pages buf f p =
     (if a_dirty f \<and> p = unat (a_page f) then buf (a_chip f) (a_buff f) else pages (a_chip f) p)"

definition content :: "('c \<Rightarrow> nat \<Rightarrow> u8 list) \<Rightarrow> ('c \<Rightarrow> u8 \<Rightarrow> u8 list) \<Rightarrow> 'c atmel \<Rightarrow> nat \<Rightarrow> u8" where
  "content pages buf f = flat (page_of pages buf f)"

text \<open>The invariant: a dirty buffer belongs to a page and to the buffered mode; in the buffered mode
  a buffer that is not dirty holds what its page holds.\<close>

definition atmel_inv :: "('c \<Rightarrow> nat \<Rightarrow> u8 list) \<Rightarrow> ('c \<Rightarrow> u8 \<Rightarrow> u8 list) \<Rightarrow> 'c atmel \<Rightarrow> bool" where
  "atmel_inv pages buf f \<longleftrightarrow> a_buff f \<in> {1, 2} \<and> a_mode f \<in> {MODE_BUFFERED, MODE_UNBUFFERED} \<and>
     (a_dirty f \<longrightarrow> a_mode f = MODE_BUFFERED \<and> unat (a_page f) < MAX_PAGES) \<and>
     (a_mode f = MODE_BUFFERED \<longrightarrow> \<not> a_dirty f \<longrightarrow> unat (a_page f) < MAX_PAGES \<longrightarrow>
        buf (a_chip f) (a_buff f) = pages (a_chip f) (unat (a_page f)))"

lemma flat_overwrite:
  assumes len: "length (g p) = 264" "i + length ys \<le> 264"
  shows "flat (g(p := overwrite (g p) i ys)) a =
    (if p * 264 + i \<le> a \<and> a < p * 264 + i + length ys then ys ! (a - (p * 264 + i)) else flat g a)"
proof (cases "a div 264 = p")
  case True
  moreover have "a mod 264 < 264" by simp
  ultimately obtain r where a: "a = p * 264 + r" "r < 264" by (metis div_mult_mod_eq)
  then have "a div 264 = p" "a mod 264 = r" by simp_all
  then show ?thesis using len overwrite_nth [of i ys "g p" r] a
    by (simp add: flat_def)
next
  case False
  then have "\<not> (p * 264 + i \<le> a \<and> a < p * 264 + i + length ys)" using len(2) by auto
  then show ?thesis using False by (auto simp: flat_def)
qed

lemma busy_wait_ok:
  assumes st: "at45_status spi pages buf idle"
  shows "\<exists>c'. busy_wait spi c = Some c' \<and> idle c' \<and> pages c' = pages c \<and> buf c' = buf c"
proof -
  from st obtain n where "idle ((poll spi ^^ n) c)" by (auto simp: at45_status_def)
  then show ?thesis
  proof (induction n arbitrary: c)
    case 0
    then show ?case using st [unfolded at45_status_def, rule_format, of c]
      by (intro exI [of _ "poll spi c"])
        (simp add: busy_wait.simps [of _ c] atmel_flash_busy_def poll_def case_prod_unfold)
  next
    case (Suc n)
    have s: "pages (poll spi c) = pages c" "buf (poll spi c) = buf c"
      "hd (fst (spi [C_REQ_STATUS] 1 c)) AND 0x80 \<noteq> 0 \<longleftrightarrow> idle c" "idle c \<longrightarrow> idle (poll spi c)"
      using st by (auto simp: at45_status_def)
    show ?case
    proof (cases "idle c")
      case True
      then show ?thesis using s
        by (intro exI [of _ "poll spi c"])
          (simp add: busy_wait.simps [of _ c] atmel_flash_busy_def poll_def case_prod_unfold)
    next
      case False
      have "idle ((poll spi ^^ n) (poll spi c))" using Suc.prems by (simp add: funpow_swap1)
      from Suc.IH [OF this] obtain c' where "busy_wait spi (poll spi c) = Some c'" "idle c'"
        "pages c' = pages c" "buf c' = buf c" using s by auto
      then show ?thesis using False s(3)
        by (intro exI [of _ c'])
          (simp add: busy_wait.simps [of _ c] atmel_flash_busy_def poll_def case_prod_unfold)
    qed
  qed
qed

section \<open>Writing one page\<close>

lemma at45_pagesD:
  assumes "at45_pages spi pages buf idle accessible" and "idle c" and "unat page < MAX_PAGES" and "s \<in> {1, 2}"
  shows "pages (atmel_flash_fill_buffer spi s page c) = pages c"
    and "buf (atmel_flash_fill_buffer spi s page c) = (buf c)(s := pages c (unat page))"
    and "pages (atmel_flash_flush_buffer spi s page c) = (pages c)(unat page := buf c s)"
    and "buf (atmel_flash_flush_buffer spi s page c) = buf c"
    and "pages (atmel_flash_erase_page spi page c) = (pages c)(unat page := replicate 264 0xFF)"
    and "buf (atmel_flash_erase_page spi page c) = buf c"
    and "accessible (atmel_flash_erase_page spi page c)"
  using assms(1) [unfolded at45_pages_def, rule_format, OF assms(2-4)] by simp_all

lemma at45_buffersD:
  assumes "at45_buffers spi pages buf idle accessible" and "accessible c" and "s \<in> {1, 2}"
    and "unat offset + length data \<le> 264"
  shows "pages (atmel_flash_write_buffer spi s offset data c) = pages c"
    and "buf (atmel_flash_write_buffer spi s offset data c) = (buf c)(s := overwrite (buf c s) (unat offset) data)"
    and "idle c \<Longrightarrow> idle (atmel_flash_write_buffer spi s offset data c)"
  using assms(1) [unfolded at45_buffers_def PAGE_SIZE_def, rule_format, OF assms(2-4)] by simp_all

lemma write_back_ok:
  assumes chip: "at45 spi pages buf idle accessible" and inv: "atmel_inv pages buf f" and d: "a_dirty f"
  shows "\<exists>f'. write_back spi f = Some f' \<and> atmel_inv pages buf f' \<and> \<not> a_dirty f' \<and>
    page_of pages buf f' = page_of pages buf f \<and> a_addr f' = a_addr f \<and> a_mode f' = a_mode f \<and>
    a_page f' = a_page f \<and> a_buff f' = a_buff f"
proof -
  note at = at45D [OF chip]
  from busy_wait_ok [OF at(1), of "a_chip f"] obtain c where c: "busy_wait spi (a_chip f) = Some c" "idle c"
    "pages c = pages (a_chip f)" "buf c = buf (a_chip f)" by blast
  have i: "a_buff f \<in> {1, 2}" "unat (a_page f) < MAX_PAGES" using inv d by (auto simp: atmel_inv_def)
  note w = at45_pagesD(3,4) [OF at(2) c(2) i(2,1)]
  let ?f = "f\<lparr>a_chip := atmel_flash_flush_buffer spi (a_buff f) (a_page f) c, a_dirty := False\<rparr>"
  have "page_of pages buf ?f = page_of pages buf f"
    using d by (auto simp: page_of_def w c fun_eq_iff)
  moreover have "atmel_inv pages buf ?f" using inv by (simp add: atmel_inv_def w)
  ultimately show ?thesis using c(1) by (intro exI [of _ ?f]) (simp add: write_back_def)
qed

lemma wait_chip_ok:
  assumes chip: "at45 spi pages buf idle accessible"
  shows "\<exists>c. wait_chip spi f = Some (f\<lparr>a_chip := c\<rparr>) \<and> idle c \<and> pages c = pages (a_chip f) \<and> buf c = buf (a_chip f)"
  using busy_wait_ok [OF at45D(1) [OF chip], of "a_chip f"] by (auto simp: wait_chip_def)

lemma page_of_same:
  "pages c = pages (a_chip f) \<Longrightarrow> buf c = buf (a_chip f) \<Longrightarrow>
   page_of pages buf (f\<lparr>a_chip := c\<rparr>) = page_of pages buf f"
  by (auto simp: page_of_def fun_eq_iff)

lemma atmel_inv_same:
  "pages c = pages (a_chip f) \<Longrightarrow> buf c = buf (a_chip f) \<Longrightarrow>
   atmel_inv pages buf (f\<lparr>a_chip := c\<rparr>) = atmel_inv pages buf f"
  by (simp add: atmel_inv_def)

text \<open>Making room in a buffer for another page: it holds that page, or is about to be filled.\<close>

lemma write_buffered_ok:
  assumes chip: "at45 spi pages buf idle accessible" and inv: "atmel_inv pages buf f"
    and mode: "a_mode f = MODE_BUFFERED" and page: "unat page < MAX_PAGES"
    and room: "unat offset + length data \<le> 264" "length data = unat num_bytes"
    and free: "page = a_page f \<Longrightarrow> accessible (a_chip f)"
  shows "\<exists>f'. write_buffered spi page offset data num_bytes f = Some f' \<and> atmel_inv pages buf f' \<and>
    page_of pages buf f' = (page_of pages buf f)
      (unat page := overwrite (page_of pages buf f (unat page)) (unat offset) data) \<and>
    a_page f' = page \<and> a_mode f' = MODE_BUFFERED \<and> a_addr f' = a_addr f"
proof (cases "page = a_page f")
  case True
  note at = at45D [OF chip]
  have b: "a_buff f \<in> {1, 2}" using inv by (simp add: atmel_inv_def)
  note w = at45_buffersD(1,2) [OF at(3) free [OF True] b room(1)]
  let ?f = "f\<lparr>a_chip := atmel_flash_write_buffer spi (a_buff f) offset data (a_chip f), a_dirty := True\<rparr>"
  have "buf (a_chip f) (a_buff f) = page_of pages buf f (unat page)"
    using inv mode page True by (auto simp: atmel_inv_def page_of_def)
  then have "page_of pages buf ?f = (page_of pages buf f)
      (unat page := overwrite (page_of pages buf f (unat page)) (unat offset) data)"
    using True by (auto simp: page_of_def w fun_eq_iff)
  moreover have "atmel_inv pages buf ?f" using inv mode page True by (simp add: atmel_inv_def)
  ultimately show ?thesis using True mode by (intro exI [of _ ?f]) (simp add: write_buffered_def)
next
  case False
  note at = at45D [OF chip]
  have "\<exists>f1. (if a_dirty f then write_back spi f else Some f) = Some f1 \<and> \<not> a_dirty f1 \<and>
      a_buff f1 \<in> {1, 2} \<and> page_of pages buf f1 = page_of pages buf f \<and>
      a_addr f1 = a_addr f \<and> a_mode f1 = MODE_BUFFERED"
  proof (cases "a_dirty f")
    case d: True
    from write_back_ok [OF chip inv d] obtain f1 where "write_back spi f = Some f1" "atmel_inv pages buf f1"
      "\<not> a_dirty f1" "page_of pages buf f1 = page_of pages buf f" "a_addr f1 = a_addr f" "a_mode f1 = a_mode f" by blast
    then show ?thesis using d mode by (intro exI [of _ f1]) (simp add: atmel_inv_def)
  next
    case False
    then show ?thesis using inv mode by (intro exI [of _ f]) (simp add: atmel_inv_def)
  qed
  then obtain f1 where f1: "(if a_dirty f then write_back spi f else Some f) = Some f1" "\<not> a_dirty f1"
    "a_buff f1 \<in> {1, 2}" "page_of pages buf f1 = page_of pages buf f" "a_addr f1 = a_addr f"
    "a_mode f1 = MODE_BUFFERED" by blast
  define s where "s = (if a_buff f1 = BUFFER_1 then BUFFER_2 else BUFFER_1)"
  let ?f2 = "f1\<lparr>a_buff := s, a_page := page\<rparr>"
  have s: "s \<in> {1, 2}" by (simp add: s_def BUFFER_1_def BUFFER_2_def)
  have pg: "page_of pages buf f = pages (a_chip f1)" using f1(2,4) by (auto simp: page_of_def fun_eq_iff)
  have "\<exists>c. (if num_bytes < 264 then do {
           f \<leftarrow> wait_chip spi ?f2;
           Some (f\<lparr>a_chip := atmel_flash_fill_buffer spi (a_buff f) page (a_chip f)\<rparr>)
         } else Some ?f2) = Some (?f2\<lparr>a_chip := c\<rparr>) \<and> pages c = pages (a_chip f1) \<and>
      overwrite (buf c s) (unat offset) data = overwrite (pages (a_chip f1) (unat page)) (unat offset) data"
  proof (cases "num_bytes < 264")
    case True
    from wait_chip_ok [OF chip, of ?f2] obtain c where c: "wait_chip spi ?f2 = Some (?f2\<lparr>a_chip := c\<rparr>)"
      "idle c" "pages c = pages (a_chip f1)" "buf c = buf (a_chip f1)" by auto
    note fl = at45_pagesD(1,2) [OF at(2) c(2) page s]
    show ?thesis using True c(1,3) fl
      by (intro exI [of _ "atmel_flash_fill_buffer spi s page c"]) simp
  next
    case False
    then have "length data = 264" "unat offset = 0" using room by (auto simp: word_less_nat_alt)
    then show ?thesis using False at(5,6) by (intro exI [of _ "a_chip f1"]) (simp add: overwrite_all)
  qed
  then obtain c3 where c3: "(if num_bytes < 264 then do {
           f \<leftarrow> wait_chip spi ?f2;
           Some (f\<lparr>a_chip := atmel_flash_fill_buffer spi (a_buff f) page (a_chip f)\<rparr>)
         } else Some ?f2) = Some (?f2\<lparr>a_chip := c3\<rparr>)" "pages c3 = pages (a_chip f1)"
      "overwrite (buf c3 s) (unat offset) data = overwrite (pages (a_chip f1) (unat page)) (unat offset) data"
    by blast
  from wait_chip_ok [OF chip, of "?f2\<lparr>a_chip := c3\<rparr>"] obtain c4 where c4:
    "wait_chip spi (?f2\<lparr>a_chip := c3\<rparr>) = Some (?f2\<lparr>a_chip := c4\<rparr>)" "idle c4" "pages c4 = pages c3" "buf c4 = buf c3"
    by auto
  note er = at45_pagesD(5-7) [OF at(2) c4(2) page s]
  let ?c5 = "atmel_flash_erase_page spi page c4"
  note w = at45_buffersD(1,2) [OF at(3) er(3) s room(1)]
  let ?f = "?f2\<lparr>a_chip := atmel_flash_write_buffer spi s offset data ?c5, a_dirty := True\<rparr>"
  have run: "write_buffered spi page offset data num_bytes f = Some ?f"
    using False f1(1) c3(1) c4(1) by (cases "num_bytes < 264")
      (auto simp: write_buffered_def Let_def s_def [symmetric] bind_eq_Some_conv simp del: if_split)
  have "page_of pages buf ?f = (page_of pages buf f)
      (unat page := overwrite (page_of pages buf f (unat page)) (unat offset) data)"
    by (auto simp: page_of_def [of _ _ ?f] w er c4 c3 pg fun_eq_iff)
  moreover have "atmel_inv pages buf ?f" using s page f1(6) by (simp add: atmel_inv_def)
  ultimately show ?thesis using run f1(5,6) by (intro exI [of _ ?f]) simp
qed

lemma write_unbuffered_ok:
  assumes chip: "at45 spi pages buf idle accessible" and inv: "atmel_inv pages buf f"
    and mode: "a_mode f \<noteq> MODE_BUFFERED" and page: "unat page < MAX_PAGES"
    and room: "unat offset + length data \<le> 264" and idle: "idle (a_chip f)"
  shows "\<exists>f'. write_unbuffered spi page offset data f = Some f' \<and> atmel_inv pages buf f' \<and> idle (a_chip f') \<and>
    page_of pages buf f' = (page_of pages buf f)
      (unat page := overwrite (page_of pages buf f (unat page)) (unat offset) data) \<and>
    a_mode f' = a_mode f \<and> a_addr f' = a_addr f"
proof -
  note at = at45D [OF chip]
  have s: "DEFAULT_BUFFER \<in> {1, 2}" by (simp add: DEFAULT_BUFFER_def BUFFER_1_def)
  have nd: "\<not> a_dirty f" using inv mode by (auto simp: atmel_inv_def)
  have pg: "page_of pages buf f = pages (a_chip f)" using nd by (simp add: page_of_def fun_eq_iff)
  note fl = at45_pagesD(1,2) [OF at(2) idle page s]
  from busy_wait_ok [OF at(1), of "atmel_flash_fill_buffer spi DEFAULT_BUFFER page (a_chip f)"] obtain c1 where c1:
    "busy_wait spi (atmel_flash_fill_buffer spi DEFAULT_BUFFER page (a_chip f)) = Some c1" "idle c1"
    "pages c1 = pages (a_chip f)" "buf c1 DEFAULT_BUFFER = pages (a_chip f) (unat page)"
    using fl by auto
  note er = at45_pagesD(5,6) [OF at(2) c1(2) page s]
  from busy_wait_ok [OF at(1), of "atmel_flash_erase_page spi page c1"] obtain c2 where c2:
    "busy_wait spi (atmel_flash_erase_page spi page c1) = Some c2" "idle c2"
    "pages c2 = (pages (a_chip f))(unat page := replicate 264 0xFF)"
    "buf c2 DEFAULT_BUFFER = pages (a_chip f) (unat page)"
    using er c1 by auto
  let ?c3 = "atmel_flash_write_buffer spi DEFAULT_BUFFER offset data c2"
  note w = at45_buffersD [OF at(3) at(7) [OF c2(2)] s room]
  note fb = at45_pagesD(3,4) [OF at(2) w(3) [OF c2(2)] page s]
  from busy_wait_ok [OF at(1), of "atmel_flash_flush_buffer spi DEFAULT_BUFFER page ?c3"] obtain c4 where c4:
    "busy_wait spi (atmel_flash_flush_buffer spi DEFAULT_BUFFER page ?c3) = Some c4" "idle c4"
    "pages c4 = (pages (a_chip f))(unat page := overwrite (pages (a_chip f) (unat page)) (unat offset) data)"
    using fb w c2 by (auto simp: fun_eq_iff)
  have "page_of pages buf (f\<lparr>a_chip := c4\<rparr>) = pages c4" using nd by (simp add: page_of_def fun_eq_iff)
  moreover have "atmel_inv pages buf (f\<lparr>a_chip := c4\<rparr>)" using inv nd mode by (simp add: atmel_inv_def)
  ultimately show ?thesis using c1(1) c2(1) c4 pg
    by (intro exI [of _ "f\<lparr>a_chip := c4\<rparr>"]) (simp add: write_unbuffered_def Let_def)
qed

section \<open>Writing over page boundaries\<close>

lemma unat_ucast_u16_u32: "unat (ucast (x :: u16) :: u32) = unat x"
  by (simp add: unsigned_ucast_eq take_bit_nat_eq_self unat_u16_less [THEN less_trans])

lemma num_bytes_of_ok:
  assumes "unat count + unat offset < 65536" and "unat offset < 264" and "0 < count"
  shows "unat (num_bytes_of count offset) = min (unat count) (264 - unat offset)"
    and "0 < unat (num_bytes_of count offset)"
proof -
  have a: "unat (count + offset) = unat count + unat offset" using assms(1) by (rule unat_add_u16_small)
  have b: "unat (264 - offset) = 264 - unat offset"
    using assms(2) by (subst unat_sub_small) (simp_all add: word_le_nat_alt)
  show n: "unat (num_bytes_of count offset) = min (unat count) (264 - unat offset)"
    using a b by (auto simp: num_bytes_of_def word_less_nat_alt)
  show "0 < unat (num_bytes_of count offset)" unfolding n
    using assms(2,3) by (simp add: word_less_nat_alt)
qed

text \<open>What a round may assume of the chip: in the buffered mode, that a buffer is written without
  waiting only when it is accessible; otherwise that the chip is idle.\<close>

definition write_ready :: "('c \<Rightarrow> bool) \<Rightarrow> ('c \<Rightarrow> bool) \<Rightarrow> u16 \<Rightarrow> 'c atmel \<Rightarrow> bool" where
  "write_ready idle accessible page f \<longleftrightarrow>
     (if a_mode f = MODE_BUFFERED then page = a_page f \<longrightarrow> accessible (a_chip f) else idle (a_chip f))"

lemma write_page_ok:
  assumes chip: "at45 spi pages buf idle accessible" and inv: "atmel_inv pages buf f"
    and page: "unat page < MAX_PAGES" and ready: "write_ready idle accessible page f"
    and room: "unat offset + length data \<le> 264" "length data = unat num_bytes"
  shows "\<exists>f'. (if a_mode f = MODE_BUFFERED then write_buffered spi page offset data num_bytes f
              else write_unbuffered spi page offset data f) = Some f' \<and> atmel_inv pages buf f' \<and>
    page_of pages buf f' = (page_of pages buf f)
      (unat page := overwrite (page_of pages buf f (unat page)) (unat offset) data) \<and>
    write_ready idle accessible (page + 1) f' \<and> a_mode f' = a_mode f \<and> a_addr f' = a_addr f"
proof (cases "a_mode f = MODE_BUFFERED")
  case True
  with ready have "page = a_page f \<Longrightarrow> accessible (a_chip f)" by (simp add: write_ready_def)
  from write_buffered_ok [OF chip inv True page room this] obtain f' where f':
    "write_buffered spi page offset data num_bytes f = Some f'" "atmel_inv pages buf f'"
    "page_of pages buf f' = (page_of pages buf f)
      (unat page := overwrite (page_of pages buf f (unat page)) (unat offset) data)"
    "a_page f' = page" "a_mode f' = MODE_BUFFERED" "a_addr f' = a_addr f" by blast
  moreover have "page + 1 \<noteq> page" by simp
  ultimately show ?thesis using True by (intro exI [of _ f']) (simp add: write_ready_def)
next
  case False
  with ready have "idle (a_chip f)" by (simp add: write_ready_def)
  from write_unbuffered_ok [OF chip inv False page room(1) this] obtain f' where f':
    "write_unbuffered spi page offset data f = Some f'" "atmel_inv pages buf f'" "idle (a_chip f')"
    "page_of pages buf f' = (page_of pages buf f)
      (unat page := overwrite (page_of pages buf f (unat page)) (unat offset) data)"
    "a_mode f' = a_mode f" "a_addr f' = a_addr f" by blast
  then show ?thesis using False by (intro exI [of _ f']) (simp add: write_ready_def)
qed

lemma page_bytes_length:
  assumes "at45 spi pages buf idle accessible"
  shows "length (page_of pages buf f p) = 264"
  using at45D(5,6) [OF assms] by (simp add: page_of_def)

lemma write_pages_ok:
  assumes chip: "at45 spi pages buf idle accessible"
  shows "atmel_inv pages buf f \<Longrightarrow> write_ready idle accessible page f \<Longrightarrow> unat offset < 264 \<Longrightarrow>
    unat count + unat offset < 65536 \<Longrightarrow> unat page * 264 + unat offset + unat count \<le> FLASH_SIZE \<Longrightarrow>
    unat index + unat count \<le> length bs \<Longrightarrow> unat index + unat count < 65536 \<Longrightarrow>
    \<exists>f'. write_pages spi bs index count page offset f = Some f' \<and> atmel_inv pages buf f' \<and>
      a_mode f' = a_mode f \<and> a_addr f' = a_addr f + ucast count \<and>
      (\<forall>a. content pages buf f' a =
        (if unat page * 264 + unat offset \<le> a \<and> a < unat page * 264 + unat offset + unat count
         then bs ! (unat index + (a - (unat page * 264 + unat offset))) else content pages buf f a))"
proof (induction "unat count" arbitrary: index count page offset f rule: less_induct)
  case less
  show ?case
  proof (cases "0 < count")
    case False
    then have "count = 0" using word_gt_0 by blast
    then show ?thesis using less.prems by (intro exI [of _ f]) (auto simp: write_pages.simps)
  next
    case True
    let ?n = "num_bytes_of count offset"
    note n = num_bytes_of_ok [OF less.prems(4,3) True]
    obtain data where data: "rd_block bs (unat index) (unat ?n) = Some data" "length data = unat ?n"
      "data = take (unat ?n) (drop (unat index) bs)"
      using less.prems(6) n(1) by (auto simp: rd_block_def)
    have "unat page * 264 < FLASH_SIZE"
      using less.prems(5) True by (simp add: word_less_nat_alt)
    then have page: "unat page < MAX_PAGES" by (simp add: FLASH_SIZE_def MAX_PAGES_def)
    have room: "unat offset + length data \<le> 264" using data(2) n(1) less.prems(3) by simp
    from write_page_ok [OF chip less.prems(1) page less.prems(2) room data(2)] obtain f1 where f1:
      "(if a_mode f = MODE_BUFFERED then write_buffered spi page offset data ?n f
              else write_unbuffered spi page offset data f) = Some f1" "atmel_inv pages buf f1"
      "page_of pages buf f1 = (page_of pages buf f)
        (unat page := overwrite (page_of pages buf f (unat page)) (unat offset) data)"
      "write_ready idle accessible (page + 1) f1" "a_mode f1 = a_mode f" "a_addr f1 = a_addr f" by blast
    let ?f = "f1\<lparr>a_addr := a_addr f1 + ucast ?n\<rparr>"
    have le: "unat ?n \<le> unat count" using n(1) by simp
    then have sub: "unat (count - ?n) = unat count - unat ?n"
      by (intro unat_sub_small) (simp add: word_le_nat_alt)
    have ix: "unat (index + ?n) = unat index + unat ?n"
      using less.prems(7) le by (intro unat_add_u16_small) linarith
    have pg: "unat (page + 1) = unat page + 1"
      using page by (subst unat_add_u16_small) (simp_all add: MAX_PAGES_def)
    have step: "write_pages spi bs index count page offset f =
        write_pages spi bs (index + ?n) (count - ?n) (page + 1) 0 ?f"
      using True data(1) f1(1) by (simp add: write_pages.simps [of spi bs index] Let_def)
    have cont1: "content pages buf ?f a =
        (if unat page * 264 + unat offset \<le> a \<and> a < unat page * 264 + unat offset + unat ?n
         then bs ! (unat index + (a - (unat page * 264 + unat offset))) else content pages buf f a)" for a
    proof -
      have "content pages buf ?f a = flat (page_of pages buf f1) a"
        by (simp add: content_def page_of_def flat_def)
      also have "\<dots> = (if unat page * 264 + unat offset \<le> a \<and> a < unat page * 264 + unat offset + length data
         then data ! (a - (unat page * 264 + unat offset)) else content pages buf f a)"
        unfolding f1(3) content_def by (rule flat_overwrite) (use page_bytes_length [OF chip] room in simp_all)
      finally show ?thesis using data(2,3) less.prems(6) le by auto
    qed
    show ?thesis
    proof (cases "unat count = unat ?n")
      case eq: True
      then have "count - ?n = 0" using sub by (simp flip: unat_eq_0)
      then have "write_pages spi bs index count page offset f = Some ?f"
        using step by (simp add: write_pages.simps)
      moreover have "count = ?n" using eq by (rule unsigned_word_eqI)
      moreover have "atmel_inv pages buf ?f" using f1(2) by (simp add: atmel_inv_def)
      ultimately show ?thesis using cont1 f1(5,6) by (intro exI [of _ ?f]) simp
    next
      case False
      then have full: "unat ?n = 264 - unat offset" using n(1) by (simp add: min_def split: if_splits)
      have base: "unat (page + 1) * 264 = unat page * 264 + unat offset + unat ?n"
        using full less.prems(3) pg by simp
      have "\<exists>f'. write_pages spi bs (index + ?n) (count - ?n) (page + 1) 0 ?f = Some f' \<and> atmel_inv pages buf f' \<and>
          a_mode f' = a_mode ?f \<and> a_addr f' = a_addr ?f + ucast (count - ?n) \<and>
          (\<forall>a. content pages buf f' a =
            (if unat (page + 1) * 264 + unat (0 :: u16) \<le> a \<and> a < unat (page + 1) * 264 + unat (0 :: u16) + unat (count - ?n)
             then bs ! (unat (index + ?n) + (a - (unat (page + 1) * 264 + unat (0 :: u16)))) else content pages buf ?f a))"
      proof (rule less.hyps)
        show "unat (count - ?n) < unat count" using sub n(2) le by linarith
        show "atmel_inv pages buf ?f" using f1(2) by (simp add: atmel_inv_def)
        show "write_ready idle accessible (page + 1) ?f" using f1(4) by (simp add: write_ready_def)
        show "unat (page + 1) * 264 + unat (0 :: u16) + unat (count - ?n) \<le> FLASH_SIZE"
          using base sub le less.prems(5) by simp
        show "unat (index + ?n) + unat (count - ?n) \<le> length bs" "unat (index + ?n) + unat (count - ?n) < 65536"
          using ix sub le less.prems(6,7) by simp_all
        show "unat (count - ?n) + unat (0 :: u16) < 65536" "unat (0 :: u16) < 264" by simp_all
      qed
      then obtain f' where f': "write_pages spi bs (index + ?n) (count - ?n) (page + 1) 0 ?f = Some f'"
        "atmel_inv pages buf f'" "a_mode f' = a_mode f" "a_addr f' = a_addr f + ucast ?n + ucast (count - ?n)"
        "\<forall>a. content pages buf f' a =
            (if unat (page + 1) * 264 \<le> a \<and> a < unat (page + 1) * 264 + unat (count - ?n)
             then bs ! (unat (index + ?n) + (a - unat (page + 1) * 264)) else content pages buf ?f a)"
        using f1(5,6) by auto
      have "unat count < 4294967296" by (rule less_trans [OF unat_u16_less]) simp
      then have "unat (ucast ?n + ucast (count - ?n) :: u32) = unat (ucast count :: u32)"
        using sub le
        by (subst unat_add_lem [THEN iffD1]) (simp_all add: unat_ucast_u16_u32)
      then have "ucast ?n + ucast (count - ?n) = (ucast count :: u32)" by (rule unsigned_word_eqI)
      moreover have "content pages buf f' a =
        (if unat page * 264 + unat offset \<le> a \<and> a < unat page * 264 + unat offset + unat count
         then bs ! (unat index + (a - (unat page * 264 + unat offset))) else content pages buf f a)" for a
        unfolding f'(5) [rule_format] base ix sub cont1 using le n(2) by (auto intro!: arg_cong [where f = "nth bs"])
      ultimately show ?thesis using step f'(1-4) by (intro exI [of _ f']) (simp add: add.assoc)
    qed
  qed
qed

section \<open>The operations on the array of bytes\<close>

lemma addr_split:
  assumes "unat a < FLASH_SIZE"
  shows "unat (addr_page a) * 264 + unat (addr_offset a) = unat a" and "unat (addr_offset a) < 264"
    and "unat (addr_page a) = unat a div 264"
proof -
  have d: "unat a div 264 < 65536" using assms by (simp add: FLASH_SIZE_def)
  then show p: "unat (addr_page a) = unat a div 264"
    by (simp add: addr_page_def unsigned_ucast_eq take_bit_nat_eq_self unat_div)
  have o: "unat (addr_offset a) = unat a mod 264"
    by (simp add: addr_offset_def unsigned_ucast_eq take_bit_nat_eq_self unat_mod)
  show "unat (addr_offset a) < 264" unfolding o by simp
  show "unat (addr_page a) * 264 + unat (addr_offset a) = unat a" unfolding p o by simp
qed

lemma flash_write_ok:
  assumes chip: "at45 spi pages buf idle accessible" and inv: "atmel_inv pages buf f"
    and fits: "unat (a_addr f) + unat count \<le> FLASH_SIZE" "unat (a_addr f) < FLASH_SIZE"
    and buf: "unat count \<le> length bs" and small: "unat count \<le> 65272"
  shows "\<exists>f'. dev_write_DEV_ATMEL_FLASH spi bs count f = Some (0, f') \<and> atmel_inv pages buf f' \<and>
    a_mode f' = a_mode f \<and> unat (a_addr f') = unat (a_addr f) + unat count \<and>
    (\<forall>a. content pages buf f' a =
      (if unat (a_addr f) \<le> a \<and> a < unat (a_addr f) + unat count
       then bs ! (a - unat (a_addr f)) else content pages buf f a))"
proof -
  note at = at45D [OF chip]
  note ad = addr_split [OF fits(2)]
  from wait_chip_ok [OF chip, of f] obtain c where c: "wait_chip spi f = Some (f\<lparr>a_chip := c\<rparr>)" "idle c"
    "pages c = pages (a_chip f)" "buf c = buf (a_chip f)" by blast
  let ?f = "f\<lparr>a_chip := c\<rparr>"
  have i: "atmel_inv pages buf ?f" using atmel_inv_same [OF c(3,4)] inv by simp
  have r: "write_ready idle accessible (addr_page (a_addr f)) ?f"
    using c(2) at(7) [OF c(2)] by (simp add: write_ready_def)
  have "unat count + unat (addr_offset (a_addr f)) < 65536" using ad(2) small by simp
  moreover have "unat (addr_page (a_addr f)) * 264 + unat (addr_offset (a_addr f)) + unat count \<le> FLASH_SIZE"
    using ad(1) fits(1) by simp
  moreover have "unat (0 :: u16) + unat count \<le> length bs" "unat (0 :: u16) + unat count < 65536"
    using buf by simp_all
  ultimately obtain f' where f': "write_pages spi bs 0 count (addr_page (a_addr f)) (addr_offset (a_addr f)) ?f = Some f'"
    "atmel_inv pages buf f'" "a_mode f' = a_mode ?f" "a_addr f' = a_addr ?f + ucast count"
    "\<forall>a. content pages buf f' a =
        (if unat (a_addr f) \<le> a \<and> a < unat (a_addr f) + unat count
         then bs ! (unat (0 :: u16) + (a - unat (a_addr f))) else content pages buf ?f a)"
    using write_pages_ok [OF chip i r ad(2), of count 0 bs] unfolding ad(1) by blast
  have "content pages buf ?f = content pages buf f"
    unfolding content_def page_of_same [OF c(3,4)] ..
  moreover have "unat (a_addr f + ucast count) = unat (a_addr f) + unat count"
    using fits(1) by (subst unat_add_lem [THEN iffD1]) (simp_all add: unat_ucast_u16_u32 FLASH_SIZE_def)
  ultimately show ?thesis
    using c(1) f' by (intro exI [of _ f']) (simp add: dev_write_DEV_ATMEL_FLASH_def Let_def)
qed

text \<open>C13. Writing: \<open>dev_write\<close> stores the bytes of the buffer from the current address on, over
  page boundaries and in both modes, although in the buffered mode a page is erased when its first
  byte is written and its new contents stay in a buffer of the chip; all other bytes of the flash
  keep their values, and the address moves behind the bytes written.\<close>
theorem flash_write_bytes:
  assumes chip: "at45 spi pages buf idle accessible" and inv: "atmel_inv pages buf f"
    and fits: "unat (a_addr f) + unat count \<le> FLASH_SIZE" "unat (a_addr f) < FLASH_SIZE"
    and buf: "unat count \<le> length bs" and small: "unat count \<le> 65272"
  shows "\<exists>f'. dev_write_DEV_ATMEL_FLASH spi bs count f = Some (0, f') \<and> atmel_inv pages buf f' \<and>
    a_mode f' = a_mode f \<and> unat (a_addr f') = unat (a_addr f) + unat count \<and>
    (\<forall>a. content pages buf f' a =
      (if unat (a_addr f) \<le> a \<and> a < unat (a_addr f) + unat count
       then bs ! (a - unat (a_addr f)) else content pages buf f a))"
  by (rule flash_write_ok [OF assms])

text \<open>A read of \<open>count\<close> bytes overlaps the page in the buffer only if that is written back.\<close>

lemma read_overlap:
  assumes "unat a + unat count \<le> FLASH_SIZE" and "unat count \<le> 65272" and "0 < unat count"
    and np: "\<not> (addr_page a \<le> p \<and> p \<le> addr_page a + (addr_offset a + count) div 264)"
    and x: "unat a \<le> x" "x < unat a + unat count"
  shows "x div 264 \<noteq> unat p"
proof
  assume xp: "x div 264 = unat p"
  have ad: "unat (addr_page a) * 264 + unat (addr_offset a) = unat a" "unat (addr_offset a) < 264"
    "unat (addr_page a) = unat a div 264" using addr_split [of a] assms(1,3) by simp_all
  have le: "addr_page a \<le> p" unfolding word_le_nat_alt ad(3) using x(1) xp by (metis div_le_mono)
  have oc: "unat (addr_offset a + count) = unat (addr_offset a) + unat count"
    using ad(2) assms(2) by (intro unat_add_u16_small) linarith
  have s: "unat (addr_page a + (addr_offset a + count) div 264) =
      unat (addr_page a) + (unat (addr_offset a) + unat count) div 264"
  proof (subst unat_add_u16_small)
    have "unat (addr_page a) \<le> 2048" using ad(3) assms(1) by (simp add: FLASH_SIZE_def)
    moreover have "unat ((addr_offset a + count) div 264) \<le> 300"
      using oc ad(2) assms(2) by (simp add: unat_div)
    ultimately show "unat (addr_page a) + unat ((addr_offset a + count) div 264) < 65536" by linarith
  qed (simp add: unat_div oc)
  have "x div 264 \<le> (unat a + unat count) div 264" using x(2) by (intro div_le_mono) simp
  also have "\<dots> = unat (addr_page a) + (unat (addr_offset a) + unat count) div 264"
    unfolding ad(1) [symmetric] by (simp add: add.assoc)
  finally have "p \<le> addr_page a + (addr_offset a + count) div 264"
    unfolding word_le_nat_alt s xp .
  with le np show False by simp
qed

lemma flash_read_ok:
  assumes chip: "at45 spi pages buf idle accessible" and inv: "atmel_inv pages buf f"
    and fits: "unat (a_addr f) + unat count \<le> FLASH_SIZE" "unat (a_addr f) < FLASH_SIZE"
    and small: "unat count \<le> 65272"
  shows "\<exists>f'. dev_read_DEV_ATMEL_FLASH spi count f =
      Some (map (content pages buf f) [unat (a_addr f) ..< unat (a_addr f) + unat count], f') \<and>
    atmel_inv pages buf f' \<and> content pages buf f' = content pages buf f \<and> a_addr f' = a_addr f"
proof -
  note at = at45D [OF chip]
  note ad = addr_split [OF fits(2)]
  let ?page = "addr_page (a_addr f)" and ?off = "addr_offset (a_addr f)"
  let ?hit = "a_dirty f \<and> ?page \<le> a_page f \<and> a_page f \<le> ?page + (?off + count) div 264"
  have "\<exists>f1. (if ?hit then write_back spi f else Some f) = Some f1 \<and> atmel_inv pages buf f1 \<and>
      page_of pages buf f1 = page_of pages buf f \<and> a_addr f1 = a_addr f \<and>
      (\<forall>x. unat (a_addr f) \<le> x \<longrightarrow> x < unat (a_addr f) + unat count \<longrightarrow>
         flat (pages (a_chip f1)) x = content pages buf f x)"
  proof (cases ?hit)
    case True
    from write_back_ok [OF chip inv] True obtain f1 where f1: "write_back spi f = Some f1"
      "atmel_inv pages buf f1" "\<not> a_dirty f1" "page_of pages buf f1 = page_of pages buf f" "a_addr f1 = a_addr f"
      by blast
    have "page_of pages buf f1 = pages (a_chip f1)" using f1(3) by (simp add: page_of_def fun_eq_iff)
    moreover have "(if ?hit then write_back spi f else Some f) = Some f1" using f1(1) by (simp only: if_P [OF True])
    ultimately show ?thesis using f1(2,4,5) by (metis content_def)
  next
    case False
    have "flat (pages (a_chip f)) x = content pages buf f x"
      if x: "unat (a_addr f) \<le> x" "x < unat (a_addr f) + unat count" for x
    proof (cases "a_dirty f")
      case True
      have "0 < unat count" using x by simp
      with read_overlap [OF fits(1) small this _ x] False True have "x div 264 \<noteq> unat (a_page f)" by blast
      then show ?thesis by (simp add: content_def page_of_def flat_def)
    qed (simp add: content_def page_of_def flat_def)
    moreover have "(if ?hit then write_back spi f else Some f) = Some f" by (rule if_not_P [OF False])
    ultimately show ?thesis using inv by blast
  qed
  then obtain f1 where f1: "(if ?hit then write_back spi f else Some f) = Some f1" "atmel_inv pages buf f1"
    "page_of pages buf f1 = page_of pages buf f" "a_addr f1 = a_addr f"
    "\<forall>x. unat (a_addr f) \<le> x \<longrightarrow> x < unat (a_addr f) + unat count \<longrightarrow>
         flat (pages (a_chip f1)) x = content pages buf f x" by blast
  from wait_chip_ok [OF chip, of f1] obtain c where c: "wait_chip spi f1 = Some (f1\<lparr>a_chip := c\<rparr>)" "idle c"
    "pages c = pages (a_chip f1)" "buf c = buf (a_chip f1)" by blast
  have "unat ?page * PAGE_SIZE + unat ?off + unat count \<le> FLASH_SIZE" "unat ?off < PAGE_SIZE"
    using ad fits(1) by (simp_all add: PAGE_SIZE_def)
  note rd = at(4) [unfolded at45_read_def, rule_format, OF c(2) this(2,1)]
  have base: "unat ?page * PAGE_SIZE + unat ?off = unat (a_addr f)" using ad(1) by (simp add: PAGE_SIZE_def)
  define d where "d = snd (spi (read_command ?page ?off) (unat count) c)"
  have d: "spi (read_command ?page ?off) (unat count) c =
      (map (flat (pages c)) [unat (a_addr f) ..< unat (a_addr f) + unat count], d)"
    "pages d = pages c" "buf d = buf c"
    using rd unfolding base d_def by (simp_all add: prod_eq_iff)
  have eq: "map (flat (pages c)) [unat (a_addr f) ..< unat (a_addr f) + unat count] =
      map (content pages buf f) [unat (a_addr f) ..< unat (a_addr f) + unat count]"
    using f1(5) c(3) by simp
  let ?f = "f1\<lparr>a_chip := d\<rparr>"
  have "pages d = pages (a_chip f1)" "buf d = buf (a_chip f1)" using d c by simp_all
  then have "page_of pages buf ?f = page_of pages buf f" "atmel_inv pages buf ?f"
    using page_of_same atmel_inv_same f1(2,3) by metis+
  then show ?thesis
    using f1(1,4) c(1) d(1) by (intro exI [of _ ?f])
      (simp add: dev_read_DEV_ATMEL_FLASH_def atmel_flash_read_memory_def Let_def eq content_def del: if_split)
qed

text \<open>C30. Reading: \<open>dev_read\<close> returns the bytes last written, from the buffer of the chip where
  they have not reached the page yet (it is written back first), and changes no byte.\<close>
theorem flash_read_bytes:
  assumes chip: "at45 spi pages buf idle accessible" and inv: "atmel_inv pages buf f"
    and fits: "unat (a_addr f) + unat count \<le> FLASH_SIZE" "unat (a_addr f) < FLASH_SIZE"
    and small: "unat count \<le> 65272"
  shows "\<exists>f'. dev_read_DEV_ATMEL_FLASH spi count f =
      Some (map (content pages buf f) [unat (a_addr f) ..< unat (a_addr f) + unat count], f') \<and>
    atmel_inv pages buf f' \<and> content pages buf f' = content pages buf f \<and> a_addr f' = a_addr f"
  by (rule flash_read_ok [OF assms])

section \<open>A write and a read on the simulated chip\<close>

definition sample_chip :: chip where
  "sample_chip = \<lparr>ch_main = (\<lambda>_ _. 0xFF), ch_buf = (\<lambda>_ _. 0), ch_busy = 1\<rparr>"

definition sample_flash :: "chip atmel" where
  "sample_flash = (atmel_flash_init sample_chip)\<lparr>a_mode := MODE_BUFFERED, a_addr := 260\<rparr>"

lemma sample_flash_inv: "atmel_inv chip_pages chip_buf sample_flash"
  by (simp add: atmel_inv_def sample_flash_def atmel_flash_init_def BUFFER_1_def MAX_PAGES_def)

theorem flash_write_bytes_witness:
  "\<exists>f'. dev_write_DEV_ATMEL_FLASH chip_spi [1, 2, 3, 4, 5, 6, 7, 8] 8 sample_flash = Some (0, f') \<and>
     content chip_pages chip_buf f' 260 = 1 \<and> content chip_pages chip_buf f' 264 = 5 \<and>
     content chip_pages chip_buf f' 268 = 0xFF"
proof -
  have a: "unat (a_addr sample_flash) = 260" by (simp add: sample_flash_def)
  have "content chip_pages chip_buf sample_flash 268 = 0xFF"
    by (simp add: content_def flat_def page_of_def sample_flash_def atmel_flash_init_def chip_pages_def sample_chip_def)
  then show ?thesis
    using flash_write_bytes [OF chip_at45 sample_flash_inv, of 8 "[1, 2, 3, 4, 5, 6, 7, 8]"]
    by (auto simp: a FLASH_SIZE_def)
qed

theorem flash_read_bytes_witness:
  "\<exists>f'. dev_read_DEV_ATMEL_FLASH chip_spi 2 sample_flash =
     Some (map (content chip_pages chip_buf sample_flash) [260, 261], f')"
proof -
  have a: "unat (a_addr sample_flash) = 260" by (simp add: sample_flash_def)
  from flash_read_bytes [OF chip_at45 sample_flash_inv, of 2] show ?thesis
    by (auto simp: a FLASH_SIZE_def upt_conv_Cons)
qed

section \<open>The comparison waits for the wrong state\<close>

lemma compare_wait_busy:
  assumes st: "at45_status spi pages buf idle" and run: "compare_wait spi c = Some r"
  shows "\<not> idle c"
proof -
  have "spi = spi \<longrightarrow> \<not> idle c"
  proof (rule compare_wait.raw_induct [where P = "\<lambda>spi' c r. spi' = spi \<longrightarrow> \<not> idle c", OF _ run], intro impI notI)
    fix rec spi' c r
    assume IH: "\<And>spi' c r. rec spi' c = Some r \<Longrightarrow> spi' = spi \<longrightarrow> \<not> idle c"
      and body: "(case spi' [C_REQ_STATUS] 1 c of (bytes, c) \<Rightarrow>
        if hd bytes AND 128 \<noteq> 0 then rec spi' c else Some (hd bytes, c)) = Some r"
      and eq: "spi' = spi" and i: "idle c"
    from st i have s: "hd (fst (spi [C_REQ_STATUS] 1 c)) AND 0x80 \<noteq> 0" "idle (poll spi c)"
      by (auto simp: at45_status_def)
    with body eq have "rec spi (poll spi c) = Some r" by (simp add: case_prod_unfold poll_def)
    with IH s(2) show False by blast
  qed
  then show ?thesis by blast
qed

text \<open>The wait at the end of \<open>atmel_flash_compare_buffer\<close> tests bit 7 of the status the wrong way
  round: the bit is set when the chip has finished.  If the comparison is over before the first
  poll, the function never returns; and whenever it returns, the result was read from a chip that
  was still busy.\<close>
theorem flash_compare_waits_wrong:
  assumes "at45_status spi pages buf idle"
    and c': "c' = snd (spi (page_command (C_COMPARE_BUFFER selected) page) 0 c)"
  shows "(idle c' \<longrightarrow> atmel_flash_compare_buffer spi selected page c = None) \<and>
    (atmel_flash_compare_buffer spi selected page c = Some r \<longrightarrow> \<not> idle c')"
  using compare_wait_busy [OF assms(1), of c']
  by (cases "compare_wait spi c'") (auto simp: atmel_flash_compare_buffer_def c')

theorem flash_compare_waits_wrong_witness:
  "atmel_flash_compare_buffer chip_spi 1 3 (sample_chip\<lparr>ch_busy := 0\<rparr>) = None"
proof -
  have "chip_idle (snd (chip_spi (page_command (C_COMPARE_BUFFER 1) 3) 0 (sample_chip\<lparr>ch_busy := 0\<rparr>)))"
    by (simp add: chip_spi_def page_command_def opcode_defs chip_command_def chip_idle_def Let_def)
  then show ?thesis
    using flash_compare_waits_wrong [OF chip_at45_status refl, of 1 3 "sample_chip\<lparr>ch_busy := 0\<rparr>"] by blast
qed

end
