(* ===== verification/Simple_Fs.thy ===== *)
theory Simple_Fs
  imports Atmel_Flash_Properties
begin

text \<open>
  The file system of the node (\<open>dev/simple_fs.c\<close>): a table of ten files, each a range of the external
  flash, kept in RAM and saved to the EEPROM after every change.  All functions run under one mutex;
  \<open>fs_held\<close> says whether the running thread holds it, and taking it a second time never returns.
\<close>

section \<open>The table of files\<close>

definition MAX_FILES :: nat where "MAX_FILES = 10"

record mos_file =
  fl_index :: u8
  fl_name :: "u8 list"
  fl_start :: u32
  fl_length :: u32

record 'c simple_fs =
  fs_nextPage :: u16
  fs_files :: "mos_file list"
  fs_eeprom :: "u16 \<times> mos_file list"
  fs_held :: bool
  fs_flash :: "'c atmel"

definition allocated :: "mos_file \<Rightarrow> bool" where
  "allocated f \<longleftrightarrow> fl_index f \<noteq> 0xFF"

definition fs_lock :: "'c simple_fs \<Rightarrow> 'c simple_fs option" where
  "fs_lock s = (if fs_held s then None else Some (s\<lparr>fs_held := True\<rparr>))"

definition fs_unlock :: "'c simple_fs \<Rightarrow> 'c simple_fs" where
  "fs_unlock s = s\<lparr>fs_held := False\<rparr>"

definition saveState :: "'c simple_fs \<Rightarrow> 'c simple_fs" where
  "saveState s = s\<lparr>fs_eeprom := (fs_nextPage s, fs_files s)\<rparr>"

definition loadState :: "'c simple_fs \<Rightarrow> 'c simple_fs" where
  "loadState s = s\<lparr>fs_nextPage := fst (fs_eeprom s), fs_files := snd (fs_eeprom s)\<rparr>"

text \<open>A \<open>char\<close> is signed: a byte above 127 equals no \<open>uint8_t\<close>.\<close>

definition char_eq :: "u8 \<Rightarrow> u8 \<Rightarrow> bool" where
  "char_eq c d \<longleftrightarrow> c < 128 \<and> c = d"

definition findFile :: "u8 list \<Rightarrow> mos_file list \<Rightarrow> nat option" where
  "findFile name files = List.find (\<lambda>i. allocated (files ! i) \<and>
     char_eq (name ! 0) (fl_name (files ! i) ! 0) \<and> char_eq (name ! 1) (fl_name (files ! i) ! 1) \<and>
     char_eq (name ! 2) (fl_name (files ! i) ! 2)) [0..<MAX_FILES]"

definition bad_name :: "u8 list \<Rightarrow> bool" where
  "bad_name name \<longleftrightarrow> name ! 0 < 32 \<or> 127 \<le> name ! 0 \<or> name ! 1 < 32 \<or> 127 \<le> name ! 1 \<or>
     name ! 2 < 32 \<or> 127 \<le> name ! 2 \<or> name ! 3 \<noteq> 0"

section \<open>Finding free pages\<close>

text \<open>The first file in the way of the range from \<open>ret\<close>; the test of the second loop also counts
  files that only touch it.\<close>

definition in_way :: "u32 \<Rightarrow> u32 \<Rightarrow> mos_file list \<Rightarrow> nat option" where
  "in_way ret len files = List.find (\<lambda>i. allocated (files ! i) \<and> fl_start (files ! i) < ret + len \<and>
     ret < fl_start (files ! i) + fl_length (files ! i)) [0..<MAX_FILES]"

definition touches :: "u32 \<Rightarrow> u32 \<Rightarrow> mos_file list \<Rightarrow> nat option" where
  "touches ret len files = List.find (\<lambda>i. allocated (files ! i) \<and> fl_start (files ! i) \<le> ret + len \<and>
     ret \<le> fl_start (files ! i) + fl_length (files ! i)) [0..<MAX_FILES]"

definition page_after :: "mos_file \<Rightarrow> u32" where
  "page_after f = (fl_start f + fl_length f + 264 - 1) div 264 * 264"

text \<open>The two loops; either yields the free range or (\<open>None\<close> inside) falls through.\<close>

partial_function (option) search_up :: "u32 \<Rightarrow> mos_file list \<Rightarrow> u32 \<Rightarrow> u32 option option" where
  "search_up len files ret =
     (if ret + len \<le> of_nat FLASH_SIZE then
        (case in_way ret len files of
           None \<Rightarrow> Some (Some ret)
         | Some i \<Rightarrow> search_up len files (page_after (files ! i)))
      else Some None)"

partial_function (option) search_again :: "u32 \<Rightarrow> u32 \<Rightarrow> mos_file list \<Rightarrow> u32 \<Rightarrow> u32 option option" where
  "search_again start len files ret =
     (if ret < start then
        (case touches ret len files of
           None \<Rightarrow> Some (Some ret)
         | Some i \<Rightarrow> search_again start len files (page_after (files ! i)))
      else Some None)"

definition findFreePages :: "u32 \<Rightarrow> u32 \<Rightarrow> mos_file list \<Rightarrow> u32 option" where
  "findFreePages start len files = do {
     r \<leftarrow> search_up len files start;
     case r of
       Some ret \<Rightarrow> Some ret
     | None \<Rightarrow> do {
         r \<leftarrow> search_again start len files 0;
         case r of Some ret \<Rightarrow> Some ret | None \<Rightarrow> Some 0xFFFFFFFF } }"

section \<open>The operations\<close>

text \<open>A file is named by its position in the table (\<open>None\<close> is NULL).  The slot of a file to be created
  is that of the file with its name, or the first free one, which gets the name at once.\<close>

definition choose_slot :: "u8 list \<Rightarrow> mos_file list \<Rightarrow> (nat \<times> mos_file list) option" where
  "choose_slot name files =
     (case findFile name files of
        Some i \<Rightarrow> Some (i, files)
      | None \<Rightarrow>
          (case List.find (\<lambda>i. \<not> allocated (files ! i)) [0..<MAX_FILES] of
             None \<Rightarrow> None
           | Some i \<Rightarrow> Some (i, files[i := (files ! i)\<lparr>fl_name := take 3 name\<rparr>])))"

definition mos_file_create :: "u8 list \<Rightarrow> u32 \<Rightarrow> 'c simple_fs \<Rightarrow> (nat option \<times> 'c simple_fs) option" where
  "mos_file_create name len s =
     (if bad_name name then Some (None, s)
      else do {
        s \<leftarrow> fs_lock s;
        case choose_slot name (fs_files s) of
          None \<Rightarrow> Some (None, fs_unlock s)
        | Some (i, files) \<Rightarrow> do {
            let s = s\<lparr>fs_files := files\<rparr>;
            start \<leftarrow> findFreePages (ucast (fs_nextPage s) * 264) len files;
            if start = 0xFFFFFFFF then Some (None, s)
            else do {
              let file = (files ! i)\<lparr>fl_index := of_nat i, fl_start := start, fl_length := len\<rparr>;
              let s = s\<lparr>fs_nextPage := ucast ((start + len + 264 - 1) div 264), fs_files := files[i := file]\<rparr>;
              Some (Some i, fs_unlock (saveState s)) } } })"

definition mos_file_open :: "u8 list \<Rightarrow> 'c simple_fs \<Rightarrow> (nat option \<times> 'c simple_fs) option" where
  "mos_file_open name s = do {
     s \<leftarrow> fs_lock s;
     Some (findFile name (fs_files s), fs_unlock s) }"

definition mos_file_rename :: "u8 list \<Rightarrow> u8 list \<Rightarrow> 'c simple_fs \<Rightarrow> 'c simple_fs option" where
  "mos_file_rename src dst s =
     (if bad_name dst then Some s
      else do {
        s \<leftarrow> fs_lock s;
        case findFile src (fs_files s) of
          None \<Rightarrow> Some (fs_unlock s)
        | Some i \<Rightarrow>
            (let files = (case findFile dst (fs_files s) of
                 None \<Rightarrow> fs_files s
               | Some j \<Rightarrow> (fs_files s)[j := (fs_files s ! j)\<lparr>fl_index := 0xFF\<rparr>]);
                 files = files[i := (files ! i)\<lparr>fl_name := take 3 dst\<rparr>]
             in Some (fs_unlock (saveState (s\<lparr>fs_files := files\<rparr>)))) })"

text \<open>The part of a request that lies in the file; \<open>offset + count\<close> is computed in 32 bits.\<close>

definition clip :: "mos_file \<Rightarrow> u32 \<Rightarrow> u16 \<Rightarrow> u16" where
  "clip file offset len =
     (if fl_length file \<le> offset then 0
      else if fl_length file < offset + ucast len then ucast (fl_length file - offset)
      else len)"

definition mos_file_read :: "'c spi \<Rightarrow> nat \<Rightarrow> u32 \<Rightarrow> u16 \<Rightarrow> 'c simple_fs \<Rightarrow> (u16 \<times> u8 list \<times> 'c simple_fs) option" where
  "mos_file_read spi i offset len s = do {
     s \<leftarrow> fs_lock s;
     let count = clip (fs_files s ! i) offset len;
     if 0 < count then do {
       (_, f) \<leftarrow> dev_ioctl_DEV_ATMEL_FLASH spi DEV_LOCK 0 (fs_flash s);
       (_, f) \<leftarrow> dev_ioctl_DEV_ATMEL_FLASH spi DEV_SEEK (fl_start (fs_files s ! i) + offset) f;
       (bytes, f) \<leftarrow> dev_read_DEV_ATMEL_FLASH spi count f;
       (_, f) \<leftarrow> dev_ioctl_DEV_ATMEL_FLASH spi DEV_UNLOCK 0 f;
       Some (count, bytes, fs_unlock (s\<lparr>fs_flash := f\<rparr>))
     } else Some (count, [], fs_unlock s) }"

definition mos_file_write :: "'c spi \<Rightarrow> u8 list \<Rightarrow> nat \<Rightarrow> u32 \<Rightarrow> u16 \<Rightarrow> 'c simple_fs \<Rightarrow> (u16 \<times> 'c simple_fs) option" where
  "mos_file_write spi bs i offset len s = do {
     s \<leftarrow> fs_lock s;
     let count = clip (fs_files s ! i) offset len;
     if 0 < count then do {
       (_, f) \<leftarrow> dev_ioctl_DEV_ATMEL_FLASH spi DEV_LOCK 0 (fs_flash s);
       (_, f) \<leftarrow> dev_ioctl_DEV_ATMEL_FLASH spi DEV_SEEK (fl_start (fs_files s ! i) + offset) f;
       (_, f) \<leftarrow> dev_write_DEV_ATMEL_FLASH spi bs count f;
       (_, f) \<leftarrow> dev_ioctl_DEV_ATMEL_FLASH spi DEV_UNLOCK 0 f;
       Some (count, fs_unlock (s\<lparr>fs_flash := f\<rparr>))
     } else Some (count, fs_unlock s) }"

definition mos_file_crc :: "'c spi \<Rightarrow> nat \<Rightarrow> u32 \<Rightarrow> u32 \<Rightarrow> 'c simple_fs \<Rightarrow> (u16 \<times> 'c simple_fs) option" where
  "mos_file_crc spi i offset len s = do {
     s \<leftarrow> fs_lock s;
     let file = fs_files s ! i;
     let count = (if fl_length file \<le> offset then 0
       else if fl_length file < offset + len then fl_length file - offset else len);
     (_, f) \<leftarrow> dev_ioctl_DEV_ATMEL_FLASH spi DEV_LOCK 0 (fs_flash s);
     (_, f) \<leftarrow> dev_ioctl_DEV_ATMEL_FLASH spi DEV_SEEK (fl_start file + offset) f;
     (crc, f) \<leftarrow> atmel_flash_crc spi count f;
     (_, f) \<leftarrow> dev_ioctl_DEV_ATMEL_FLASH spi DEV_UNLOCK 0 f;
     Some (crc, fs_unlock (s\<lparr>fs_flash := f\<rparr>)) }"

definition mos_file_flush :: "'c spi \<Rightarrow> nat \<Rightarrow> 'c simple_fs \<Rightarrow> 'c simple_fs option" where
  "mos_file_flush spi i s = do {
     s \<leftarrow> fs_lock s;
     (_, f) \<leftarrow> dev_ioctl_DEV_ATMEL_FLASH spi DEV_LOCK 0 (fs_flash s);
     (_, f) \<leftarrow> dev_ioctl_DEV_ATMEL_FLASH spi DEV_FLUSH 0 f;
     (_, f) \<leftarrow> dev_ioctl_DEV_ATMEL_FLASH spi DEV_UNLOCK 0 f;
     Some (fs_unlock (s\<lparr>fs_flash := f\<rparr>)) }"

definition simple_fs_format :: "'c simple_fs \<Rightarrow> 'c simple_fs option" where
  "simple_fs_format s = do {
     s \<leftarrow> fs_lock s;
     Some (fs_unlock (saveState (s\<lparr>fs_files := map (\<lambda>f. f\<lparr>fl_index := 0xFF\<rparr>) (fs_files s)\<rparr>))) }"

definition simple_fs_init :: "'c spi \<Rightarrow> 'c simple_fs \<Rightarrow> 'c simple_fs option" where
  "simple_fs_init spi s = do {
     s \<leftarrow> fs_lock (s\<lparr>fs_held := False\<rparr>);
     (_, f) \<leftarrow> dev_mode_DEV_ATMEL_FLASH spi MODE_BUFFERED (fs_flash s);
     Some (fs_unlock (loadState (s\<lparr>fs_flash := f\<rparr>))) }"

section \<open>The table invariant\<close>

text \<open>The ranges of two allocated files are disjoint; the bounds keep their ends from wrapping.\<close>

definition file_range :: "mos_file \<Rightarrow> nat set" where
  "file_range f = {unat (fl_start f) ..< unat (fl_start f) + unat (fl_length f)}"

definition file_ok :: "mos_file \<Rightarrow> bool" where
  "file_ok f \<longleftrightarrow> unat (fl_start f) < 17301504 \<and> unat (fl_length f) \<le> FLASH_SIZE"

definition table_ok :: "mos_file list \<Rightarrow> bool" where
  "table_ok files \<longleftrightarrow> length files = MAX_FILES \<and>
     (\<forall>i < MAX_FILES. allocated (files ! i) \<longrightarrow> file_ok (files ! i)) \<and>
     (\<forall>i < MAX_FILES. \<forall>j < MAX_FILES. i \<noteq> j \<longrightarrow> allocated (files ! i) \<longrightarrow> allocated (files ! j) \<longrightarrow>
        file_range (files ! i) \<inter> file_range (files ! j) = {})"

lemma table_okD:
  assumes "table_ok files"
  shows "length files = MAX_FILES" and "i < MAX_FILES \<Longrightarrow> allocated (files ! i) \<Longrightarrow> file_ok (files ! i)"
    and "i < MAX_FILES \<Longrightarrow> j < MAX_FILES \<Longrightarrow> i \<noteq> j \<Longrightarrow> allocated (files ! i) \<Longrightarrow> allocated (files ! j) \<Longrightarrow>
      file_range (files ! i) \<inter> file_range (files ! j) = {}"
  using assms by (auto simp: table_ok_def)

lemma unat_add_u32: "unat a + unat b < 4294967296 \<Longrightarrow> unat (a + b :: u32) = unat a + unat b"
  by (subst unat_add_lem [THEN iffD1]) simp_all

lemma file_end: "file_ok f \<Longrightarrow> unat (fl_start f + fl_length f) = unat (fl_start f) + unat (fl_length f)"
  by (rule unat_add_u32) (simp add: file_ok_def FLASH_SIZE_def)

lemma page_after_ge:
  assumes "file_ok f"
  shows "unat (fl_start f) + unat (fl_length f) \<le> unat (page_after f)" and "unat (page_after f) < 17842500"
proof -
  let ?e = "unat (fl_start f) + unat (fl_length f)"
  have b: "?e < 17842177" using assms by (simp add: file_ok_def FLASH_SIZE_def)
  have "unat (fl_start f + fl_length f + 264) = ?e + 264"
    using file_end [OF assms] b by (subst unat_add_u32) simp_all
  then have "unat (fl_start f + fl_length f + 264 - 1) = ?e + 263"
    by (subst unat_sub_small) (simp_all add: word_le_nat_alt)
  then have d: "unat ((fl_start f + fl_length f + 264 - 1) div 264) = (?e + 263) div 264" by (simp add: unat_div)
  have "(?e + 263) div 264 * 264 < 4294967296" using b by simp
  then have p: "unat (page_after f) = (?e + 263) div 264 * 264"
    unfolding page_after_def using d by (simp add: unat_mult_lem [THEN iffD1])
  show "?e \<le> unat (page_after f)" "unat (page_after f) < 17842500" unfolding p using b by simp_all
qed

lemma in_way_None:
  assumes t: "table_ok files" and n: "in_way ret len files = None"
    and small: "unat ret + unat len < 4294967296" and i: "i < MAX_FILES" "allocated (files ! i)"
  shows "file_range (files ! i) \<inter> {unat ret ..< unat ret + unat len} = {}"
proof -
  have e: "unat (fl_start (files ! i) + fl_length (files ! i)) =
      unat (fl_start (files ! i)) + unat (fl_length (files ! i))"
    using file_end table_okD(2) [OF t i] by blast
  have "\<not> (fl_start (files ! i) < ret + len \<and> ret < fl_start (files ! i) + fl_length (files ! i))"
    using n i by (auto simp: in_way_def find_None_iff)
  then show ?thesis using unat_add_u32 [OF small] e
    by (auto simp: file_range_def word_less_nat_alt)
qed

lemma touches_None: "touches ret len files = None \<Longrightarrow> in_way ret len files = None"
  by (auto simp: touches_def in_way_def find_None_iff dest: order.strict_implies_order)

lemma in_way_Some:
  "in_way ret len files = Some i \<Longrightarrow> i < MAX_FILES \<and> allocated (files ! i) \<and>
     ret < fl_start (files ! i) + fl_length (files ! i)"
  by (auto simp: in_way_def find_Some_iff)

text \<open>The first loop ends: it always moves up.\<close>

lemma search_up_total:
  assumes t: "table_ok files" and len: "unat len \<le> FLASH_SIZE"
  shows "unat ret < 17842500 \<Longrightarrow> \<exists>r. search_up len files ret = Some r"
proof (induction "FLASH_SIZE - unat ret" arbitrary: ret rule: less_induct)
  case less
  have s: "unat (ret + len) = unat ret + unat len"
    using less.prems len by (intro unat_add_u32) (simp add: FLASH_SIZE_def)
  show ?case
  proof (cases "ret + len \<le> of_nat FLASH_SIZE")
    case False
    then show ?thesis by (simp add: search_up.simps)
  next
    case True
    then have le: "unat ret + unat len \<le> FLASH_SIZE"
      using s by (simp add: word_le_nat_alt FLASH_SIZE_def)
    show ?thesis
    proof (cases "in_way ret len files")
      case None
      then show ?thesis using True by (simp add: search_up.simps)
    next
      case (Some i)
      note w = in_way_Some [OF Some]
      have ok: "file_ok (files ! i)" using table_okD(2) [OF t] w by blast
      have lt: "unat ret < unat (page_after (files ! i))"
        using w page_after_ge(1) [OF ok] file_end [OF ok] by (simp add: word_less_nat_alt)
      show ?thesis
      proof (cases "unat ret < FLASH_SIZE")
        case True
        with lt have "FLASH_SIZE - unat (page_after (files ! i)) < FLASH_SIZE - unat ret" by linarith
        from less.hyps [OF this page_after_ge(2) [OF ok]] Some \<open>ret + len \<le> of_nat FLASH_SIZE\<close>
        show ?thesis by (simp add: search_up.simps [of len files ret])
      next
        case False
        with lt page_after_ge(2) [OF ok] len have "\<not> page_after (files ! i) + len \<le> of_nat FLASH_SIZE"
          using unat_add_u32 [of "page_after (files ! i)" len]
          by (simp add: word_le_nat_alt FLASH_SIZE_def)
        then have "search_up len files (page_after (files ! i)) = Some None" by (simp add: search_up.simps)
        then show ?thesis using Some \<open>ret + len \<le> of_nat FLASH_SIZE\<close>
          by (simp add: search_up.simps [of len files ret])
      qed
    qed
  qed
qed

lemma search_up_result:
  assumes run: "search_up len files ret = Some (Some r)"
  shows "r + len \<le> of_nat FLASH_SIZE \<and> in_way r len files = None"
proof -
  have "\<And>q. Some r = Some q \<Longrightarrow> q + len \<le> of_nat FLASH_SIZE \<and> in_way q len files = None"
    by (rule search_up.raw_induct [where P = "\<lambda>len files ret x. \<forall>q. x = Some q \<longrightarrow>
        q + len \<le> of_nat FLASH_SIZE \<and> in_way q len files = None", OF _ run, rule_format])
      (auto split: if_splits option.splits)
  then show ?thesis by blast
qed

lemma search_again_result:
  assumes run: "search_again start len files ret = Some (Some r)"
  shows "r < start \<and> touches r len files = None"
proof -
  have "\<And>q. Some r = Some q \<Longrightarrow> q < start \<and> touches q len files = None"
    by (rule search_again.raw_induct [where P = "\<lambda>start len files ret x. \<forall>q. x = Some q \<longrightarrow>
        q < start \<and> touches q len files = None", OF _ run, rule_format])
      (auto split: if_splits option.splits)
  then show ?thesis by blast
qed

lemma search_up_small:
  assumes t: "table_ok files" and len: "unat len \<le> FLASH_SIZE" and start: "unat ret < 17301504"
    and run: "search_up len files ret = Some (Some r)"
  shows "unat r < 17301504"
proof -
  have "len = len \<longrightarrow> files = files \<longrightarrow> unat ret < 17842500 \<longrightarrow>
      (\<forall>q. Some r = Some q \<longrightarrow> unat q < 17301504)"
  proof (rule search_up.raw_induct [where P = "\<lambda>len' files' ret x. len' = len \<longrightarrow> files' = files \<longrightarrow>
      unat ret < 17842500 \<longrightarrow> (\<forall>q. x = Some q \<longrightarrow> unat q < 17301504)", OF _ run], intro impI allI)
    fix rec len' files' ret x q
    assume IH: "\<And>l f r x. rec l f r = Some x \<Longrightarrow> l = len \<longrightarrow> f = files \<longrightarrow>
        unat r < 17842500 \<longrightarrow> (\<forall>q. x = Some q \<longrightarrow> unat q < 17301504)"
      and body: "(if ret + len' \<le> of_nat FLASH_SIZE then case in_way ret len' files' of None \<Rightarrow> Some (Some ret)
         | Some i \<Rightarrow> rec len' files' (page_after (files' ! i)) else Some None) = Some x"
      and eq: "len' = len" "files' = files" "unat ret < 17842500" "x = Some q"
    show "unat q < 17301504"
    proof (cases "in_way ret len files")
      case None
      then have "q = ret" "ret + len \<le> of_nat FLASH_SIZE" using body eq by (simp_all split: if_splits)
      moreover have "unat (ret + len) = unat ret + unat len"
        using eq(3) len by (intro unat_add_u32) (simp add: FLASH_SIZE_def)
      ultimately show ?thesis by (simp add: word_le_nat_alt FLASH_SIZE_def)
    next
      case (Some i)
      then have "rec len files (page_after (files ! i)) = Some (Some q)"
        using body eq by (simp split: if_splits)
      moreover have "unat (page_after (files ! i)) < 17842500"
        using page_after_ge(2) table_okD(2) [OF t] in_way_Some [OF Some] by blast
      ultimately show ?thesis using IH by blast
    qed
  qed
  then show ?thesis using start by simp
qed

text \<open>The second loop does not end when a file that ends on a page boundary touches the place tried.\<close>

lemma search_again_stuck:
  assumes "ret < start" and "touches ret len files = Some i" and "page_after (files ! i) = ret"
  shows "search_again start len files ret = None"
proof (cases "search_again start len files ret")
  case (Some r)
  have "(start, len, files, ret) \<noteq> (start, len, files, ret)"
  proof (rule search_again.raw_induct [where P = "\<lambda>start' len' files' ret' _.
      (start', len', files', ret') \<noteq> (start, len, files, ret)", OF _ Some], rule notI)
    fix rec start' len' files' ret' r
    assume IH: "\<And>s l f t r. rec s l f t = Some r \<Longrightarrow> (s, l, f, t) \<noteq> (start, len, files, ret)"
      and body: "(if ret' < start' then case touches ret' len' files' of None \<Rightarrow> Some (Some ret')
         | Some i \<Rightarrow> rec start' len' files' (page_after (files' ! i)) else Some None) = Some r"
      and eq: "(start', len', files', ret') = (start, len, files, ret)"
    have "start' = start" "len' = len" "files' = files" "ret' = ret" using eq by simp_all
    with body have "rec start len files ret = Some r" by (simp add: assms)
    with IH show False by blast
  qed
  then show ?thesis by blast
qed simp

section \<open>Creating files\<close>

lemma findFile_Some: "findFile name files = Some i \<Longrightarrow> i < MAX_FILES \<and> allocated (files ! i)"
  by (auto simp: findFile_def find_Some_iff)

lemma findFreePages_result:
  assumes t: "table_ok files" and len: "unat len \<le> FLASH_SIZE" and start: "unat start < 17301504"
    and run: "findFreePages start len files = Some r" and r: "r \<noteq> 0xFFFFFFFF"
  shows "unat r < 17301504"
    and "i < MAX_FILES \<Longrightarrow> allocated (files ! i) \<Longrightarrow> file_range (files ! i) \<inter> {unat r ..< unat r + unat len} = {}"
proof -
  have both: "unat r < 17301504 \<and> in_way r len files = None"
  proof (cases "search_up len files start")
    case None
    then show ?thesis using run by (simp add: findFreePages_def)
  next
    case (Some x)
    show ?thesis
    proof (cases x)
      case None
      then obtain y where "search_again start len files 0 = Some y" "y = Some r"
        using run r Some by (auto simp: findFreePages_def bind_eq_Some_conv split: option.splits)
      with search_again_result [of start len files 0 r] start show ?thesis
        using touches_None by (auto simp: word_less_nat_alt)
    next
      case x: (Some q)
      then have "search_up len files start = Some (Some r)" using run Some by (simp add: findFreePages_def)
      from search_up_result [OF this] have "r + len \<le> of_nat FLASH_SIZE" "in_way r len files = None" by auto
      moreover have "unat r < 17301504"
        using search_up_small [OF t len start \<open>search_up len files start = Some (Some r)\<close>] .
      ultimately show ?thesis by blast
    qed
  qed
  then show "unat r < 17301504" by blast
  show "i < MAX_FILES \<Longrightarrow> allocated (files ! i) \<Longrightarrow> file_range (files ! i) \<inter> {unat r ..< unat r + unat len} = {}"
    using in_way_None [OF t conjunct2 [OF both]] both len by (simp add: FLASH_SIZE_def)
qed

end
