(* ===== verification/Simple_Fs_Properties.thy ===== *)
theory Simple_Fs_Properties
  imports Simple_Fs
begin

text \<open>
  The properties of the file system: files never share a byte of the flash, what is written to one
  is read back and leaves the others alone; and the ways in which creating a file goes wrong.
\<close>

section \<open>Creating a file\<close>

text \<open>The table with the slot of a new file named, as \<open>mos_file_create\<close> computes it.\<close>

definition named_slot :: "u8 list \<Rightarrow> mos_file list \<Rightarrow> nat \<Rightarrow> mos_file list \<Rightarrow> bool" where
  "named_slot name old i files \<longleftrightarrow> i < MAX_FILES \<and>
     (findFile name old = Some i \<and> files = old \<or>
      findFile name old = None \<and> \<not> allocated (old ! i) \<and>
      files = old[i := (old ! i)\<lparr>fl_name := take 3 name\<rparr>])"

lemma choose_slot_Some:
  assumes "choose_slot name old = Some (i, files)"
  shows "named_slot name old i files"
proof (cases "findFile name old")
  case None
  with assms show ?thesis by (auto simp: choose_slot_def named_slot_def find_Some_iff split: option.splits)
next
  case (Some j)
  with assms show ?thesis using findFile_Some [OF Some] by (simp add: choose_slot_def named_slot_def)
qed

lemma mos_file_create_Some:
  assumes run: "mos_file_create name len s = Some (Some i, s')"
  obtains files start where "\<not> bad_name name" "\<not> fs_held s" "named_slot name (fs_files s) i files"
    "findFreePages (ucast (fs_nextPage s) * 264) len files = Some start" "start \<noteq> 0xFFFFFFFF"
    "fs_files s' = files[i := (files ! i)\<lparr>fl_index := of_nat i, fl_start := start, fl_length := len\<rparr>]"
    "\<not> fs_held s'" "fs_eeprom s' = (fs_nextPage s', fs_files s')" "fs_flash s' = fs_flash s"
proof -
  have nb: "\<not> bad_name name" using run by (auto simp: mos_file_create_def split: if_splits)
  have nh: "\<not> fs_held s" using run nb by (auto simp: mos_file_create_def fs_lock_def split: if_splits)
  obtain files where slot: "choose_slot name (fs_files s) = Some (i, files)"
    using run nb nh by (auto simp: mos_file_create_def fs_lock_def Let_def bind_eq_Some_conv
      split: option.splits if_splits)
  note ns = choose_slot_Some [OF slot]
  from run nb nh slot obtain start where "findFreePages (ucast (fs_nextPage s) * 264) len files = Some start"
    "start \<noteq> 0xFFFFFFFF" "s' = fs_unlock (saveState (s\<lparr>fs_held := True, fs_files := files,
       fs_nextPage := ucast ((start + len + 264 - 1) div 264),
       fs_files := files[i := (files ! i)\<lparr>fl_index := of_nat i, fl_start := start, fl_length := len\<rparr>]\<rparr>))"
    by (auto simp: mos_file_create_def fs_lock_def Let_def bind_eq_Some_conv split: if_splits)
  with nb nh ns that show thesis by (simp add: fs_unlock_def saveState_def)
qed

lemma nth_list_update_cases: "i < length xs \<Longrightarrow> xs[i := v] ! j = (if j = i then v else xs ! j)"
  by (cases "j = i") simp_all

lemma named_slot_nth:
  assumes "named_slot name old i files" and "table_ok old"
  shows "length files = MAX_FILES" and "fl_start (files ! j) = fl_start (old ! j)"
    and "fl_length (files ! j) = fl_length (old ! j)" and "allocated (files ! j) = allocated (old ! j)"
    and "j \<noteq> i \<Longrightarrow> files ! j = old ! j"
proof -
  have c: "files = old \<or> files = old[i := (old ! i)\<lparr>fl_name := take 3 name\<rparr>]" "i < length old"
    using assms by (auto simp: named_slot_def table_ok_def)
  show "length files = MAX_FILES" using c(1) table_okD(1) [OF assms(2)] by auto
  show "fl_start (files ! j) = fl_start (old ! j)" "fl_length (files ! j) = fl_length (old ! j)"
    "allocated (files ! j) = allocated (old ! j)" "j \<noteq> i \<Longrightarrow> files ! j = old ! j"
    using c by (cases "j = i"; auto simp: allocated_def)+
qed

lemma named_slot_ok:
  assumes "named_slot name old i files" and "table_ok old"
  shows "table_ok files"
  using assms(2) named_slot_nth [OF assms]
  by (simp add: table_ok_def file_ok_def file_range_def)

lemma table_ok_update:
  assumes t: "table_ok files" and i: "i < MAX_FILES" and ok: "file_ok file"
    and d: "\<And>j. j < MAX_FILES \<Longrightarrow> j \<noteq> i \<Longrightarrow> allocated (files ! j) \<Longrightarrow> file_range (files ! j) \<inter> file_range file = {}"
  shows "table_ok (files[i := file])"
proof -
  note d' = d [unfolded Int_commute [of _ "file_range file"]]
  have n: "(files[i := file]) ! j = (if j = i then file else files ! j)" if "j < MAX_FILES" for j
    using that i table_okD(1) [OF t] by (simp add: nth_list_update)
  show ?thesis
    unfolding table_ok_def
  proof (intro conjI allI impI)
    show "length (files[i := file]) = MAX_FILES" using table_okD(1) [OF t] by simp
    fix j assume "j < MAX_FILES" "allocated ((files[i := file]) ! j)"
    then show "file_ok ((files[i := file]) ! j)" using n ok table_okD(2) [OF t] by (cases "j = i") auto
  next
    fix j k assume a: "j < MAX_FILES" "k < MAX_FILES" "j \<noteq> k" "allocated ((files[i := file]) ! j)"
      "allocated ((files[i := file]) ! k)"
    consider "j = i" | "k = i" | "j \<noteq> i" "k \<noteq> i" by blast
    then show "file_range ((files[i := file]) ! j) \<inter> file_range ((files[i := file]) ! k) = {}"
      using a n d d' table_okD(3) [OF t] by cases auto
  qed
qed

lemma char_eq_valid: "\<not> bad_name name \<Longrightarrow> j < 3 \<Longrightarrow> char_eq (name ! j) (name ! j)"
proof -
  have v: "c < 128" if "\<not> 127 \<le> c" for c :: u8 using that by (simp add: word_le_nat_alt word_less_nat_alt)
  assume "\<not> bad_name name" "j < 3"
  then have "name ! j < 128"
    using v by (auto simp: bad_name_def less_Suc_eq numeral_3_eq_3 numeral_2_eq_2)
  then show ?thesis by (simp add: char_eq_def)
qed

lemma find_first:
  assumes "i < n" and "P i" and "\<And>j. j < i \<Longrightarrow> \<not> P j"
  shows "List.find P [0..<n] = Some i"
  using assms by (auto simp: find_Some_iff intro!: exI [of _ i])

text \<open>The file just created is the one its name finds.\<close>

lemma findFile_created:
  assumes nb: "\<not> bad_name name" and len: "4 \<le> length name" and t: "table_ok old"
    and ns: "named_slot name old i files"
    and fl: "fl_name file = fl_name (files ! i)" "allocated file"
  shows "findFile name (files[i := file]) = Some i"
proof -
  let ?P = "\<lambda>fs i. allocated (fs ! i) \<and> char_eq (name ! 0) (fl_name (fs ! i) ! 0) \<and>
     char_eq (name ! 1) (fl_name (fs ! i) ! 1) \<and> char_eq (name ! 2) (fl_name (fs ! i) ! 2)"
  note n = named_slot_nth [OF ns t]
  have i: "i < MAX_FILES" using ns by (simp add: named_slot_def)
  have other: "(files[i := file]) ! j = old ! j" if "j \<noteq> i" for j using that n(5) by simp
  show ?thesis
  proof (cases "findFile name old")
    case None
    then have "fl_name (files ! i) = take 3 name"
      using ns t i table_okD(1) [OF t] by (simp add: named_slot_def)
    moreover have "take 3 name ! j = name ! j" if "j < 3" for j using that by simp
    ultimately have "?P (files[i := file]) i"
      using fl i n(1) char_eq_valid [OF nb] by simp
    moreover have "\<not> ?P (files[i := file]) j" if "j < i" for j
      using None that i other [of j] by (auto simp: findFile_def find_None_iff)
    ultimately show ?thesis unfolding findFile_def by (intro find_first i)
  next
    case (Some k)
    with ns have k: "k = i" "files = old" by (auto simp: named_slot_def)
    from Some k have p: "?P old i" "\<And>j. j < i \<Longrightarrow> \<not> ?P old j"
      by (auto simp: findFile_def find_Some_iff)
    have "?P (files[i := file]) i" using p(1) fl i n(1) k(2) by simp
    moreover have "\<not> ?P (files[i := file]) j" if "j < i" for j
      using p(2) [OF that] other [of j] that by simp
    ultimately show ?thesis unfolding findFile_def by (intro find_first i)
  qed
qed


text \<open>An empty file system on the simulated chip.\<close>

definition free_slot :: mos_file where
  "free_slot = \<lparr>fl_index = 0xFF, fl_name = [0, 0, 0], fl_start = 0, fl_length = 0\<rparr>"

definition sample_fs :: "chip simple_fs" where
  "sample_fs = \<lparr>fs_nextPage = 1, fs_files = replicate MAX_FILES free_slot, fs_eeprom = (1, []),
     fs_held = False, fs_flash = sample_flash\<rparr>"

lemma sample_table: "table_ok (replicate MAX_FILES free_slot)"
  by (simp add: table_ok_def free_slot_def allocated_def)

lemma sample_free: "i < MAX_FILES \<Longrightarrow> \<not> allocated (replicate MAX_FILES free_slot ! i)"
  by (simp add: allocated_def free_slot_def)

lemma sample_find: "findFile name (replicate MAX_FILES free_slot) = None"
  "in_way ret len (replicate MAX_FILES free_slot) = None"
  "touches ret len (replicate MAX_FILES free_slot) = None"
  using sample_free by (auto simp: findFile_def in_way_def touches_def find_None_iff)

lemma sample_slot: "choose_slot [112, 114, 103, 0] (replicate MAX_FILES free_slot) =
    Some (0, (replicate MAX_FILES free_slot)[0 := free_slot\<lparr>fl_name := [112, 114, 103]\<rparr>])"
proof -
  have "List.find (\<lambda>i. \<not> allocated (replicate MAX_FILES free_slot ! i)) [0..<MAX_FILES] = Some 0"
    using sample_free [of 0] by (intro find_first) (simp_all add: MAX_FILES_def)
  moreover have "replicate MAX_FILES free_slot ! 0 = free_slot" by (simp add: MAX_FILES_def)
  ultimately show ?thesis by (simp add: choose_slot_def sample_find numeral_3_eq_3)
qed

lemma sample_named_find:
  "in_way ret len ((replicate MAX_FILES free_slot)[0 := free_slot\<lparr>fl_name := n\<rparr>]) = None"
proof -
  have "\<not> allocated ((replicate MAX_FILES free_slot)[0 := free_slot\<lparr>fl_name := n\<rparr>] ! i)" if "i < MAX_FILES" for i
    using that by (cases "i = 0") (simp_all add: allocated_def free_slot_def)
  then show ?thesis by (auto simp: in_way_def find_None_iff)
qed

definition prg_file :: mos_file where
  "prg_file = \<lparr>fl_index = 0, fl_name = [112, 114, 103], fl_start = 264, fl_length = 500\<rparr>"

lemma sample_create:
  "mos_file_create [112, 114, 103, 0] 500 sample_fs =
   Some (Some 0, sample_fs\<lparr>fs_nextPage := 3, fs_files := (replicate MAX_FILES free_slot)[0 := prg_file],
     fs_eeprom := (3, (replicate MAX_FILES free_slot)[0 := prg_file])\<rparr>)"
proof -
  have "\<not> bad_name [112, 114, 103, 0]" by (simp add: bad_name_def)
  moreover have "findFreePages 264 500 ((replicate MAX_FILES free_slot)[0 := free_slot\<lparr>fl_name := n\<rparr>]) = Some 264" for n
    by (simp add: findFreePages_def search_up.simps sample_named_find FLASH_SIZE_def)
  moreover have "0 < length (replicate MAX_FILES free_slot)" by (simp add: MAX_FILES_def)
  moreover have "free_slot\<lparr>fl_name := [112, 114, 103], fl_index := 0, fl_start := 264, fl_length := 500\<rparr> = prg_file"
    by (simp add: prg_file_def free_slot_def)
  ultimately show ?thesis
    by (simp add: mos_file_create_def fs_lock_def sample_fs_def sample_slot Let_def fs_unlock_def saveState_def)
qed


section \<open>Reading and writing\<close>

lemma clip_ok:
  assumes "unat offset + unat len < 4294967296"
  shows "unat (clip f offset len) = min (unat len) (unat (fl_length f) - unat offset)"
proof -
  have s: "unat (offset + ucast len) = unat offset + unat len"
    using assms by (subst unat_add_u32) (simp_all add: unat_ucast_u16_u32)
  show ?thesis
  proof (cases "fl_length f \<le> offset")
    case True
    then show ?thesis by (simp add: clip_def word_le_nat_alt)
  next
    case False
    then have d: "unat (fl_length f - offset) = unat (fl_length f) - unat offset"
      by (intro unat_sub_small) simp
    show ?thesis
    proof (cases "fl_length f < offset + ucast len")
      case True
      then have "unat (fl_length f) < unat offset + unat len" using s by (simp add: word_less_nat_alt)
      moreover have "unat offset < unat (fl_length f)" using False by (simp add: word_le_nat_alt)
      ultimately have l: "unat (fl_length f) - unat offset < unat len" by linarith
      then have "unat (fl_length f - offset) < 65536" using d unat_u16_less [of len] by linarith
      then have "unat (ucast (fl_length f - offset) :: u16) = unat (fl_length f) - unat offset"
        by (simp add: unsigned_ucast_eq take_bit_nat_eq_self d)
      then show ?thesis using True False l by (simp add: clip_def)
    next
      case False
      then have "unat len \<le> unat (fl_length f) - unat offset"
        using s \<open>\<not> fl_length f \<le> offset\<close> by (simp add: word_less_nat_alt word_le_nat_alt)
      then show ?thesis using False \<open>\<not> fl_length f \<le> offset\<close> by (simp add: clip_def)
    qed
  qed
qed

abbreviation fs_byte :: "('c \<Rightarrow> nat \<Rightarrow> u8 list) \<Rightarrow> ('c \<Rightarrow> u8 \<Rightarrow> u8 list) \<Rightarrow> 'c simple_fs \<Rightarrow> nat \<Rightarrow> u8" where
  "fs_byte pages buf s \<equiv> content pages buf (fs_flash s)"

lemma seek_same:
  "atmel_inv pages buf (f\<lparr>a_addr := a\<rparr>) = atmel_inv pages buf f"
  "content pages buf (f\<lparr>a_addr := a\<rparr>) = content pages buf f"
  by (simp_all add: atmel_inv_def content_def page_of_def flat_def fun_eq_iff)

lemma ioctl_lock [simp]:
  "dev_ioctl_DEV_ATMEL_FLASH spi DEV_LOCK a f = Some (DEV_OK, f)"
  "dev_ioctl_DEV_ATMEL_FLASH spi DEV_UNLOCK a f = Some (DEV_OK, f)"
  "dev_ioctl_DEV_ATMEL_FLASH spi DEV_SEEK a f = Some (DEV_OK, f\<lparr>a_addr := a\<rparr>)"
  by (simp_all add: dev_ioctl_DEV_ATMEL_FLASH_def DEV_LOCK_def DEV_UNLOCK_def DEV_SEEK_def DEV_FLUSH_def)

text \<open>The place of a request on the flash.\<close>

definition in_flash :: "mos_file \<Rightarrow> bool" where
  "in_flash f \<longleftrightarrow> unat (fl_start f) + unat (fl_length f) \<le> FLASH_SIZE"

lemma request_place:
  assumes "in_flash f" and "unat offset + unat len < 4294967296" and "0 < clip f offset len"
  shows "unat (fl_start f + offset) = unat (fl_start f) + unat offset"
    and "unat (fl_start f) + unat offset + unat (clip f offset len) \<le> unat (fl_start f) + unat (fl_length f)"
    and "unat (fl_start f) + unat offset < FLASH_SIZE"
proof -
  have n: "0 < min (unat len) (unat (fl_length f) - unat offset)"
    using assms(3) clip_ok [OF assms(2), of f] by (simp add: word_less_nat_alt)
  then have o: "unat offset < unat (fl_length f)" by simp
  then show "unat (fl_start f) + unat offset < FLASH_SIZE" using assms(1) by (simp add: in_flash_def)
  show "unat (fl_start f) + unat offset + unat (clip f offset len) \<le> unat (fl_start f) + unat (fl_length f)"
    using clip_ok [OF assms(2), of f] o by simp
  show "unat (fl_start f + offset) = unat (fl_start f) + unat offset"
    using assms(1) o by (intro unat_add_u32) (simp add: in_flash_def FLASH_SIZE_def)
qed

lemma mos_file_read_ok:
  assumes chip: "at45 spi pages buf idle accessible" and inv: "atmel_inv pages buf (fs_flash s)"
    and free: "\<not> fs_held s" and fl: "in_flash (fs_files s ! i)"
    and small: "unat offset + unat len < 4294967296" "unat len \<le> 65272"
  defines "f \<equiv> fs_files s ! i"
  shows "\<exists>s'. mos_file_read spi i offset len s = Some (clip f offset len,
      map (fs_byte pages buf s) [unat (fl_start f) + unat offset ..<
        unat (fl_start f) + unat offset + unat (clip f offset len)], s') \<and>
    fs_byte pages buf s' = fs_byte pages buf s"
proof (cases "0 < clip f offset len")
  case False
  then have "clip f offset len = 0" by (simp add: word_gt_0)
  then show ?thesis using free by (simp add: mos_file_read_def fs_lock_def f_def fs_unlock_def)
next
  case True
  let ?f = "(fs_flash s)\<lparr>a_addr := fl_start f + offset\<rparr>"
  note pl = request_place [OF fl small(1) True [unfolded f_def], folded f_def]
  have fits: "unat (a_addr ?f) + unat (clip f offset len) \<le> FLASH_SIZE"
    using pl(1,2) fl by (simp add: in_flash_def f_def)
  have inside: "unat (a_addr ?f) < FLASH_SIZE" using fits True by (simp add: word_less_nat_alt)
  have small': "unat (clip f offset len) \<le> 65272" using clip_ok [OF small(1), of f] small(2) by simp
  have inv': "atmel_inv pages buf ?f" using inv by (simp add: seek_same)
  from flash_read_ok [OF chip inv' fits inside small'] obtain f' where
    r: "dev_read_DEV_ATMEL_FLASH spi (clip f offset len) ?f =
      Some (map (content pages buf ?f) [unat (a_addr ?f) ..< unat (a_addr ?f) + unat (clip f offset len)], f')"
    "content pages buf f' = content pages buf ?f" by blast
  show ?thesis
    using True free r pl(1)
    by (simp add: mos_file_read_def fs_lock_def f_def [symmetric] fs_unlock_def Let_def seek_same)
qed

text \<open>C31. Writing to a file and reading it: \<open>mos_file_write\<close> stores the part of the request that lies
  in the file and returns its length, no byte of any other file changes, and reading the same
  request returns the bytes written.\<close>
theorem fs_write_read:
  assumes chip: "at45 spi pages buf idle accessible" and inv: "atmel_inv pages buf (fs_flash s)"
    and free: "\<not> fs_held s" and t: "table_ok (fs_files s)" and i: "i < MAX_FILES" "allocated (fs_files s ! i)"
    and fl: "in_flash (fs_files s ! i)"
    and small: "unat offset + unat len < 4294967296" "unat len \<le> 65272" and bs: "unat len \<le> length bs"
    and n: "n = min (unat len) (unat (fl_length (fs_files s ! i)) - unat offset)"
  shows "\<exists>s'. mos_file_write spi bs i offset len s = Some (of_nat n, s') \<and> fs_files s' = fs_files s \<and>
    (\<forall>j < MAX_FILES. j \<noteq> i \<longrightarrow> allocated (fs_files s ! j) \<longrightarrow>
       (\<forall>a \<in> file_range (fs_files s ! j). fs_byte pages buf s' a = fs_byte pages buf s a)) \<and>
    (\<exists>s''. mos_file_read spi i offset len s' = Some (of_nat n, take n bs, s''))"
proof -
  let ?file = "fs_files s ! i" and ?c = "clip (fs_files s ! i) offset len"
  have c: "unat ?c = n" using clip_ok [OF small(1)] n by simp
  then have cn: "?c = of_nat n" by (simp flip: c)
  show ?thesis
  proof (cases "0 < ?c")
    case False
    then have "?c = 0" by (simp add: word_gt_0)
    then have "n = 0" using c by simp
    then have "mos_file_write spi bs i offset len s = Some (of_nat n, s)"
      using free \<open>?c = 0\<close> by (cases s) (simp add: mos_file_write_def fs_lock_def fs_unlock_def)
    moreover from mos_file_read_ok [OF chip inv free fl small] obtain s'' where
      "mos_file_read spi i offset len s = Some (of_nat n, take n bs, s'')"
      using \<open>n = 0\<close> \<open>?c = 0\<close> by auto
    ultimately show ?thesis by blast
  next
    case True
    let ?f = "(fs_flash s)\<lparr>a_addr := fl_start ?file + offset\<rparr>"
    let ?a = "unat (fl_start ?file) + unat offset"
    note pl = request_place [OF fl small(1) True]
    have ad: "unat (a_addr ?f) = ?a" using pl(1) by simp
    have fits: "unat (a_addr ?f) + unat ?c \<le> FLASH_SIZE" using pl(2) fl ad unfolding in_flash_def by linarith
    have inside: "unat (a_addr ?f) < FLASH_SIZE" using fits True by (simp add: word_less_nat_alt)
    have long: "unat ?c \<le> length bs" and small': "unat ?c \<le> 65272" using c n bs small(2) by linarith+
    have inv': "atmel_inv pages buf ?f" using inv by (simp add: seek_same)
    from flash_write_ok [OF chip inv' fits inside long small'] obtain f' where w:
      "dev_write_DEV_ATMEL_FLASH spi bs ?c ?f = Some (0, f')" "atmel_inv pages buf f'"
      "\<forall>a. content pages buf f' a = (if unat (a_addr ?f) \<le> a \<and> a < unat (a_addr ?f) + unat ?c
        then bs ! (a - unat (a_addr ?f)) else content pages buf ?f a)" by blast
    note w = w [unfolded ad seek_same]
    let ?s = "s\<lparr>fs_held := False, fs_flash := f'\<rparr>"
    have run: "mos_file_write spi bs i offset len s = Some (of_nat n, ?s)"
      using True free w(1) cn by (simp add: mos_file_write_def fs_lock_def fs_unlock_def Let_def)
    have other: "fs_byte pages buf ?s a = fs_byte pages buf s a"
      if j: "j < MAX_FILES" "j \<noteq> i" "allocated (fs_files s ! j)" "a \<in> file_range (fs_files s ! j)" for j a
    proof -
      have "a \<notin> file_range ?file" using table_okD(3) [OF t j(1) i(1) j(2,3) i(2)] j(4) by auto
      then show ?thesis using w(3) pl(2) by (auto simp: file_range_def)
    qed
    have "map (fs_byte pages buf ?s) [?a ..< ?a + unat ?c] = take n bs"
    proof (rule nth_equalityI)
      show "length (map (fs_byte pages buf ?s) [?a ..< ?a + unat ?c]) = length (take n bs)"
        using c long by simp
      fix k assume "k < length (map (fs_byte pages buf ?s) [?a ..< ?a + unat ?c])"
      then show "map (fs_byte pages buf ?s) [?a ..< ?a + unat ?c] ! k = take n bs ! k"
        using w(3) c by simp
    qed
    moreover have "atmel_inv pages buf (fs_flash ?s)" "\<not> fs_held ?s" "in_flash (fs_files ?s ! i)"
      using w(2) fl by simp_all
    ultimately obtain s'' where "mos_file_read spi i offset len ?s = Some (of_nat n, take n bs, s'')"
      using mos_file_read_ok [OF chip, of ?s i offset len] small cn by auto
    with run other show ?thesis by (intro exI [of _ ?s]) simp
  qed
qed

theorem fs_write_read_witness:
  "\<exists>s'. mos_file_write chip_spi [1, 2, 3, 4] 0 498 4
      (sample_fs\<lparr>fs_files := (replicate MAX_FILES free_slot)[0 := prg_file]\<rparr>) = Some (2, s') \<and>
    (\<exists>s''. mos_file_read chip_spi 0 498 4 s' = Some (2, [1, 2], s''))"
proof -
  let ?s = "sample_fs\<lparr>fs_files := (replicate MAX_FILES free_slot)[0 := prg_file]\<rparr>"
  have prg: "fs_files ?s ! 0 = prg_file" by (simp add: MAX_FILES_def)
  have t: "table_ok (fs_files ?s)"
    by (auto simp: table_ok_def nth_list_update prg_file_def allocated_def free_slot_def file_ok_def FLASH_SIZE_def)
  have inv: "atmel_inv chip_pages chip_buf (fs_flash ?s)" using sample_flash_inv by (simp add: sample_fs_def)
  have free: "\<not> fs_held ?s" by (simp add: sample_fs_def)
  have al: "allocated (fs_files ?s ! 0)" unfolding prg by (simp add: prg_file_def allocated_def)
  have fl: "in_flash (fs_files ?s ! 0)" unfolding prg by (simp add: prg_file_def in_flash_def FLASH_SIZE_def)
  have n: "2 = min (unat (4 :: u16)) (unat (fl_length (fs_files ?s ! 0)) - unat (498 :: u32))"
    unfolding prg by (simp add: prg_file_def)
  have i: "0 < MAX_FILES" by (simp add: MAX_FILES_def)
  from fs_write_read [OF chip_at45 inv free t i al fl _ _ _ n, of "[1, 2, 3, 4]"] show ?thesis by auto
qed

section \<open>What goes wrong when the flash is full\<close>

text \<open>The search for free pages may never end: when the range asked for does not fit behind the
  last file, and the first file begins at address 0 and ends on a page boundary, the second loop
  tries the same address for ever; \<open>mos_file_create\<close> is then stuck with the mutex held.\<close>
theorem fs_free_pages_hang:
  assumes "allocated (files ! 0)" and "fl_start (files ! 0) = 0" and "fl_length (files ! 0) = 264"
    and "264 < start" and "FLASH_SIZE < unat start + unat len" and "unat start + unat len < 4294967296"
  shows "findFreePages start len files = None"
proof -
  have "\<not> start + len \<le> of_nat FLASH_SIZE"
    using assms(5,6) unat_add_u32 [OF assms(6)] by (simp add: word_le_nat_alt FLASH_SIZE_def)
  then have up: "search_up len files start = Some None" by (simp add: search_up.simps)
  have p: "page_after (files ! 0) = 264" using assms(2,3) by (simp add: page_after_def)
  have len: "264 \<le> 264 + len"
  proof -
    have "264 + unat len < 4294967296" using assms(4,6) by (simp add: word_less_nat_alt)
    then show ?thesis using unat_add_u32 [of 264 len] by (simp add: word_le_nat_alt)
  qed
  have "touches ret len files = Some 0" if "ret = 0 \<or> ret = 264" for ret
    using that assms(1-3) len unfolding touches_def
    by (intro find_first) (auto simp: MAX_FILES_def)
  then have t: "touches 0 len files = Some 0" "touches 264 len files = Some 0" by simp_all
  have "search_again start len files 264 = None"
    by (rule search_again_stuck [OF assms(4) t(2) p])
  moreover have "0 < start" using assms(4) by (rule order.strict_trans [rotated]) simp
  ultimately have "search_again start len files 0 = None"
    using t(1) p by (simp add: search_again.simps [of start len files 0])
  then show ?thesis using up by (simp add: findFreePages_def)
qed

theorem fs_free_pages_hang_witness:
  "findFreePages 528 540672 [prg_file\<lparr>fl_start := 0, fl_length := 264\<rparr>] = None"
  by (rule fs_free_pages_hang) (simp_all add: prg_file_def allocated_def FLASH_SIZE_def)

text \<open>When there is no room, \<open>mos_file_create\<close> returns NULL without releasing the mutex: the next
  call that takes it never returns.\<close>
theorem fs_create_keeps_lock:
  assumes "\<not> bad_name name" and "\<not> fs_held s" and "choose_slot name (fs_files s) = Some (i, files)"
    and "findFreePages (ucast (fs_nextPage s) * 264) len files = Some 0xFFFFFFFF"
  shows "\<exists>s'. mos_file_create name len s = Some (None, s') \<and> fs_held s' \<and> mos_file_open name' s' = None"
  using assms by (auto simp: mos_file_create_def mos_file_open_def fs_lock_def Let_def)

theorem fs_create_keeps_lock_witness:
  "\<exists>s'. mos_file_create [112, 114, 103, 0] 540673 (sample_fs\<lparr>fs_nextPage := 0\<rparr>) = Some (None, s') \<and>
     mos_file_open [112, 114, 103, 0] s' = None"
proof -
  let ?files = "(replicate MAX_FILES free_slot)[0 := free_slot\<lparr>fl_name := [112, 114, 103]\<rparr>]"
  have "findFreePages 0 540673 ?files = Some 0xFFFFFFFF"
    by (simp add: findFreePages_def search_up.simps search_again.simps FLASH_SIZE_def)
  moreover have "\<not> bad_name [112, 114, 103, 0]" by (simp add: bad_name_def)
  ultimately show ?thesis
    using fs_create_keeps_lock [of "[112, 114, 103, 0]" "sample_fs\<lparr>fs_nextPage := 0\<rparr>" 0 ?files 540673]
      sample_slot by (auto simp: sample_fs_def)
qed

end
