(* ===== verification/Com_Layer.thy ===== *)
theory Com_Layer
  imports Clock Mutex
begin

text \<open>
  The communication layer (\<open>com/com.c\<close>, \<open>com/loopback.c\<close>): a pool of packet buffers that travel
  between the free list, the drivers, one list of received packets for each interface, and the
  application threads.  A buffer is named by its address.  The layer is built without forward error
  correction, as \<open>com.h\<close> has it.  A call that suspends the calling thread ends there; what it does when
  the thread runs again is an operation of its own (\<open>_resumed\<close>).
\<close>

section \<open>The state\<close>

type_synonym bid = nat

definition COM_DATA_SIZE :: nat where "COM_DATA_SIZE = 64"
definition NUM_BUFS :: nat where "NUM_BUFS = 5"
definition MAX_IFS :: nat where "MAX_IFS = 7"
definition IFACE_LOOPBACK :: u8 where "IFACE_LOOPBACK = 3"
definition SELECT_IFACE_BUSY :: u8 where "SELECT_IFACE_BUSY = 150"
definition IFACE_NOT_REGISTERED :: u8 where "IFACE_NOT_REGISTERED = 160"

text \<open>\<open>sizeof(comBuf)\<close>: a pointer, the data, the signal strength, the size, a byte of padding and the
  source.\<close>

definition sizeof_comBuf :: u16 where "sizeof_comBuf = 2 + of_nat COM_DATA_SIZE + 2 + 1 + 1 + 2"

record comBuf =
  cb_next :: "bid option"
  cb_data :: "u8 list"
  cb_signal :: u16
  cb_size :: u8
  cb_source :: u16

record timed_thread =
  tt_thread_ptr :: tid
  tt_timed_out :: bool

text \<open>\<open>cm_timed\<close> is the memory that holds the \<open>timed_thread_t\<close> of each pending call.\<close>

record com =
  cm_bufs :: "bid \<Rightarrow> comBuf"
  cm_free :: "bid option"
  cm_if_bufs :: "bid option list"
  cm_if_threads :: "tid option list"
  cm_send_mutexes :: "mos_mutex list"
  cm_timed :: "u16 \<Rightarrow> timed_thread"

section \<open>Operations on the lists of buffers\<close>

abbreviation set_cnext :: "bid \<Rightarrow> bid option \<Rightarrow> com \<Rightarrow> com" where
  "set_cnext b n c \<equiv> c\<lparr>cm_bufs := (cm_bufs c)(b := (cm_bufs c b)\<lparr>cb_next := n\<rparr>)\<rparr>"

definition get_free_buf :: "com \<Rightarrow> bid option \<times> com" where
  "get_free_buf c =
     (case cm_free c of
        None \<Rightarrow> (None, c)
      | Some b \<Rightarrow> (Some b, c\<lparr>cm_free := cb_next (cm_bufs c b)\<rparr>))"

text \<open>The last buffer of a list; a cyclic list has none.\<close>

partial_function (option) last_buf :: "(bid \<Rightarrow> comBuf) \<Rightarrow> bid \<Rightarrow> bid option" where
  "last_buf h b = (case cb_next (h b) of None \<Rightarrow> Some b | Some n \<Rightarrow> last_buf h n)"

definition save_full_buf :: "u8 \<Rightarrow> bid \<Rightarrow> com \<Rightarrow> com option" where
  "save_full_buf iface buf c = do {
     let c = set_cnext buf None c;
     p \<leftarrow> rd (cm_if_bufs c) (unat iface);
     case p of
       None \<Rightarrow> Some (c\<lparr>cm_if_bufs := (cm_if_bufs c)[unat iface := Some buf]\<rparr>)
     | Some b \<Rightarrow> do { l \<leftarrow> last_buf (cm_bufs c) b; Some (set_cnext l (Some buf) c) } }"

definition com_free_buf :: "bid option \<Rightarrow> com \<Rightarrow> com" where
  "com_free_buf buf c =
     (case buf of
        None \<Rightarrow> c
      | Some b \<Rightarrow> (set_cnext b (cm_free c) c)\<lparr>cm_free := Some b\<rparr>)"

text \<open>\<open>buf = if_bufs[iface]; if_bufs[iface] = buf->next\<close>\<close>

definition shift_buf :: "u8 \<Rightarrow> com \<Rightarrow> (bid \<times> com) option" where
  "shift_buf iface c = do {
     p \<leftarrow> rd (cm_if_bufs c) (unat iface);
     b \<leftarrow> p;
     Some (b, c\<lparr>cm_if_bufs := (cm_if_bufs c)[unat iface := cb_next (cm_bufs c b)]\<rparr>) }"

section \<open>Initialisation\<close>

text \<open>The pool is taken from the heap of the kernel; a failed allocation only blinks the LEDs.\<close>

primrec init_bufs :: "nat \<Rightarrow> com \<Rightarrow> mem \<Rightarrow> (com \<times> mem) option" where
  "init_bufs 0 c m = Some (c, m)"
| "init_bufs (Suc n) c m = do {
     (r, m) \<leftarrow> mos_mem_alloc sizeof_comBuf m;
     init_bufs n (case r of None \<Rightarrow> c | Some b \<Rightarrow> (set_cnext b (cm_free c) c)\<lparr>cm_free := Some b\<rparr>) m }"

definition com_init :: "com \<Rightarrow> kernel \<Rightarrow> (u8 \<times> com \<times> kernel) option" where
  "com_init c k = do {
     (c, m) \<leftarrow> init_bufs NUM_BUFS
        (c\<lparr>cm_free := None, cm_if_threads := replicate MAX_IFS None,
           cm_send_mutexes := replicate MAX_IFS mos_mutex_init, cm_if_bufs := replicate MAX_IFS None\<rparr>) (k_mem k);
     Some (0, c, k\<lparr>k_mem := m\<rparr>) }"

section \<open>Receiving\<close>

datatype received = Received "bid option" | Suspended

definition com_recv_noblock :: "u8 \<Rightarrow> com \<Rightarrow> (bid option \<times> com) option" where
  "com_recv_noblock iface c = do {
     t \<leftarrow> rd (cm_if_threads c) (unat iface);
     if t \<noteq> None then Some (None, c) else do {
       p \<leftarrow> rd (cm_if_bufs c) (unat iface);
       if p = None then Some (None, c)
       else do { (b, c) \<leftarrow> shift_buf iface c; Some (Some b, c) } } }"

text \<open>The end of \<open>com_recv\<close>, reached at once when a packet is waiting, and when the suspended thread
  runs again.\<close>

definition com_recv_resumed :: "u8 \<Rightarrow> com \<Rightarrow> (bid option \<times> com) option" where
  "com_recv_resumed iface c = do {
     (b, c) \<leftarrow> shift_buf iface c;
     ts \<leftarrow> wr (cm_if_threads c) (unat iface) None;
     Some (Some b, c\<lparr>cm_if_threads := ts\<rparr>) }"

definition com_recv :: "u8 \<Rightarrow> com \<Rightarrow> kernel \<Rightarrow> (received \<times> com \<times> kernel) option" where
  "com_recv iface c k = do {
     t \<leftarrow> rd (cm_if_threads c) (unat iface);
     if t \<noteq> None then Some (Received None, c, k) else do {
       p \<leftarrow> rd (cm_if_bufs c) (unat iface);
       if p = None then do {
         ts \<leftarrow> wr (cm_if_threads c) (unat iface) (k_current k);
         k \<leftarrow> mos_thread_suspend_noints k;
         Some (Suspended, c\<lparr>cm_if_threads := ts\<rparr>, k)
       } else do { (r, c) \<leftarrow> com_recv_resumed iface c; Some (Received r, c, k) } } }"

text \<open>With a time limit: \<open>timer\<close> is the static alarm that all calls of \<open>com_recv_timed\<close> share, \<open>current\<close>
  the address of the caller's \<open>timed_thread_t\<close>, \<open>callback\<close> that of \<open>timeout_callback\<close>.\<close>

definition start_timer :: "aid \<Rightarrow> u16 \<Rightarrow> u16 \<Rightarrow> u32 \<Rightarrow> clock \<Rightarrow> clock option" where
  "start_timer timer callback current msecs cl =
     mos_alarm timer (cl\<lparr>c_alarms := (c_alarms cl)(timer := (c_alarms cl timer)
        \<lparr>a_func := callback, a_data := current, a_msecs := msecs, a_reset_to := 0\<rparr>)\<rparr>)"

definition timed_resumed :: "aid \<Rightarrow> bool \<Rightarrow> u16 \<Rightarrow> u8 \<Rightarrow> com \<Rightarrow> clock \<Rightarrow> (bid option \<times> com \<times> clock) option" where
  "timed_resumed timer timer_enabled current iface c cl = do {
     p \<leftarrow> rd (cm_if_bufs c) (unat iface);
     if tt_timed_out (cm_timed c current) \<or> p = None then do {
       ts \<leftarrow> wr (cm_if_threads c) (unat iface) None;
       Some (None, c\<lparr>cm_if_threads := ts\<rparr>, cl)
     } else do {
       (r, c) \<leftarrow> com_recv_resumed iface c;
       cl \<leftarrow> (if timer_enabled then map_option snd (mos_remove_alarm (Some timer) cl) else Some cl);
       Some (r, c, cl) } }"

definition com_recv_timed ::
    "aid \<Rightarrow> u16 \<Rightarrow> u16 \<Rightarrow> u8 \<Rightarrow> u32 \<Rightarrow> com \<Rightarrow> kernel \<Rightarrow> clock \<Rightarrow> (received \<times> com \<times> kernel \<times> clock) option" where
  "com_recv_timed timer callback current iface msecs c k cl = do {
     x \<leftarrow> k_current k;
     let c = c\<lparr>cm_timed := (cm_timed c)(current := \<lparr>tt_thread_ptr = x, tt_timed_out = False\<rparr>)\<rparr>;
     t \<leftarrow> rd (cm_if_threads c) (unat iface);
     if t \<noteq> None then Some (Received None, c, k, cl) else do {
       p \<leftarrow> rd (cm_if_bufs c) (unat iface);
       if p = None then do {
         cl \<leftarrow> start_timer timer callback current msecs cl;
         ts \<leftarrow> wr (cm_if_threads c) (unat iface) (Some x);
         k \<leftarrow> mos_thread_suspend_noints k;
         Some (Suspended, c\<lparr>cm_if_threads := ts\<rparr>, k, cl)
       } else do {
         (r, c, cl) \<leftarrow> timed_resumed timer False current iface c cl;
         Some (Received r, c, k, cl) } } }"

definition timeout_callback :: "u16 \<Rightarrow> com \<Rightarrow> kernel \<Rightarrow> (com \<times> kernel) option" where
  "timeout_callback data c k = do {
     let t = cm_timed c data;
     k \<leftarrow> mos_thread_resume_noints_nodispatch (tt_thread_ptr t) k;
     Some (c\<lparr>cm_timed := (cm_timed c)(data := t\<lparr>tt_timed_out := True\<rparr>)\<rparr>, k) }"

section \<open>Selecting among interfaces\<close>

text \<open>An \<open>IF_SET\<close> is a byte of eight bits, although there are seven interfaces.  The first loop of
  \<open>com_select\<close>, with \<open>retval\<close>, \<open>oset\<close> and \<open>ifcount\<close>:\<close>

type_synonym if_set = u8

primrec scan_ifs :: "nat list \<Rightarrow> if_set \<Rightarrow> com \<Rightarrow> u8 \<times> if_set \<times> u8 \<Rightarrow> (u8 \<times> if_set \<times> u8) option" where
  "scan_ifs [] iset c st = Some st"
| "scan_ifs (i # is) iset c st =
     (case st of (retval, oset, ifcount) \<Rightarrow>
        if bit iset i then do {
          t \<leftarrow> rd (cm_if_threads c) i;
          p \<leftarrow> rd (cm_if_bufs c) i;
          let retval = (if t \<noteq> None then SELECT_IFACE_BUSY else retval);
          if p \<noteq> None then scan_ifs is iset c (retval, oset OR push_bit i 1, ifcount + 1)
          else scan_ifs is iset c (retval, oset, ifcount)
        } else scan_ifs is iset c st)"

text \<open>The loops over the eight bits that take the interfaces for a thread, or let go of them.\<close>

primrec set_ifs :: "nat list \<Rightarrow> if_set \<Rightarrow> tid option \<Rightarrow> tid option list \<Rightarrow> tid option list option" where
  "set_ifs [] iset x ts = Some ts"
| "set_ifs (i # is) iset x ts =
     (if bit iset i then do { ts \<leftarrow> wr ts i x; set_ifs is iset x ts } else set_ifs is iset x ts)"

text \<open>The last loop: the interfaces with packets, each being let go of.\<close>

primrec collect_ifs :: "nat list \<Rightarrow> if_set \<Rightarrow> com \<Rightarrow> if_set \<times> u8 \<Rightarrow> (if_set \<times> u8 \<times> com) option" where
  "collect_ifs [] iset c st = Some (fst st, snd st, c)"
| "collect_ifs (i # is) iset c st =
     (if bit iset i then do {
        p \<leftarrow> rd (cm_if_bufs c) i;
        ts \<leftarrow> wr (cm_if_threads c) i None;
        collect_ifs is iset (c\<lparr>cm_if_threads := ts\<rparr>)
          (if p \<noteq> None then (fst st OR push_bit i 1, snd st + 1) else st)
      } else collect_ifs is iset c st)"

text \<open>The result of a call that returns is its return value and the new \<open>iset\<close>.\<close>

datatype selected = Selected u8 if_set | Select_Suspended

definition com_select ::
    "aid \<Rightarrow> u16 \<Rightarrow> u16 \<Rightarrow> if_set \<Rightarrow> u32 \<Rightarrow> com \<Rightarrow> kernel \<Rightarrow> clock \<Rightarrow> (selected \<times> com \<times> kernel \<times> clock) option" where
  "com_select com_timer callback current iset msec c k cl = do {
     (retval, oset, ifcount) \<leftarrow> scan_ifs [0..<MAX_IFS] iset c (0, 0, 0);
     if retval = SELECT_IFACE_BUSY \<or> retval = IFACE_NOT_REGISTERED then Some (Selected retval iset, c, k, cl)
     else if oset \<noteq> 0 \<or> msec = 0 then Some (Selected ifcount oset, c, k, cl)
     else do {
       x \<leftarrow> k_current k;
       let c = c\<lparr>cm_timed := (cm_timed c)(current := \<lparr>tt_thread_ptr = x, tt_timed_out = False\<rparr>)\<rparr>;
       ts \<leftarrow> set_ifs [0..<8] iset (Some x) (cm_if_threads c);
       cl \<leftarrow> (if msec \<noteq> 0xFFFFFFFF then start_timer com_timer callback current msec cl else Some cl);
       k \<leftarrow> mos_thread_suspend_noints k;
       Some (Select_Suspended, c\<lparr>cm_if_threads := ts\<rparr>, k, cl) } }"

text \<open>A call that suspended has found no packet: \<open>oset\<close> and \<open>ifcount\<close> are zero.\<close>

definition com_select_resumed ::
    "aid \<Rightarrow> u16 \<Rightarrow> if_set \<Rightarrow> u32 \<Rightarrow> com \<Rightarrow> clock \<Rightarrow> (u8 \<times> if_set \<times> com \<times> clock) option" where
  "com_select_resumed com_timer current iset msec c cl =
     (if msec \<noteq> 0xFFFFFFFF \<and> tt_timed_out (cm_timed c current) then do {
        ts \<leftarrow> set_ifs [0..<8] iset None (cm_if_threads c);
        Some (0, 0, c\<lparr>cm_if_threads := ts\<rparr>, cl)
      } else do {
        cl \<leftarrow> (if msec \<noteq> 0xFFFFFFFF then map_option snd (mos_remove_alarm (Some com_timer) cl) else Some cl);
        (oset, ifcount, c) \<leftarrow> collect_ifs [0..<8] iset c (0, 0);
        Some (ifcount, oset, c, cl) })"

text \<open>\<open>com_flush\<close> as a loop that need not end.  Its \<open>com_select\<close> has no time limit to wait for
  (\<open>false\<close> is 0), and \<open>com_recv\<close> is only called on an interface that \<open>iset\<close> still names.\<close>

partial_function (option) com_flush :: "aid \<Rightarrow> u16 \<Rightarrow> u16 \<Rightarrow> u8 \<Rightarrow> com \<Rightarrow> kernel \<Rightarrow> clock \<Rightarrow> (received \<times> com \<times> kernel \<times> clock) option" where
  "com_flush com_timer callback current iface c k cl = do {
     let iset = push_bit (unat iface) 1;
     (r, c, k, cl) \<leftarrow> com_select com_timer callback current iset 0 c k cl;
     case r of
       Select_Suspended \<Rightarrow> Some (Suspended, c, k, cl)
     | Selected n iset \<Rightarrow>
         if bit iset (unat iface) then do {
           (r, c, k) \<leftarrow> com_recv iface c k;
           case r of
             Suspended \<Rightarrow> Some (Suspended, c, k, cl)
           | Received b \<Rightarrow> com_flush com_timer callback current iface (com_free_buf b c) k cl
         } else Some (Received None, c, k, cl) }"

section \<open>The interface of the drivers\<close>

text \<open>The driver passes a full buffer (or NULL) and gets a new one.\<close>

definition wake_receiver :: "u8 \<Rightarrow> com \<Rightarrow> kernel \<Rightarrow> (com \<times> kernel) option" where
  "wake_receiver iface c k = do {
     t \<leftarrow> rd (cm_if_threads c) (unat iface);
     case t of
       None \<Rightarrow> Some (c, k)
     | Some p \<Rightarrow> do {
         ts \<leftarrow> wr (cm_if_threads c) (unat iface) None;
         k \<leftarrow> mos_thread_resume_noints_nodispatch p k;
         Some (c\<lparr>cm_if_threads := ts\<rparr>, k) } }"

definition com_swap_bufs :: "u8 \<Rightarrow> bid option \<Rightarrow> com \<Rightarrow> kernel \<Rightarrow> (bid option \<times> com \<times> kernel) option" where
  "com_swap_bufs iface buf c k =
     (case buf of
        None \<Rightarrow> (case get_free_buf c of (r, c) \<Rightarrow> Some (r, c, k))
      | Some b \<Rightarrow> do {
          c \<leftarrow> save_full_buf iface b c;
          (c, k) \<leftarrow> wake_receiver iface c k;
          case get_free_buf c of (r, c) \<Rightarrow> Some (r, c, k) })"

text \<open>The variant for the dynamic linker (\<open>USING_ELF\<close>): a packet that begins with the four bytes of an
  ELF packet goes to the thread of the linker instead, and \<open>*ret\<close> is not written (the outer
  \<open>None\<close>).\<close>

definition is_elf_packet :: "comBuf \<Rightarrow> bool option" where
  "is_elf_packet buf =
     (if cb_size buf < 4 then Some False else do {
        b \<leftarrow> rd_block (cb_data buf) 0 4;
        Some (b = [65, 75, 85, 95]) })"

definition com_swap_bufs_elf ::
    "tid \<Rightarrow> u8 \<Rightarrow> bid option \<Rightarrow> bid option \<Rightarrow> com \<Rightarrow> kernel \<Rightarrow> (bid option option \<times> bid option \<times> com \<times> kernel) option" where
  "com_swap_bufs_elf elfthread iface buf elfbuf c k =
     (case buf of
        None \<Rightarrow> (case get_free_buf c of (r, c) \<Rightarrow> Some (Some r, elfbuf, c, k))
      | Some b \<Rightarrow> do {
          e \<leftarrow> is_elf_packet (cm_bufs c b);
          if e then do { k \<leftarrow> mos_thread_resume elfthread k; Some (None, buf, c, k) }
          else do {
            c \<leftarrow> save_full_buf iface b c;
            (c, k) \<leftarrow> wake_receiver iface c k;
            case get_free_buf c of (r, c) \<Rightarrow> Some (Some r, elfbuf, c, k) } })"

section \<open>Packing numbers into buffers\<close>

definition buf_insert16 :: "u8 list \<Rightarrow> u16 \<Rightarrow> u16 \<Rightarrow> u8 list option" where
  "buf_insert16 p pos word = do {
     p \<leftarrow> wr p (unat pos) (ucast (word AND 0xFF));
     wr p (unat (pos + 1)) (ucast (drop_bit 8 word AND 0xFF)) }"

definition buf_insert32 :: "u8 list \<Rightarrow> u16 \<Rightarrow> u32 \<Rightarrow> u8 list option" where
  "buf_insert32 p pos dword = do {
     p \<leftarrow> wr p (unat pos) (ucast (dword AND 0xFF));
     p \<leftarrow> wr p (unat (pos + 1)) (ucast (drop_bit 8 dword AND 0xFF));
     p \<leftarrow> wr p (unat (pos + 2)) (ucast (drop_bit 16 dword AND 0xFF));
     wr p (unat (pos + 3)) (ucast (drop_bit 24 dword AND 0xFF)) }"

definition buf_extract16 :: "u8 list \<Rightarrow> u16 \<Rightarrow> u16 option" where
  "buf_extract16 p pos = do {
     a \<leftarrow> rd p (unat pos);
     b \<leftarrow> rd p (unat (pos + 1));
     Some (ucast a OR push_bit 8 (ucast b)) }"

definition buf_extract32 :: "u8 list \<Rightarrow> u16 \<Rightarrow> u32 option" where
  "buf_extract32 p pos = do {
     a \<leftarrow> rd p (unat pos);
     b \<leftarrow> rd p (unat (pos + 1));
     c \<leftarrow> rd p (unat (pos + 2));
     d \<leftarrow> rd p (unat (pos + 3));
     Some (ucast a OR push_bit 8 (ucast b) OR push_bit 16 (ucast c) OR push_bit 24 (ucast d)) }"

section \<open>The loopback interface\<close>

record loopback =
  lb_managed :: "bid option"
  lb_recv_sem :: mos_sem
  lb_send_sem :: mos_sem

definition com_loopback_init :: "com \<Rightarrow> kernel \<Rightarrow> (loopback \<times> com \<times> kernel) option" where
  "com_loopback_init c k = do {
     (r, c, k) \<leftarrow> com_swap_bufs IFACE_LOOPBACK None c k;
     Some (\<lparr>lb_managed = r, lb_recv_sem = mos_sem_init 0, lb_send_sem = mos_sem_init 0\<rparr>, c, k) }"

text \<open>Copying a packet into the driver's buffer: \<open>size\<close> bytes, unchecked.\<close>

definition fill_managed :: "bid option \<Rightarrow> bid \<Rightarrow> com \<Rightarrow> com option" where
  "fill_managed managed buf c =
     (case managed of
        None \<Rightarrow> Some c
      | Some m \<Rightarrow> do {
          bs \<leftarrow> rd_block (cb_data (cm_bufs c buf)) 0 (unat (cb_size (cm_bufs c buf)));
          d \<leftarrow> wr_block (cb_data (cm_bufs c m)) 0 bs;
          Some (c\<lparr>cm_bufs := (cm_bufs c)(m := (cm_bufs c m)
            \<lparr>cb_data := d, cb_size := cb_size (cm_bufs c buf)\<rparr>)\<rparr>) })"

text \<open>\<open>com_send_IFACE_LOOPBACK\<close> from the point where it holds the send mutex of the interface.  The wait
  on \<open>send_sem\<close> follows a post and does not block; unlocking may hand the mutex to a waiting thread.\<close>

definition loopback_send :: "bid \<Rightarrow> loopback \<Rightarrow> com \<Rightarrow> kernel \<Rightarrow> (u8 \<times> loopback \<times> com \<times> kernel) option" where
  "loopback_send buf l c k = do {
     c \<leftarrow> fill_managed (lb_managed l) buf c;
     (r, c, k) \<leftarrow> com_swap_bufs IFACE_LOOPBACK (lb_managed l) c k;
     (s, k) \<leftarrow> mos_sem_post (lb_send_sem l) k;
     (s, k) \<leftarrow> mos_sem_wait s k;
     mt \<leftarrow> rd (cm_send_mutexes c) (unat IFACE_LOOPBACK);
     (mt, k) \<leftarrow> mos_mutex_unlock mt k;
     Some (0, l\<lparr>lb_managed := r, lb_send_sem := s\<rparr>,
       c\<lparr>cm_send_mutexes := (cm_send_mutexes c)[unat IFACE_LOOPBACK := mt]\<rparr>, k) }"

text \<open>The whole call, or \<open>None\<close> in the first place when it has to wait for the mutex.\<close>

definition com_send_IFACE_LOOPBACK ::
    "bid \<Rightarrow> loopback \<Rightarrow> com \<Rightarrow> kernel \<Rightarrow> (u8 option \<times> loopback \<times> com \<times> kernel) option" where
  "com_send_IFACE_LOOPBACK buf l c k = do {
     mt \<leftarrow> rd (cm_send_mutexes c) (unat IFACE_LOOPBACK);
     (mt', k) \<leftarrow> mos_mutex_lock mt k;
     let c = c\<lparr>cm_send_mutexes := (cm_send_mutexes c)[unat IFACE_LOOPBACK := mt']\<rparr>;
     if mt_owner mt \<noteq> None then Some (None, l, c, k) else do {
       (r, l, c, k) \<leftarrow> loopback_send buf l c k;
       Some (Some r, l, c, k) } }"

end
