(* ===== verification/Com_Buffers.thy ===== *)
theory Com_Buffers
  imports Com_Layer
begin

text \<open>
  Who has which packet buffer.  The free list and the seven lists of received packets are eight
  disjoint lists; every operation moves buffers between them and the threads and drivers that own
  the rest of the pool.
\<close>

section \<open>The eight lists\<close>

definition head_of :: "com \<Rightarrow> nat \<Rightarrow> bid option" where
  "head_of c i = (if i = 0 then cm_free c else cm_if_bufs c ! (i - 1))"

abbreviation bnext :: "com \<Rightarrow> bid \<Rightarrow> bid option" where
  "bnext c b \<equiv> cb_next (cm_bufs c b)"

definition lists_ok :: "com \<Rightarrow> (nat \<Rightarrow> bid list) \<Rightarrow> bool" where
  "lists_ok c L \<longleftrightarrow> length (cm_if_bufs c) = MAX_IFS \<and> length (cm_if_threads c) = MAX_IFS \<and>
     (\<forall>i \<le> MAX_IFS. chain (bnext c) (head_of c i) (L i) \<and> distinct (L i)) \<and>
     (\<forall>i \<le> MAX_IFS. \<forall>j \<le> MAX_IFS. i \<noteq> j \<longrightarrow> set (L i) \<inter> set (L j) = {})"

definition listed :: "(nat \<Rightarrow> bid list) \<Rightarrow> bid set" where
  "listed L = (\<Union>i \<le> MAX_IFS. set (L i))"

lemma lists_okI:
  assumes "length (cm_if_bufs c) = MAX_IFS" and "length (cm_if_threads c) = MAX_IFS"
    and "\<And>i. i \<le> MAX_IFS \<Longrightarrow> chain (bnext c) (head_of c i) (L i)" and "\<And>i. i \<le> MAX_IFS \<Longrightarrow> distinct (L i)"
    and "\<And>i j x. i \<le> MAX_IFS \<Longrightarrow> j \<le> MAX_IFS \<Longrightarrow> i \<noteq> j \<Longrightarrow> x \<in> set (L i) \<Longrightarrow> x \<notin> set (L j)"
  shows "lists_ok c L"
  unfolding lists_ok_def disjoint_iff using assms by blast

lemma lists_okD:
  assumes "lists_ok c L"
  shows "length (cm_if_bufs c) = MAX_IFS" and "length (cm_if_threads c) = MAX_IFS"
    and "i \<le> MAX_IFS \<Longrightarrow> chain (bnext c) (head_of c i) (L i)" and "i \<le> MAX_IFS \<Longrightarrow> distinct (L i)"
    and "i \<le> MAX_IFS \<Longrightarrow> j \<le> MAX_IFS \<Longrightarrow> i \<noteq> j \<Longrightarrow> x \<in> set (L i) \<Longrightarrow> x \<notin> set (L j)"
  using assms by (auto simp: lists_ok_def)

lemma listed_member: "b \<in> listed L \<longleftrightarrow> (\<exists>i \<le> MAX_IFS. b \<in> set (L i))"
  by (auto simp: listed_def)

lemma listed_upd: "i \<le> MAX_IFS \<Longrightarrow> b \<in> listed (L(i := xs)) \<longleftrightarrow> b \<in> set xs \<or> (\<exists>j \<le> MAX_IFS. j \<noteq> i \<and> b \<in> set (L j))"
  by (auto simp: listed_member split: if_split_asm)

lemma listed_split: "i \<le> MAX_IFS \<Longrightarrow> b \<in> listed L \<longleftrightarrow> b \<in> set (L i) \<or> (\<exists>j \<le> MAX_IFS. j \<noteq> i \<and> b \<in> set (L j))"
  using listed_upd [of i b L "L i"] by simp

text \<open>Taking the first buffer of a list.\<close>

lemma lists_pop:
  assumes c: "lists_ok c L" and i: "i \<le> MAX_IFS" "L i = b # xs"
    and c': "cm_bufs c' = cm_bufs c" "head_of c' = (head_of c)(i := bnext c b)"
      "length (cm_if_bufs c') = MAX_IFS" "length (cm_if_threads c') = MAX_IFS"
  shows "lists_ok c' (L(i := xs))" and "head_of c i = Some b" and "b \<notin> listed (L(i := xs))"
    and "listed L = insert b (listed (L(i := xs)))"
proof -
  note d = lists_okD [OF c]
  have ch: "head_of c i = Some b" "chain (bnext c) (bnext c b) xs" using d(3) [OF i(1)] i(2) by simp_all
  have b: "b \<notin> set xs" "distinct xs" using d(4) [OF i(1)] i(2) by simp_all
  have o: "b \<notin> set (L j)" if "j \<le> MAX_IFS" "j \<noteq> i" for j using d(5) [OF i(1) that(1)] that(2) i(2) by auto
  show "lists_ok c' (L(i := xs))"
  proof (rule lists_okI)
    fix j assume j: "j \<le> MAX_IFS"
    show "chain (bnext c') (head_of c' j) ((L(i := xs)) j)"
      using ch(2) d(3) [OF j] by (simp add: c')
    show "distinct ((L(i := xs)) j)" using b(2) d(4) [OF j] by simp
    fix k x assume "k \<le> MAX_IFS" "j \<noteq> k" "x \<in> set ((L(i := xs)) j)"
    then show "x \<notin> set ((L(i := xs)) k)" using d(5) [of j k x] d(5) [of k j x] j i by (auto split: if_splits)
  qed (simp_all add: c')
  show "head_of c i = Some b" by (rule ch(1))
  show "b \<notin> listed (L(i := xs))" using b(1) o by (auto simp: listed_upd [OF i(1)])
  show "listed L = insert b (listed (L(i := xs)))"
    using i by (auto simp: listed_upd listed_split [OF i(1), of _ L])
qed

text \<open>Putting a buffer that is in no list in front of a list or at its end.\<close>

lemma lists_put:
  assumes c: "lists_ok c L" and i: "i \<le> MAX_IFS" and b: "b \<notin> listed L"
    and ys: "distinct ys" "set ys = insert b (set (L i))" "chain (bnext c') (head_of c' i) ys"
    and o: "\<And>j x. j \<le> MAX_IFS \<Longrightarrow> j \<noteq> i \<Longrightarrow> x \<in> set (L j) \<Longrightarrow> bnext c' x = bnext c x"
      "\<And>j. j \<noteq> i \<Longrightarrow> head_of c' j = head_of c j"
      "length (cm_if_bufs c') = MAX_IFS" "length (cm_if_threads c') = MAX_IFS"
  shows "lists_ok c' (L(i := ys))" and "listed (L(i := ys)) = insert b (listed L)"
proof -
  note d = lists_okD [OF c]
  have nb: "b \<notin> set (L j)" if "j \<le> MAX_IFS" for j using b that by (auto simp: listed_member)
  show "lists_ok c' (L(i := ys))"
  proof (rule lists_okI)
    fix j assume j: "j \<le> MAX_IFS"
    show "chain (bnext c') (head_of c' j) ((L(i := ys)) j)"
    proof (cases "j = i")
      case False
      have "chain (bnext c') (head_of c j) (L j) = chain (bnext c) (head_of c j) (L j)"
        using o(1) [OF j False] by (rule chain_frame)
      then show ?thesis using d(3) [OF j] False o(2) by simp
    qed (simp add: ys(3))
    show "distinct ((L(i := ys)) j)" using ys(1) d(4) [OF j] by simp
    fix k x assume "k \<le> MAX_IFS" "j \<noteq> k" "x \<in> set ((L(i := ys)) j)"
    then show "x \<notin> set ((L(i := ys)) k)"
      using d(5) [of j k x] d(5) [of k j x] j i nb ys(2) by (auto split: if_splits)
  qed (use o in simp_all)
  show "listed (L(i := ys)) = insert b (listed L)"
    using ys(2) by (auto simp: listed_upd [OF i] listed_split [OF i, of _ L])
qed

lemma bnext_set: "bnext (set_cnext b n c) x = (if x = b then n else bnext c x)"
  by simp

section \<open>The operations on the lists\<close>

lemma head_of_free: "head_of (c\<lparr>cm_free := p\<rparr>) = (head_of c)(0 := p)"
  by (rule ext) (simp add: head_of_def)

lemma head_of_if: "i < length (cm_if_bufs c) \<Longrightarrow> head_of (c\<lparr>cm_if_bufs := (cm_if_bufs c)[i := p]\<rparr>) = (head_of c)(Suc i := p)"
  by (rule ext) (auto simp: head_of_def)

lemma head_of_threads [simp]: "head_of (c\<lparr>cm_if_threads := ts\<rparr>) = head_of c"
  by (rule ext) (simp add: head_of_def)

lemma head_of_bufs [simp]: "head_of (c\<lparr>cm_bufs := h\<rparr>) = head_of c"
  by (rule ext) (simp add: head_of_def)

lemma lists_ok_threads: "lists_ok c L \<Longrightarrow> length ts = MAX_IFS \<Longrightarrow> lists_ok (c\<lparr>cm_if_threads := ts\<rparr>) L"
  by (simp add: lists_ok_def)

lemma get_free_none: "lists_ok c L \<Longrightarrow> L 0 = [] \<Longrightarrow> get_free_buf c = (None, c)"
  using lists_okD(3) [of c L 0] by (simp add: get_free_buf_def head_of_def)

lemma get_free_some:
  assumes "lists_ok c L" and "L 0 = b # xs"
  shows "\<exists>c'. get_free_buf c = (Some b, c') \<and> lists_ok c' (L(0 := xs)) \<and> cm_bufs c' = cm_bufs c \<and>
    cm_if_threads c' = cm_if_threads c \<and> b \<notin> listed (L(0 := xs)) \<and> listed L = insert b (listed (L(0 := xs)))"
proof -
  let ?c = "c\<lparr>cm_free := bnext c b\<rparr>"
  have p: "lists_ok ?c (L(0 := xs))" "head_of c 0 = Some b" "b \<notin> listed (L(0 := xs))" "listed L = insert b (listed (L(0 := xs)))"
    using lists_pop [OF assms(1) _ assms(2), of ?c] lists_okD(1,2) [OF assms(1)] by (simp_all add: head_of_free)
  then show ?thesis by (intro exI [of _ ?c]) (simp add: get_free_buf_def head_of_def)
qed

lemma com_free_buf_ok:
  assumes c: "lists_ok c L" and b: "b \<notin> listed L"
  shows "lists_ok (com_free_buf (Some b) c) (L(0 := b # L 0))" and "listed (L(0 := b # L 0)) = insert b (listed L)"
proof -
  note d = lists_okD [OF c]
  have nb: "b \<notin> set (L j)" if "j \<le> MAX_IFS" for j using b that by (auto simp: listed_member)
  let ?c = "com_free_buf (Some b) c"
  have h: "head_of ?c j = (if j = 0 then Some b else head_of c j)" for j by (simp add: com_free_buf_def head_of_def)
  have "chain (bnext ?c) (bnext ?c b) (L 0) = chain (bnext c) (bnext ?c b) (L 0)"
    using nb [of 0] by (intro chain_frame) (auto simp: com_free_buf_def)
  then have ch: "chain (bnext ?c) (head_of ?c 0) (b # L 0)"
    using d(3) [of 0] by (simp add: h) (simp add: com_free_buf_def head_of_def)
  have o: "bnext ?c x = bnext c x" if "j \<le> MAX_IFS" "x \<in> set (L j)" for j x
    using nb [OF that(1)] that(2) by (auto simp: com_free_buf_def)
  show "lists_ok ?c (L(0 := b # L 0))" "listed (L(0 := b # L 0)) = insert b (listed L)"
    by (rule lists_put [OF c _ b _ _ ch]; use d(1,2) d(4) [of 0] nb [of 0] o h in \<open>simp add: com_free_buf_def\<close>)+
qed


text \<open>Nothing but the links of the buffers changes.\<close>

definition same_packets :: "com \<Rightarrow> com \<Rightarrow> bool" where
  "same_packets c c' \<longleftrightarrow> (\<forall>x. (cm_bufs c' x)\<lparr>cb_next := None\<rparr> = (cm_bufs c x)\<lparr>cb_next := None\<rparr>)"

lemma same_packets_refl: "same_packets c c"
  by (simp add: same_packets_def)

lemma same_packets_trans: "same_packets c d \<Longrightarrow> same_packets d e \<Longrightarrow> same_packets c e"
  by (simp add: same_packets_def)

lemma same_packetsD:
  assumes "same_packets c c'"
  shows "cb_data (cm_bufs c' x) = cb_data (cm_bufs c x)" and "cb_size (cm_bufs c' x) = cb_size (cm_bufs c x)"
proof -
  have e: "(cm_bufs c' x)\<lparr>cb_next := None\<rparr> = (cm_bufs c x)\<lparr>cb_next := None\<rparr>" using assms by (simp add: same_packets_def)
  show "cb_data (cm_bufs c' x) = cb_data (cm_bufs c x)" using arg_cong [OF e, of cb_data] by simp
  show "cb_size (cm_bufs c' x) = cb_size (cm_bufs c x)" using arg_cong [OF e, of cb_size] by simp
qed

lemma last_buf_chain: "chain (\<lambda>x. cb_next (h x)) (Some b) (xs @ [l]) \<Longrightarrow> last_buf h b = Some l"
proof (induction xs arbitrary: b)
  case Nil
  then show ?case by (subst last_buf.simps) simp
next
  case (Cons x xs)
  then obtain y where "cb_next (h x) = Some y" by (cases xs) auto
  with Cons show ?case by (subst last_buf.simps) simp
qed

lemma save_full_ok:
  assumes c: "lists_ok c L" and f: "unat iface < MAX_IFS" and b: "b \<notin> listed L"
  defines "L' \<equiv> L(Suc (unat iface) := L (Suc (unat iface)) @ [b])"
  shows "\<exists>c'. save_full_buf iface b c = Some c' \<and> lists_ok c' L' \<and> listed L' = insert b (listed L) \<and>
    cm_if_threads c' = cm_if_threads c \<and> same_packets c c'"
proof -
  let ?i = "Suc (unat iface)"
  have i: "?i \<le> MAX_IFS" using f by simp
  note d = lists_okD [OF c]
  have nb: "b \<notin> set (L j)" if "j \<le> MAX_IFS" for j using b that by (auto simp: listed_member)
  have len: "unat iface < length (cm_if_bufs c)" using d(1) f by simp
  have hd: "head_of c ?i = cm_if_bufs c ! unat iface" by (simp add: head_of_def)
  let ?d = "set_cnext b None c"
  have nx0: "bnext ?d x = bnext c x" if "j \<le> MAX_IFS" "x \<in> set (L j)" for j x
    using nb [OF that(1)] that(2) by auto
  have d4: "distinct (L ?i @ [b])" using d(4) [OF i] nb [OF i] by simp
  show ?thesis
  proof (cases "L ?i" rule: rev_cases)
    case Nil
    let ?c = "?d\<lparr>cm_if_bufs := (cm_if_bufs c)[unat iface := Some b]\<rparr>"
    have s: "save_full_buf iface b c = Some ?c"
      using Nil d(3) [OF i] len by (simp add: save_full_buf_def hd)
    have h: "head_of ?c = (head_of c)(?i := Some b)"
      by (rule ext) (auto simp: head_of_def len)
    have ho: "head_of ?c j = (if j = ?i then Some b else head_of c j)" for j unfolding h by simp
    have ch': "chain (bnext ?c) (head_of ?c ?i) (L ?i @ [b])" unfolding ho using Nil by simp
    have o: "bnext ?c x = bnext c x" if "j \<le> MAX_IFS" "x \<in> set (L j)" for j x using nx0 [OF that] by simp
    have o2: "head_of ?c j = head_of c j" if "j \<noteq> ?i" for j unfolding ho using that by simp
    have l: "lists_ok ?c L'" "listed L' = insert b (listed L)" unfolding L'_def
      by (rule lists_put [OF c i b d4 _ ch' o o2]; use Nil d(1,2) in \<open>simp\<close>)+
    have "same_packets c ?c" by (simp add: same_packets_def)
    with s l show ?thesis by simp
  next
    case (snoc xs l)
    obtain p where p: "head_of c ?i = Some p" using d(3) [OF i] snoc by (cases xs) auto
    have ch: "chain (bnext c) (Some p) (xs @ [l])" using d(3) [OF i] p snoc by simp
    have "chain (bnext ?d) (Some p) (xs @ [l]) = chain (bnext c) (Some p) (xs @ [l])"
      by (rule chain_frame, rule nx0 [OF i]) (simp add: snoc)
    then have "last_buf (cm_bufs ?d) p = Some l" using ch by (intro last_buf_chain [where xs = xs]) simp
    let ?c = "set_cnext l (Some b) ?d"
    have s: "save_full_buf iface b c = Some ?c"
      using p len \<open>last_buf (cm_bufs ?d) p = Some l\<close> by (simp add: save_full_buf_def hd)
    have lb: "l \<noteq> b" "l \<in> set (L ?i)" using snoc nb [OF i] by auto
    have hd': "head_of ?c = head_of c" by (rule ext) (simp add: head_of_def)
    have "chain (bnext ?c) (Some p) ((xs @ [l]) @ b # [])"
      by (rule chain_insertI [where n = "bnext c"]; use ch d4 lb snoc nx0 [OF i] in \<open>simp\<close>)
    then have ch': "chain (bnext ?c) (head_of ?c ?i) (L ?i @ [b])" using p snoc hd' by simp
    have o: "bnext ?c x = bnext c x" if "j \<le> MAX_IFS" "j \<noteq> ?i" "x \<in> set (L j)" for j x
    proof -
      have "x \<noteq> l" using d(5) [OF that(1) i that(2,3)] lb(2) by auto
      then show ?thesis using nx0 [OF that(1,3)] by simp
    qed
    have l: "lists_ok ?c L'" "listed L' = insert b (listed L)" unfolding L'_def
      by (rule lists_put [OF c i b d4 _ ch']; use o hd' d(1,2) in \<open>simp\<close>)+
    have "same_packets c ?c" using lb(1) by (simp add: same_packets_def)
    with s l show ?thesis by simp
  qed
qed

lemma shift_ok:
  assumes c: "lists_ok c L" and f: "unat iface < MAX_IFS" and L: "L (Suc (unat iface)) = b # xs"
  defines "L' \<equiv> L(Suc (unat iface) := xs)"
  shows "\<exists>c'. shift_buf iface c = Some (b, c') \<and> lists_ok c' L' \<and> b \<notin> listed L' \<and>
    listed L = insert b (listed L') \<and> cm_if_threads c' = cm_if_threads c \<and> cm_bufs c' = cm_bufs c"
proof -
  have i: "Suc (unat iface) \<le> MAX_IFS" using f by simp
  have len: "unat iface < length (cm_if_bufs c)" using lists_okD(1) [OF c] f by simp
  let ?c = "c\<lparr>cm_if_bufs := (cm_if_bufs c)[unat iface := bnext c b]\<rparr>"
  have "lists_ok ?c L'" "head_of c (Suc (unat iface)) = Some b" "b \<notin> listed L'" "listed L = insert b (listed L')"
    unfolding L'_def using lists_pop [OF c i L, of ?c] lists_okD(1,2) [OF c] len by (simp_all add: head_of_if)
  then show ?thesis using len by (intro exI [of _ ?c]) (simp add: shift_buf_def head_of_def)
qed

lemma shift_none:
  assumes "lists_ok c L" and "unat iface < MAX_IFS" and "L (Suc (unat iface)) = []"
  shows "cm_if_bufs c ! unat iface = None" and "shift_buf iface c = None"
proof -
  have "unat iface < length (cm_if_bufs c)" using lists_okD(1) [OF assms(1)] assms(2) by simp
  moreover show "cm_if_bufs c ! unat iface = None"
    using lists_okD(3) [OF assms(1), of "Suc (unat iface)"] assms(2,3) by (simp add: head_of_def)
  ultimately show "shift_buf iface c = None" by (simp add: shift_buf_def)
qed

lemma if_bufs_head:
  assumes "lists_ok c L" and "unat iface < MAX_IFS"
  shows "cm_if_bufs c ! unat iface = headp (L (Suc (unat iface)))"
  using chain_headp [OF lists_okD(3) [OF assms(1), of "Suc (unat iface)"]] assms(2) by (simp add: head_of_def)

end
