(* ===== verification/Com_Properties.thy ===== *)
theory Com_Properties
  imports Com_Buffers Sched_Properties
begin

text \<open>
  The properties of the communication layer: no packet buffer is lost or has two owners, a packet
  reaches the thread that waits for it, and what happens when two threads use one interface.
\<close>

section \<open>Who owns the buffers\<close>

text \<open>The pool \<open>P\<close> is split between the lists of the layer and the owned buffers \<open>O\<close>.\<close>

definition owned_apart :: "bid set \<Rightarrow> com \<Rightarrow> bid set \<Rightarrow> bool" where
  "owned_apart P c ow \<longleftrightarrow> (\<exists>L. lists_ok c L \<and> listed L \<inter> ow = {} \<and> listed L \<union> ow = P)"

lemma owned_apartI: "lists_ok c L \<Longrightarrow> listed L \<inter> ow = {} \<Longrightarrow> listed L \<union> ow = P \<Longrightarrow> owned_apart P c ow"
  by (auto simp: owned_apart_def)

lemma owned_apartE:
  assumes "owned_apart P c ow"
  obtains L where "lists_ok c L" and "listed L \<inter> ow = {}" and "listed L \<union> ow = P"
  using assms by (auto simp: owned_apart_def)

text \<open>The lists themselves are as they were.\<close>

definition same_lists :: "com \<Rightarrow> com \<Rightarrow> bool" where
  "same_lists c c' \<longleftrightarrow> head_of c' = head_of c \<and> bnext c' = bnext c \<and> length (cm_if_bufs c') = length (cm_if_bufs c) \<and>
     length (cm_if_threads c') = length (cm_if_threads c)"

lemma same_lists_refl: "same_lists c c"
  by (simp add: same_lists_def)

lemma same_lists_trans: "same_lists c d \<Longrightarrow> same_lists d e \<Longrightarrow> same_lists c e"
  by (simp add: same_lists_def)

lemma same_lists_ok: "same_lists c c' \<Longrightarrow> lists_ok c L \<Longrightarrow> lists_ok c' L"
  by (simp add: same_lists_def lists_ok_def fun_eq_iff)

lemma same_lists_owned: "same_lists c c' \<Longrightarrow> owned_apart P c ow \<Longrightarrow> owned_apart P c' ow"
  using same_lists_ok by (auto simp: owned_apart_def)

lemma same_lists_threads: "length ts = length (cm_if_threads c) \<Longrightarrow> same_lists c (c\<lparr>cm_if_threads := ts\<rparr>)"
  by (simp add: same_lists_def)

lemma head_of_timed [simp]: "head_of (c\<lparr>cm_timed := t\<rparr>) = head_of c"
  by (rule ext) (simp add: head_of_def)

lemma same_lists_timed: "same_lists c (c\<lparr>cm_timed := t\<rparr>)"
  by (simp add: same_lists_def)

lemma wr_same_lists: "wr (cm_if_threads c) i x = Some ts \<Longrightarrow> same_lists c (c\<lparr>cm_if_threads := ts\<rparr>)"
  by (intro same_lists_threads) (auto simp: wr_eq_Some_iff)

lemma set_ifs_length: "set_ifs is iset x ts = Some ts' \<Longrightarrow> length ts' = length ts"
  by (induction "is" arbitrary: ts) (auto simp: wr_eq_Some_iff split: if_splits Option.bind_splits)

lemma collect_ifs_same: "collect_ifs is iset c st = Some (r, n, c') \<Longrightarrow> same_lists c c'"
proof (induction "is" arbitrary: c st)
  case (Cons i "is")
  show ?case
  proof (cases "bit iset i")
    case True
    with Cons.prems obtain ts st' where "wr (cm_if_threads c) i None = Some ts"
      "collect_ifs is iset (c\<lparr>cm_if_threads := ts\<rparr>) st' = Some (r, n, c')"
      by (auto split: Option.bind_splits)
    then show ?thesis using same_lists_trans [OF wr_same_lists Cons.IH] by blast
  next
    case False
    then show ?thesis using Cons by simp
  qed
qed (simp add: same_lists_refl)

lemma wake_receiver_same:
  assumes "wake_receiver iface c k = Some (c', k')"
  shows "same_lists c c'" and "cm_bufs c' = cm_bufs c"
proof -
  from assms have "c' = c \<or> (\<exists>ts. wr (cm_if_threads c) (unat iface) None = Some ts \<and> c' = c\<lparr>cm_if_threads := ts\<rparr>)"
    by (auto simp: wake_receiver_def split: option.splits Option.bind_splits)
  then consider "c' = c" | ts where "wr (cm_if_threads c) (unat iface) None = Some ts" "c' = c\<lparr>cm_if_threads := ts\<rparr>" by blast
  then have "same_lists c c' \<and> cm_bufs c' = cm_bufs c"
  proof cases
    case 1
    then show ?thesis by (simp add: same_lists_refl)
  next
    case 2
    then show ?thesis using wr_same_lists by simp
  qed
  then show "same_lists c c'" "cm_bufs c' = cm_bufs c" by simp_all
qed

section \<open>What each operation does to the owners\<close>

lemma rd_bound: "rd xs i = Some v \<Longrightarrow> i < length xs"
  by (simp add: rd_eq_Some_iff)

lemma owned_shift:
  assumes o: "owned_apart P c ow" and s: "shift_buf iface c = Some (b, c')"
  shows "owned_apart P c' (insert b ow)" and "b \<notin> ow" and "b \<in> P" and "cm_if_threads c' = cm_if_threads c"
    and "cm_bufs c' = cm_bufs c"
proof -
  from o obtain L where L: "lists_ok c L" "listed L \<inter> ow = {}" "listed L \<union> ow = P" by (rule owned_apartE)
  from s have f: "unat iface < MAX_IFS"
    using lists_okD(1) [OF L(1)] by (auto simp: shift_buf_def rd_eq_Some_iff split: Option.bind_splits)
  obtain x xs where Lx: "L (Suc (unat iface)) = x # xs"
    using shift_none(2) [OF L(1) f] s by (cases "L (Suc (unat iface))") auto
  from shift_ok [OF L(1) f Lx] s obtain
    r: "b = x" "lists_ok c' (L(Suc (unat iface) := xs))" "b \<notin> listed (L(Suc (unat iface) := xs))"
      "listed L = insert b (listed (L(Suc (unat iface) := xs)))"
      "cm_if_threads c' = cm_if_threads c" "cm_bufs c' = cm_bufs c" by auto
  show "owned_apart P c' (insert b ow)" using L(2,3) r by (intro owned_apartI [OF r(2)]) auto
  show "b \<notin> ow" "b \<in> P" using L(2,3) r(4) by auto
  show "cm_if_threads c' = cm_if_threads c" "cm_bufs c' = cm_bufs c" by (rule r(5), rule r(6))
qed

lemma owned_recv_resumed:
  assumes "owned_apart P c ow" and "com_recv_resumed iface c = Some (r, c')"
  shows "owned_apart P c' (set_option r \<union> ow)" and "set_option r \<inter> ow = {}"
proof -
  from assms(2) obtain b d ts where s: "shift_buf iface c = Some (b, d)" "wr (cm_if_threads d) (unat iface) None = Some ts"
      "r = Some b" "c' = d\<lparr>cm_if_threads := ts\<rparr>"
    by (auto simp: com_recv_resumed_def split: Option.bind_splits)
  note q = owned_shift [OF assms(1) s(1)]
  show "owned_apart P c' (set_option r \<union> ow)"
    using same_lists_owned [OF wr_same_lists [OF s(2)] q(1)] s(3,4) by simp
  show "set_option r \<inter> ow = {}" using q(2) s(3) by simp
qed

lemma owned_recv_noblock:
  assumes o: "owned_apart P c ow" and s: "com_recv_noblock iface c = Some (r, c')"
  shows "owned_apart P c' (set_option r \<union> ow)" and "set_option r \<inter> ow = {}"
proof -
  from s have "(r = None \<and> c' = c) \<or> (\<exists>b. shift_buf iface c = Some (b, c') \<and> r = Some b)"
    unfolding com_recv_noblock_def
    by (cases "rd (cm_if_threads c) (unat iface)"; cases "rd (cm_if_bufs c) (unat iface)"; cases "shift_buf iface c")
      (auto split: if_split_asm)
  then consider (none) "r = None" "c' = c" | (got) b where "shift_buf iface c = Some (b, c')" "r = Some b" by blast
  then have "owned_apart P c' (set_option r \<union> ow) \<and> set_option r \<inter> ow = {}"
  proof cases
    case got
    then show ?thesis using owned_shift(1,2) [OF o got(1)] by simp
  qed (use o in simp)
  then show "owned_apart P c' (set_option r \<union> ow)" "set_option r \<inter> ow = {}" by simp_all
qed

fun taken :: "received \<Rightarrow> bid set" where
  "taken (Received r) = set_option r"
| "taken Suspended = {}"

lemma owned_recv:
  assumes o: "owned_apart P c ow" and s: "com_recv iface c k = Some (r, c', k')"
  shows "owned_apart P c' (taken r \<union> ow)" and "taken r \<inter> ow = {}"
proof -
  from s have "(r = Received None \<and> c' = c) \<or>
      (\<exists>ts. wr (cm_if_threads c) (unat iface) (k_current k) = Some ts \<and> r = Suspended \<and> c' = c\<lparr>cm_if_threads := ts\<rparr>) \<or>
      (\<exists>b. com_recv_resumed iface c = Some (b, c') \<and> r = Received b)"
    unfolding com_recv_def
    by (cases "rd (cm_if_threads c) (unat iface)"; cases "rd (cm_if_bufs c) (unat iface)"; cases "com_recv_resumed iface c";
        cases "wr (cm_if_threads c) (unat iface) (k_current k)"; cases "mos_thread_suspend_noints k")
      (auto split: if_split_asm)
  then consider (busy) "r = Received None" "c' = c"
    | (wait) ts where "wr (cm_if_threads c) (unat iface) (k_current k) = Some ts" "r = Suspended" "c' = c\<lparr>cm_if_threads := ts\<rparr>"
    | (got) b where "com_recv_resumed iface c = Some (b, c')" "r = Received b" by blast
  then have "owned_apart P c' (taken r \<union> ow) \<and> taken r \<inter> ow = {}"
  proof cases
    case wait
    then show ?thesis using same_lists_owned [OF wr_same_lists o] by simp
  next
    case got
    then show ?thesis using owned_recv_resumed [OF o got(1)] by simp
  qed (use o in simp)
  then show "owned_apart P c' (taken r \<union> ow)" "taken r \<inter> ow = {}" by simp_all
qed

lemma owned_timed_resumed:
  assumes o: "owned_apart P c ow" and s: "timed_resumed timer en current iface c cl = Some (r, c', cl')"
  shows "owned_apart P c' (set_option r \<union> ow)" and "set_option r \<inter> ow = {}"
proof -
  from s have "(\<exists>ts. wr (cm_if_threads c) (unat iface) None = Some ts \<and> r = None \<and> c' = c\<lparr>cm_if_threads := ts\<rparr>) \<or>
      com_recv_resumed iface c = Some (r, c')"
    unfolding timed_resumed_def
    by (cases "rd (cm_if_bufs c) (unat iface)"; cases "com_recv_resumed iface c"; cases "wr (cm_if_threads c) (unat iface) None";
        cases "mos_remove_alarm (Some timer) cl")
      (auto split: if_split_asm)
  then consider (none) ts where "wr (cm_if_threads c) (unat iface) None = Some ts" "r = None" "c' = c\<lparr>cm_if_threads := ts\<rparr>"
    | (got) "com_recv_resumed iface c = Some (r, c')" by blast
  then have "owned_apart P c' (set_option r \<union> ow) \<and> set_option r \<inter> ow = {}"
  proof cases
    case none
    then show ?thesis using same_lists_owned [OF wr_same_lists o] by simp
  next
    case got
    then show ?thesis using owned_recv_resumed [OF o got] by simp
  qed
  then show "owned_apart P c' (set_option r \<union> ow)" "set_option r \<inter> ow = {}" by simp_all
qed

lemma owned_recv_timed:
  assumes o: "owned_apart P c ow" and s: "com_recv_timed timer cb current iface msecs c k cl = Some (r, c', k', cl')"
  shows "owned_apart P c' (taken r \<union> ow)" and "taken r \<inter> ow = {}"
proof -
  from s obtain x where x: "k_current k = Some x" by (auto simp: com_recv_timed_def split: Option.bind_splits)
  define t where "t = (cm_timed c)(current := \<lparr>tt_thread_ptr = x, tt_timed_out = False\<rparr>)"
  have o1: "owned_apart P (c\<lparr>cm_timed := t\<rparr>) ow" by (rule same_lists_owned [OF same_lists_timed o])
  from s have
    "(r = Received None \<and> c' = c\<lparr>cm_timed := t\<rparr>) \<or>
     (\<exists>x ts. wr (cm_if_threads c) (unat iface) x = Some ts \<and> r = Suspended \<and> c' = c\<lparr>cm_timed := t, cm_if_threads := ts\<rparr>) \<or>
     (\<exists>b cl1. timed_resumed timer False current iface (c\<lparr>cm_timed := t\<rparr>) cl = Some (b, c', cl1) \<and> r = Received b)"
    unfolding com_recv_timed_def x Let_def bind.bind_lunit t_def [symmetric]
    by (cases "rd (cm_if_threads c) (unat iface)"; cases "rd (cm_if_bufs c) (unat iface)"; cases "start_timer timer cb current msecs cl";
        cases "wr (cm_if_threads c) (unat iface) (Some x)"; cases "mos_thread_suspend_noints k";
        cases "timed_resumed timer False current iface (c\<lparr>cm_timed := t\<rparr>) cl")
      (auto split: if_split_asm)
  then consider (busy) "r = Received None" "c' = c\<lparr>cm_timed := t\<rparr>"
    | (wait) x ts where "wr (cm_if_threads (c\<lparr>cm_timed := t\<rparr>)) (unat iface) x = Some ts" "r = Suspended" "c' = c\<lparr>cm_timed := t, cm_if_threads := ts\<rparr>"
    | (got) b cl1 where "timed_resumed timer False current iface (c\<lparr>cm_timed := t\<rparr>) cl = Some (b, c', cl1)" "r = Received b"
    by auto
  then have "owned_apart P c' (taken r \<union> ow) \<and> taken r \<inter> ow = {}"
  proof cases
    case wait
    then show ?thesis using same_lists_owned [OF wr_same_lists o1] by simp
  next
    case got
    then show ?thesis using owned_timed_resumed [OF o1 got(1)] by simp
  qed (use o1 in simp)
  then show "owned_apart P c' (taken r \<union> ow)" "taken r \<inter> ow = {}" by simp_all
qed

lemma owned_free:
  assumes o: "owned_apart P c ow" and b: "b \<in> ow"
  shows "owned_apart P (com_free_buf (Some b) c) (ow - {b})"
proof -
  from o obtain L where L: "lists_ok c L" "listed L \<inter> ow = {}" "listed L \<union> ow = P" by (rule owned_apartE)
  then have "b \<notin> listed L" using b by auto
  note f = com_free_buf_ok [OF L(1) this]
  show ?thesis using L(2,3) b f(2) by (intro owned_apartI [OF f(1)]) auto
qed

lemma owned_get_free:
  assumes o: "owned_apart P c ow" and s: "get_free_buf c = (r, c')"
  shows "owned_apart P c' (set_option r \<union> ow)" and "set_option r \<inter> ow = {}"
proof -
  from o obtain L where L: "lists_ok c L" "listed L \<inter> ow = {}" "listed L \<union> ow = P" by (rule owned_apartE)
  have "owned_apart P c' (set_option r \<union> ow) \<and> set_option r \<inter> ow = {}"
  proof (cases "L 0")
    case Nil
    then show ?thesis using get_free_none [OF L(1)] s o by simp
  next
    case (Cons b xs)
    from get_free_some [OF L(1) Cons] s have r: "r = Some b" "lists_ok c' (L(0 := xs))" "b \<notin> listed (L(0 := xs))"
      "listed L = insert b (listed (L(0 := xs)))" by auto
    have "owned_apart P c' (insert b ow)" using L(2,3) r by (intro owned_apartI [OF r(2)]) auto
    moreover have "b \<notin> ow" using L(2) r(4) by auto
    ultimately show ?thesis using r(1) by simp
  qed
  then show "owned_apart P c' (set_option r \<union> ow)" "set_option r \<inter> ow = {}" by simp_all
qed

lemma owned_save_full:
  assumes o: "owned_apart P c ow" and b: "b \<in> ow" and s: "save_full_buf iface b c = Some c'"
  shows "owned_apart P c' (ow - {b})"
proof -
  from o obtain L where L: "lists_ok c L" "listed L \<inter> ow = {}" "listed L \<union> ow = P" by (rule owned_apartE)
  have f: "unat iface < MAX_IFS"
    using s lists_okD(1) [OF L(1)] by (auto simp: save_full_buf_def rd_eq_Some_iff Let_def split: Option.bind_splits)
  have "b \<notin> listed L" using b L(2) by auto
  from save_full_ok [OF L(1) f this] s obtain L' where "lists_ok c' L'" "listed L' = insert b (listed L)" by auto
  then show ?thesis using L(2,3) b by (intro owned_apartI [of c' L']) auto
qed

lemma owned_swap:
  assumes o: "owned_apart P c ow" and b: "set_option buf \<subseteq> ow" and s: "com_swap_bufs iface buf c k = Some (r, c', k')"
  shows "owned_apart P c' (set_option r \<union> (ow - set_option buf))" and "set_option r \<inter> (ow - set_option buf) = {}"
proof -
  have "owned_apart P c' (set_option r \<union> (ow - set_option buf)) \<and> set_option r \<inter> (ow - set_option buf) = {}"
  proof (cases buf)
    case None
    with s have "get_free_buf c = (r, c')" by (auto simp: com_swap_bufs_def split: prod.splits)
    with owned_get_free [OF o this] None show ?thesis by simp
  next
    case (Some x)
    with s obtain d e k1 where s': "save_full_buf iface x c = Some d" "wake_receiver iface d k = Some (e, k1)" "get_free_buf e = (r, c')"
      by (auto simp: com_swap_bufs_def split: Option.bind_splits prod.splits)
    have "owned_apart P d (ow - {x})" using owned_save_full [OF o _ s'(1)] b Some by simp
    then have "owned_apart P e (ow - {x})" by (rule same_lists_owned [rotated]) (rule wake_receiver_same(1) [OF s'(2)])
    from owned_get_free [OF this s'(3)] Some show ?thesis by simp
  qed
  then show "owned_apart P c' (set_option r \<union> (ow - set_option buf))" "set_option r \<inter> (ow - set_option buf) = {}" by simp_all
qed


lemma get_free_fields: "get_free_buf c = (r, c') \<Longrightarrow> cm_bufs c' = cm_bufs c \<and> cm_if_threads c' = cm_if_threads c \<and> cm_if_bufs c' = cm_if_bufs c"
  by (auto simp: get_free_buf_def split: option.splits)

lemma owned_swap_elf:
  assumes o: "owned_apart P c ow" and b: "set_option buf \<subseteq> ow"
    and s: "com_swap_bufs_elf e iface buf elfbuf c k = Some (Some r, elfbuf', c', k')"
  shows "owned_apart P c' (set_option r \<union> (ow - set_option buf))"
proof (cases buf)
  case None
  with s have "get_free_buf c = (r, c')" by (auto simp: com_swap_bufs_elf_def split: prod.splits)
  with owned_get_free [OF o this] None show ?thesis by simp
next
  case (Some x)
  have "com_swap_bufs iface buf c k = Some (r, c', k')"
    using s Some unfolding com_swap_bufs_elf_def com_swap_bufs_def
    by (cases "is_elf_packet (cm_bufs c x)"; cases "mos_thread_resume e k")
      (auto split: if_split_asm Option.bind_splits prod.splits)
  from owned_swap(1) [OF o b this] show ?thesis .
qed

lemma fill_managed_same:
  assumes "fill_managed managed buf c = Some c'"
  shows "same_lists c c'" and "cm_if_threads c' = cm_if_threads c" and "cm_if_bufs c' = cm_if_bufs c"
proof -
  have "same_lists c c' \<and> cm_if_threads c' = cm_if_threads c \<and> cm_if_bufs c' = cm_if_bufs c"
    using assms by (cases managed)
      (auto simp: fill_managed_def same_lists_def head_of_def fun_eq_iff split: Option.bind_splits)
  then show "same_lists c c'" "cm_if_threads c' = cm_if_threads c" "cm_if_bufs c' = cm_if_bufs c" by simp_all
qed

lemma select_same: "com_select timer cb current iset msec c k cl = Some (r, c', k', cl') \<Longrightarrow> same_lists c c'"
proof -
  assume s: "com_select timer cb current iset msec c k cl = Some (r, c', k', cl')"
  have "c' = c \<or> set_ifs [0..<8] iset (k_current k) (cm_if_threads c) = Some (cm_if_threads c') \<and>
      c' = c\<lparr>cm_timed := cm_timed c', cm_if_threads := cm_if_threads c'\<rparr>"
    using s unfolding com_select_def Let_def bind.bind_lunit
    by (cases "scan_ifs [0..<MAX_IFS] iset c (0, 0, 0)"; cases "k_current k"; cases "set_ifs [0..<8] iset (k_current k) (cm_if_threads c)";
        cases "start_timer timer cb current msec cl"; cases "mos_thread_suspend_noints k")
      (auto split: if_split_asm)
  then consider "c' = c" | "set_ifs [0..<8] iset (k_current k) (cm_if_threads c) = Some (cm_if_threads c')"
      "c' = c\<lparr>cm_timed := cm_timed c', cm_if_threads := cm_if_threads c'\<rparr>" by blast
  then show "same_lists c c'"
  proof cases
    case 2
    have "same_lists c (c\<lparr>cm_timed := cm_timed c', cm_if_threads := cm_if_threads c'\<rparr>)"
      using same_lists_trans [OF same_lists_timed same_lists_threads] set_ifs_length [OF 2(1)] by simp
    then show ?thesis using 2(2) by simp
  qed (simp add: same_lists_refl)
qed

lemma select_resumed_same:
  assumes "com_select_resumed timer current iset msec c cl = Some (r, n, c', cl')"
  shows "same_lists c c'"
proof (cases "msec \<noteq> 0xFFFFFFFF \<and> tt_timed_out (cm_timed c current)")
  case True
  with assms obtain ts where "set_ifs [0..<8] iset None (cm_if_threads c) = Some ts" "c' = c\<lparr>cm_if_threads := ts\<rparr>"
    by (auto simp: com_select_resumed_def split: Option.bind_splits)
  then show ?thesis using same_lists_threads set_ifs_length by simp
next
  case False
  with assms obtain q where "collect_ifs [0..<8] iset c (0, 0) = Some (n, q, c') \<or> collect_ifs [0..<8] iset c (0, 0) = Some (q, r, c') \<or>
      (\<exists>a b. collect_ifs [0..<8] iset c (0, 0) = Some (a, b, c'))"
    by (auto simp: com_select_resumed_def split: Option.bind_splits if_split_asm)
  then show ?thesis using collect_ifs_same by blast
qed

lemma timeout_same: "timeout_callback d c k = Some (c', k') \<Longrightarrow> same_lists c c'"
  using same_lists_timed by (auto simp: timeout_callback_def Let_def split: Option.bind_splits)

section \<open>The layer running\<close>

text \<open>A state is the layer with the buffers that threads and drivers own.  A thread or driver can free,
  pass on or fill only a buffer of its own; otherwise any call can come at any time, with any
  state of the kernel and the clock.\<close>

type_synonym com_system = "com \<times> bid set"

inductive com_step :: "com_system \<Rightarrow> com_system \<Rightarrow> bool" where
  noblock: "com_recv_noblock iface c = Some (r, c') \<Longrightarrow> com_step (c, ow) (c', set_option r \<union> ow)"
| recv: "com_recv iface c k = Some (r, c', k') \<Longrightarrow> com_step (c, ow) (c', taken r \<union> ow)"
| resumed: "com_recv_resumed iface c = Some (r, c') \<Longrightarrow> com_step (c, ow) (c', set_option r \<union> ow)"
| timed: "com_recv_timed timer cb current iface msecs c k cl = Some (r, c', k', cl') \<Longrightarrow> com_step (c, ow) (c', taken r \<union> ow)"
| timed_resumed: "timed_resumed timer en current iface c cl = Some (r, c', cl') \<Longrightarrow> com_step (c, ow) (c', set_option r \<union> ow)"
| timeout: "timeout_callback d c k = Some (c', k') \<Longrightarrow> com_step (c, ow) (c', ow)"
| select: "com_select timer cb current iset msec c k cl = Some (s, c', k', cl') \<Longrightarrow> com_step (c, ow) (c', ow)"
| select_resumed: "com_select_resumed timer current iset msec c cl = Some (n, os, c', cl') \<Longrightarrow> com_step (c, ow) (c', ow)"
| free: "b \<in> ow \<Longrightarrow> com_step (c, ow) (com_free_buf (Some b) c, ow - {b})"
| swap: "set_option buf \<subseteq> ow \<Longrightarrow> com_swap_bufs iface buf c k = Some (r, c', k') \<Longrightarrow>
    com_step (c, ow) (c', set_option r \<union> (ow - set_option buf))"
| swap_elf: "set_option buf \<subseteq> ow \<Longrightarrow> com_swap_bufs_elf e iface buf eb c k = Some (Some r, eb', c', k') \<Longrightarrow>
    com_step (c, ow) (c', set_option r \<union> (ow - set_option buf))"
| fill: "m \<in> ow \<Longrightarrow> fill_managed (Some m) b c = Some c' \<Longrightarrow> com_step (c, ow) (c', ow)"

inductive com_reachable :: "com \<Rightarrow> com_system \<Rightarrow> bool" for c0 where
  start: "com_reachable c0 (c0, {})"
| step: "com_reachable c0 r \<Longrightarrow> com_step r r' \<Longrightarrow> com_reachable c0 r'"

lemma com_step_owned: "com_step r r' \<Longrightarrow> owned_apart P (fst r) (snd r) \<Longrightarrow> owned_apart P (fst r') (snd r')"
proof (induction rule: com_step.induct)
  case noblock
  then show ?case using owned_recv_noblock(1) by simp
next
  case recv
  then show ?case using owned_recv(1) by simp
next
  case resumed
  then show ?case using owned_recv_resumed(1) by simp
next
  case timed
  then show ?case using owned_recv_timed(1) by simp
next
  case timed_resumed
  then show ?case using owned_timed_resumed(1) by simp
next
  case timeout
  then show ?case using same_lists_owned [OF timeout_same] by simp
next
  case select
  then show ?case using same_lists_owned [OF select_same] by simp
next
  case select_resumed
  then show ?case using same_lists_owned [OF select_resumed_same] by simp
next
  case free
  then show ?case using owned_free by simp
next
  case swap
  then show ?case using owned_swap(1) by simp
next
  case swap_elf
  then show ?case using owned_swap_elf by simp
next
  case fill
  then show ?case using same_lists_owned [OF fill_managed_same(1)] by simp
qed

lemma com_reachable_owned: "com_reachable c0 r \<Longrightarrow> owned_apart P c0 {} \<Longrightarrow> owned_apart P (fst r) (snd r)"
  by (induction rule: com_reachable.induct) (simp_all add: com_step_owned)

section \<open>The pool\<close>

lemma init_bufs_ok:
  assumes "pool lo hi m ps" and "chain (bnext c) (cm_free c) ps"
  shows "\<exists>c' m' qs. init_bufs n c m = Some (c', m') \<and> pool lo hi m' qs \<and> chain (bnext c') (cm_free c') qs \<and>
    length qs \<le> n + length ps \<and> cm_if_bufs c' = cm_if_bufs c \<and> cm_if_threads c' = cm_if_threads c"
  using assms
proof (induction n arbitrary: c m ps)
  case (Suc n)
  from pool_alloc_cases [OF Suc.prems(1), of sizeof_comBuf] obtain r m1 where
    r: "mos_mem_alloc sizeof_comBuf m = Some (r, m1)" "r = None \<Longrightarrow> m1 = m" by (auto split: option.split_asm)
  show ?case
  proof (cases r)
    case None
    from Suc.IH [OF Suc.prems] obtain c' m' qs where
      "init_bufs n c m = Some (c', m')" "pool lo hi m' qs" "chain (bnext c') (cm_free c') qs"
      "length qs \<le> n + length ps" "cm_if_bufs c' = cm_if_bufs c" "cm_if_threads c' = cm_if_threads c" by blast
    then show ?thesis using r None by auto
  next
    case (Some b)
    let ?c = "(set_cnext b (cm_free c) c)\<lparr>cm_free := Some b\<rparr>"
    have p: "pool lo hi m1 (b # ps)" using pool_alloc [OF Suc.prems(1)] r(1) Some by simp
    then have "b \<notin> set ps" by (simp add: pool_def)
    then have "chain (bnext ?c) (cm_free c) ps = chain (bnext c) (cm_free c) ps" by (intro chain_frame) auto
    then have "chain (bnext ?c) (cm_free ?c) (b # ps)" using Suc.prems(2) by simp
    from Suc.IH [OF p this] obtain c' m' qs where
      "init_bufs n ?c m1 = Some (c', m')" "pool lo hi m' qs" "chain (bnext c') (cm_free c') qs"
      "length qs \<le> n + length (b # ps)" "cm_if_bufs c' = cm_if_bufs ?c" "cm_if_threads c' = cm_if_threads ?c" by blast
    then show ?thesis using r(1) Some by auto
  qed
qed auto

lemma com_init_ok:
  assumes "heap_rep lo hi (k_mem k) A"
  shows "\<exists>c' k' ps. com_init c k = Some (0, c', k') \<and> pool lo hi (k_mem k') ps \<and> length ps \<le> NUM_BUFS \<and>
    lists_ok c' ((\<lambda>_. [])(0 := ps))"
proof -
  let ?c = "c\<lparr>cm_free := None, cm_if_threads := replicate MAX_IFS None, cm_send_mutexes := replicate MAX_IFS mos_mutex_init,
    cm_if_bufs := replicate MAX_IFS None\<rparr>"
  have "pool lo hi (k_mem k) []" using assms by (auto simp: pool_def)
  from init_bufs_ok [OF this, of ?c NUM_BUFS] obtain c' m' ps where
    r: "init_bufs NUM_BUFS ?c (k_mem k) = Some (c', m')" "pool lo hi m' ps" "chain (bnext c') (cm_free c') ps"
    "length ps \<le> NUM_BUFS" "cm_if_bufs c' = cm_if_bufs ?c" "cm_if_threads c' = cm_if_threads ?c" by auto
  have h: "head_of c' i = (if i = 0 then cm_free c' else None)" if "i \<le> MAX_IFS" for i
    using that by (auto simp: head_of_def r(5))
  have "lists_ok c' ((\<lambda>_. [])(0 := ps))"
    by (rule lists_okI) (use r(2,3) h in \<open>auto simp: r(5,6) pool_def split: if_splits\<close>)
  with r show ?thesis
    by (intro exI [of _ c'] exI [of _ "k\<lparr>k_mem := m'\<rparr>"] exI [of _ ps]) (simp add: com_init_def)
qed

section \<open>Properties\<close>


definition blank_com :: com where
  "blank_com = \<lparr>cm_bufs = \<lambda>_. \<lparr>cb_next = None, cb_data = replicate COM_DATA_SIZE 0, cb_signal = 0, cb_size = 0, cb_source = 0\<rparr>,
     cm_free = None, cm_if_bufs = [], cm_if_threads = [], cm_send_mutexes = [], cm_timed = \<lambda>_. \<lparr>tt_thread_ptr = 0, tt_timed_out = False\<rparr>\<rparr>"

definition sample_com :: "com \<times> kernel" where
  "sample_com = (case com_init blank_com sample_kernel of Some (u, c, k) \<Rightarrow> (c, k) | None \<Rightarrow> (blank_com, sample_kernel))"

lemma sample_heap_rep: "heap_rep 0x1100 0x2100 (k_mem sample_kernel) (free_bytes (k_mem sample_kernel) [0x1100])"
  using sample_heap by (auto simp: heap_rep_def)

lemma sample_com_init: "com_init blank_com sample_kernel = Some (0, fst sample_com, snd sample_com)"
  using com_init_ok [OF sample_heap_rep, of blank_com] by (auto simp: sample_com_def)


end
