(* ===== verification/Com_Delivery.thy ===== *)
theory Com_Delivery
  imports Com_Properties Semaphore
begin

text \<open>
  The way of a packet through the communication layer: from the driver to the thread that waits for
  it, through \<open>com_flush\<close>, and from a sender to a receiver over the loopback interface.
\<close>

section \<open>Waking the receiver\<close>

lemma resume_nodispatch_ok:
  assumes rep: "represents k qs sl c" and x: "x < MAX_THREADS" and b: "t_state (k_threads k x) = BLOCKED"
  shows "\<exists>k'. mos_thread_resume_noints_nodispatch x k = Some k' \<and>
    represents k' (requeue (prio_of (k_threads k)) [x] qs) sl c \<and> t_state (k_threads k' x) = READY"
proof -
  from unblock_ok [OF rep x b] obtain k1 where k1: "unblock x k = Some k1"
    "represents k1 (requeue (prio_of (k_threads k)) [x] qs) sl c"
    "\<forall>y. t_state (k_threads k1 y) = (if y = x then READY else t_state (k_threads k y))" by blast
  let ?k = "k1\<lparr>k_threads := (k_threads k1)(x := (k_threads k1 x)\<lparr>t_waiting_for := None\<rparr>)\<rparr>"
  have s: "mos_thread_resume_noints_nodispatch x k = Some ?k"
    using b k1(1) by (simp add: mos_thread_resume_noints_nodispatch_def)
  have rep': "represents ?k (requeue (prio_of (k_threads k)) [x] qs) sl c"
    by (rule represents_same [OF k1(2)]) simp_all
  from k1(3) have "t_state (k_threads ?k x) = READY" by simp
  with s rep' show ?thesis by blast
qed

text \<open>A driver hands over the packet \<open>b\<close> on an interface where thread \<open>x\<close> waits.\<close>

definition delivered :: "u8 \<Rightarrow> bid \<Rightarrow> com \<Rightarrow> com \<Rightarrow> (nat \<Rightarrow> bid list) \<Rightarrow> bool" where
  "delivered iface b c c' L \<longleftrightarrow> lists_ok c' L \<and> L (Suc (unat iface)) = [b] \<and> cm_if_threads c' ! unat iface = None \<and>
     same_packets c c'"

lemma get_free_cases:
  assumes "lists_ok c L"
  shows "\<exists>c'. get_free_buf c = (headp (L 0), c') \<and> lists_ok c' (L(0 := tl (L 0))) \<and> cm_bufs c' = cm_bufs c \<and>
    cm_if_threads c' = cm_if_threads c"
proof (cases "L 0")
  case Nil
  then have "L(0 := tl (L 0)) = L" by auto
  then show ?thesis using get_free_none [OF assms Nil] assms Nil by simp
next
  case (Cons b xs)
  from get_free_some [OF assms Cons] Cons show ?thesis by auto
qed

lemma swap_delivers:
  assumes c: "lists_ok c L" and f: "unat iface < MAX_IFS" and b: "b \<notin> listed L" and em: "L (Suc (unat iface)) = []"
    and w: "cm_if_threads c ! unat iface = Some x" and rep: "represents k qs sl t"
    and x: "x < MAX_THREADS" "t_state (k_threads k x) = BLOCKED"
  shows "\<exists>c' k' L'. com_swap_bufs iface (Some b) c k = Some (headp (L 0), c', k') \<and> delivered iface b c c' L' \<and>
    represents k' (requeue (prio_of (k_threads k)) [x] qs) sl t \<and> t_state (k_threads k' x) = READY"
proof -
  let ?i = "unat iface" and ?L = "L(Suc (unat iface) := [b])"
  from save_full_ok [OF c f b] em obtain d where d: "save_full_buf iface b c = Some d" "lists_ok d ?L"
    "cm_if_threads d = cm_if_threads c" "same_packets c d" by auto
  from resume_nodispatch_ok [OF rep x] obtain k' where k': "mos_thread_resume_noints_nodispatch x k = Some k'"
    "represents k' (requeue (prio_of (k_threads k)) [x] qs) sl t" "t_state (k_threads k' x) = READY" by blast
  have len: "?i < length (cm_if_threads d)" using lists_okD(2) [OF d(2)] f by simp
  let ?e = "d\<lparr>cm_if_threads := (cm_if_threads d)[?i := None]\<rparr>"
  have wk: "wake_receiver iface d k = Some (?e, k')"
    using len w d(3) k'(1) by (simp add: wake_receiver_def)
  have e: "lists_ok ?e ?L" using lists_ok_threads [OF d(2)] lists_okD(2) [OF d(2)] by simp
  from get_free_cases [OF e] obtain c' where c': "get_free_buf ?e = (headp (L 0), c')" "lists_ok c' (?L(0 := tl (L 0)))"
    "cm_bufs c' = cm_bufs ?e" "cm_if_threads c' = cm_if_threads ?e" by auto
  have "delivered iface b c c' (?L(0 := tl (L 0)))"
    using c'(2,3,4) d(4) len by (simp add: delivered_def same_packets_def)
  moreover have "com_swap_bufs iface (Some b) c k = Some (headp (L 0), c', k')"
    using d(1) wk c'(1) by (simp add: com_swap_bufs_def)
  ultimately show ?thesis using k'(2,3) by blast
qed

lemma recv_resumed_first:
  assumes c: "lists_ok c L" and f: "unat iface < MAX_IFS" and L: "L (Suc (unat iface)) = b # xs"
  shows "\<exists>c'. com_recv_resumed iface c = Some (Some b, c') \<and> lists_ok c' (L(Suc (unat iface) := xs)) \<and>
    cm_bufs c' = cm_bufs c \<and> cm_if_threads c' = (cm_if_threads c)[unat iface := None]"
proof -
  from shift_ok [OF c f L] obtain d where d: "shift_buf iface c = Some (b, d)" "lists_ok d (L(Suc (unat iface) := xs))"
    "cm_if_threads d = cm_if_threads c" "cm_bufs d = cm_bufs c" by blast
  have "unat iface < length (cm_if_threads d)" using lists_okD(2) [OF d(2)] f by simp
  with d lists_ok_threads [OF d(2)] lists_okD(2) [OF d(2)] show ?thesis by (simp add: com_recv_resumed_def)
qed

lemma recv_first:
  assumes c: "lists_ok c L" and f: "unat iface < MAX_IFS" and L: "L (Suc (unat iface)) = b # xs"
    and t: "cm_if_threads c ! unat iface = None"
  shows "\<exists>c'. com_recv iface c k = Some (Received (Some b), c', k) \<and> lists_ok c' (L(Suc (unat iface) := xs)) \<and>
    cm_bufs c' = cm_bufs c \<and> cm_if_threads c' = cm_if_threads c"
proof -
  from recv_resumed_first [OF c f L] obtain c' where c': "com_recv_resumed iface c = Some (Some b, c')"
    "lists_ok c' (L(Suc (unat iface) := xs))" "cm_bufs c' = cm_bufs c"
    "cm_if_threads c' = (cm_if_threads c)[unat iface := None]" by blast
  have "unat iface < length (cm_if_threads c)" "unat iface < length (cm_if_bufs c)" "cm_if_bufs c ! unat iface = Some b"
    using lists_okD(1,2) [OF c] f if_bufs_head [OF c f] L by simp_all
  then have "com_recv iface c k = Some (Received (Some b), c', k)" using t c'(1) by (simp add: com_recv_def)
  moreover have "cm_if_threads c' = cm_if_threads c" using c'(4) t list_update_id [of "cm_if_threads c" "unat iface"] by simp
  ultimately show ?thesis using c' by blast
qed

section \<open>Flushing an interface\<close>

lemma bit_iface: "unat iface < MAX_IFS \<Longrightarrow> bit (push_bit (unat iface) 1 :: if_set) i \<longleftrightarrow> i = unat iface"
  by (simp del: push_bit_of_1 add: bit_push_bit_iff bit_1_iff MAX_IFS_def) auto

lemma iface_bit_nonzero: "unat iface < MAX_IFS \<Longrightarrow> (push_bit (unat iface) 1 :: if_set) \<noteq> 0"
proof
  assume "unat iface < MAX_IFS" "(push_bit (unat iface) 1 :: if_set) = 0"
  then show False using bit_iface [of iface "unat iface"] by (simp del: push_bit_of_1)
qed

lemma scan_skip: "(\<And>i. i \<in> set is \<Longrightarrow> \<not> bit iset i) \<Longrightarrow> scan_ifs is iset c st = Some st"
  by (induction "is" arbitrary: st) (auto simp: split_beta)

lemma scan_append: "scan_ifs (is @ js) iset c st = Option.bind (scan_ifs is iset c st) (scan_ifs js iset c)"
  by (induction "is" arbitrary: st) (auto split: prod.splits Option.bind_splits simp: Let_def)

lemma scan_one:
  assumes f: "unat iface < MAX_IFS" and len: "length (cm_if_bufs c) = MAX_IFS" "length (cm_if_threads c) = MAX_IFS"
  shows "scan_ifs [0..<MAX_IFS] (push_bit (unat iface) 1) c (0, 0, 0) =
    Some (if cm_if_threads c ! unat iface \<noteq> None then SELECT_IFACE_BUSY else 0,
      if cm_if_bufs c ! unat iface \<noteq> None then push_bit (unat iface) 1 else 0,
      if cm_if_bufs c ! unat iface \<noteq> None then 1 else 0)"
proof -
  let ?i = "unat iface" and ?s = "push_bit (unat iface) 1 :: if_set"
  have "[0..<MAX_IFS] = [0..<?i] @ ?i # [Suc ?i..<MAX_IFS]" using f upt_add_eq_append [of 0 ?i "MAX_IFS - ?i"]
    by (simp add: upt_conv_Cons)
  moreover have "scan_ifs [0..<?i] ?s c st = Some st" "scan_ifs [Suc ?i..<MAX_IFS] ?s c st = Some st" for st
    using bit_iface [OF f] by (auto intro!: scan_skip)
  moreover have "bit ?s ?i" using bit_iface [OF f] by simp
  ultimately show ?thesis using f len by (simp add: scan_append)
qed

lemma flush_step:
  assumes c: "lists_ok c L" and f: "unat iface < MAX_IFS" and t: "cm_if_threads c ! unat iface = None"
    and L: "L (Suc (unat iface)) = b # xs"
  shows "\<exists>c'. com_flush timer cb cur iface c k cl = com_flush timer cb cur iface c' k cl \<and>
    lists_ok c' (L(Suc (unat iface) := xs, 0 := b # L 0)) \<and> cm_if_threads c' = cm_if_threads c \<and> same_packets c c'"
proof -
  note len = lists_okD(1,2) [OF c]
  have p: "cm_if_bufs c ! unat iface = Some b" using if_bufs_head [OF c f] L by simp
  have s: "com_select timer cb cur (push_bit (unat iface) 1) 0 c k cl = Some (Selected 1 (push_bit (unat iface) 1), c, k, cl)"
    using scan_one [OF f len] t p iface_bit_nonzero [OF f]
    by (simp add: com_select_def SELECT_IFACE_BUSY_def IFACE_NOT_REGISTERED_def)
  from recv_first [OF c f L t] obtain d where d: "com_recv iface c k = Some (Received (Some b), d, k)"
    "lists_ok d (L(Suc (unat iface) := xs))" "cm_bufs d = cm_bufs c" "cm_if_threads d = cm_if_threads c" by blast
  from shift_ok [OF c f L] have nb: "b \<notin> listed (L(Suc (unat iface) := xs))" by blast
  let ?c = "com_free_buf (Some b) d"
  have "com_flush timer cb cur iface c k cl = com_flush timer cb cur iface ?c k cl"
    using s d(1) bit_iface [OF f] by (subst com_flush.simps) simp
  moreover have "lists_ok ?c (L(Suc (unat iface) := xs, 0 := b # L 0))" using com_free_buf_ok(1) [OF d(2) nb] by simp
  moreover have "cm_if_threads ?c = cm_if_threads c" "same_packets c ?c"
    using d(3,4) by (simp_all add: com_free_buf_def same_packets_def)
  ultimately show ?thesis by blast
qed

lemma flush_last:
  assumes c: "lists_ok c L" and f: "unat iface < MAX_IFS" and t: "cm_if_threads c ! unat iface = None"
    and L: "L (Suc (unat iface)) = []"
  shows "com_flush timer cb cur iface c k cl = Some (Received None, c, k, cl)"
proof -
  have "com_select timer cb cur (push_bit (unat iface) 1) 0 c k cl = Some (Selected 0 0, c, k, cl)"
    using scan_one [OF f lists_okD(1,2) [OF c]] t shift_none(1) [OF c f L]
    by (simp add: com_select_def SELECT_IFACE_BUSY_def IFACE_NOT_REGISTERED_def)
  then show ?thesis by (subst com_flush.simps) simp
qed

section \<open>Registering a thread with interfaces\<close>

lemma set_ifs_append: "set_ifs (is @ js) iset x ts = Option.bind (set_ifs is iset x ts) (set_ifs js iset x)"
  by (induction "is" arbitrary: ts) (auto split: Option.bind_splits)

lemma set_ifs_upto:
  "n \<le> length ts \<Longrightarrow> set_ifs [0..<n] iset x ts = Some (map (\<lambda>i. if i < n \<and> bit iset i then x else ts ! i) [0..<length ts])"
proof (induction n)
  case 0
  then show ?case by (simp add: map_nth)
next
  case (Suc n)
  let ?m = "map (\<lambda>i. if i < n \<and> bit iset i then x else ts ! i) [0..<length ts]"
  have "set_ifs [0..<Suc n] iset x ts = set_ifs [n] iset x ?m" using Suc by (simp add: set_ifs_append)
  also have "\<dots> = Some (map (\<lambda>i. if i < Suc n \<and> bit iset i then x else ts ! i) [0..<length ts])"
    using Suc.prems by (auto simp: less_Suc_eq nth_list_update intro!: nth_equalityI split: if_splits)
  finally show ?case .
qed

section \<open>The loopback interface\<close>

lemma same_lists_mutexes: "same_lists c (c\<lparr>cm_send_mutexes := mts\<rparr>)"
  by (simp add: same_lists_def head_of_def fun_eq_iff)

lemma fill_managed_ok:
  assumes "length (cb_data (cm_bufs c buf)) = COM_DATA_SIZE" "length (cb_data (cm_bufs c m)) = COM_DATA_SIZE"
    and "unat (cb_size (cm_bufs c buf)) \<le> COM_DATA_SIZE"
  shows "\<exists>d. fill_managed (Some m) buf c = Some (c\<lparr>cm_bufs := (cm_bufs c)(m := (cm_bufs c m)\<lparr>cb_data := d, cb_size := cb_size (cm_bufs c buf)\<rparr>)\<rparr>) \<and>
    take (unat (cb_size (cm_bufs c buf))) d = take (unat (cb_size (cm_bufs c buf))) (cb_data (cm_bufs c buf))"
  using assms by (auto simp: fill_managed_def rd_block_def wr_block_def)

lemma swap_unawaited:
  assumes c: "lists_ok c L" and f: "unat iface < MAX_IFS" and b: "b \<notin> listed L"
    and w: "cm_if_threads c ! unat iface = None"
  shows "\<exists>c'. com_swap_bufs iface (Some b) c k = Some (headp (L 0), c', k) \<and>
    lists_ok c' (L(Suc (unat iface) := L (Suc (unat iface)) @ [b], 0 := tl (L 0))) \<and> same_packets c c' \<and>
    cm_if_threads c' = cm_if_threads c \<and> cm_send_mutexes c' = cm_send_mutexes c"
proof -
  let ?L = "L(Suc (unat iface) := L (Suc (unat iface)) @ [b])"
  from save_full_ok [OF c f b] obtain d where d: "save_full_buf iface b c = Some d" "lists_ok d ?L"
    "cm_if_threads d = cm_if_threads c" "same_packets c d" by auto
  from get_free_cases [OF d(2)] obtain c' where c': "get_free_buf d = (headp (L 0), c')" "lists_ok c' (?L(0 := tl (L 0)))"
    "cm_bufs c' = cm_bufs d" "cm_if_threads c' = cm_if_threads d" by auto
  have "unat iface < length (cm_if_threads d)" using lists_okD(2) [OF d(2)] f by simp
  then have "wake_receiver iface d k = Some (d, k)" using w d(3) by (simp add: wake_receiver_def)
  then have s: "com_swap_bufs iface (Some b) c k = Some (headp (L 0), c', k)" using d(1) c'(1) by (simp add: com_swap_bufs_def)
  have "cm_send_mutexes d = cm_send_mutexes c"
    using d(1) by (auto simp: save_full_buf_def Let_def split: Option.bind_splits option.splits)
  moreover have "cm_send_mutexes c' = cm_send_mutexes d" using c'(1) by (auto simp: get_free_buf_def split: option.splits)
  ultimately show ?thesis using s c'(2,3,4) d(3,4) by (simp add: same_packets_def)
qed

lemma post_then_wait:
  assumes "sem_rep k s 0 []"
  shows "\<exists>s1 s2. mos_sem_post s k = Some (s1, k) \<and> mos_sem_wait s1 k = Some (s2, k) \<and> sem_rep k s2 0 []"
proof -
  from sem_post_none [OF assms] obtain s1 where s1: "mos_sem_post s k = Some (s1, k)" "sem_rep k s1 1 []" by auto
  from sem_wait_free [OF s1(2)] obtain s2 where "mos_sem_wait s1 k = Some (s2, k)" "sem_rep k s2 0 []" by auto
  with s1(1) show ?thesis by blast
qed

section \<open>Packing numbers\<close>

lemma unat_add_pos: "unat (pos :: u16) + n < 65536 \<Longrightarrow> unat (pos + of_nat n) = unat pos + n"
  by (simp add: unat_add_u16 unat_of_nat_small_u16)

lemma unat_pos:
  assumes "unat (pos :: u16) + 3 < 65536"
  shows "unat (pos + 1) = unat pos + 1" "unat (pos + 2) = unat pos + 2" "unat (pos + 3) = unat pos + 3"
  using assms unat_add_pos [of pos 1] unat_add_pos [of pos 2] unat_add_pos [of pos 3] by simp_all

lemma join16: "ucast (ucast (w AND 0xFF :: u16) :: u8) OR push_bit 8 (ucast (ucast (drop_bit 8 w AND 0xFF) :: u8)) = w"
proof -
  have m: "(0xFF :: u16) = mask 8" by (simp add: mask_eq_exp_minus_1)
  show ?thesis unfolding m by (rule bit_word_eqI)
      (auto simp: bit_or_iff bit_and_iff bit_push_bit_iff bit_ucast_iff bit_drop_bit_eq bit_mask_iff)
qed

lemma join32: "ucast (ucast (w AND 0xFF :: u32) :: u8) OR push_bit 8 (ucast (ucast (drop_bit 8 w AND 0xFF) :: u8)) OR
   push_bit 16 (ucast (ucast (drop_bit 16 w AND 0xFF) :: u8)) OR push_bit 24 (ucast (ucast (drop_bit 24 w AND 0xFF) :: u8)) = w"
  (is "?l = w")
proof (rule bit_word_eqI)
  have m: "(0xFF :: u32) = mask 8" by (simp add: mask_eq_exp_minus_1)
  fix n assume n: "n < LENGTH(32)"
  consider "n < 8" | "8 \<le> n" "n < 16" | "16 \<le> n" "n < 24" | "24 \<le> n" by linarith
  then show "bit ?l n \<longleftrightarrow> bit w n" unfolding m using n
    by cases (simp_all add: bit_or_iff bit_and_iff bit_push_bit_iff bit_ucast_iff bit_drop_bit_eq bit_mask_iff, auto)
qed

lemma buf_round_trip16:
  assumes "unat pos + 1 < length p" and "length p \<le> 65536"
  shows "\<exists>q. buf_insert16 p pos w = Some q \<and> buf_extract16 q pos = Some w"
proof -
  have "unat (pos + 1) = unat pos + 1" using assms unat_add_pos [of pos 1] by simp
  then show ?thesis using assms(1) by (simp add: buf_insert16_def buf_extract16_def join16)
qed

lemma buf_round_trip32:
  assumes "unat pos + 3 < length p" and "length p \<le> 65536"
  shows "\<exists>q. buf_insert32 p pos w = Some q \<and> buf_extract32 q pos = Some w"
proof -
  have "unat (pos + 1) = unat pos + 1" "unat (pos + 2) = unat pos + 2" "unat (pos + 3) = unat pos + 3"
    using assms unat_pos [of pos] by simp_all
  then show ?thesis using assms(1) by (simp add: buf_insert32_def buf_extract32_def join32)
qed

section \<open>Properties\<close>


text \<open>C32. The buffer a thread was woken for can be taken by another one.  The driver lets go of the
  interface when it wakes the thread; when another thread calls \<open>com_recv\<close> before the woken one runs, it
  gets the buffer, and the woken thread, which does not look again, dereferences a NULL
  pointer.\<close>
theorem com_recv_stolen:
  assumes "lists_ok c L" and "unat iface < MAX_IFS" and "b \<notin> listed L" and "L (Suc (unat iface)) = []"
    and "cm_if_threads c ! unat iface = Some x" and "represents k qs sl t"
    and "x < MAX_THREADS" and "t_state (k_threads k x) = BLOCKED"
  shows "\<exists>c1 k1 c2. com_swap_bufs iface (Some b) c k = Some (headp (L 0), c1, k1) \<and>
    com_recv iface c1 k2 = Some (Received (Some b), c2, k2) \<and> com_recv_resumed iface c2 = None"
proof -
  from swap_delivers [OF assms] obtain c1 k1 L1 where
    d: "com_swap_bufs iface (Some b) c k = Some (headp (L 0), c1, k1)" "delivered iface b c c1 L1" by blast
  then have e: "lists_ok c1 L1" "L1 (Suc (unat iface)) = [b]" "cm_if_threads c1 ! unat iface = None" by (auto simp: delivered_def)
  from recv_first [OF e(1) assms(2) e(2,3)] obtain c2 where
    r: "com_recv iface c1 k2 = Some (Received (Some b), c2, k2)" "lists_ok c2 (L1(Suc (unat iface) := []))" by blast
  have "com_recv_resumed iface c2 = None"
    using shift_none(2) [OF r(2) assms(2)] by (simp add: com_recv_resumed_def)
  with d(1) r(1) show ?thesis by blast
qed

text \<open>\<open>com_flush\<close> on an interface that no thread waits on returns, and has moved all its packets, in
  order, to the free list; no other list, waiting thread or packet changes.\<close>
theorem com_flush_empties:
  assumes "lists_ok c L" and "unat iface < MAX_IFS" and "cm_if_threads c ! unat iface = None"
  shows "\<exists>c'. com_flush timer cb cur iface c k cl = Some (Received None, c', k, cl) \<and>
    lists_ok c' (L(Suc (unat iface) := [], 0 := rev (L (Suc (unat iface))) @ L 0)) \<and>
    cm_if_threads c' = cm_if_threads c \<and> same_packets c c'"
  using assms(1,3)
proof (induction "L (Suc (unat iface))" arbitrary: c L)
  case Nil
  then have e: "L (Suc (unat iface)) = []" by simp
  then have "L(Suc (unat iface) := [], 0 := rev (L (Suc (unat iface))) @ L 0) = L" by auto
  then have "lists_ok c (L(Suc (unat iface) := [], 0 := rev (L (Suc (unat iface))) @ L 0))" using Nil.prems(1) by metis
  then show ?case using flush_last [OF Nil.prems(1) assms(2) Nil.prems(2) e] same_packets_refl by blast
next
  case (Cons b xs)
  from flush_step [OF Cons.prems(1) assms(2) Cons.prems(2) Cons.hyps(2) [symmetric]] obtain d where
    d: "com_flush timer cb cur iface c k cl = com_flush timer cb cur iface d k cl"
    "lists_ok d (L(Suc (unat iface) := xs, 0 := b # L 0))" "cm_if_threads d = cm_if_threads c" "same_packets c d" by blast
  have "cm_if_threads d ! unat iface = None" using d(3) Cons.prems(2) by simp
  from Cons.hyps(1) [OF _ d(2) this] obtain c' where
    c': "com_flush timer cb cur iface d k cl = Some (Received None, c', k, cl)"
    "lists_ok c' (L(Suc (unat iface) := [], 0 := rev xs @ b # L 0))" "cm_if_threads c' = cm_if_threads d" "same_packets d c'"
    by (auto simp: fun_upd_twist)
  then show ?case using d same_packets_trans [OF d(4) c'(4)] Cons.hyps(2) [symmetric] by simp
qed


text \<open>\<open>com_select\<close> takes the interfaces named by the byte \<open>iset\<close> for the thread, and lets go of them
  again, in loops that run over eight bits although there are seven interfaces: a set that names only
  existing interfaces changes exactly those entries of the table, and a set with bit 7 writes
  outside it.\<close>
theorem set_ifs_bounds:
  assumes "length ts = MAX_IFS"
  shows "set_ifs [0..<8] iset x ts = (if bit iset 7 then None else Some (map (\<lambda>i. if bit iset i then x else ts ! i) [0..<MAX_IFS]))"
proof -
  have "[0..<8] = [0..<MAX_IFS] @ [7]" by (simp add: MAX_IFS_def upt_rec)
  moreover have "map (\<lambda>i. if i < MAX_IFS \<and> bit iset i then x else ts ! i) [0..<MAX_IFS] = map (\<lambda>i. if bit iset i then x else ts ! i) [0..<MAX_IFS]"
    by simp
  ultimately show ?thesis using set_ifs_upto [of MAX_IFS ts iset x] assms
    by (simp add: set_ifs_append wr_def del: upt_Suc) (simp add: MAX_IFS_def)
qed

text \<open>A packet sent on the loopback interface arrives.  With the driver's buffer \<open>m\<close> of its own, a
  packet of at most \<open>COM_DATA_SIZE\<close> bytes, the send mutex free and nobody waiting on the semaphore or the
  interface, the send call returns 0 without suspending; the packets of the interface are those before
  with \<open>m\<close> at the end, \<open>m\<close> has the size and the bytes of the packet that was sent, the driver keeps the
  first free buffer (or none), and the mutex and semaphore are free again.\<close>
theorem loopback_delivers:
  assumes "lists_ok c L" and "lb_managed l = Some m" and "m \<notin> listed L" and "buf \<noteq> m"
    and "length (cb_data (cm_bufs c buf)) = COM_DATA_SIZE" and "length (cb_data (cm_bufs c m)) = COM_DATA_SIZE"
    and "unat (cb_size (cm_bufs c buf)) \<le> COM_DATA_SIZE" and "cm_if_threads c ! 3 = None"
    and "sem_rep k (lb_send_sem l) 0 []" and "length (cm_send_mutexes c) = MAX_IFS"
    and "mt_owner (cm_send_mutexes c ! 3) = None" and "waiting k (mt_q (cm_send_mutexes c ! 3)) []"
  shows "\<exists>l' c'. com_send_IFACE_LOOPBACK buf l c k = Some (Some 0, l', c', k) \<and>
    lists_ok c' (L(4 := L 4 @ [m], 0 := tl (L 0))) \<and> lb_managed l' = headp (L 0) \<and>
    cb_size (cm_bufs c' m) = cb_size (cm_bufs c buf) \<and>
    take (unat (cb_size (cm_bufs c buf))) (cb_data (cm_bufs c' m)) = take (unat (cb_size (cm_bufs c buf))) (cb_data (cm_bufs c buf)) \<and>
    sem_rep k (lb_send_sem l') 0 [] \<and> mt_owner (cm_send_mutexes c' ! 3) = None"
proof -
  let ?mt = "cm_send_mutexes c ! 3"
  let ?d = "c\<lparr>cm_send_mutexes := (cm_send_mutexes c)[3 := ?mt\<lparr>mt_owner := k_current k\<rparr>]\<rparr>"
  have i3: "unat IFACE_LOOPBACK = 3" "Suc (unat IFACE_LOOPBACK) = 4" "unat IFACE_LOOPBACK < MAX_IFS"
    by (simp_all add: IFACE_LOOPBACK_def MAX_IFS_def)
  have len: "3 < length (cm_send_mutexes c)" using assms(10) by (simp add: MAX_IFS_def)
  obtain dat where f: "fill_managed (Some m) buf ?d = Some (?d\<lparr>cm_bufs := (cm_bufs c)(m := (cm_bufs c m)\<lparr>cb_data := dat, cb_size := cb_size (cm_bufs c buf)\<rparr>)\<rparr>)"
    "take (unat (cb_size (cm_bufs c buf))) dat = take (unat (cb_size (cm_bufs c buf))) (cb_data (cm_bufs c buf))"
    using fill_managed_ok [of ?d buf m] assms(5-7) by auto
  let ?e = "?d\<lparr>cm_bufs := (cm_bufs c)(m := (cm_bufs c m)\<lparr>cb_data := dat, cb_size := cb_size (cm_bufs c buf)\<rparr>)\<rparr>"
  from same_lists_ok [OF fill_managed_same(1) [OF f(1)] same_lists_ok [OF same_lists_mutexes assms(1)]] have "lists_ok ?e L" .
  from swap_unawaited [OF this i3(3) assms(3), of k] assms(8) obtain c' where
    s: "com_swap_bufs IFACE_LOOPBACK (Some m) ?e k = Some (headp (L 0), c', k)"
      "lists_ok c' (L(4 := L 4 @ [m], 0 := tl (L 0)))" "same_packets ?e c'" "cm_send_mutexes c' = cm_send_mutexes ?e"
    by (auto simp: i3(1,2))
  from post_then_wait [OF assms(9)] obtain s1 s2 where
    sem: "mos_sem_post (lb_send_sem l) k = Some (s1, k)" "mos_sem_wait s1 k = Some (s2, k)" "sem_rep k s2 0 []" by blast
  let ?mt' = "?mt\<lparr>mt_owner := None\<rparr>"
  have un: "mos_mutex_unlock (?mt\<lparr>mt_owner := k_current k\<rparr>) k = Some (?mt', k)"
    using mutex_unlock_free [of k "?mt\<lparr>mt_owner := k_current k\<rparr>"] assms(12) by simp
  have lock: "mos_mutex_lock ?mt k = Some (?mt\<lparr>mt_owner := k_current k\<rparr>, k)" using assms(11) by (simp add: mos_mutex_lock_def)
  have snd: "loopback_send buf l ?d k = Some (0, l\<lparr>lb_managed := headp (L 0), lb_send_sem := s2\<rparr>,
      c'\<lparr>cm_send_mutexes := (cm_send_mutexes c')[3 := ?mt']\<rparr>, k)"
    using f(1) s(1,4) sem(1,2) un len assms(2) by (simp add: loopback_send_def i3(1))
  have "com_send_IFACE_LOOPBACK buf l c k = Some (Some 0, l\<lparr>lb_managed := headp (L 0), lb_send_sem := s2\<rparr>,
      c'\<lparr>cm_send_mutexes := (cm_send_mutexes c')[3 := ?mt']\<rparr>, k)"
    using lock snd len assms(11) by (simp add: com_send_IFACE_LOOPBACK_def i3(1))
  moreover have "lists_ok (c'\<lparr>cm_send_mutexes := (cm_send_mutexes c')[3 := ?mt']\<rparr>) (L(4 := L 4 @ [m], 0 := tl (L 0)))"
    by (rule same_lists_ok [OF same_lists_mutexes s(2)])
  moreover have "cb_size (cm_bufs c' m) = cb_size (cm_bufs c buf)" "cb_data (cm_bufs c' m) = dat"
    using same_packetsD [OF s(3), of m] by simp_all
  ultimately show ?thesis using f(2) sem(3) len s(4) by simp
qed

section \<open>A sample\<close>

text \<open>Buffers 10, 20 and 30; 20 and 30 are free.  \<open>p\<close> is the first packet of interface 3
  and \<open>t\<close> the thread that waits there.\<close>

definition sample_packets :: "bid option \<Rightarrow> tid option \<Rightarrow> com" where
  "sample_packets p t = \<lparr>cm_bufs = (\<lambda>b. \<lparr>cb_next = if b = 20 then Some 30 else None, cb_data = replicate 64 (of_nat b),
       cb_signal = 0, cb_size = 5, cb_source = 0\<rparr>),
     cm_free = Some 20, cm_if_bufs = [None, None, None, p, None, None, None],
     cm_if_threads = [None, None, None, t, None, None, None],
     cm_send_mutexes = replicate 7 mos_mutex_init, cm_timed = \<lambda>_. \<lparr>tt_thread_ptr = 0, tt_timed_out = False\<rparr>\<rparr>"

definition sample_lists :: "bid list \<Rightarrow> nat \<Rightarrow> bid list" where
  "sample_lists xs = (\<lambda>_. [])(0 := [20, 30], 4 := xs)"

lemma sample_lists_ok:
  assumes "(p = None \<and> xs = []) \<or> (p = Some 10 \<and> xs = [10])"
  shows "lists_ok (sample_packets p t) (sample_lists xs)"
proof (rule lists_okI)
  fix i assume "i \<le> MAX_IFS"
  then have "i \<in> {0, 1, 2, 3, 4, 5, 6, 7}" by (auto simp: MAX_IFS_def)
  then have "head_of (sample_packets p t) i = (if i = 0 then Some 20 else if i = 4 then p else None)"
    by (auto simp: head_of_def sample_packets_def)
  then show "chain (bnext (sample_packets p t)) (head_of (sample_packets p t) i) (sample_lists xs i)"
    using assms by (auto simp: sample_lists_def) (simp_all add: sample_packets_def)
qed (use assms in \<open>auto simp: sample_packets_def sample_lists_def MAX_IFS_def split: if_splits\<close>)

lemma sample_listed: "b \<in> listed (sample_lists xs) \<longleftrightarrow> b \<in> {20, 30} \<or> b \<in> set xs"
proof
  assume "b \<in> {20, 30} \<or> b \<in> set xs"
  then show "b \<in> listed (sample_lists xs)"
  proof
    assume "b \<in> {20, 30}"
    then have "b \<in> set (sample_lists xs 0)" by (auto simp: sample_lists_def)
    then show ?thesis unfolding listed_member by (intro exI [of _ 0]) simp
  next
    assume "b \<in> set xs"
    then have "b \<in> set (sample_lists xs 4)" by (simp add: sample_lists_def)
    then show ?thesis unfolding listed_member by (intro exI [of _ 4]) (simp add: MAX_IFS_def)
  qed
qed (auto simp: listed_member sample_lists_def split: if_splits)

lemma sample_iface: "unat (3 :: u8) = 3" "unat (3 :: u8) < MAX_IFS"
  by (simp_all add: MAX_IFS_def)

lemma sample_threads: "cm_if_threads (sample_packets p t) ! unat (3 :: u8) = t"
  by (simp add: sample_packets_def)

lemma sample_blocked: "2 < MAX_THREADS" "t_state (k_threads sample_kernel 2) = BLOCKED"
  by (simp_all add: MAX_THREADS_def sample_fields)

lemma sample_unlisted: "10 \<notin> listed (sample_lists [])" "sample_lists [] (Suc (unat (3 :: u8))) = []"
  by (simp_all add: sample_listed) (simp add: sample_lists_def)

text \<open>Thread 2 waits on interface 3 for the packet in buffer 10.\<close>

lemmas sample_delivery = sample_lists_ok [of None "[]" "Some 2", simplified] sample_iface(2) sample_unlisted
  sample_threads [of None "Some 2"] sample_represents sample_blocked


theorem com_recv_stolen_witness:
  "\<exists>c1 k1 c2. com_swap_bufs 3 (Some 10) (sample_packets None (Some 2)) sample_kernel = Some (Some 20, c1, k1) \<and>
     com_recv 3 c1 sample_kernel = Some (Received (Some 10), c2, sample_kernel) \<and> com_recv_resumed 3 c2 = None"
proof -
  have h: "headp (sample_lists [] 0) = Some 20" by (simp add: sample_lists_def)
  from com_recv_stolen [OF sample_delivery] show ?thesis unfolding h .
qed

theorem com_flush_empties_witness:
  "\<exists>c'. com_flush 0 0 0 3 (sample_packets (Some 10) None) sample_kernel sample_clock = Some (Received None, c', sample_kernel, sample_clock) \<and>
     lists_ok c' ((sample_lists [10])(4 := [], 0 := [10, 20, 30]))"
proof -
  have L: "sample_lists [10] 4 = [10]" "sample_lists [10] 0 = [20, 30]" by (simp_all add: sample_lists_def)
  from com_flush_empties [OF sample_lists_ok [of "Some 10" "[10]" None] sample_iface(2) sample_threads, of 0 0 0 sample_kernel sample_clock]
  show ?thesis by (simp add: L) blast
qed



theorem set_ifs_bounds_witness: "set_ifs [0..<8] 0x88 (Some 1) (replicate 7 None) = None"
  using set_ifs_bounds [of "replicate 7 None" "0x88" "Some 1"] by (simp add: MAX_IFS_def)

lemma sample_idle_sem: "sem_rep sample_kernel (mos_sem_init 0) 0 []"
  by (simp add: sem_rep_def mos_sem_init_def waiting_init)

theorem loopback_delivers_witness:
  "\<exists>l' c'. com_send_IFACE_LOOPBACK 11 \<lparr>lb_managed = Some 10, lb_recv_sem = mos_sem_init 0, lb_send_sem = mos_sem_init 0\<rparr>
       (sample_packets None None) sample_kernel = Some (Some 0, l', c', sample_kernel) \<and>
     lb_managed l' = Some 20 \<and> cb_size (cm_bufs c' 10) = 5 \<and> take 5 (cb_data (cm_bufs c' 10)) = [11, 11, 11, 11, 11]"
proof -
  let ?l = "\<lparr>lb_managed = Some 10, lb_recv_sem = mos_sem_init 0, lb_send_sem = mos_sem_init 0\<rparr>"
  let ?c = "sample_packets None None"
  have c: "length (cb_data (cm_bufs ?c b)) = COM_DATA_SIZE" "cb_size (cm_bufs ?c b) = 5"
      "take 5 (cb_data (cm_bufs ?c b)) = replicate 5 (of_nat b)" "cm_if_threads ?c ! 3 = None"
      "length (cm_send_mutexes ?c) = MAX_IFS" "cm_send_mutexes ?c ! 3 = mos_mutex_init" for b
    by (simp_all add: sample_packets_def COM_DATA_SIZE_def MAX_IFS_def)
  have m: "mt_owner mos_mutex_init = None" "waiting sample_kernel (mt_q mos_mutex_init) []"
    by (simp_all add: mos_mutex_init_def waiting_init)
  have h: "headp (sample_lists [] 0) = Some 20" by (simp add: sample_lists_def)
  have "\<exists>l' c'. com_send_IFACE_LOOPBACK 11 ?l ?c sample_kernel = Some (Some 0, l', c', sample_kernel) \<and>
      lists_ok c' ((sample_lists [])(4 := sample_lists [] 4 @ [10], 0 := tl (sample_lists [] 0))) \<and> lb_managed l' = headp (sample_lists [] 0) \<and>
      cb_size (cm_bufs c' 10) = cb_size (cm_bufs ?c 11) \<and>
      take (unat (cb_size (cm_bufs ?c 11))) (cb_data (cm_bufs c' 10)) = take (unat (cb_size (cm_bufs ?c 11))) (cb_data (cm_bufs ?c 11)) \<and>
      sem_rep sample_kernel (lb_send_sem l') 0 [] \<and> mt_owner (cm_send_mutexes c' ! 3) = None"
    by (rule loopback_delivers [OF sample_lists_ok [of None "[]" None, simplified] _ sample_unlisted(1)])
      (simp_all add: c m sample_idle_sem, simp add: COM_DATA_SIZE_def)
  then obtain l' c' where r: "com_send_IFACE_LOOPBACK 11 ?l ?c sample_kernel = Some (Some 0, l', c', sample_kernel)"
    "lb_managed l' = Some 20" "cb_size (cm_bufs c' 10) = cb_size (cm_bufs ?c 11)"
    "take (unat (cb_size (cm_bufs ?c 11))) (cb_data (cm_bufs c' 10)) = take (unat (cb_size (cm_bufs ?c 11))) (cb_data (cm_bufs ?c 11))"
    unfolding h by blast
  have "take 5 (cb_data (cm_bufs c' 10)) = [11, 11, 11, 11, 11]"
    using r(4) c(3) [of 11] by (simp add: c(2)) (simp add: eval_nat_numeral)
  then show ?thesis using r(1-3) by (simp add: c(2))
qed

end
