(* ===== verification/Uart.thy ===== *)
theory Uart
  imports Com_Delivery
begin

text \<open>
  The serial interfaces (\<open>com/uart.c\<close>) as they are configured, without raw mode, on the MSP430: packets
  framed by a preamble and a size byte, one interrupt for each byte sent or received.  The code of
  the two interfaces is a macro with the number of the interface; here that number is an argument.
\<close>

section \<open>The state of an interface\<close>

definition PREAMBLE :: u8 where "PREAMBLE = 0x53"
definition PREAMBLE_SIZE :: u8 where "PREAMBLE_SIZE = 2"
definition IFACE_SERIAL :: u8 where "IFACE_SERIAL = 0"
definition IFACE_SERIAL2 :: u8 where "IFACE_SERIAL2 = 1"

datatype uart_mode = IF_OFF | IF_STANDBY | IF_IDLE | IF_LISTEN
datatype rx_state = rx_state_preamble | rx_state_size | rx_state_data
datatype tx_state = tx_state_preamble | tx_state_size | tx_state_data

text \<open>\<open>u_rx_int\<close> and \<open>u_tx_int\<close> are the interrupt enable bits.\<close>

record uart =
  u_raw :: u8
  u_tx_state :: tx_state
  u_rx_state :: rx_state
  u_rx_buf :: "bid option"
  u_tx_buf :: "bid option"
  u_rx_index :: u8
  u_tx_index :: u8
  u_tx_sem :: mos_sem
  u_rx_sem :: mos_sem
  u_rx_int :: bool
  u_tx_int :: bool

definition uart_init_one :: "u8 \<Rightarrow> uart \<Rightarrow> com \<Rightarrow> kernel \<Rightarrow> (uart \<times> com \<times> kernel) option" where
  "uart_init_one n u c k = do {
     (r, c, k) \<leftarrow> com_swap_bufs (IFACE_SERIAL + n) None c k;
     Some (u\<lparr>u_rx_int := True, u_rx_sem := mos_sem_init 0, u_tx_sem := mos_sem_init 0,
       u_rx_state := rx_state_preamble, u_tx_state := tx_state_preamble, u_rx_buf := r\<rparr>, c, k) }"

definition uart_init :: "uart \<times> uart \<Rightarrow> com \<Rightarrow> kernel \<Rightarrow> ((uart \<times> uart) \<times> com \<times> kernel) option" where
  "uart_init us c k = do {
     (u0, c, k) \<leftarrow> uart_init_one 0 (fst us) c k;
     (u1, c, k) \<leftarrow> uart_init_one 1 (snd us) c k;
     Some ((u0, u1), c, k) }"

section \<open>Sending\<close>

text \<open>Starting a transmission: the byte put into the register of the transmitter.\<close>

definition send_start :: "bid \<Rightarrow> uart \<Rightarrow> com \<Rightarrow> (u8 \<times> uart) option" where
  "send_start buf u c = do {
     let u = u\<lparr>u_tx_buf := Some buf, u_tx_index := 1\<rparr>;
     if u_raw u = 0 then Some (PREAMBLE, u\<lparr>u_tx_state := tx_state_preamble, u_tx_int := True\<rparr>)
     else do {
       b \<leftarrow> rd (cb_data (cm_bufs c buf)) 0;
       Some (b, u\<lparr>u_tx_state := tx_state_data, u_tx_int := True\<rparr>) } }"

text \<open>The call up to the point where it waits for the end of the transmission; no byte when it has to wait
  for the mutex in the first place.\<close>

definition com_send_serial :: "u8 \<Rightarrow> bid \<Rightarrow> uart \<Rightarrow> com \<Rightarrow> kernel \<Rightarrow> (u8 option \<times> uart \<times> com \<times> kernel) option" where
  "com_send_serial n buf u c k = do {
     mt \<leftarrow> rd (cm_send_mutexes c) (unat (IFACE_SERIAL + n));
     (mt', k) \<leftarrow> mos_mutex_lock mt k;
     let c = c\<lparr>cm_send_mutexes := (cm_send_mutexes c)[unat (IFACE_SERIAL + n) := mt']\<rparr>;
     if mt_owner mt \<noteq> None then Some (None, u, c, k) else do {
       (b, u) \<leftarrow> send_start buf u c;
       (s, k) \<leftarrow> mos_sem_wait (u_tx_sem u) k;
       Some (Some b, u\<lparr>u_tx_sem := s\<rparr>, c, k) } }"

definition com_send_resumed :: "u8 \<Rightarrow> com \<Rightarrow> kernel \<Rightarrow> (u8 \<times> com \<times> kernel) option" where
  "com_send_resumed n c k = do {
     mt \<leftarrow> rd (cm_send_mutexes c) (unat (IFACE_SERIAL + n));
     (mt, k) \<leftarrow> mos_mutex_unlock mt k;
     Some (0, c\<lparr>cm_send_mutexes := (cm_send_mutexes c)[unat (IFACE_SERIAL + n) := mt]\<rparr>, k) }"

text \<open>The interrupt of the transmitter, in each state: the byte it puts into the register, if any.\<close>

definition tx_preamble :: "uart \<Rightarrow> u8 option \<times> uart" where
  "tx_preamble u =
     (let i = u_tx_index u + 1 in (Some PREAMBLE, u\<lparr>u_tx_index := i,
        u_tx_state := if i = PREAMBLE_SIZE then tx_state_size else u_tx_state u\<rparr>))"

definition tx_size :: "uart \<Rightarrow> com \<Rightarrow> (u8 option \<times> uart) option" where
  "tx_size u c = do {
     b \<leftarrow> u_tx_buf u;
     Some (Some (cb_size (cm_bufs c b)), u\<lparr>u_tx_state := tx_state_data, u_tx_index := 0\<rparr>) }"

definition tx_data :: "uart \<Rightarrow> com \<Rightarrow> kernel \<Rightarrow> (u8 option \<times> uart \<times> kernel) option" where
  "tx_data u c k = do {
     b \<leftarrow> u_tx_buf u;
     if u_tx_index u = cb_size (cm_bufs c b) then do {
       let u = u\<lparr>u_tx_int := False, u_tx_index := 0, u_tx_state := tx_state_preamble\<rparr>;
       (s, k) \<leftarrow> mos_sem_post_dispatch (u_tx_sem u) k;
       Some (None, u\<lparr>u_tx_sem := s\<rparr>, k)
     } else do {
       x \<leftarrow> rd (cb_data (cm_bufs c b)) (unat (u_tx_index u));
       Some (Some x, u\<lparr>u_tx_index := u_tx_index u + 1\<rparr>, k) } }"

definition uart_tx_int :: "uart \<Rightarrow> com \<Rightarrow> kernel \<Rightarrow> (u8 option \<times> uart \<times> kernel) option" where
  "uart_tx_int u c k =
     (case u_tx_state u of
        tx_state_preamble \<Rightarrow> (case tx_preamble u of (r, u) \<Rightarrow> Some (r, u, k))
      | tx_state_size \<Rightarrow> map_option (\<lambda>(r, u). (r, u, k)) (tx_size u c)
      | tx_state_data \<Rightarrow> tx_data u c k)"

section \<open>Receiving\<close>

text \<open>The interrupt of the receiver, in each state, with the byte of its register.\<close>

definition rx_preamble :: "u8 \<Rightarrow> u8 \<Rightarrow> uart \<Rightarrow> com \<Rightarrow> kernel \<Rightarrow> (uart \<times> com \<times> kernel) option" where
  "rx_preamble n reg u c k = do {
     let u = u\<lparr>u_rx_index := (if reg = PREAMBLE then u_rx_index u + 1 else 0)\<rparr>;
     if u_rx_index u = PREAMBLE_SIZE then
       if u_rx_buf u \<noteq> None then Some (u\<lparr>u_rx_state := rx_state_size\<rparr>, c, k)
       else do {
         (r, c, k) \<leftarrow> com_swap_bufs (IFACE_SERIAL + n) None c k;
         Some (u\<lparr>u_rx_state := rx_state_preamble, u_rx_buf := r\<rparr>, c, k) }
     else Some (u, c, k) }"

definition rx_size :: "u8 \<Rightarrow> uart \<Rightarrow> com \<Rightarrow> (uart \<times> com) option" where
  "rx_size reg u c = do {
     b \<leftarrow> u_rx_buf u;
     let c = c\<lparr>cm_bufs := (cm_bufs c)(b := (cm_bufs c b)\<lparr>cb_size := reg\<rparr>)\<rparr>;
     if COM_DATA_SIZE < unat reg then Some (u\<lparr>u_rx_state := rx_state_preamble\<rparr>, c)
     else Some (u\<lparr>u_rx_state := rx_state_data, u_rx_index := 0\<rparr>, c) }"

definition rx_data :: "u8 \<Rightarrow> u8 \<Rightarrow> uart \<Rightarrow> com \<Rightarrow> kernel \<Rightarrow> (uart \<times> com \<times> kernel) option" where
  "rx_data n reg u c k = do {
     b \<leftarrow> u_rx_buf u;
     d \<leftarrow> wr (cb_data (cm_bufs c b)) (unat (u_rx_index u)) reg;
     let c = c\<lparr>cm_bufs := (cm_bufs c)(b := (cm_bufs c b)\<lparr>cb_data := d\<rparr>)\<rparr>;
     let u = u\<lparr>u_rx_index := u_rx_index u + 1\<rparr>;
     if u_rx_index u = cb_size (cm_bufs c b) then do {
       let u = u\<lparr>u_rx_state := rx_state_preamble, u_rx_index := 0\<rparr>;
       (r, c, k) \<leftarrow> com_swap_bufs (IFACE_SERIAL + n) (u_rx_buf u) c k;
       Some (u\<lparr>u_rx_buf := r\<rparr>, c, k)
     } else Some (u, c, k) }"

definition uart_rx_int :: "u8 \<Rightarrow> u8 \<Rightarrow> uart \<Rightarrow> com \<Rightarrow> kernel \<Rightarrow> (uart \<times> com \<times> kernel) option" where
  "uart_rx_int n reg u c k =
     (case u_rx_state u of
        rx_state_preamble \<Rightarrow> rx_preamble n reg u c k
      | rx_state_size \<Rightarrow> map_option (\<lambda>(u, c). (u, c, k)) (rx_size reg u c)
      | rx_state_data \<Rightarrow> rx_data n reg u c k)"

section \<open>Modes\<close>

definition com_mode_serial :: "uart_mode \<Rightarrow> uart \<Rightarrow> uart" where
  "com_mode_serial mode u =
     (if mode = IF_LISTEN then u\<lparr>u_rx_state := rx_state_preamble, u_rx_index := 0, u_rx_int := True\<rparr>
      else u\<lparr>u_rx_int := False, u_rx_state := rx_state_preamble\<rparr>)"

end
