(* ===== verification/Uart_Properties.thy ===== *)
theory Uart_Properties
  imports Uart
begin

text \<open>
  The serial interfaces: what a transmission puts on the line, and what the receiver makes of it.
\<close>

lemma unat_Suc_u8:
  assumes "unat (i :: u8) < unat (s :: u8)"
  shows "unat (i + 1) = Suc (unat i)"
proof -
  have "unat i + 1 < 256" using assms unat_u8_less [of s] by linarith
  then have "unat i + unat (1 :: u8) < 256" by simp
  then have "unat (i + 1) = unat i + unat (1 :: u8)" by (rule unat_add_u8_small)
  then show ?thesis by simp
qed

section \<open>The transmitter\<close>

text \<open>The bytes of a packet and its frame on the line.\<close>

definition packet :: "com \<Rightarrow> bid \<Rightarrow> u8 list" where
  "packet c b = take (unat (cb_size (cm_bufs c b))) (cb_data (cm_bufs c b))"

definition frame :: "com \<Rightarrow> bid \<Rightarrow> u8 list" where
  "frame c b = PREAMBLE # PREAMBLE # cb_size (cm_bufs c b) # packet c b"

text \<open>Interrupts of the transmitter, as long as they are enabled, and the bytes they send.\<close>

primrec tx_run :: "nat \<Rightarrow> uart \<Rightarrow> com \<Rightarrow> kernel \<Rightarrow> (u8 list \<times> uart \<times> kernel) option" where
  "tx_run 0 u c k = Some ([], u, k)"
| "tx_run (Suc n) u c k =
     (if u_tx_int u then do {
        (r, u, k) \<leftarrow> uart_tx_int u c k;
        (bs, u, k) \<leftarrow> tx_run n u c k;
        Some (case r of None \<Rightarrow> bs | Some b \<Rightarrow> b # bs, u, k)
      } else Some ([], u, k))"

lemma tx_run_step:
  assumes "u_tx_int u" and "uart_tx_int u c k = Some (Some b, v, k')" and "tx_run n v c k' = Some (bs, w, l)"
  shows "tx_run (Suc n) u c k = Some (b # bs, w, l)"
  using assms by simp

lemma tx_data_run:
  assumes "u_tx_state u = tx_state_data" and "u_tx_int u" and "u_tx_buf u = Some b"
    and "unat (u_tx_index u) + n = unat (cb_size (cm_bufs c b))"
    and "unat (cb_size (cm_bufs c b)) \<le> length (cb_data (cm_bufs c b))"
    and "mos_sem_post_dispatch (u_tx_sem u) k = Some (s, k')"
  shows "tx_run (Suc n) u c k = Some (drop (unat (u_tx_index u)) (packet c b),
    u\<lparr>u_tx_int := False, u_tx_index := 0, u_tx_state := tx_state_preamble, u_tx_sem := s\<rparr>, k')"
  using assms
proof (induction n arbitrary: u)
  case 0
  then have "u_tx_index u = cb_size (cm_bufs c b)" by (intro word_unat_eq_iff [THEN iffD2]) simp
  with 0 show ?case by (simp add: uart_tx_int_def tx_data_def packet_def)
next
  case (Suc n)
  let ?u = "u\<lparr>u_tx_index := u_tx_index u + 1\<rparr>"
  have i: "unat (u_tx_index u) < unat (cb_size (cm_bufs c b))" using Suc.prems(4) by simp
  then have j: "unat (u_tx_index ?u) = Suc (unat (u_tx_index u))"
    by (simp add: unat_Suc_u8)
  have ne: "u_tx_index u \<noteq> cb_size (cm_bufs c b)" using i by auto
  have nth: "packet c b ! unat (u_tx_index u) = cb_data (cm_bufs c b) ! unat (u_tx_index u)"
    and len: "unat (u_tx_index u) < length (packet c b)" using i Suc.prems(5) by (simp_all add: packet_def)
  have s: "uart_tx_int u c k = Some (Some (packet c b ! unat (u_tx_index u)), ?u, k)"
    using Suc.prems(1,3,5) i ne nth by (simp add: uart_tx_int_def tx_data_def)
  have "tx_run (Suc n) ?u c k = Some (drop (unat (u_tx_index ?u)) (packet c b),
      ?u\<lparr>u_tx_int := False, u_tx_index := 0, u_tx_state := tx_state_preamble, u_tx_sem := s\<rparr>, k')"
    by (rule Suc.IH) (use Suc.prems j in simp_all)
  then have "tx_run (Suc (Suc n)) u c k = Some (packet c b ! unat (u_tx_index u) # drop (Suc (unat (u_tx_index u))) (packet c b),
      u\<lparr>u_tx_int := False, u_tx_index := 0, u_tx_state := tx_state_preamble, u_tx_sem := s\<rparr>, k')"
    using j by (intro tx_run_step [OF Suc.prems(2) s]) simp
  then show ?case using Cons_nth_drop_Suc [OF len] by simp
qed

section \<open>The receiver\<close>

primrec rx_feed :: "u8 \<Rightarrow> u8 list \<Rightarrow> uart \<Rightarrow> com \<Rightarrow> kernel \<Rightarrow> (uart \<times> com \<times> kernel) option" where
  "rx_feed n [] u c k = Some (u, c, k)"
| "rx_feed n (b # bs) u c k = do { (u, c, k) \<leftarrow> uart_rx_int n b u c k; rx_feed n bs u c k }"

lemma rx_feed_append: "rx_feed n (as @ bs) u c k = do { (u, c, k) \<leftarrow> rx_feed n as u c k; rx_feed n bs u c k }"
  by (induction as arbitrary: u c k) (auto split: Option.bind_splits)

text \<open>Waiting for a packet, with a buffer.\<close>

definition rx_ready :: "uart \<Rightarrow> bid \<Rightarrow> bool" where
  "rx_ready u m \<longleftrightarrow> u_rx_state u = rx_state_preamble \<and> u_rx_index u = 0 \<and> u_rx_buf u = Some m"

abbreviation put_data :: "bid \<Rightarrow> u8 list \<Rightarrow> com \<Rightarrow> com" where
  "put_data m d c \<equiv> c\<lparr>cm_bufs := (cm_bufs c)(m := (cm_bufs c m)\<lparr>cb_data := d\<rparr>)\<rparr>"

abbreviation put_size :: "bid \<Rightarrow> u8 \<Rightarrow> com \<Rightarrow> com" where
  "put_size m s c \<equiv> c\<lparr>cm_bufs := (cm_bufs c)(m := (cm_bufs c m)\<lparr>cb_size := s\<rparr>)\<rparr>"

lemma put_put: "put_data m d (put_data m e c) = put_data m d c"
  by (rule com.equality) (auto simp: fun_eq_iff)

lemma put_same:
  "cb_data (cm_bufs (put_data m d c) m) = d" "cb_size (cm_bufs (put_data m d c) x) = cb_size (cm_bufs c x)"
  by simp_all

lemma rx_head:
  assumes "rx_ready u m"
  shows "rx_feed n (PREAMBLE # PREAMBLE # s # bs) u c k =
    (if COM_DATA_SIZE < unat s then rx_feed n bs (u\<lparr>u_rx_index := 2\<rparr>) (put_size m s c) k
     else rx_feed n bs (u\<lparr>u_rx_state := rx_state_data\<rparr>) (put_size m s c) k)"
  using assms by (cases u) (simp add: rx_ready_def uart_rx_int_def rx_preamble_def rx_size_def PREAMBLE_SIZE_def Let_def)

lemma rx_data_run:
  assumes "u_rx_state u = rx_state_data" and "u_rx_buf u = Some m" and "bs \<noteq> []"
    and "unat (u_rx_index u) + length bs = unat (cb_size (cm_bufs c m))"
    and "unat (cb_size (cm_bufs c m)) \<le> length (cb_data (cm_bufs c m))"
  shows "rx_feed n bs u c k = Option.bind (com_swap_bufs (IFACE_SERIAL + n) (Some m)
      (put_data m (take (unat (u_rx_index u)) (cb_data (cm_bufs c m)) @ bs @
         drop (unat (cb_size (cm_bufs c m))) (cb_data (cm_bufs c m))) c) k)
    (\<lambda>(r, c, k). Some (u\<lparr>u_rx_state := rx_state_preamble, u_rx_index := 0, u_rx_buf := r\<rparr>, c, k))"
  using assms
proof (induction bs arbitrary: u c)
  case (Cons x bs)
  let ?d = "cb_data (cm_bufs c m)" and ?s = "cb_size (cm_bufs c m)" and ?i = "unat (u_rx_index u)"
  have i: "?i < unat ?s" "?i < length ?d" using Cons.prems(4,5) by simp_all
  have j: "unat (u_rx_index u + 1) = Suc ?i" using i(1) by (rule unat_Suc_u8)
  let ?c = "put_data m (?d[?i := x]) c"
  show ?case
  proof (cases "bs = []")
    case True
    then have "u_rx_index u + 1 = ?s" using Cons.prems(4) j by (intro word_unat_eq_iff [THEN iffD2]) simp
    moreover have "?d[?i := x] = take ?i ?d @ x # drop (unat ?s) ?d"
      using upd_conv_take_nth_drop [OF i(2), of x] Cons.prems(4) True by simp
    ultimately have "uart_rx_int n x u c k = Option.bind
        (com_swap_bufs (IFACE_SERIAL + n) (Some m) (put_data m (take ?i ?d @ x # drop (unat ?s) ?d) c) k)
        (\<lambda>(r, c, k). Some (u\<lparr>u_rx_state := rx_state_preamble, u_rx_index := 0, u_rx_buf := r\<rparr>, c, k))"
      using Cons.prems(1,2) i(2) by (simp add: uart_rx_int_def rx_data_def Let_def fun_upd_same del: fun_upd_apply)
    then show ?thesis using True by (simp add: case_prod_unfold del: fun_upd_apply)
  next
    case False
    let ?u = "u\<lparr>u_rx_index := u_rx_index u + 1\<rparr>"
    have ne: "u_rx_index u + 1 \<noteq> ?s" using j Cons.prems(4) False by auto
    have s: "uart_rx_int n x u c k = Some (?u, ?c, k)" using Cons.prems(1,2) i ne by (simp add: uart_rx_int_def rx_data_def Let_def)
    have t: "take (Suc ?i) (?d[?i := x]) = take ?i ?d @ [x]" using i(2) by (simp add: take_Suc_conv_app_nth)
    have e: "drop (unat ?s) (?d[?i := x]) = drop (unat ?s) ?d" using i(1) by simp
    have ih: "u_rx_state ?u = rx_state_data" "u_rx_buf ?u = Some m" "unat (u_rx_index ?u) + length bs = unat (cb_size (cm_bufs ?c m))"
      "unat (cb_size (cm_bufs ?c m)) \<le> length (cb_data (cm_bufs ?c m))" using Cons.prems j by simp_all
    have "take (unat (u_rx_index ?u)) (cb_data (cm_bufs ?c m)) @ bs @ drop (unat (cb_size (cm_bufs ?c m))) (cb_data (cm_bufs ?c m)) =
        take ?i ?d @ (x # bs) @ drop (unat ?s) ?d" using j t e by simp
    note r = Cons.IH [OF ih(1,2) False ih(3,4), unfolded this put_put]
    show ?thesis unfolding rx_feed.simps s by (simp add: r del: fun_upd_apply)
  qed
qed simp

lemma rx_frame:
  assumes r: "rx_ready u m" and s: "length bs = unat s" "bs \<noteq> []" "unat s \<le> COM_DATA_SIZE"
    and d: "length (cb_data (cm_bufs c m)) = COM_DATA_SIZE"
  shows "rx_feed n (PREAMBLE # PREAMBLE # s # bs) u c k = Option.bind
    (com_swap_bufs (IFACE_SERIAL + n) (Some m) (put_data m (bs @ drop (unat s) (cb_data (cm_bufs c m))) (put_size m s c)) k)
    (\<lambda>(r, c, k). Some (u\<lparr>u_rx_buf := r\<rparr>, c, k))"
proof -
  let ?u = "u\<lparr>u_rx_state := rx_state_data\<rparr>"
  have e: "rx_feed n (PREAMBLE # PREAMBLE # s # bs) u c k = rx_feed n bs ?u (put_size m s c) k"
    using rx_head [OF r] s(3) by simp
  have i: "unat (u_rx_index u) = 0" and b: "u_rx_buf ?u = Some m" using r by (simp_all add: rx_ready_def)
  have eq: "?u\<lparr>u_rx_state := rx_state_preamble, u_rx_index := 0, u_rx_buf := x\<rparr> = u\<lparr>u_rx_buf := x\<rparr>" for x
    using r by (cases u) (simp add: rx_ready_def)
  show ?thesis
    unfolding e eq [symmetric]
    using rx_data_run [of ?u m bs "put_size m s c" n k] s d i b by simp
qed

section \<open>Packets in a row\<close>

lemma iface_serial: "unat n \<le> 1 \<Longrightarrow> unat (IFACE_SERIAL + n) = unat n" "unat n \<le> 1 \<Longrightarrow> unat (IFACE_SERIAL + n) < MAX_IFS"
  by (simp_all add: IFACE_SERIAL_def MAX_IFS_def)

lemma put_same_lists: "same_lists c (put_data m d c)" "same_lists c (put_size m s c)"
  by (simp_all add: same_lists_def head_of_def fun_eq_iff)

lemma same_packets_packet: "same_packets c c' \<Longrightarrow> packet c' b = packet c b"
  by (simp add: packet_def same_packetsD)

text \<open>The frame of buffer \<open>b\<close> of the sender \<open>cs\<close> arrives in the receiver's buffer \<open>m\<close>.\<close>

lemma rx_frame_delivers:
  assumes r: "rx_ready u m" and n: "unat n \<le> 1" and c: "lists_ok c L" "m \<notin> listed L" and w: "cm_if_threads c ! unat n = None"
    and b: "0 < unat (cb_size (cm_bufs cs b))" "unat (cb_size (cm_bufs cs b)) \<le> COM_DATA_SIZE"
      "length (cb_data (cm_bufs cs b)) = COM_DATA_SIZE"
    and d: "\<And>x. length (cb_data (cm_bufs c x)) = COM_DATA_SIZE"
  shows "\<exists>c'. rx_feed n (frame cs b) u c k = Some (u\<lparr>u_rx_buf := headp (L 0)\<rparr>, c', k) \<and>
    lists_ok c' (L(Suc (unat n) := L (Suc (unat n)) @ [m], 0 := tl (L 0))) \<and> cm_if_threads c' = cm_if_threads c \<and>
    packet c' m = packet cs b \<and> (\<forall>x. x \<noteq> m \<longrightarrow> packet c' x = packet c x) \<and>
    (\<forall>x. length (cb_data (cm_bufs c' x)) = COM_DATA_SIZE)"
proof -
  let ?s = "cb_size (cm_bufs cs b)"
  have l: "length (packet cs b) = unat ?s" "packet cs b \<noteq> []" using b by (auto simp: packet_def)
  let ?d = "packet cs b @ drop (unat ?s) (cb_data (cm_bufs c m))"
  let ?c = "put_data m ?d (put_size m ?s c)"
  have "lists_ok ?c L" by (intro same_lists_ok [OF put_same_lists(1)] same_lists_ok [OF put_same_lists(2)] c(1))
  from swap_unawaited [OF this iface_serial(2) [OF n] c(2), of k] w obtain c' where
    s: "com_swap_bufs (IFACE_SERIAL + n) (Some m) ?c k = Some (headp (L 0), c', k)"
      "lists_ok c' (L(Suc (unat n) := L (Suc (unat n)) @ [m], 0 := tl (L 0)))" "same_packets ?c c'"
      "cm_if_threads c' = cm_if_threads c" by (auto simp: iface_serial(1) [OF n])
  have "rx_feed n (frame cs b) u c k = Some (u\<lparr>u_rx_buf := headp (L 0)\<rparr>, c', k)"
    unfolding frame_def using rx_frame [OF r l b(2) d, of n k] s(1) by simp
  moreover have "packet c' m = packet cs b" using same_packets_packet [OF s(3), of m] l by (simp add: packet_def)
  moreover have "packet c' x = packet c x" if "x \<noteq> m" for x using same_packets_packet [OF s(3), of x] that by (simp add: packet_def)
  moreover have "length (cb_data (cm_bufs c' x)) = COM_DATA_SIZE" for x
    using same_packetsD(1) [OF s(3), of x] d [of x] d [of m] l b by auto
  ultimately show ?thesis using s(2,4) by blast
qed

lemma rx_stream:
  assumes "rx_ready u m" and n: "unat n \<le> 1" and "lists_ok c L" "m \<notin> listed L" and "cm_if_threads c ! unat n = None"
    and b: "\<forall>b \<in> set bs. 0 < unat (cb_size (cm_bufs cs b)) \<and> unat (cb_size (cm_bufs cs b)) \<le> COM_DATA_SIZE \<and>
      length (cb_data (cm_bufs cs b)) = COM_DATA_SIZE"
    and "\<forall>x. length (cb_data (cm_bufs c x)) = COM_DATA_SIZE" and "length bs \<le> Suc (length (L 0))"
  shows "\<exists>u' c' L'. rx_feed n (concat (map (frame cs) bs)) u c k = Some (u', c', k) \<and> lists_ok c' L' \<and>
    L' (Suc (unat n)) = L (Suc (unat n)) @ take (length bs) (m # L 0) \<and>
    map (packet c') (take (length bs) (m # L 0)) = map (packet cs) bs \<and>
    (\<forall>x. x \<notin> set (take (length bs) (m # L 0)) \<longrightarrow> packet c' x = packet c x)"
  using assms
proof (induction bs arbitrary: u m c L)
  case Nil
  then show ?case by auto
next
  case (Cons b bs)
  from Cons.prems(6) have b: "0 < unat (cb_size (cm_bufs cs b))" "unat (cb_size (cm_bufs cs b)) \<le> COM_DATA_SIZE"
    "length (cb_data (cm_bufs cs b)) = COM_DATA_SIZE" by simp_all
  let ?i = "Suc (unat n)"
  let ?L = "L(?i := L ?i @ [m], 0 := tl (L 0))" and ?u = "u\<lparr>u_rx_buf := headp (L 0)\<rparr>"
  from rx_frame_delivers [OF Cons.prems(1) n Cons.prems(3-5) b Cons.prems(7) [rule_format]] obtain c1 where
    c1: "rx_feed n (frame cs b) u c k = Some (?u, c1, k)" "lists_ok c1 ?L" "cm_if_threads c1 = cm_if_threads c"
      "packet c1 m = packet cs b" "\<And>x. x \<noteq> m \<Longrightarrow> packet c1 x = packet c x"
      "\<forall>x. length (cb_data (cm_bufs c1 x)) = COM_DATA_SIZE" by blast
  show ?case
  proof (cases "bs = []")
    case True
    have "rx_feed n (concat (map (frame cs) (b # bs))) u c k = Some (?u, c1, k)" using c1(1) True by (simp add: rx_feed_append)
    moreover have "\<forall>x. x \<notin> set (take (length (b # bs)) (m # L 0)) \<longrightarrow> packet c1 x = packet c x" using c1(5) by auto
    moreover have "?L ?i = L ?i @ take (length (b # bs)) (m # L 0)"
      "map (packet c1) (take (length (b # bs)) (m # L 0)) = map (packet cs) (b # bs)" using c1(4) True by simp_all
    ultimately show ?thesis using c1(2) by blast
  next
    case False
    then obtain f fs where L0: "L 0 = f # fs" using Cons.prems(8) by (cases "L 0") (cases bs; simp)+
    have i: "?i \<le> MAX_IFS" using n by (simp add: MAX_IFS_def)
    note d = lists_okD [OF Cons.prems(3)]
    have mem: "f \<in> set (L 0)" "set fs \<subseteq> set (L 0)" "f \<notin> set fs" using L0 d(4) [of 0] by auto
    have mL: "m \<notin> set (L j)" if "j \<le> MAX_IFS" for j using Cons.prems(4) that by (auto simp: listed_member)
    have fm: "f \<noteq> m" "m \<notin> set fs" using mL [of 0] mem by auto
    have fj: "f \<notin> set (L j)" if "j \<le> MAX_IFS" "j \<noteq> 0" for j using d(5) [of 0 j f] that mem(1) by simp
    have nf: "f \<notin> listed ?L" using fj mem(3) fm(1) L0 i by (auto simp: listed_member split: if_split_asm)
    have r: "rx_ready ?u f" using Cons.prems(1) L0 by (simp add: rx_ready_def)
    have len: "length bs \<le> Suc (length (?L 0))" using Cons.prems(8) L0 by simp
    have ih: "rx_ready ?u f" "lists_ok c1 ?L" "f \<notin> listed ?L" "cm_if_threads c1 ! unat n = None"
      "\<forall>b \<in> set bs. 0 < unat (cb_size (cm_bufs cs b)) \<and> unat (cb_size (cm_bufs cs b)) \<le> COM_DATA_SIZE \<and>
        length (cb_data (cm_bufs cs b)) = COM_DATA_SIZE"
      using r c1(2,3) nf Cons.prems(5,6) by simp_all
    from Cons.IH [OF ih(1) n ih(2-5) c1(6) len] obtain u' c' L' where
      t: "rx_feed n (concat (map (frame cs) bs)) ?u c1 k = Some (u', c', k)" "lists_ok c' L'"
        "L' ?i = L ?i @ [m] @ take (length bs) (f # fs)" "map (packet c') (take (length bs) (f # fs)) = map (packet cs) bs"
        "\<And>x. x \<notin> set (take (length bs) (f # fs)) \<Longrightarrow> packet c' x = packet c1 x"
      by (auto simp: L0)
    have nm: "m \<notin> set (take (length bs) (f # fs))" using fm by (auto dest: in_set_takeD)
    have "packet c' m = packet cs b" using t(5) [OF nm] c1(4) by simp
    moreover have "packet c' x = packet c x" if "x \<notin> set (take (Suc (length bs)) (m # L 0))" for x
      using t(5) [of x] c1(5) [of x] that by (auto simp: L0)
    moreover have "rx_feed n (concat (map (frame cs) (b # bs))) u c k = Some (u', c', k)"
      using c1(1) t(1) by (simp add: rx_feed_append)
    ultimately show ?thesis using t(2-4) by (intro exI [of _ u'] exI [of _ c'] exI [of _ L']) (simp add: L0)
  qed
qed

section \<open>An empty packet\<close>

lemma rx_overrun:
  assumes "u_rx_state u = rx_state_data" and "u_rx_buf u = Some m" and "cb_size (cm_bufs c m) = 0"
    and "length (cb_data (cm_bufs c m)) = COM_DATA_SIZE" and "unat (u_rx_index u) + length xs = Suc COM_DATA_SIZE"
    and "unat (u_rx_index u) \<le> COM_DATA_SIZE"
  shows "rx_feed n xs u c k = None"
  using assms
proof (induction xs arbitrary: u c)
  case (Cons x xs)
  show ?case
  proof (cases "unat (u_rx_index u) = COM_DATA_SIZE")
    case True
    then have "uart_rx_int n x u c k = None" using Cons.prems(1-4) by (simp add: uart_rx_int_def rx_data_def wr_def)
    then show ?thesis by simp
  next
    case False
    then have i: "unat (u_rx_index u) < COM_DATA_SIZE" using Cons.prems(6) by simp
    then have j: "unat (u_rx_index u + 1) = Suc (unat (u_rx_index u))"
      by (intro unat_Suc_u8 [of _ 64]) (simp add: COM_DATA_SIZE_def)
    then have ne: "u_rx_index u + 1 \<noteq> 0" by (metis nat.distinct(1) unat_0)
    let ?c = "put_data m ((cb_data (cm_bufs c m))[unat (u_rx_index u) := x]) c"
    let ?u = "u\<lparr>u_rx_index := u_rx_index u + 1\<rparr>"
    have s: "uart_rx_int n x u c k = Some (?u, ?c, k)"
      using Cons.prems(1-4) i ne by (simp add: uart_rx_int_def rx_data_def Let_def)
    have "rx_feed n xs ?u ?c k = None" by (rule Cons.IH) (use Cons.prems i j in simp_all)
    then show ?thesis by (simp add: s)
  qed
qed simp

section \<open>Properties\<close>

text \<open>C34. A transmission sends the frame of its packet.  After the call has put the first byte into the
  register, the interrupts of the transmitter send the rest of two preamble bytes, the size and the
  bytes of the packet; then the interrupt is disabled, the state machine is as before the call, and the
  semaphore on which the sending thread waits is posted, once.\<close>
theorem uart_send_frame:
  assumes "send_start b u c = Some (x, v)" and "u_raw u = 0"
    and "unat (cb_size (cm_bufs c b)) \<le> length (cb_data (cm_bufs c b))"
    and "mos_sem_post_dispatch (u_tx_sem u) k = Some (s, k')"
  shows "\<exists>bs. tx_run (unat (cb_size (cm_bufs c b)) + 3) v c k = Some (bs,
      u\<lparr>u_tx_buf := Some b, u_tx_int := False, u_tx_index := 0, u_tx_state := tx_state_preamble, u_tx_sem := s\<rparr>, k') \<and>
    x # bs = frame c b"
proof -
  let ?n = "unat (cb_size (cm_bufs c b))"
  let ?v = "u\<lparr>u_tx_buf := Some b, u_tx_index := 1, u_tx_state := tx_state_preamble, u_tx_int := True\<rparr>"
  let ?w = "?v\<lparr>u_tx_index := 0, u_tx_state := tx_state_data\<rparr>"
  have v: "x = PREAMBLE" "v = ?v" using assms(1,2) by (auto simp: send_start_def Let_def)
  have w: "tx_run (Suc ?n) ?w c k = Some (packet c b,
      ?w\<lparr>u_tx_int := False, u_tx_index := 0, u_tx_state := tx_state_preamble, u_tx_sem := s\<rparr>, k')"
    using tx_data_run [of ?w b ?n c k s k'] assms(3,4) by simp
  have p: "uart_tx_int ?v c k = Some (Some PREAMBLE, ?v\<lparr>u_tx_index := 2, u_tx_state := tx_state_size\<rparr>, k)"
    by (simp add: uart_tx_int_def tx_preamble_def PREAMBLE_SIZE_def)
  have z: "uart_tx_int (?v\<lparr>u_tx_index := 2, u_tx_state := tx_state_size\<rparr>) c k = Some (Some (cb_size (cm_bufs c b)), ?w, k)"
    by (simp add: uart_tx_int_def tx_size_def)
  have e: "?n + 3 = Suc (Suc (Suc ?n))" by simp
  have "tx_run (?n + 3) v c k = Some (PREAMBLE # cb_size (cm_bufs c b) # packet c b,
      ?w\<lparr>u_tx_int := False, u_tx_index := 0, u_tx_state := tx_state_preamble, u_tx_sem := s\<rparr>, k')"
    unfolding e v by (rule tx_run_step [OF _ p tx_run_step [OF _ z w]]) simp_all
  then show ?thesis by (simp add: v frame_def)
qed


text \<open>An empty packet makes the receiver write beyond its buffer.  The state for data bytes stores a byte
  before it compares the index with the size, so after a size of 0 it goes on with the bytes that
  follow, whatever they are; the byte after \<open>COM_DATA_SIZE\<close> of them is stored outside the buffer.\<close>
theorem uart_empty_packet_overruns:
  assumes "rx_ready u m" and "length (cb_data (cm_bufs c m)) = COM_DATA_SIZE" and "length xs = Suc COM_DATA_SIZE"
  shows "rx_feed n (PREAMBLE # PREAMBLE # 0 # xs) u c k = None"
proof -
  have "rx_feed n xs (u\<lparr>u_rx_state := rx_state_data\<rparr>) (put_size m 0 c) k = None"
    using assms by (intro rx_overrun [where m = m]) (simp_all add: rx_ready_def)
  then show ?thesis using rx_head [OF assms(1)] by simp
qed

text \<open>A frame that follows a bad size byte is lost.  When the size is too large the receiver goes back
  to waiting for a preamble without resetting its index, so the two preamble bytes of a frame that
  follows at once are counted as the third and fourth, and the receiver does not start.\<close>
theorem uart_bad_size_deafens:
  assumes "rx_ready u m" and "COM_DATA_SIZE < unat s"
  shows "rx_feed n (PREAMBLE # PREAMBLE # s # PREAMBLE # [PREAMBLE]) u c k = Some (u\<lparr>u_rx_index := 4\<rparr>, put_size m s c, k)"
  unfolding rx_head [OF assms(1)] using assms
  by (simp add: rx_ready_def uart_rx_int_def rx_preamble_def PREAMBLE_SIZE_def)

section \<open>Samples\<close>

definition sample_uart :: uart where
  "sample_uart = \<lparr>u_raw = 0, u_tx_state = tx_state_preamble, u_rx_state = rx_state_preamble, u_rx_buf = Some 10, u_tx_buf = None,
     u_rx_index = 0, u_tx_index = 0, u_tx_sem = mos_sem_init 0, u_rx_sem = mos_sem_init 0, u_rx_int = True, u_tx_int = False\<rparr>"

lemma sample_rx_ready: "rx_ready sample_uart 10"
  by (simp add: rx_ready_def sample_uart_def)

lemma sample_data: "length (cb_data (cm_bufs (sample_packets p t) x)) = COM_DATA_SIZE" "cb_size (cm_bufs (sample_packets p t) x) = 5"
  by (simp_all add: sample_packets_def COM_DATA_SIZE_def)

theorem uart_send_frame_witness:
  "\<exists>bs v k'. tx_run (unat (5 :: u8) + 3) (sample_uart\<lparr>u_tx_buf := Some 10, u_tx_index := 1, u_tx_int := True\<rparr>) (sample_packets None None) sample_kernel =
     Some (bs, v, k') \<and> PREAMBLE # bs = frame (sample_packets None None) 10"
proof -
  let ?v = "sample_uart\<lparr>u_tx_buf := Some 10, u_tx_index := 1, u_tx_int := True\<rparr>"
  have s: "send_start 10 sample_uart (sample_packets None None) = Some (PREAMBLE, ?v)"
    by (simp add: send_start_def sample_uart_def Let_def)
  from sem_post_none [OF sample_idle_sem] obtain t where
    "mos_sem_post_dispatch (u_tx_sem sample_uart) sample_kernel = Some (t, sample_kernel)" by (auto simp: sample_uart_def)
  from uart_send_frame [OF s _ _ this] sample_data [of None None 10]
  show ?thesis by (auto simp: sample_uart_def COM_DATA_SIZE_def)
qed


theorem uart_empty_packet_overruns_witness:
  "rx_feed 1 (PREAMBLE # PREAMBLE # 0 # replicate 65 0) sample_uart (sample_packets None None) sample_kernel = None"
  by (rule uart_empty_packet_overruns [OF sample_rx_ready sample_data(1)]) (simp add: COM_DATA_SIZE_def)

theorem uart_bad_size_deafens_witness:
  "\<exists>c'. rx_feed 1 (PREAMBLE # PREAMBLE # 65 # PREAMBLE # [PREAMBLE]) sample_uart (sample_packets None None) sample_kernel =
     Some (sample_uart\<lparr>u_rx_index := 4\<rparr>, c', sample_kernel)"
  using uart_bad_size_deafens [OF sample_rx_ready, of 65 1 "sample_packets None None" sample_kernel] by (auto simp: COM_DATA_SIZE_def)

end
