(* ===== verification/Tree_Lib.thy ===== *)
theory Tree_Lib
  imports Mem "HOL-Library.Tree"
begin

text \<open>
  The search tree of the library (\<open>lib/tree.c\<close>): nodes with a key and pointers to their children and
  their parent, allocated from the heap.  The bytes of the heap belong to \<open>Mem\<close>; here the nodes
  are a function of their address.
\<close>

section \<open>The state\<close>

definition TREE_OK :: u8 where "TREE_OK = 0"
definition TREE_NODE_EXISTS :: u8 where "TREE_NODE_EXISTS = 1"
definition TREE_NODE_NOT_FOUND :: u8 where "TREE_NODE_NOT_FOUND = 2"
definition TREE_OUT_OF_MEM :: u8 where "TREE_OUT_OF_MEM = 3"
definition TREE_INVALID_ROTATION :: u8 where "TREE_INVALID_ROTATION = 4"

text \<open>\<open>sizeof(struct node_t)\<close>: a key and three pointers.\<close>

definition sizeof_tree_node :: u16 where "sizeof_tree_node = 8"

record tree_node =
  tn_key :: u16
  tn_left :: "nat option"
  tn_right :: "nat option"
  tn_p :: "nat option"

type_synonym tnodes = "nat \<Rightarrow> tree_node"

record tree_state =
  ts_nodes :: tnodes
  ts_root :: "nat option"
  ts_mem :: mem

definition get_root :: "tree_state \<Rightarrow> nat option" where
  "get_root s = ts_root s"

abbreviation set_left :: "nat \<Rightarrow> nat option \<Rightarrow> tnodes \<Rightarrow> tnodes" where
  "set_left x v h \<equiv> h(x := (h x)\<lparr>tn_left := v\<rparr>)"

abbreviation set_right :: "nat \<Rightarrow> nat option \<Rightarrow> tnodes \<Rightarrow> tnodes" where
  "set_right x v h \<equiv> h(x := (h x)\<lparr>tn_right := v\<rparr>)"

abbreviation set_p :: "nat \<Rightarrow> nat option \<Rightarrow> tnodes \<Rightarrow> tnodes" where
  "set_p x v h \<equiv> h(x := (h x)\<lparr>tn_p := v\<rparr>)"

section \<open>Rotations\<close>

definition right_rotate :: "nat \<Rightarrow> tnodes \<Rightarrow> (u8 \<times> tnodes) option" where
  "right_rotate x h =
     (case tn_left (h x) of
        None \<Rightarrow> Some (TREE_INVALID_ROTATION, h)
      | Some y \<Rightarrow> do {
          let h = set_p y (tn_p (h x)) h;
          let h = (case tn_p (h x) of
                     None \<Rightarrow> h
                   | Some q \<Rightarrow> if tn_right (h q) = Some x then set_right q (tn_left (h x)) h
                              else set_left q (tn_left (h x)) h);
          l \<leftarrow> tn_left (h x);
          let h = (case tn_right (h l) of None \<Rightarrow> h | Some b \<Rightarrow> set_p b (Some x) h);
          let h = set_p x (tn_left (h x)) h;
          l \<leftarrow> tn_left (h x);
          let h = set_left x (tn_right (h l)) h;
          q \<leftarrow> tn_p (h x);
          Some (TREE_OK, set_right q (Some x) h) })"

definition left_rotate :: "nat \<Rightarrow> tnodes \<Rightarrow> (u8 \<times> tnodes) option" where
  "left_rotate x h =
     (case tn_right (h x) of
        None \<Rightarrow> Some (TREE_INVALID_ROTATION, h)
      | Some y \<Rightarrow> do {
          let h = set_p y (tn_p (h x)) h;
          let h = (case tn_p (h x) of
                     None \<Rightarrow> h
                   | Some q \<Rightarrow> if tn_left (h q) = Some x then set_left q (tn_right (h x)) h
                              else set_right q (tn_right (h x)) h);
          r \<leftarrow> tn_right (h x);
          let h = (case tn_left (h r) of None \<Rightarrow> h | Some b \<Rightarrow> set_p b (Some x) h);
          let h = set_p x (tn_right (h x)) h;
          r \<leftarrow> tn_right (h x);
          let h = set_right x (tn_left (h r)) h;
          q \<leftarrow> tn_p (h x);
          Some (TREE_OK, set_left q (Some x) h) })"

section \<open>Searching\<close>

text \<open>A search in a cyclic structure need not end.\<close>

partial_function (option) find_loop :: "u16 \<Rightarrow> tnodes \<Rightarrow> nat option \<Rightarrow> nat option option" where
  "find_loop key h current =
     (case current of
        None \<Rightarrow> Some None
      | Some x \<Rightarrow>
          if key = tn_key (h x) then Some (Some x)
          else if key < tn_key (h x) then find_loop key h (tn_left (h x))
          else find_loop key h (tn_right (h x)))"

definition find_node :: "u16 \<Rightarrow> tree_state \<Rightarrow> nat option option" where
  "find_node key s = find_loop key (ts_nodes s) (ts_root s)"

definition find_tree :: "u16 \<Rightarrow> tree_state \<Rightarrow> nat option option" where
  "find_tree key s = find_loop key (ts_nodes s) (ts_root s)"

definition right_rotate_node :: "u16 \<Rightarrow> tree_state \<Rightarrow> (u8 \<times> tree_state) option" where
  "right_rotate_node key s = do {
     r \<leftarrow> find_node key s;
     case r of
       None \<Rightarrow> Some (TREE_NODE_NOT_FOUND, s)
     | Some x \<Rightarrow> do { (v, h) \<leftarrow> right_rotate x (ts_nodes s); Some (v, s\<lparr>ts_nodes := h\<rparr>) } }"

definition left_rotate_node :: "u16 \<Rightarrow> tree_state \<Rightarrow> (u8 \<times> tree_state) option" where
  "left_rotate_node key s = do {
     r \<leftarrow> find_node key s;
     case r of
       None \<Rightarrow> Some (TREE_NODE_NOT_FOUND, s)
     | Some x \<Rightarrow> do { (v, h) \<leftarrow> left_rotate x (ts_nodes s); Some (v, s\<lparr>ts_nodes := h\<rparr>) } }"

partial_function (option) min_loop :: "tnodes \<Rightarrow> nat \<Rightarrow> nat option" where
  "min_loop h current = (case tn_left (h current) of None \<Rightarrow> Some current | Some l \<Rightarrow> min_loop h l)"

partial_function (option) max_loop :: "tnodes \<Rightarrow> nat \<Rightarrow> nat option" where
  "max_loop h current = (case tn_right (h current) of None \<Rightarrow> Some current | Some r \<Rightarrow> max_loop h r)"

definition get_min :: "tree_state \<Rightarrow> nat option option" where
  "get_min s = (case ts_root s of None \<Rightarrow> Some None | Some x \<Rightarrow> map_option Some (min_loop (ts_nodes s) x))"

definition get_max :: "tree_state \<Rightarrow> nat option option" where
  "get_max s = (case ts_root s of None \<Rightarrow> Some None | Some x \<Rightarrow> map_option Some (max_loop (ts_nodes s) x))"

partial_function (option) rcount_nodes :: "tnodes \<Rightarrow> nat option \<Rightarrow> u16 \<Rightarrow> u16 option" where
  "rcount_nodes h p node_count =
     (case p of
        None \<Rightarrow> Some node_count
      | Some x \<Rightarrow> do {
          node_count \<leftarrow> rcount_nodes h (tn_left (h x)) (node_count + 1);
          rcount_nodes h (tn_right (h x)) node_count })"

definition count_nodes :: "nat option \<Rightarrow> tree_state \<Rightarrow> u16 option" where
  "count_nodes p s = rcount_nodes (ts_nodes s) p 0"

partial_function (option) rtotal :: "tnodes \<Rightarrow> nat option \<Rightarrow> u16 \<Rightarrow> u16 option" where
  "rtotal h p value_total =
     (case p of
        None \<Rightarrow> Some value_total
      | Some x \<Rightarrow> do {
          value_total \<leftarrow> rtotal h (tn_left (h x)) (value_total + tn_key (h x));
          rtotal h (tn_right (h x)) value_total })"

definition get_total :: "nat option \<Rightarrow> tree_state \<Rightarrow> u16 option" where
  "get_total p s = rtotal (ts_nodes s) p 0"

section \<open>Insertion and deletion\<close>

text \<open>The search for the place of a new key: the last node visited, or \<open>None\<close> when the key exists.\<close>

partial_function (option) insert_loop :: "u16 \<Rightarrow> tnodes \<Rightarrow> nat option \<Rightarrow> nat option \<Rightarrow> nat option option option" where
  "insert_loop key h parent current =
     (if current = None then Some (Some parent)
      else if key = tn_key (h (the current)) then Some None
      else if key < tn_key (h (the current)) then insert_loop key h current (tn_left (h (the current)))
      else insert_loop key h current (tn_right (h (the current))))"

definition insert_at :: "u16 \<Rightarrow> nat option \<Rightarrow> nat \<Rightarrow> tree_state \<Rightarrow> tree_state" where
  "insert_at key parent x s =
     (let h = (ts_nodes s)(x := \<lparr>tn_key = key, tn_left = None, tn_right = None, tn_p = parent\<rparr>) in
      case parent of
        None \<Rightarrow> s\<lparr>ts_nodes := h, ts_root := Some x\<rparr>
      | Some q \<Rightarrow> s\<lparr>ts_nodes := if key < tn_key (h q) then set_left q (Some x) h
                    else if tn_key (h q) < key then set_right q (Some x) h else h\<rparr>)"

definition insert_tree :: "u16 \<Rightarrow> tree_state \<Rightarrow> (u8 \<times> tree_state) option" where
  "insert_tree key s = do {
     r \<leftarrow> insert_loop key (ts_nodes s) None (ts_root s);
     case r of
       None \<Rightarrow> Some (TREE_NODE_EXISTS, s)
     | Some parent \<Rightarrow> do {
         (x, m) \<leftarrow> mos_mem_alloc sizeof_tree_node (ts_mem s);
         let s = s\<lparr>ts_mem := m\<rparr>;
         case x of
           None \<Rightarrow> Some (TREE_OUT_OF_MEM, s)
         | Some x \<Rightarrow> Some (TREE_OK, insert_at key parent x s) } }"

text \<open>Taking \<open>y\<close>, which has at most one child \<open>x\<close>, out of the chain from its parent.\<close>

definition unchain :: "nat \<Rightarrow> tree_state \<Rightarrow> tree_state" where
  "unchain y s =
     (let h = ts_nodes s;
          x = (if tn_left (h y) \<noteq> None then tn_left (h y) else tn_right (h y));
          h = (case x of None \<Rightarrow> h | Some x \<Rightarrow> set_p x (tn_p (h y)) h)
      in case tn_p (h y) of
           None \<Rightarrow> s\<lparr>ts_nodes := h, ts_root := x\<rparr>
         | Some q \<Rightarrow> s\<lparr>ts_nodes := if tn_left (h q) = Some y then set_left q x h else set_right q x h\<rparr>)"

text \<open>Putting \<open>y\<close> in the place of \<open>z\<close>.\<close>

definition replace_node :: "nat \<Rightarrow> nat \<Rightarrow> tree_state \<Rightarrow> tree_state" where
  "replace_node z y s =
     (let h = ts_nodes s;
          h = set_left y (tn_left (h z)) h;
          h = (case tn_left (h y) of None \<Rightarrow> h | Some l \<Rightarrow> set_p l (Some y) h);
          h = set_right y (tn_right (h z)) h;
          h = (case tn_right (h y) of None \<Rightarrow> h | Some r \<Rightarrow> set_p r (Some y) h);
          h = set_p y (tn_p (h z)) h
      in case tn_p (h z) of
           None \<Rightarrow> s\<lparr>ts_nodes := h, ts_root := Some y\<rparr>
         | Some q \<Rightarrow> s\<lparr>ts_nodes := if tn_left (h q) = Some z then set_left q (Some y) h else set_right q (Some y) h\<rparr>)"

definition free_node :: "nat \<Rightarrow> tree_state \<Rightarrow> tree_state option" where
  "free_node x s = do { m \<leftarrow> mos_mem_free x (ts_mem s); Some (s\<lparr>ts_mem := m\<rparr>) }"

definition delete_tree :: "u16 \<Rightarrow> tree_state \<Rightarrow> (u8 \<times> tree_state) option" where
  "delete_tree key s = do {
     r \<leftarrow> find_loop key (ts_nodes s) (ts_root s);
     case r of
       None \<Rightarrow> Some (TREE_NODE_NOT_FOUND, s)
     | Some z \<Rightarrow> do {
         y \<leftarrow> (if tn_left (ts_nodes s z) = None then Some z
              else case tn_right (ts_nodes s z) of None \<Rightarrow> Some z | Some r \<Rightarrow> min_loop (ts_nodes s) r);
         let s = unchain y s;
         s \<leftarrow> (if y \<noteq> z then free_node z (replace_node z y s) else free_node y s);
         Some (TREE_OK, s) } }"

text \<open>A node is read after it has been given back; \<open>mos_mem_free\<close> leaves its bytes alone.\<close>

partial_function (option) delete_loop :: "nat option \<Rightarrow> tree_state \<Rightarrow> tree_state option" where
  "delete_loop cursor s =
     (case cursor of
        None \<Rightarrow> Some s
      | Some c \<Rightarrow>
          if tn_right (ts_nodes s c) \<noteq> None then delete_loop (tn_right (ts_nodes s c)) s
          else if tn_left (ts_nodes s c) \<noteq> None then delete_loop (tn_left (ts_nodes s c)) s
          else do {
            s \<leftarrow> free_node c s;
            if ts_root s = Some c then Some s else do {
              q \<leftarrow> tn_p (ts_nodes s c);
              let h = ts_nodes s;
              let h = (if tn_left (h q) = Some c then set_left q None h else h);
              let h = (if tn_right (h q) = Some c then set_right q None h else h);
              delete_loop (tn_p (h c)) (s\<lparr>ts_nodes := h\<rparr>) } })"

definition delete_subtree :: "nat option \<Rightarrow> tree_state \<Rightarrow> tree_state option" where
  "delete_subtree starting_point s = do { s \<leftarrow> delete_loop starting_point s; Some (s\<lparr>ts_root := None\<rparr>) }"

definition clear_tree :: "tree_state \<Rightarrow> tree_state option" where
  "clear_tree s = delete_subtree (ts_root s) s"

section \<open>Splaying\<close>

text \<open>The results of the rotations are not looked at.\<close>

definition rrot :: "nat \<Rightarrow> tnodes \<Rightarrow> tnodes option" where
  "rrot x h = map_option snd (right_rotate x h)"

definition lrot :: "nat \<Rightarrow> tnodes \<Rightarrow> tnodes option" where
  "lrot x h = map_option snd (left_rotate x h)"

partial_function (option) splay_loop :: "nat \<Rightarrow> tnodes \<Rightarrow> tnodes option" where
  "splay_loop x h =
     (case tn_p (h x) of
        None \<Rightarrow> Some h
      | Some y \<Rightarrow>
          (case tn_p (h y) of
             None \<Rightarrow> if tn_left (h y) = Some x then rrot y h else if tn_right (h y) = Some x then lrot y h else Some h
           | Some z \<Rightarrow>
               if tn_left (h y) = Some x then
                 if tn_left (h z) = Some y then do {
                   h \<leftarrow> rrot z h; y \<leftarrow> tn_p (h x); h \<leftarrow> rrot y h; splay_loop x h
                 } else do {
                   h \<leftarrow> rrot y h; y \<leftarrow> tn_p (h x); h \<leftarrow> lrot y h; splay_loop x h }
               else
                 if tn_right (h z) = Some y then do {
                   h \<leftarrow> lrot z h; y \<leftarrow> tn_p (h x); h \<leftarrow> lrot y h; splay_loop x h
                 } else do {
                   h \<leftarrow> lrot y h; y \<leftarrow> tn_p (h x); h \<leftarrow> rrot y h; splay_loop x h }))"

definition splay :: "nat \<Rightarrow> tree_state \<Rightarrow> tree_state option" where
  "splay x s = do { h \<leftarrow> splay_loop x (ts_nodes s); Some (s\<lparr>ts_nodes := h, ts_root := Some x\<rparr>) }"

definition splay_node :: "u16 \<Rightarrow> tree_state \<Rightarrow> tree_state option" where
  "splay_node key s = do {
     r \<leftarrow> find_tree key s;
     case r of None \<Rightarrow> Some s | Some x \<Rightarrow> splay x s }"

end
