(* ===== verification/Tree_Shape.thy ===== *)
theory Tree_Shape
  imports Tree_Lib
begin

text \<open>
  The tree that a structure of nodes stands for.  A place in it is a subtree with its context, the way
  from it up to the root; the loops of the code move along this way, and a rotation changes the
  subtree at a place.
\<close>

section \<open>Trees and contexts\<close>

text \<open>\<open>p\<close> points to a structure with the shape \<open>t\<close>, a tree of addresses, whose root has the parent \<open>par\<close>.\<close>

fun tree_at :: "tnodes \<Rightarrow> nat option \<Rightarrow> nat option \<Rightarrow> nat tree \<Rightarrow> bool" where
  "tree_at h p par Leaf \<longleftrightarrow> p = None"
| "tree_at h p par (Node l x r) \<longleftrightarrow> p = Some x \<and> tn_p (h x) = par \<and>
     tree_at h (tn_left (h x)) (Some x) l \<and> tree_at h (tn_right (h x)) (Some x) r"

text \<open>One step up: the subtree is the left child of a node with a right subtree, or the other way round.\<close>

datatype step_up = L_of nat "nat tree" | R_of nat "nat tree"

fun plug :: "step_up list \<Rightarrow> nat tree \<Rightarrow> nat tree" where
  "plug [] t = t"
| "plug (L_of a r # c) t = plug c (Node t a r)"
| "plug (R_of a l # c) t = plug c (Node l a t)"

fun ctx_at :: "tnodes \<Rightarrow> step_up list \<Rightarrow> nat option \<Rightarrow> nat option \<Rightarrow> nat option \<Rightarrow> bool" where
  "ctx_at h [] p rt par \<longleftrightarrow> p = rt \<and> par = None"
| "ctx_at h (L_of a r # c) p rt par \<longleftrightarrow> par = Some a \<and> tn_left (h a) = p \<and>
     tree_at h (tn_right (h a)) (Some a) r \<and> ctx_at h c (Some a) rt (tn_p (h a))"
| "ctx_at h (R_of a l # c) p rt par \<longleftrightarrow> par = Some a \<and> tn_right (h a) = p \<and>
     tree_at h (tn_left (h a)) (Some a) l \<and> ctx_at h c (Some a) rt (tn_p (h a))"

fun ctx_nodes :: "step_up list \<Rightarrow> nat set" where
  "ctx_nodes [] = {}"
| "ctx_nodes (L_of a r # c) = insert a (set_tree r \<union> ctx_nodes c)"
| "ctx_nodes (R_of a l # c) = insert a (set_tree l \<union> ctx_nodes c)"

fun ctx_distinct :: "step_up list \<Rightarrow> bool" where
  "ctx_distinct [] \<longleftrightarrow> True"
| "ctx_distinct (L_of a r # c) \<longleftrightarrow> a \<notin> set_tree r \<and> a \<notin> ctx_nodes c \<and> set_tree r \<inter> ctx_nodes c = {} \<and>
     distinct (inorder r) \<and> ctx_distinct c"
| "ctx_distinct (R_of a l # c) \<longleftrightarrow> a \<notin> set_tree l \<and> a \<notin> ctx_nodes c \<and> set_tree l \<inter> ctx_nodes c = {} \<and>
     distinct (inorder l) \<and> ctx_distinct c"

text \<open>What stands before and after a place.\<close>

fun before :: "step_up list \<Rightarrow> nat list" where
  "before [] = []"
| "before (L_of a r # c) = before c"
| "before (R_of a l # c) = before c @ inorder l @ [a]"

fun after :: "step_up list \<Rightarrow> nat list" where
  "after [] = []"
| "after (L_of a r # c) = a # inorder r @ after c"
| "after (R_of a l # c) = after c"

lemma inorder_plug: "inorder (plug c t) = before c @ inorder t @ after c"
  by (induction c t rule: plug.induct) auto

lemma set_before_after: "set (before c) \<union> set (after c) = ctx_nodes c"
  by (induction c rule: ctx_nodes.induct) (auto simp: set_inorder)

lemma distinct_ctx: "distinct (before c @ after c) \<longleftrightarrow> ctx_distinct c"
proof (induction c rule: ctx_nodes.induct)
  case (2 a r c)
  have "set (before c) \<union> set (after c) = ctx_nodes c" by (rule set_before_after)
  with 2 show ?case by (auto simp: set_inorder)
next
  case (3 a l c)
  have "set (before c) \<union> set (after c) = ctx_nodes c" by (rule set_before_after)
  with 3 show ?case by (auto simp: set_inorder)
qed simp

lemma distinct_plug:
  "distinct (inorder (plug c t)) \<longleftrightarrow> ctx_distinct c \<and> distinct (inorder t) \<and> set_tree t \<inter> ctx_nodes c = {}"
proof -
  have "distinct (inorder (plug c t)) \<longleftrightarrow> distinct (before c @ after c) \<and> distinct (inorder t) \<and>
      set_tree t \<inter> (set (before c) \<union> set (after c)) = {}"
    by (auto simp: inorder_plug set_inorder)
  then show ?thesis by (simp only: distinct_ctx set_before_after)
qed

section \<open>Locality\<close>

lemma tree_at_frame: "(\<And>x. x \<in> set_tree t \<Longrightarrow> h' x = h x) \<Longrightarrow> tree_at h' p par t = tree_at h p par t"
  by (induction t arbitrary: p par) auto

lemma ctx_at_frame: "(\<And>x. x \<in> ctx_nodes c \<Longrightarrow> h' x = h x) \<Longrightarrow> ctx_at h' c p rt par = ctx_at h c p rt par"
proof (induction c arbitrary: p par rule: ctx_nodes.induct)
  case (2 a r c)
  have "tree_at h' q pr r = tree_at h q pr r" for q pr using 2(2) by (intro tree_at_frame) simp
  moreover have "ctx_at h' c q rt pr = ctx_at h c q rt pr" for q pr using 2(2) by (intro 2(1)) simp
  ultimately show ?case using 2(2) [of a] by simp
next
  case (3 a l c)
  have "tree_at h' q pr l = tree_at h q pr l" for q pr using 3(2) by (intro tree_at_frame) simp
  moreover have "ctx_at h' c q rt pr = ctx_at h c q rt pr" for q pr using 3(2) by (intro 3(1)) simp
  ultimately show ?case using 3(2) [of a] by simp
qed simp

lemma tree_at_root: "tree_at h p par t \<Longrightarrow> p = Some x \<Longrightarrow> x \<in> set_tree t"
  by (cases t) auto

lemma tree_at_reparent:
  assumes "tree_at h p par t" and "\<And>x. x \<in> set_tree t \<Longrightarrow> h' x = (if p = Some x then (h x)\<lparr>tn_p := par'\<rparr> else h x)"
    and "distinct (inorder t)"
  shows "tree_at h' p par' t"
proof (cases t)
  case (Node l x r)
  have x: "h' x = (h x)\<lparr>tn_p := par'\<rparr>" "x \<notin> set_tree l" "x \<notin> set_tree r" using assms Node by (auto simp: set_inorder)
  have "h' y = h y" if "y \<in> set_tree l \<union> set_tree r" for y using assms(1,2) that x(2,3) Node by auto
  then have "tree_at h' q pr l = tree_at h q pr l" "tree_at h' q pr r = tree_at h q pr r" for q pr
    by (intro tree_at_frame; simp)+
  then show ?thesis using assms(1) Node x(1) by simp
qed (use assms in simp)

text \<open>Writing the pointer from the context to the place.\<close>

definition relink :: "step_up list \<Rightarrow> nat option \<Rightarrow> tnodes \<Rightarrow> tnodes" where
  "relink c v h = (case c of [] \<Rightarrow> h | L_of a r # _ \<Rightarrow> set_left a v h | R_of a l # _ \<Rightarrow> set_right a v h)"

lemma relink_other: "x \<notin> ctx_nodes c \<Longrightarrow> relink c v h x = h x"
  by (cases c rule: ctx_nodes.cases) (auto simp: relink_def)

lemma ctx_at_relink:
  assumes "ctx_at h c p rt par" and "ctx_distinct c" and h': "\<And>x. x \<in> ctx_nodes c \<Longrightarrow> h' x = relink c v h x"
  shows "ctx_at h' c v (if c = [] then v else rt) par"
proof (cases c rule: ctx_nodes.cases)
  case (2 a r d)
  have "h' x = h x" if "x \<in> set_tree r \<union> ctx_nodes d" for x using h' [of x] that assms(2) 2 by (auto simp: relink_def)
  then have "tree_at h' q pr r = tree_at h q pr r" "ctx_at h' d q tp pr = ctx_at h d q tp pr" for q pr tp
    by (intro tree_at_frame ctx_at_frame; simp)+
  then show ?thesis using assms(1) h' [of a] 2 by (simp add: relink_def)
next
  case (3 a l d)
  have "h' x = h x" if "x \<in> set_tree l \<union> ctx_nodes d" for x using h' [of x] that assms(2) 3 by (auto simp: relink_def)
  then have "tree_at h' q pr l = tree_at h q pr l" "ctx_at h' d q tp pr = ctx_at h d q tp pr" for q pr tp
    by (intro tree_at_frame ctx_at_frame; simp)+
  then show ?thesis using assms(1) h' [of a] 3 by (simp add: relink_def)
qed (use assms in simp)

text \<open>The way the code writes it, when the place is \<open>x\<close>.\<close>

lemma relink_right_first:
  assumes "ctx_at h c (Some x) rt par" and "x \<notin> ctx_nodes c"
  shows "(case par of None \<Rightarrow> h | Some q \<Rightarrow> if tn_right (h q) = Some x then set_right q v h else set_left q v h) = relink c v h"
  using assms by (cases c rule: ctx_nodes.cases) (auto simp: relink_def dest: tree_at_root)

lemma relink_left_first:
  assumes "ctx_at h c (Some x) rt par" and "x \<notin> ctx_nodes c"
  shows "(case par of None \<Rightarrow> h | Some q \<Rightarrow> if tn_left (h q) = Some x then set_left q v h else set_right q v h) = relink c v h"
  using assms by (cases c rule: ctx_nodes.cases) (auto simp: relink_def dest: tree_at_root)

section \<open>Places\<close>

definition located :: "tnodes \<Rightarrow> nat option \<Rightarrow> step_up list \<Rightarrow> nat tree \<Rightarrow> bool" where
  "located h rt c t \<longleftrightarrow> (\<exists>p par. ctx_at h c p rt par \<and> tree_at h p par t) \<and> distinct (inorder (plug c t))"

lemma located_up:
  "located h rt (L_of a r # c) t \<longleftrightarrow> located h rt c (Node t a r)"
  "located h rt (R_of a l # c) t \<longleftrightarrow> located h rt c (Node l a t)"
  by (auto simp: located_def)

lemma located_top: "located h rt [] t \<longleftrightarrow> tree_at h rt None t \<and> distinct (inorder t)"
  by (auto simp: located_def)

lemma located_plug: "located h rt c t \<longleftrightarrow> located h rt [] (plug c t)"
  by (induction c t rule: plug.induct) (simp_all add: located_up)

lemma locatedE:
  assumes "located h rt c t"
  obtains p par where "ctx_at h c p rt par" and "tree_at h p par t" and "ctx_distinct c"
    and "distinct (inorder t)" and "set_tree t \<inter> ctx_nodes c = {}"
  using assms by (auto simp: located_def distinct_plug)

lemma locatedI:
  "ctx_at h c p rt par \<Longrightarrow> tree_at h p par t \<Longrightarrow> ctx_distinct c \<Longrightarrow> distinct (inorder t) \<Longrightarrow>
   set_tree t \<inter> ctx_nodes c = {} \<Longrightarrow> located h rt c t"
  by (auto simp: located_def distinct_plug)

end
