(* ===== verification/Tree_Rotate.thy ===== *)
theory Tree_Rotate
  imports Tree_Shape
begin

text \<open>Rotations at a place of the tree, and splaying.\<close>

section \<open>Rotations\<close>

text \<open>The keys, and everything outside the tree, stay as they are.\<close>

definition same_keys :: "nat set \<Rightarrow> tnodes \<Rightarrow> tnodes \<Rightarrow> bool" where
  "same_keys A h h' \<longleftrightarrow> (\<forall>x. tn_key (h' x) = tn_key (h x)) \<and> (\<forall>x. x \<notin> A \<longrightarrow> h' x = h x)"

lemma same_keys_trans: "same_keys A h g \<Longrightarrow> same_keys A g f \<Longrightarrow> same_keys A h f"
  by (simp add: same_keys_def)

lemma same_keys_mono: "same_keys A h g \<Longrightarrow> A \<subseteq> B \<Longrightarrow> same_keys B h g"
  by (auto simp: same_keys_def)

lemma relink_fields:
  "tn_key (relink c v h x) = tn_key (h x)" "tn_p (relink c v h x) = tn_p (h x)"
  by (cases c rule: ctx_nodes.cases; simp add: relink_def)+

lemma plug_nodes: "set_tree (plug c t) = set_tree t \<union> ctx_nodes c"
  by (induction c t rule: plug.induct) auto

definition root_ptr :: "nat tree \<Rightarrow> nat option" where
  "root_ptr t = (case t of Leaf \<Rightarrow> None | Node l x r \<Rightarrow> Some x)"

lemma root_ptr_at: "tree_at h p par t \<Longrightarrow> p = root_ptr t"
  by (cases t) (auto simp: root_ptr_def)

lemma root_ptr_in: "root_ptr t = Some x \<Longrightarrow> x \<in> set_tree t"
  by (cases t) (auto simp: root_ptr_def)

lemma right_rotate_ok:
  assumes loc: "located h rt c (Node (Node a y b) x g)"
  shows "\<exists>h'. right_rotate x h = Some (TREE_OK, h') \<and>
    located h' (if c = [] then Some y else rt) c (Node a y (Node b x g)) \<and>
    same_keys (set_tree (plug c (Node (Node a y b) x g))) h h'"
proof -
  from loc obtain p par where
    cx: "ctx_at h c p rt par" and t: "tree_at h p par (Node (Node a y b) x g)" and cd: "ctx_distinct c"
    and dd: "distinct (inorder (Node (Node a y b) x g))" and dj: "set_tree (Node (Node a y b) x g) \<inter> ctx_nodes c = {}"
    by (rule locatedE)
  have f: "p = Some x" "tn_p (h x) = par" "tn_left (h x) = Some y" "tn_right (h y) = root_ptr b"
    "tree_at h (tn_left (h y)) (Some y) a" "tree_at h (tn_right (h y)) (Some y) b" "tree_at h (tn_right (h x)) (Some x) g"
    using t root_ptr_at by auto
  have n: "x \<noteq> y" "x \<notin> set_tree a" "x \<notin> set_tree b" "x \<notin> set_tree g" "y \<notin> set_tree a" "y \<notin> set_tree b" "y \<notin> set_tree g"
    "x \<notin> ctx_nodes c" "y \<notin> ctx_nodes c" "set_tree a \<inter> set_tree b = {}" "set_tree a \<inter> set_tree g = {}" "set_tree b \<inter> set_tree g = {}"
    "distinct (inorder a)" "distinct (inorder b)" "distinct (inorder g)"
    "set_tree a \<inter> ctx_nodes c = {}" "set_tree b \<inter> ctx_nodes c = {}" "set_tree g \<inter> ctx_nodes c = {}"
    using dd dj by (auto simp: set_inorder)
  define h1 where "h1 = set_p y par h"
  define h2 where "h2 = relink c (Some y) h1"
  define h3 where "h3 = (case root_ptr b of None \<Rightarrow> h2 | Some z \<Rightarrow> set_p z (Some x) h2)"
  define h' where "h' = h3(x := (h x)\<lparr>tn_p := Some y, tn_left := root_ptr b\<rparr>, y := (h y)\<lparr>tn_p := par, tn_right := Some x\<rparr>)"
  have cx1: "ctx_at h1 c (Some x) rt par"
  proof -
    have "ctx_at h1 c p rt par = ctx_at h c p rt par" using n(9) by (intro ctx_at_frame) (auto simp: h1_def)
    then show ?thesis using cx f(1) by simp
  qed
  have bz: "z \<noteq> x" "z \<noteq> y" "z \<notin> ctx_nodes c" if "root_ptr b = Some z" for z
    using root_ptr_in [OF that] n(3,6,17) by blast+
  have h2: "h2 x = h x" "h2 y = (h y)\<lparr>tn_p := par\<rparr>" using n by (simp_all add: h2_def relink_other h1_def)
  have h3: "h3 x = h x" "h3 y = (h y)\<lparr>tn_p := par\<rparr>" using h2 bz by (auto simp: h3_def split: option.split)
  have e: "right_rotate x h = Some (TREE_OK, h')"
  proof -
    have r: "(case tn_p (h1 x) of None \<Rightarrow> h1 | Some q \<Rightarrow> if tn_right (h1 q) = Some x then set_right q (tn_left (h1 x)) h1
        else set_left q (tn_left (h1 x)) h1) = h2"
    proof -
      have hx: "h1 x = h x" using n(1) by (simp add: h1_def)
      show ?thesis using relink_right_first [OF cx1 n(8), of "Some y"] unfolding h2_def hx f(2,3) .
    qed
    have b3: "(case tn_right (h2 y) of None \<Rightarrow> h2 | Some b \<Rightarrow> set_p b (Some x) h2) = h3" by (simp add: h3_def h2 f(4))
    have lx: "tn_left (h2 x) = Some y" "tn_right (h3 y) = root_ptr b" using f(3,4) by (simp_all add: h2 h3)
    show ?thesis
      unfolding right_rotate_def f(3) option.case Let_def f(2) h1_def [symmetric] r lx(1) bind.bind_lunit b3
      using n(1) by (simp add: h3 f(3,4) h'_def)
  qed
  have hx: "h' x = (h x)\<lparr>tn_p := Some y, tn_left := root_ptr b\<rparr>" "h' y = (h y)\<lparr>tn_p := par, tn_right := Some x\<rparr>"
    using n(1) by (simp_all add: h'_def)
  have ho: "h' z = h z" if "z \<notin> ctx_nodes c" "z \<noteq> x" "z \<noteq> y" "root_ptr b \<noteq> Some z" for z
    using that by (auto simp: h'_def h3_def h2_def h1_def relink_other split: option.split)
  have hb: "h' z = (h z)\<lparr>tn_p := Some x\<rparr>" if "root_ptr b = Some z" for z
    using bz [OF that] that by (simp add: h'_def h3_def h2_def h1_def relink_other)
  have hc: "h' z = relink c (Some y) h z" if "z \<in> ctx_nodes c" for z
  proof -
    have "z \<noteq> x" "z \<noteq> y" "root_ptr b \<noteq> Some z" using that n(8,9) bz(3) by blast+
    moreover have "relink c (Some y) h1 z = relink c (Some y) h z"
      using that n(9) by (cases c rule: ctx_nodes.cases) (auto simp: relink_def h1_def)
    ultimately show ?thesis by (auto simp: h'_def h3_def h2_def split: option.split)
  qed
  have "ctx_at h' c (Some y) (if c = [] then Some y else rt) par" by (rule ctx_at_relink [OF cx cd hc])
  moreover have "tree_at h' (Some y) par (Node a y (Node b x g))"
  proof -
    have "h' z = h z" if "z \<in> set_tree a \<union> set_tree g" for z
    proof (rule ho)
      show "root_ptr b \<noteq> Some z" using that n(10,12) root_ptr_in [of b z] by auto
    qed (use that n(2,4,5,7,16,18) in blast)+
    then have "tree_at h' q pr a = tree_at h q pr a" "tree_at h' q pr g = tree_at h q pr g" for q pr
      by (intro tree_at_frame; simp)+
    moreover have "tree_at h' (tn_right (h y)) (Some x) b"
    proof (rule tree_at_reparent [OF f(6) _ n(14)])
      fix z assume z: "z \<in> set_tree b"
      show "h' z = (if tn_right (h y) = Some z then (h z)\<lparr>tn_p := Some x\<rparr> else h z)"
      proof (cases "root_ptr b = Some z")
        case False
        have "h' z = h z" by (rule ho) (use z n(3,6,17) False in blast)+
        then show ?thesis using False f(4) by simp
      qed (simp add: hb f(4))
    qed
    ultimately show ?thesis using f hx n(1) by simp
  qed
  moreover have "distinct (inorder (Node a y (Node b x g)))" "set_tree (Node a y (Node b x g)) \<inter> ctx_nodes c = {}"
    using dd dj by auto
  ultimately have "located h' (if c = [] then Some y else rt) c (Node a y (Node b x g))" using cd by (blast intro: locatedI)
  moreover have "same_keys (set_tree (plug c (Node (Node a y b) x g))) h h'"
    unfolding same_keys_def
  proof (intro conjI allI impI)
    show "tn_key (h' z) = tn_key (h z)" for z
    proof -
      consider "z = x" | "z = y" | "root_ptr b = Some z" | "z \<in> ctx_nodes c" | "z \<notin> ctx_nodes c" "z \<noteq> x" "z \<noteq> y" "root_ptr b \<noteq> Some z" by blast
      then show ?thesis
        by cases (simp add: hx, simp add: hx, simp add: hb, simp add: hc relink_fields, simp add: ho)
    qed
    fix z assume "z \<notin> set_tree (plug c (Node (Node a y b) x g))"
    then show "h' z = h z" using root_ptr_in [of b z] by (intro ho) (auto simp: plug_nodes)
  qed
  ultimately show ?thesis using e by blast
qed

section \<open>Left and right\<close>

text \<open>The left rotation is the right one with left and right exchanged.\<close>

definition flip_node :: "tree_node \<Rightarrow> tree_node" where
  "flip_node n = n\<lparr>tn_left := tn_right n, tn_right := tn_left n\<rparr>"

definition flip :: "tnodes \<Rightarrow> tnodes" where "flip h = (\<lambda>x. flip_node (h x))"

fun flip_step :: "step_up \<Rightarrow> step_up" where
  "flip_step (L_of a r) = R_of a (mirror r)"
| "flip_step (R_of a l) = L_of a (mirror l)"

lemma flip_fields [simp]:
  "tn_left (flip h x) = tn_right (h x)" "tn_right (flip h x) = tn_left (h x)" "tn_p (flip h x) = tn_p (h x)"
  "tn_key (flip h x) = tn_key (h x)"
  by (simp_all add: flip_def flip_node_def)

lemma flip_node_upd:
  "flip_node (n\<lparr>tn_left := v\<rparr>) = (flip_node n)\<lparr>tn_right := v\<rparr>" "flip_node (n\<lparr>tn_right := v\<rparr>) = (flip_node n)\<lparr>tn_left := v\<rparr>"
  "flip_node (n\<lparr>tn_p := v\<rparr>) = (flip_node n)\<lparr>tn_p := v\<rparr>" "flip_node (flip_node n) = n"
  by (simp_all add: flip_node_def)

lemma flip_flip [simp]: "flip (flip h) = h"
  by (simp add: flip_def flip_node_upd fun_eq_iff)

lemma flip_upd:
  "flip (set_left x v h) = set_right x v (flip h)" "flip (set_right x v h) = set_left x v (flip h)"
  "flip (set_p x v h) = set_p x v (flip h)"
  by (auto simp: flip_def flip_node_upd fun_eq_iff)

lemma flip_cases:
  "flip (case p of None \<Rightarrow> h | Some q \<Rightarrow> f q) = (case p of None \<Rightarrow> flip h | Some q \<Rightarrow> flip (f q))"
  "flip (if b then h else g) = (if b then flip h else flip g)"
  by (auto split: option.split)

lemma left_rotate_flip: "left_rotate x (flip h) = map_option (\<lambda>(r, g). (r, flip g)) (right_rotate x h)"
proof (cases "tn_left (h x)")
  case (Some y)
  define h1 where "h1 = set_p y (tn_p (h x)) h"
  define h2 where "h2 = (case tn_p (h1 x) of None \<Rightarrow> h1
     | Some q \<Rightarrow> if tn_right (h1 q) = Some x then set_right q (tn_left (h1 x)) h1 else set_left q (tn_left (h1 x)) h1)"
  have f1: "set_p y (tn_p (flip h x)) (flip h) = flip h1" by (simp add: h1_def flip_upd)
  have f2: "(case tn_p (flip h1 x) of None \<Rightarrow> flip h1
     | Some q \<Rightarrow> if tn_left (flip h1 q) = Some x then set_left q (tn_right (flip h1 x)) (flip h1)
       else set_right q (tn_right (flip h1 x)) (flip h1)) = flip h2"
    by (cases "tn_p (h1 x)") (simp_all add: h2_def flip_cases flip_upd)
  define h3 where "h3 l = (case tn_right (h2 l) of None \<Rightarrow> h2 | Some b \<Rightarrow> set_p b (Some x) h2)" for l
  have f3: "(case tn_left (flip h2 l) of None \<Rightarrow> flip h2 | Some b \<Rightarrow> set_p b (Some x) (flip h2)) = flip (h3 l)" for l
    by (cases "tn_right (h2 l)") (simp_all add: h3_def flip_upd)
  have r: "right_rotate x h = do {
      l \<leftarrow> tn_left (h2 x);
      let h = set_p x (tn_left (h3 l x)) (h3 l);
      l \<leftarrow> tn_left (h x);
      let h = set_left x (tn_right (h l)) h;
      q \<leftarrow> tn_p (h x);
      Some (TREE_OK, set_right q (Some x) h) }"
    unfolding right_rotate_def Some option.case Let_def h1_def [symmetric] h2_def [symmetric] h3_def [symmetric] by simp
  have sy: "tn_right (flip h x) = Some y" using Some by simp
  have l: "left_rotate x (flip h) = do {
      l \<leftarrow> tn_left (h2 x);
      let h = set_p x (tn_left (h3 l x)) (flip (h3 l));
      l \<leftarrow> tn_right (h x);
      let h = set_right x (tn_left (h l)) h;
      q \<leftarrow> tn_p (h x);
      Some (TREE_OK, set_left q (Some x) h) }"
    unfolding left_rotate_def sy option.case Let_def f1 f2 f3 by simp
  show ?thesis unfolding r l
    by (cases "tn_left (h2 x)") (auto simp: Let_def flip_upd simp flip: flip_upd split: Option.bind_splits)
qed (simp add: left_rotate_def right_rotate_def)

lemma tree_at_flip: "tree_at (flip h) p par (mirror t) = tree_at h p par t"
  by (induction t arbitrary: p par) auto

lemma mirror_nodes: "set_tree (mirror t) = set_tree t"
  by (induction t) auto

lemma ctx_at_flip: "ctx_at (flip h) (map flip_step c) p rt par = ctx_at h c p rt par"
  by (induction c arbitrary: p par rule: ctx_nodes.induct) (auto simp: tree_at_flip)

lemma plug_flip: "plug (map flip_step c) (mirror t) = mirror (plug c t)"
  by (induction c t rule: plug.induct) auto

lemma located_flip: "located (flip h) rt (map flip_step c) (mirror t) = located h rt c t"
  by (simp add: located_def ctx_at_flip tree_at_flip plug_flip inorder_mirror)

lemma same_keys_flip: "same_keys A (flip h) (flip g) = same_keys A h g"
proof -
  have "flip g x = flip h x \<longleftrightarrow> g x = h x" for x
    by (metis flip_def flip_node_upd(4))
  then show ?thesis by (simp add: same_keys_def)
qed

lemma flip_step_flip [simp]: "flip_step (flip_step s) = s"
  by (cases s) auto

lemma left_rotate_ok:
  assumes "located h rt c (Node a x (Node b y g))"
  shows "\<exists>h'. left_rotate x h = Some (TREE_OK, h') \<and>
    located h' (if c = [] then Some y else rt) c (Node (Node a x b) y g) \<and>
    same_keys (set_tree (plug c (Node a x (Node b y g)))) h h'"
proof -
  have "located (flip h) rt (map flip_step c) (mirror (Node a x (Node b y g)))" using assms by (simp only: located_flip)
  then have l: "located (flip h) rt (map flip_step c) (Node (Node (mirror g) y (mirror b)) x (mirror a))" by simp
  from right_rotate_ok [OF l] obtain g' where r: "right_rotate x (flip h) = Some (TREE_OK, g')"
    "located g' (if c = [] then Some y else rt) (map flip_step c) (Node (mirror g) y (Node (mirror b) x (mirror a)))"
    "same_keys (set_tree (plug (map flip_step c) (Node (Node (mirror g) y (mirror b)) x (mirror a)))) (flip h) g'" by auto
  have "left_rotate x h = Some (TREE_OK, flip g')" using left_rotate_flip [of x "flip h"] r(1) by simp
  moreover have "located (flip (flip g')) (if c = [] then Some y else rt) (map flip_step c) (mirror (Node (Node a x b) y g))"
    using r(2) by simp
  moreover have "same_keys (set_tree (plug c (Node a x (Node b y g)))) (flip h) (flip (flip g'))"
    using r(3) plug_flip [of c "Node a x (Node b y g)"] mirror_nodes [of "plug c (Node a x (Node b y g))"] by simp
  ultimately show ?thesis unfolding located_flip same_keys_flip by blast
qed

end
