(* ===== verification/Tree_Splay.thy ===== *)
theory Tree_Splay
  imports Tree_Rotate
begin

text \<open>Splaying a node moves it to the root and keeps the order of the nodes.\<close>

section \<open>Pointers at a place\<close>

lemma located_left:
  assumes "located h rt (L_of y b # c) (Node l x r)"
  shows "tn_p (h x) = Some y" and "tn_left (h y) = Some x" and "tn_right (h y) \<noteq> Some x"
proof -
  from assms obtain p par where "ctx_at h (L_of y b # c) p rt par" "tree_at h p par (Node l x r)"
    "set_tree (Node l x r) \<inter> ctx_nodes (L_of y b # c) = {}" by (rule locatedE)
  then show "tn_p (h x) = Some y" "tn_left (h y) = Some x" "tn_right (h y) \<noteq> Some x"
    using tree_at_root [of h "tn_right (h y)" "Some y" b x] by auto
qed

lemma located_right:
  assumes "located h rt (R_of y a # c) (Node l x r)"
  shows "tn_p (h x) = Some y" and "tn_right (h y) = Some x" and "tn_left (h y) \<noteq> Some x"
proof -
  from assms obtain p par where "ctx_at h (R_of y a # c) p rt par" "tree_at h p par (Node l x r)"
    "set_tree (Node l x r) \<inter> ctx_nodes (R_of y a # c) = {}" by (rule locatedE)
  then show "tn_p (h x) = Some y" "tn_right (h y) = Some x" "tn_left (h y) \<noteq> Some x"
    using tree_at_root [of h "tn_left (h y)" "Some y" a x] by auto
qed

lemma located_root: "located h rt [] (Node l x r) \<Longrightarrow> tn_p (h x) = None \<and> rt = Some x"
  by (auto simp: located_top)

section \<open>Double rotations\<close>

lemma right_at:
  assumes "located h rt (L_of y b # c) (Node l x r)"
  shows "\<exists>h'. rrot y h = Some h' \<and> located h' (if c = [] then Some x else rt) c (Node l x (Node r y b)) \<and>
    same_keys (set_tree (plug (L_of y b # c) (Node l x r))) h h'"
  using right_rotate_ok [of h rt c l x r y b] assms by (auto simp: located_up rrot_def)

lemma left_at:
  assumes "located h rt (R_of y a # c) (Node l x r)"
  shows "\<exists>h'. lrot y h = Some h' \<and> located h' (if c = [] then Some x else rt) c (Node (Node a y l) x r) \<and>
    same_keys (set_tree (plug (R_of y a # c) (Node l x r))) h h'"
  using left_rotate_ok [of h rt c a y l x r] assms by (auto simp: located_up lrot_def)

text \<open>What one round of the loop does.\<close>

definition splayed :: "nat \<Rightarrow> tnodes \<Rightarrow> nat option \<Rightarrow> step_up list \<Rightarrow> nat tree \<Rightarrow> step_up list \<Rightarrow> bool" where
  "splayed x h rt c t d \<longleftrightarrow> (\<exists>h' l r. splay_loop x h = splay_loop x h' \<and> located h' (if d = [] then Some x else rt) d (Node l x r) \<and>
     inorder (plug d (Node l x r)) = inorder (plug c t) \<and> same_keys (set_tree (plug c t)) h h')"

lemma splayedI:
  assumes "splay_loop x h = splay_loop x h2" and "located h2 (if d = [] then Some x else rt) d (Node l x r)"
    and "inorder (plug d (Node l x r)) = inorder (plug c t)" and "same_keys A h h1" and "same_keys B h1 h2"
    and "A \<subseteq> set_tree (plug c t)" and "B \<subseteq> set_tree (plug c t)"
  shows "splayed x h rt c t d"
  unfolding splayed_def using assms(1-3) same_keys_trans [OF same_keys_mono [OF assms(4,6)] same_keys_mono [OF assms(5,7)]]
  by blast

lemma zig_zig_left:
  assumes l: "located h rt (L_of y b # L_of z g # d) (Node l x r)"
  shows "splayed x h rt (L_of y b # L_of z g # d) (Node l x r) d"
proof -
  note a = located_left [OF l]
  have u: "located h rt (L_of z g # d) (Node (Node l x r) y b)" using l by (simp add: located_up)
  note e = located_left [OF u]
  from right_at [OF u] obtain h1 where h1: "rrot z h = Some h1"
    "located h1 (if d = [] then Some y else rt) d (Node (Node l x r) y (Node b z g))"
    "same_keys (set_tree (plug (L_of z g # d) (Node (Node l x r) y b))) h h1" by blast
  have v: "located h1 (if d = [] then Some y else rt) (L_of y (Node b z g) # d) (Node l x r)" using h1(2) by (simp add: located_up)
  from right_at [OF v] obtain h2 where h2: "rrot y h1 = Some h2"
    "located h2 (if d = [] then Some x else rt) d (Node l x (Node r y (Node b z g)))"
    "same_keys (set_tree (plug (L_of y (Node b z g) # d) (Node l x r))) h1 h2" by (auto split: if_splits)
  have "splay_loop x h = splay_loop x h2"
    using a e h1(1) h2(1) located_left(1) [OF v] by (subst splay_loop.simps) simp
  then show ?thesis by (rule splayedI [OF _ h2(2) _ h1(3) h2(3)]) (auto simp: inorder_plug plug_nodes)
qed

lemma zig_zag_left:
  assumes l: "located h rt (L_of y b # R_of z g # d) (Node l x r)"
  shows "splayed x h rt (L_of y b # R_of z g # d) (Node l x r) d"
proof -
  note a = located_left [OF l]
  have u: "located h rt (R_of z g # d) (Node (Node l x r) y b)" using l by (simp add: located_up)
  note e = located_right [OF u]
  from right_at [OF l] obtain h1 where h1: "rrot y h = Some h1" "located h1 rt (R_of z g # d) (Node l x (Node r y b))"
    "same_keys (set_tree (plug (L_of y b # R_of z g # d) (Node l x r))) h h1" by auto
  from left_at [OF h1(2)] obtain h2 where h2: "lrot z h1 = Some h2"
    "located h2 (if d = [] then Some x else rt) d (Node (Node g z l) x (Node r y b))"
    "same_keys (set_tree (plug (R_of z g # d) (Node l x (Node r y b)))) h1 h2" by blast
  have "splay_loop x h = splay_loop x h2"
    using a e h1(1) h2(1) located_right(1) [OF h1(2)] by (subst splay_loop.simps) simp
  then show ?thesis by (rule splayedI [OF _ h2(2) _ h1(3) h2(3)]) (auto simp: inorder_plug plug_nodes)
qed

lemma zig_zig_right:
  assumes l: "located h rt (R_of y b # R_of z g # d) (Node l x r)"
  shows "splayed x h rt (R_of y b # R_of z g # d) (Node l x r) d"
proof -
  note a = located_right [OF l]
  have u: "located h rt (R_of z g # d) (Node b y (Node l x r))" using l by (simp add: located_up)
  note e = located_right [OF u]
  from left_at [OF u] obtain h1 where h1: "lrot z h = Some h1"
    "located h1 (if d = [] then Some y else rt) d (Node (Node g z b) y (Node l x r))"
    "same_keys (set_tree (plug (R_of z g # d) (Node b y (Node l x r)))) h h1" by blast
  have v: "located h1 (if d = [] then Some y else rt) (R_of y (Node g z b) # d) (Node l x r)" using h1(2) by (simp add: located_up)
  from left_at [OF v] obtain h2 where h2: "lrot y h1 = Some h2"
    "located h2 (if d = [] then Some x else rt) d (Node (Node (Node g z b) y l) x r)"
    "same_keys (set_tree (plug (R_of y (Node g z b) # d) (Node l x r))) h1 h2" by (auto split: if_splits)
  have "splay_loop x h = splay_loop x h2"
    using a e h1(1) h2(1) located_right(1) [OF v] by (subst splay_loop.simps) simp
  then show ?thesis by (rule splayedI [OF _ h2(2) _ h1(3) h2(3)]) (auto simp: inorder_plug plug_nodes)
qed

lemma zig_zag_right:
  assumes l: "located h rt (R_of y b # L_of z g # d) (Node l x r)"
  shows "splayed x h rt (R_of y b # L_of z g # d) (Node l x r) d"
proof -
  note a = located_right [OF l]
  have u: "located h rt (L_of z g # d) (Node b y (Node l x r))" using l by (simp add: located_up)
  note e = located_left [OF u]
  from left_at [OF l] obtain h1 where h1: "lrot y h = Some h1" "located h1 rt (L_of z g # d) (Node (Node b y l) x r)"
    "same_keys (set_tree (plug (R_of y b # L_of z g # d) (Node l x r))) h h1" by auto
  from right_at [OF h1(2)] obtain h2 where h2: "rrot z h1 = Some h2"
    "located h2 (if d = [] then Some x else rt) d (Node (Node b y l) x (Node r z g))"
    "same_keys (set_tree (plug (L_of z g # d) (Node (Node b y l) x r))) h1 h2" by blast
  have "splay_loop x h = splay_loop x h2"
    using a e h1(1) h2(1) located_left(1) [OF h1(2)] by (subst splay_loop.simps) simp
  then show ?thesis by (rule splayedI [OF _ h2(2) _ h1(3) h2(3)]) (auto simp: inorder_plug plug_nodes)
qed

section \<open>The loop\<close>

lemma splay_loop_top:
  assumes "located h rt [] (Node l x r)"
  shows "splay_loop x h = Some h"
  using located_root [OF assms] by (subst splay_loop.simps) simp

lemma splay_last:
  assumes "located h rt [s] (Node l x r)"
  shows "\<exists>h' l' r'. splay_loop x h = Some h' \<and> located h' (Some x) [] (Node l' x r') \<and>
    inorder (Node l' x r') = inorder (plug [s] (Node l x r)) \<and> same_keys (set_tree (plug [s] (Node l x r))) h h'"
proof (cases s)
  case (L_of y b)
  note l = assms [unfolded L_of]
  have "tn_p (h y) = None" using located_root [of h rt "Node l x r" y b] l by (simp add: located_up)
  moreover from right_at [OF l] obtain h' where h': "rrot y h = Some h'" "located h' (Some x) [] (Node l x (Node r y b))"
    "same_keys (set_tree (plug [L_of y b] (Node l x r))) h h'" by auto
  ultimately have "splay_loop x h = Some h'" using located_left [OF l] by (subst splay_loop.simps) simp
  then show ?thesis using h' L_of by (intro exI [of _ h'] exI [of _ l] exI [of _ "Node r y b"]) simp
next
  case (R_of y b)
  note l = assms [unfolded R_of]
  have "tn_p (h y) = None" using located_root [of h rt b y "Node l x r"] l by (simp add: located_up)
  moreover from left_at [OF l] obtain h' where h': "lrot y h = Some h'" "located h' (Some x) [] (Node (Node b y l) x r)"
    "same_keys (set_tree (plug [R_of y b] (Node l x r))) h h'" by auto
  ultimately have "splay_loop x h = Some h'" using located_right [OF l] by (subst splay_loop.simps) simp
  then show ?thesis using h' R_of by (intro exI [of _ h'] exI [of _ "Node b y l"] exI [of _ r]) simp
qed

lemma splay_loop_ok:
  assumes "located h rt c (Node l x r)"
  shows "\<exists>h' l' r'. splay_loop x h = Some h' \<and> located h' (Some x) [] (Node l' x r') \<and>
    inorder (Node l' x r') = inorder (plug c (Node l x r)) \<and> same_keys (set_tree (plug c (Node l x r))) h h'"
  using assms
proof (induction c arbitrary: h rt l r rule: induct_list012)
  case 1
  have "located h (Some x) [] (Node l x r)" using 1 located_root [OF 1] by simp
  then show ?case using splay_loop_top [OF 1]
    by (intro exI [of _ h] exI [of _ l] exI [of _ r]) (simp add: same_keys_def)
next
  case (2 s)
  from splay_last [OF this] show ?case .
next
  case (3 s t d)
  have "splayed x h rt (s # t # d) (Node l x r) d"
    using 3(3) zig_zig_left zig_zag_left zig_zig_right zig_zag_right by (cases s; cases t) auto
  then obtain h1 l1 r1 where s: "splay_loop x h = splay_loop x h1" "located h1 (if d = [] then Some x else rt) d (Node l1 x r1)"
    "inorder (plug d (Node l1 x r1)) = inorder (plug (s # t # d) (Node l x r))"
    "same_keys (set_tree (plug (s # t # d) (Node l x r))) h h1" by (auto simp: splayed_def)
  from 3(1) [OF s(2)] obtain h' l' r' where t: "splay_loop x h1 = Some h'" "located h' (Some x) [] (Node l' x r')"
    "inorder (Node l' x r') = inorder (plug d (Node l1 x r1))" "same_keys (set_tree (plug d (Node l1 x r1))) h1 h'" by blast
  have "set_tree (plug d (Node l1 x r1)) = set_tree (plug (s # t # d) (Node l x r))"
    using s(3) by (metis set_inorder)
  with s t show ?case using same_keys_trans by metis
qed

end
