(* ===== verification/Tree_Ops.thy ===== *)
theory Tree_Ops
  imports Tree_Splay
begin

text \<open>Searching, inserting and deleting in a tree whose keys are in order.\<close>

section \<open>The tree and its heap\<close>

abbreviation key_of :: "tnodes \<Rightarrow> nat \<Rightarrow> u16" where
  "key_of h x \<equiv> tn_key (h x)"

definition keys :: "tnodes \<Rightarrow> nat tree \<Rightarrow> u16 set" where
  "keys h t = key_of h ` set_tree t"

definition in_order :: "tnodes \<Rightarrow> nat tree \<Rightarrow> bool" where
  "in_order h t \<longleftrightarrow> sorted_wrt (<) (map (key_of h) (inorder t))"

text \<open>The structure is the search tree \<open>t\<close>, and its nodes are blocks of the heap.\<close>

definition tree_ok :: "nat \<Rightarrow> nat \<Rightarrow> tree_state \<Rightarrow> nat tree \<Rightarrow> bool" where
  "tree_ok lo hi s t \<longleftrightarrow> located (ts_nodes s) (ts_root s) [] t \<and> in_order (ts_nodes s) t \<and> pool lo hi (ts_mem s) (inorder t)"

lemma tree_okD:
  assumes "tree_ok lo hi s t"
  shows "located (ts_nodes s) (ts_root s) [] t" and "in_order (ts_nodes s) t" and "pool lo hi (ts_mem s) (inorder t)"
    and "tree_at (ts_nodes s) (ts_root s) None t" and "distinct (inorder t)"
  using assms by (auto simp: tree_ok_def located_top)

lemma tree_okI:
  "located (ts_nodes s) (ts_root s) [] t \<Longrightarrow> in_order (ts_nodes s) t \<Longrightarrow> pool lo hi (ts_mem s) (inorder t) \<Longrightarrow> tree_ok lo hi s t"
  by (simp add: tree_ok_def)

lemma in_order_Node:
  "in_order h (Node l x r) \<longleftrightarrow> in_order h l \<and> in_order h r \<and> (\<forall>y \<in> set_tree l. key_of h y < key_of h x) \<and>
     (\<forall>y \<in> set_tree r. key_of h x < key_of h y)"
proof -
  have "key_of h y < key_of h z" if "key_of h y < key_of h x" "key_of h x < key_of h z" for y z
    using that by (rule less_trans)
  then show ?thesis by (auto simp: in_order_def sorted_wrt_append set_inorder)
qed

lemma in_order_Leaf [simp]: "in_order h Leaf"
  by (simp add: in_order_def)

lemma keys_simps [simp]: "keys h Leaf = {}" "keys h (Node l x r) = insert (key_of h x) (keys h l \<union> keys h r)"
  by (auto simp: keys_def)

lemma keys_inorder: "keys h t = set (map (key_of h) (inorder t))"
  by (simp add: keys_def set_inorder)

lemma in_order_same: "same_keys A h h' \<Longrightarrow> in_order h' t = in_order h t" "same_keys A h h' \<Longrightarrow> keys h' t = keys h t"
  by (simp_all add: in_order_def keys_def same_keys_def)

section \<open>Searching\<close>

lemma find_loop_ok:
  assumes "tree_at h p par t" and "in_order h t"
  shows "\<exists>r. find_loop key h p = Some r \<and>
    (case r of None \<Rightarrow> key \<notin> keys h t | Some x \<Rightarrow> x \<in> set_tree t \<and> key_of h x = key)"
  using assms
proof (induction t arbitrary: p par)
  case Leaf
  then show ?case by (subst find_loop.simps) simp
next
  case (Node l x r)
  have o: "in_order h l" "in_order h r" "\<And>y. y \<in> set_tree l \<Longrightarrow> key_of h y < key_of h x" "\<And>y. y \<in> set_tree r \<Longrightarrow> key_of h x < key_of h y"
    using Node.prems(2) by (auto simp: in_order_Node)
  consider "key = key_of h x" | "key < key_of h x" | "key_of h x < key" by (metis linorder_cases)
  then show ?case
  proof cases
    case 1
    then show ?thesis using Node.prems(1) by (subst find_loop.simps) simp
  next
    case 2
    from Node.IH(1) [of "tn_left (h x)" "Some x"] Node.prems(1) o(1) obtain q where
      q: "find_loop key h (tn_left (h x)) = Some q" "case q of None \<Rightarrow> key \<notin> keys h l | Some y \<Rightarrow> y \<in> set_tree l \<and> key_of h y = key" by auto
    have "find_loop key h p = Some q" using Node.prems(1) 2 q(1) by (subst find_loop.simps) auto
    moreover have "key \<notin> keys h r" using o(4) 2 by (force simp: keys_def)
    ultimately show ?thesis using q(2) 2 by (auto split: option.splits)
  next
    case 3
    from Node.IH(2) [of "tn_right (h x)" "Some x"] Node.prems(1) o(2) obtain q where
      q: "find_loop key h (tn_right (h x)) = Some q" "case q of None \<Rightarrow> key \<notin> keys h r | Some y \<Rightarrow> y \<in> set_tree r \<and> key_of h y = key" by auto
    have "find_loop key h p = Some q" using Node.prems(1) 3 q(1) by (subst find_loop.simps) auto
    moreover have "key \<notin> keys h l" using o(3) 3 by (force simp: keys_def)
    ultimately show ?thesis using q(2) 3 by (auto split: option.splits)
  qed
qed

lemma find_ok:
  assumes "tree_ok lo hi s t"
  shows "\<exists>r. find_loop key (ts_nodes s) (ts_root s) = Some r \<and>
    (case r of None \<Rightarrow> key \<notin> keys (ts_nodes s) t | Some x \<Rightarrow> x \<in> set_tree t \<and> key_of (ts_nodes s) x = key)"
  by (rule find_loop_ok [OF tree_okD(4,2) [OF assms]])

lemma min_loop_ok:
  "tree_at h (Some x) par t \<Longrightarrow> \<exists>c r y. min_loop h x = Some y \<and> t = plug c (Node Leaf y r) \<and> before c = []"
proof (induction t arbitrary: x par)
  case (Node l a r)
  show ?case
  proof (cases l)
    case Leaf
    then have "min_loop h x = Some a" using Node.prems by (subst min_loop.simps) simp
    then show ?thesis using Leaf by (intro exI [of _ "[]"] exI [of _ r] exI [of _ a]) simp
  next
    case (Node ll b lr)
    then have b: "tn_left (h x) = Some b" "tree_at h (Some b) (Some a) l" using Node.prems by simp_all
    from Node.IH(1) [OF b(2)] obtain c r' y where y: "min_loop h b = Some y" "l = plug c (Node Leaf y r')" "before c = []" by blast
    have "min_loop h x = Some y" using b(1) y(1) by (subst min_loop.simps) simp
    moreover have "before (c @ [L_of a r]) = [] \<and> Node l a r = plug (c @ [L_of a r]) (Node Leaf y r')"
    proof -
      have "plug (c @ [L_of a r]) u = Node (plug c u) a r" for u by (induction c u rule: plug.induct) auto
      moreover have "before (c @ [L_of a r]) = before c" by (induction c rule: before.induct) auto
      ultimately show ?thesis using y by simp
    qed
    ultimately show ?thesis by metis
  qed
qed simp

lemma plug_append: "plug (c @ d) t = plug d (plug c t)"
  by (induction c t rule: plug.induct) auto

lemma before_append: "before (c @ d) = before d @ before c"
  by (induction c rule: before.induct) auto

lemma after_append: "after (c @ d) = after c @ after d"
  by (induction c rule: after.induct) auto

lemma place_of: "x \<in> set_tree t \<Longrightarrow> \<exists>c l r. t = plug c (Node l x r)"
proof (induction t)
  case (Node l a r)
  show ?case
  proof (cases "x = a")
    case True
    then show ?thesis by (intro exI [of _ "[]"]) simp
  next
    case False
    with Node.prems consider "x \<in> set_tree l" | "x \<in> set_tree r" by auto
    then show ?thesis
    proof cases
      case 1
      from Node.IH(1) [OF this] obtain c l' r' where "l = plug c (Node l' x r')" by blast
      then have "Node l a r = plug (c @ [L_of a r]) (Node l' x r')" by (simp add: plug_append)
      then show ?thesis by blast
    next
      case 2
      from Node.IH(2) [OF this] obtain c l' r' where "r = plug c (Node l' x r')" by blast
      then have "Node l a r = plug (c @ [R_of a l]) (Node l' x r')" by (simp add: plug_append)
      then show ?thesis by blast
    qed
  qed
qed simp

section \<open>Insertion\<close>

lemma insert_loop_ok:
  assumes "ctx_at h c p rt par" and "tree_at h p par t" and "in_order h t"
    and "\<forall>y \<in> set (before c). key_of h y < key" and "\<forall>y \<in> set (after c). key < key_of h y"
  shows "(key \<in> keys h t \<longrightarrow> insert_loop key h par p = Some None) \<and>
    (key \<notin> keys h t \<longrightarrow> (\<exists>d par'. insert_loop key h par p = Some (Some par') \<and> plug d Leaf = plug c t \<and> ctx_at h d None rt par' \<and>
       (\<forall>y \<in> set (before d). key_of h y < key) \<and> (\<forall>y \<in> set (after d). key < key_of h y)))"
  using assms
proof (induction t arbitrary: c p par)
  case Leaf
  then have "insert_loop key h par p = Some (Some par)" by (subst insert_loop.simps) simp
  then show ?case using Leaf by auto
next
  case (Node l x r)
  have o: "in_order h l" "in_order h r" "\<forall>y \<in> set_tree l. key_of h y < key_of h x" "\<forall>y \<in> set_tree r. key_of h x < key_of h y"
    using Node.prems(3) by (auto simp: in_order_Node)
  have p: "p = Some x" "tn_p (h x) = par" "tree_at h (tn_left (h x)) (Some x) l" "tree_at h (tn_right (h x)) (Some x) r"
    using Node.prems(2) by simp_all
  consider "key = key_of h x" | "key < key_of h x" | "key_of h x < key" by (metis linorder_cases)
  then show ?case
  proof cases
    case 1
    then show ?thesis using p(1) by (subst insert_loop.simps) simp
  next
    case 2
    have cx: "ctx_at h (L_of x r # c) (tn_left (h x)) rt (Some x)" using Node.prems(1) p by simp
    have a: "\<forall>y \<in> set (after (L_of x r # c)). key < key_of h y"
      using Node.prems(5) o(4) 2 less_trans by (fastforce simp: set_inorder)
    have b: "\<forall>y \<in> set (before (L_of x r # c)). key_of h y < key" using Node.prems(4) by simp
    have nr: "key \<notin> keys h r" using o(4) 2 by (force simp: keys_def)
    have e: "insert_loop key h par p = insert_loop key h (Some x) (tn_left (h x))"
      using p(1) 2 by (subst insert_loop.simps) auto
    show ?thesis using Node.IH(1) [OF cx p(3) o(1) b a] nr 2 unfolding e by auto
  next
    case 3
    have cx: "ctx_at h (R_of x l # c) (tn_right (h x)) rt (Some x)" using Node.prems(1) p by simp
    have b: "\<forall>y \<in> set (before (R_of x l # c)). key_of h y < key"
      using Node.prems(4) o(3) 3 less_trans by (fastforce simp: set_inorder)
    have a: "\<forall>y \<in> set (after (R_of x l # c)). key < key_of h y" using Node.prems(5) by simp
    have nl: "key \<notin> keys h l" using o(3) 3 by (force simp: keys_def)
    have e: "insert_loop key h par p = insert_loop key h (Some x) (tn_right (h x))"
      using p(1) 3 by (subst insert_loop.simps) auto
    show ?thesis using Node.IH(2) [OF cx p(4) o(2) b a] nl 3 unfolding e by auto
  qed
qed

lemma insert_at_ok:
  assumes cx: "ctx_at (ts_nodes s) d None (ts_root s) par" and cd: "ctx_distinct d" and x: "x \<notin> ctx_nodes d"
    and b: "\<forall>y \<in> set (before d). key_of (ts_nodes s) y < key" and a: "\<forall>y \<in> set (after d). key < key_of (ts_nodes s) y"
  defines "s' \<equiv> insert_at key par x s"
  shows "located (ts_nodes s') (ts_root s') d (Node Leaf x Leaf)" and "ts_mem s' = ts_mem s"
    and "key_of (ts_nodes s') x = key" and "y \<noteq> x \<Longrightarrow> key_of (ts_nodes s') y = key_of (ts_nodes s) y"
proof -
  let ?h = "(ts_nodes s)(x := \<lparr>tn_key = key, tn_left = None, tn_right = None, tn_p = par\<rparr>)"
  have cx': "ctx_at ?h d None (ts_root s) par"
  proof -
    have "ctx_at ?h d None (ts_root s) par = ctx_at (ts_nodes s) d None (ts_root s) par"
      using x by (intro ctx_at_frame) auto
    then show ?thesis using cx by simp
  qed
  have s: "ts_nodes s' = relink d (Some x) ?h \<and> ts_root s' = (if d = [] then Some x else ts_root s) \<and> ts_mem s' = ts_mem s"
  proof (cases d rule: ctx_nodes.cases)
    case 1
    then show ?thesis using cx by (simp add: s'_def insert_at_def relink_def Let_def)
  next
    case (2 q r c)
    then show ?thesis using cx a x by (auto simp: s'_def insert_at_def relink_def Let_def)
  next
    case (3 q l c)
    then show ?thesis using cx b x by (auto simp: s'_def insert_at_def relink_def Let_def)
  qed
  have hx: "relink d (Some x) ?h x = \<lparr>tn_key = key, tn_left = None, tn_right = None, tn_p = par\<rparr>" using x by (simp add: relink_other)
  have "ctx_at (relink d (Some x) ?h) d (Some x) (if d = [] then Some x else ts_root s) par"
    by (rule ctx_at_relink [OF cx' cd refl])
  then show "located (ts_nodes s') (ts_root s') d (Node Leaf x Leaf)"
    unfolding s [THEN conjunct1] s [THEN conjunct2, THEN conjunct1]
    using cd x hx by (intro locatedI [where p = "Some x" and par = par]) auto
  show "ts_mem s' = ts_mem s" using s by simp
  show "key_of (ts_nodes s') x = key" using s hx by simp
  show "y \<noteq> x \<Longrightarrow> key_of (ts_nodes s') y = key_of (ts_nodes s) y" using s by (simp add: relink_fields)
qed

lemma insert_ok:
  assumes ok: "tree_ok lo hi s t"
  shows "\<exists>r s' t'. insert_tree key s = Some (r, s') \<and> tree_ok lo hi s' t' \<and>
    (if key \<in> keys (ts_nodes s) t then r = TREE_NODE_EXISTS \<and> s' = s \<and> t' = t
     else r = TREE_OUT_OF_MEM \<and> s' = s \<and> t' = t \<or>
          r = TREE_OK \<and> keys (ts_nodes s') t' = insert key (keys (ts_nodes s) t))"
proof -
  let ?h = "ts_nodes s"
  note d = tree_okD [OF ok]
  have cx: "ctx_at ?h [] (ts_root s) (ts_root s) None" by simp
  note il = insert_loop_ok [OF cx d(4,2), of key, simplified]
  show ?thesis
  proof (cases "key \<in> keys ?h t")
    case True
    then show ?thesis using il ok by (intro exI [of _ TREE_NODE_EXISTS] exI [of _ s] exI [of _ t]) (simp add: insert_tree_def)
  next
    case False
    with il obtain c par where c: "insert_loop key ?h None (ts_root s) = Some (Some par)" "plug c Leaf = t"
      "ctx_at ?h c None (ts_root s) par" "\<forall>y \<in> set (before c). key_of ?h y < key" "\<forall>y \<in> set (after c). key < key_of ?h y" by blast
    from pool_alloc_cases [OF d(3), of sizeof_tree_node] obtain x m where
      x: "mos_mem_alloc sizeof_tree_node (ts_mem s) = Some (x, m)"
        "case x of None \<Rightarrow> m = ts_mem s | Some b \<Rightarrow> pool lo hi m (b # inorder t)" by blast
    show ?thesis
    proof (cases x)
      case None
      then have "insert_tree key s = Some (TREE_OUT_OF_MEM, s)" using c(1) x by (simp add: insert_tree_def Let_def)
      then show ?thesis using ok False by (intro exI [of _ TREE_OUT_OF_MEM] exI [of _ s] exI [of _ t]) simp
    next
      case (Some b)
      let ?s = "insert_at key par b (s\<lparr>ts_mem := m\<rparr>)" and ?t = "plug c (Node Leaf b Leaf)"
      have pl: "pool lo hi m (b # inorder t)" using x(2) Some by simp
      have nd: "ctx_nodes c = set_tree t" using c(2) plug_nodes [of c Leaf] by simp
      have cd: "ctx_distinct c" using d(5) c(2) distinct_plug [of c Leaf] by simp
      have nb: "b \<notin> ctx_nodes c" using pool_distinct [OF pl] nd by (simp add: set_inorder)
      note ia = insert_at_ok [of "s\<lparr>ts_mem := m\<rparr>" c par b key, simplified, OF c(3) cd nb c(4,5)]
      have io: "inorder ?t = before c @ b # after c" "inorder t = before c @ after c"
        using c(2) inorder_plug [of c Leaf] by (simp_all add: inorder_plug)
      have kb: "key_of (ts_nodes ?s) y = key_of ?h y" if "y \<in> set (before c) \<union> set (after c)" for y
      proof (rule ia(4))
        show "y \<noteq> b" using that nb set_before_after [of c] by blast
      qed
      have mp: "map (key_of (ts_nodes ?s)) (before c) = map (key_of ?h) (before c)"
        "map (key_of (ts_nodes ?s)) (after c) = map (key_of ?h) (after c)" using kb by simp_all
      have "in_order (ts_nodes ?s) ?t"
        using d(2) c(4,5) unfolding in_order_def io by (auto simp: sorted_wrt_append mp ia(3))
      moreover have "pool lo hi (ts_mem ?s) (inorder ?t)" unfolding ia(2)
        by (rule pool_cong [OF pl]) (use io pool_distinct [OF pl] in auto)
      moreover have "located (ts_nodes ?s) (ts_root ?s) [] ?t" using ia(1) by (simp only: located_plug [symmetric])
      ultimately have "tree_ok lo hi ?s ?t" by (simp only: tree_ok_def)
      moreover have "insert_tree key s = Some (TREE_OK, ?s)" using c(1) x(1) Some by (simp add: insert_tree_def Let_def)
      moreover have "keys (ts_nodes ?s) ?t = insert key (keys ?h t)"
        unfolding keys_inorder io by (simp add: mp ia(3) Un_commute image_Un)
      ultimately show ?thesis using False by metis
    qed
  qed
qed

section \<open>Deletion\<close>

text \<open>Taking out a node with at most one child leaves that child, the subtree \<open>u\<close>, in its place.\<close>

lemma unchain_ok:
  assumes l: "located (ts_nodes s) (ts_root s) c (Node a y b)" and u: "(a = Leaf \<and> u = b) \<or> (b = Leaf \<and> u = a)"
  shows "located (ts_nodes (unchain y s)) (ts_root (unchain y s)) c u" and "ts_mem (unchain y s) = ts_mem s"
    and "key_of (ts_nodes (unchain y s)) z = key_of (ts_nodes s) z"
    and "ts_nodes (unchain y s) y = ts_nodes s y"
proof -
  let ?h = "ts_nodes s"
  from l obtain p par where
    cx: "ctx_at ?h c p (ts_root s) par" and t: "tree_at ?h p par (Node a y b)" and cd: "ctx_distinct c"
    and dd: "distinct (inorder (Node a y b))" and dj: "set_tree (Node a y b) \<inter> ctx_nodes c = {}" by (rule locatedE)
  have p: "p = Some y" "tn_p (?h y) = par" using t by simp_all
  have y: "y \<notin> ctx_nodes c" "y \<notin> set_tree u" "set_tree u \<inter> ctx_nodes c = {}" "distinct (inorder u)"
    using dd dj u by (auto simp: set_inorder)
  define x where "x = (if tn_left (?h y) \<noteq> None then tn_left (?h y) else tn_right (?h y))"
  have ux: "tree_at ?h x (Some y) u" using t u by (cases "tn_left (?h y)") (auto simp: x_def dest: root_ptr_at)
  define h1 where "h1 = (case x of None \<Rightarrow> ?h | Some x \<Rightarrow> set_p x par ?h)"
  have xu: "z \<in> set_tree u" if "x = Some z" for z using tree_at_root [OF ux that] .
  have h1c: "h1 z = ?h z" if "z \<notin> set_tree u" for z using xu that by (auto simp: h1_def split: option.split)
  have h1y: "h1 y = ?h y" using y(2) by (rule h1c)
  have cx1: "ctx_at h1 c (Some y) (ts_root s) par"
  proof -
    have "ctx_at h1 c p (ts_root s) par = ctx_at ?h c p (ts_root s) par" using y(3) by (intro ctx_at_frame h1c) auto
    then show ?thesis using cx p(1) by simp
  qed
  have s: "unchain y s = s\<lparr>ts_nodes := relink c x h1, ts_root := (if c = [] then x else ts_root s)\<rparr>"
  proof -
    have "unchain y s = (case par of None \<Rightarrow> s\<lparr>ts_nodes := h1, ts_root := x\<rparr>
       | Some q \<Rightarrow> s\<lparr>ts_nodes := if tn_left (h1 q) = Some y then set_left q x h1 else set_right q x h1\<rparr>)"
      unfolding unchain_def Let_def x_def [symmetric] p(2) h1_def [symmetric] h1y p(2) ..
    also have "\<dots> = s\<lparr>ts_nodes := relink c x h1, ts_root := (if c = [] then x else ts_root s)\<rparr>"
      using relink_left_first [OF cx1 y(1), of x] cx1
      by (cases c rule: ctx_nodes.cases) (auto simp: relink_def)
    finally show ?thesis .
  qed
  have "ctx_at (relink c x h1) c x (if c = [] then x else ts_root s) par" by (rule ctx_at_relink [OF cx1 cd refl])
  moreover have "tree_at (relink c x h1) x par u"
  proof (rule tree_at_reparent [OF ux _ y(4)])
    fix z assume "z \<in> set_tree u"
    then have "relink c x h1 z = h1 z" using y(3) by (intro relink_other) auto
    then show "relink c x h1 z = (if x = Some z then (?h z)\<lparr>tn_p := par\<rparr> else ?h z)"
      by (auto simp: h1_def split: option.split)
  qed
  ultimately show "located (ts_nodes (unchain y s)) (ts_root (unchain y s)) c u"
    using cd y(3,4) unfolding s by (auto intro: locatedI)
  show "ts_mem (unchain y s) = ts_mem s" by (simp add: s)
  show "key_of (ts_nodes (unchain y s)) z = key_of (ts_nodes s) z"
    by (auto simp: s relink_fields h1_def split: option.split)
  show "ts_nodes (unchain y s) y = ts_nodes s y" using y(1) h1y by (simp add: s relink_other)
qed

text \<open>Putting \<open>y\<close>, which is not in the tree, in the place of \<open>z\<close>.\<close>

lemma replace_node_ok:
  assumes l: "located (ts_nodes s) (ts_root s) c (Node a z b)" and y: "y \<notin> set_tree (plug c (Node a z b))"
  shows "located (ts_nodes (replace_node z y s)) (ts_root (replace_node z y s)) c (Node a y b)"
    and "ts_mem (replace_node z y s) = ts_mem s" and "key_of (ts_nodes (replace_node z y s)) x = key_of (ts_nodes s) x"
proof -
  let ?h = "ts_nodes s"
  from l obtain p par where
    cx: "ctx_at ?h c p (ts_root s) par" and t: "tree_at ?h p par (Node a z b)" and cd: "ctx_distinct c"
    and dd: "distinct (inorder (Node a z b))" and dj: "set_tree (Node a z b) \<inter> ctx_nodes c = {}" by (rule locatedE)
  have p: "p = Some z" "tn_p (?h z) = par" "tree_at ?h (tn_left (?h z)) (Some z) a" "tree_at ?h (tn_right (?h z)) (Some z) b"
    using t by simp_all
  have rp: "tn_left (?h z) = root_ptr a" "tn_right (?h z) = root_ptr b" using p(3,4) by (auto dest: root_ptr_at)
  have n: "y \<noteq> z" "y \<notin> set_tree a" "y \<notin> set_tree b" "y \<notin> ctx_nodes c" using y by (auto simp: plug_nodes)
  have m: "z \<notin> set_tree a" "z \<notin> set_tree b" "set_tree a \<inter> set_tree b = {}" "z \<notin> ctx_nodes c"
    "set_tree a \<inter> ctx_nodes c = {}" "set_tree b \<inter> ctx_nodes c = {}" "distinct (inorder a)" "distinct (inorder b)"
    using dd dj by (auto simp: set_inorder)
  have ra: "w \<in> set_tree a" if "root_ptr a = Some w" for w using that by (rule root_ptr_in)
  have rb: "w \<in> set_tree b" if "root_ptr b = Some w" for w using that by (rule root_ptr_in)
  define g where "g w = (if w = y then (?h y)\<lparr>tn_left := root_ptr a, tn_right := root_ptr b, tn_p := par\<rparr>
    else if root_ptr a = Some w \<or> root_ptr b = Some w then (?h w)\<lparr>tn_p := Some y\<rparr> else ?h w)" for w
  have gz: "g z = ?h z" using n(1) m(1,2) ra rb by (auto simp: g_def)
  have gc: "g w = ?h w" if "w \<in> ctx_nodes c" for w using that n(4) m(5,6) ra rb by (auto simp: g_def)
  have cx1: "ctx_at g c (Some z) (ts_root s) par"
  proof -
    have "ctx_at g c p (ts_root s) par = ctx_at ?h c p (ts_root s) par" by (intro ctx_at_frame gc)
    then show ?thesis using cx p(1) by simp
  qed
  define h1 where "h1 = set_left y (root_ptr a) ?h"
  define h2 where "h2 = (case root_ptr a of None \<Rightarrow> h1 | Some l \<Rightarrow> set_p l (Some y) h1)"
  define h3 where "h3 = set_right y (root_ptr b) h2"
  define h4 where "h4 = (case root_ptr b of None \<Rightarrow> h3 | Some r \<Rightarrow> set_p r (Some y) h3)"
  have az: "root_ptr a \<noteq> Some z" "root_ptr b \<noteq> Some z" "root_ptr a \<noteq> Some y" "root_ptr b \<noteq> Some y"
    "root_ptr a = Some w \<Longrightarrow> root_ptr b \<noteq> Some w" for w
    using ra rb m(1,2,3) n(2,3) by auto
  have f1: "tn_left (h1 y) = root_ptr a" by (simp add: h1_def)
  have f2: "tn_right (h2 z) = root_ptr b" using n(1) az(1) rp(2) by (auto simp: h2_def h1_def split: option.split)
  have f3: "tn_right (h3 y) = root_ptr b" by (simp add: h3_def)
  have f4: "tn_p (h4 z) = par" using n(1) az(1,2) p(2) by (auto simp: h4_def h3_def h2_def h1_def split: option.split)
  have f5: "set_p y par h4 = g"
    using az n(1) by (auto simp: h4_def h3_def h2_def h1_def g_def fun_eq_iff split: option.split)
  have gp: "tn_p (g z) = par" using gz p(2) by simp
  have s: "replace_node z y s = s\<lparr>ts_nodes := relink c (Some y) g, ts_root := (if c = [] then Some y else ts_root s)\<rparr>"
  proof -
    have "replace_node z y s = (case par of None \<Rightarrow> s\<lparr>ts_nodes := g, ts_root := Some y\<rparr>
       | Some q \<Rightarrow> s\<lparr>ts_nodes := if tn_left (g q) = Some z then set_left q (Some y) g else set_right q (Some y) g\<rparr>)"
      unfolding replace_node_def Let_def rp h1_def [symmetric] f1 h2_def [symmetric] f2 h3_def [symmetric] f3 h4_def [symmetric]
        f4 f5 gp ..
    also have "\<dots> = s\<lparr>ts_nodes := relink c (Some y) g, ts_root := (if c = [] then Some y else ts_root s)\<rparr>"
      using relink_left_first [OF cx1 m(4), of "Some y"] cx1
      by (cases c rule: ctx_nodes.cases) (auto simp: relink_def)
    finally show ?thesis .
  qed
  have ro: "relink c (Some y) g w = g w" if "w \<notin> ctx_nodes c" for w using that by (rule relink_other)
  have "ctx_at (relink c (Some y) g) c (Some y) (if c = [] then Some y else ts_root s) par" by (rule ctx_at_relink [OF cx1 cd refl])
  moreover have "tree_at (relink c (Some y) g) (root_ptr a) (Some y) a"
  proof (rule tree_at_reparent [OF p(3) [unfolded rp] _ m(7)])
    fix w assume "w \<in> set_tree a"
    then have "w \<notin> ctx_nodes c" "root_ptr b \<noteq> Some w" "w \<noteq> y" using n(2) m(3,5) rb by blast+
    then show "relink c (Some y) g w = (if root_ptr a = Some w then (?h w)\<lparr>tn_p := Some y\<rparr> else ?h w)"
      by (simp add: ro g_def)
  qed
  moreover have "tree_at (relink c (Some y) g) (root_ptr b) (Some y) b"
  proof (rule tree_at_reparent [OF p(4) [unfolded rp] _ m(8)])
    fix w assume "w \<in> set_tree b"
    then have "w \<notin> ctx_nodes c" "root_ptr a \<noteq> Some w" "w \<noteq> y" using n(3) m(3,6) ra by blast+
    then show "relink c (Some y) g w = (if root_ptr b = Some w then (?h w)\<lparr>tn_p := Some y\<rparr> else ?h w)"
      by (simp add: ro g_def)
  qed
  moreover have "relink c (Some y) g y = (?h y)\<lparr>tn_left := root_ptr a, tn_right := root_ptr b, tn_p := par\<rparr>"
    using ro [OF n(4)] by (simp add: g_def)
  moreover have "distinct (inorder (Node a y b))" "set_tree (Node a y b) \<inter> ctx_nodes c = {}"
    using dd dj n by (auto simp: set_inorder)
  ultimately show "located (ts_nodes (replace_node z y s)) (ts_root (replace_node z y s)) c (Node a y b)"
    using cd unfolding s by (intro locatedI [where p = "Some y" and par = par]) simp_all
  show "ts_mem (replace_node z y s) = ts_mem s" by (simp add: s)
  show "key_of (ts_nodes (replace_node z y s)) x = key_of (ts_nodes s) x" by (simp add: s relink_fields g_def)
qed

lemma place_ptrs:
  assumes "located h rt c (Node a z b)"
  shows "tn_left (h z) = root_ptr a" and "tn_right (h z) = root_ptr b" and "tree_at h (root_ptr b) (Some z) b"
proof -
  from assms obtain p par where "tree_at h p par (Node a z b)" by (rule locatedE)
  then have f: "tree_at h (tn_left (h z)) (Some z) a" "tree_at h (tn_right (h z)) (Some z) b" by simp_all
  show "tn_left (h z) = root_ptr a" by (rule root_ptr_at [OF f(1)])
  show r: "tn_right (h z) = root_ptr b" by (rule root_ptr_at [OF f(2)])
  show "tree_at h (root_ptr b) (Some z) b" using f(2) r by simp
qed

text \<open>Everything but giving back the memory.\<close>

definition drop_node :: "nat \<Rightarrow> nat \<Rightarrow> tree_state \<Rightarrow> tree_state" where
  "drop_node z y s = (if y \<noteq> z then replace_node z y (unchain y s) else unchain y s)"

lemma drop_node_ok:
  assumes l: "located (ts_nodes s) (ts_root s) c (Node a z b)"
  shows "\<exists>y t'. (if tn_left (ts_nodes s z) = None then Some z
      else case tn_right (ts_nodes s z) of None \<Rightarrow> Some z | Some r \<Rightarrow> min_loop (ts_nodes s) r) = Some y \<and>
    located (ts_nodes (drop_node z y s)) (ts_root (drop_node z y s)) [] t' \<and> ts_mem (drop_node z y s) = ts_mem s \<and>
    inorder t' = before c @ inorder a @ inorder b @ after c \<and>
    (\<forall>x. key_of (ts_nodes (drop_node z y s)) x = key_of (ts_nodes s) x)"
proof (cases "a = Leaf \<or> b = Leaf")
  case True
  then obtain u where u: "(a = Leaf \<and> u = b) \<or> (b = Leaf \<and> u = a)" by blast
  note r = unchain_ok [OF l u]
  have "(if tn_left (ts_nodes s z) = None then Some z
      else case tn_right (ts_nodes s z) of None \<Rightarrow> Some z | Some r \<Rightarrow> min_loop (ts_nodes s) r) = Some z"
    using True place_ptrs [OF l] by (auto simp: root_ptr_def)
  moreover have "located (ts_nodes (drop_node z z s)) (ts_root (drop_node z z s)) [] (plug c u)"
    using r(1) by (simp add: drop_node_def located_plug [symmetric])
  moreover have "inorder (plug c u) = before c @ inorder a @ inorder b @ after c" using u by (auto simp: inorder_plug)
  ultimately show ?thesis using r(2,3) by (intro exI [of _ z] exI [of _ "plug c u"]) (simp add: drop_node_def)
next
  case False
  then obtain r0 where r0: "root_ptr b = Some r0" "root_ptr a \<noteq> None" by (cases a; cases b) (auto simp: root_ptr_def)
  note pp = place_ptrs [OF l]
  from min_loop_ok [OF pp(3) [unfolded r0(1)]] obtain d e y where
    y: "min_loop (ts_nodes s) r0 = Some y" "b = plug d (Node Leaf y e)" "before d = []" by blast
  have bn: "set_tree b = insert y (set_tree e \<union> ctx_nodes d)" using y(2) plug_nodes [of d "Node Leaf y e"] by auto
  have ld: "located (ts_nodes s) (ts_root s) (d @ R_of z a # c) (Node Leaf y e)"
    using l y(2) by (simp add: located_plug [of _ _ "d @ _"] located_plug [of _ _ c] plug_append)
  note u = unchain_ok [OF ld, of e, simplified]
  have lz: "located (ts_nodes (unchain y s)) (ts_root (unchain y s)) c (Node a z (plug d e))"
    using u(1) by (simp add: located_plug [of _ _ "d @ _"] located_plug [of _ _ c] plug_append)
  have dt: "distinct (inorder (plug d (Node Leaf y e)))" "y \<noteq> z" "y \<notin> set_tree a" "y \<notin> ctx_nodes c"
    using l bn y(2) by (auto simp: located_def distinct_plug [of c] set_inorder)
  then have ny: "y \<notin> set_tree (plug c (Node a z (plug d e)))"
    by (auto simp: plug_nodes distinct_plug [of d])
  note r = replace_node_ok [OF lz ny]
  have ps: "(if tn_left (ts_nodes s z) = None then Some z
      else case tn_right (ts_nodes s z) of None \<Rightarrow> Some z | Some r \<Rightarrow> min_loop (ts_nodes s) r) = Some y"
    using pp r0 y(1) by auto
  have "inorder b = y # inorder e @ after d" using y(2,3) by (simp add: inorder_plug)
  then have "inorder (plug c (Node a y (plug d e))) = before c @ inorder a @ inorder b @ after c"
    using y(3) by (simp add: inorder_plug)
  moreover have "located (ts_nodes (drop_node z y s)) (ts_root (drop_node z y s)) [] (plug c (Node a y (plug d e)))"
    using r(1) dt(2) by (simp add: drop_node_def located_plug [symmetric])
  ultimately show ?thesis using ps r(2,3) u(2,3) dt(2)
    by (intro exI [of _ y] exI [of _ "plug c (Node a y (plug d e))"]) (simp add: drop_node_def)
qed

lemma delete_ok:
  assumes ok: "tree_ok lo hi s t"
  shows "\<exists>r s' t'. delete_tree key s = Some (r, s') \<and> tree_ok lo hi s' t' \<and>
    keys (ts_nodes s') t' = keys (ts_nodes s) t - {key} \<and>
    (if key \<in> keys (ts_nodes s) t then r = TREE_OK else r = TREE_NODE_NOT_FOUND \<and> s' = s)"
proof -
  let ?h = "ts_nodes s"
  note d = tree_okD [OF ok]
  from find_ok [OF ok, of key] obtain r where r: "find_loop key ?h (ts_root s) = Some r"
    "case r of None \<Rightarrow> key \<notin> keys ?h t | Some x \<Rightarrow> x \<in> set_tree t \<and> key_of ?h x = key" by blast
  show ?thesis
  proof (cases r)
    case None
    then show ?thesis using r ok by (intro exI [of _ TREE_NODE_NOT_FOUND] exI [of _ s] exI [of _ t]) (simp add: delete_tree_def)
  next
    case (Some z)
    then have z: "z \<in> set_tree t" "key_of ?h z = key" using r(2) by simp_all
    from place_of [OF z(1)] obtain c a b where t: "t = plug c (Node a z b)" by blast
    have l: "located ?h (ts_root s) c (Node a z b)" using d(1) t by (simp add: located_plug [of _ _ c])
    from drop_node_ok [OF l] obtain y t' where y: "(if tn_left (?h z) = None then Some z
        else case tn_right (?h z) of None \<Rightarrow> Some z | Some r \<Rightarrow> min_loop ?h r) = Some y"
      "located (ts_nodes (drop_node z y s)) (ts_root (drop_node z y s)) [] t'" "ts_mem (drop_node z y s) = ts_mem s"
      "inorder t' = before c @ inorder a @ inorder b @ after c"
      "\<And>x. key_of (ts_nodes (drop_node z y s)) x = key_of ?h x" by blast
    have io: "inorder t = (before c @ inorder a) @ z # inorder b @ after c" using t by (simp add: inorder_plug)
    have i': "inorder t' = (before c @ inorder a) @ inorder b @ after c" using y(4) by simp
    have nz: "z \<notin> set (before c @ inorder a)" using d(5) unfolding io by auto
    have io': "inorder t' = remove1 z (inorder t)" unfolding io i' using nz by (simp add: remove1_append)
    from pool_free [OF d(3), of z] z(1) obtain m where m: "mos_mem_free z (ts_mem s) = Some m" "pool lo hi m (inorder t')"
      by (auto simp: set_inorder io')
    let ?s = "(drop_node z y s)\<lparr>ts_mem := m\<rparr>"
    have mk: "map (key_of (ts_nodes ?s)) xs = map (key_of ?h) xs" for xs using y(5) by simp
    have so: "sorted_wrt (<) (map (key_of ?h) (before c @ inorder a) @ key_of ?h z # map (key_of ?h) (inorder b @ after c))"
      using d(2) unfolding in_order_def io by simp
    have "in_order (ts_nodes ?s) t'" using so unfolding in_order_def mk i' by (auto simp: sorted_wrt_append)
    moreover have "located (ts_nodes ?s) (ts_root ?s) [] t'" using y(2) by simp
    ultimately have "tree_ok lo hi ?s t'" using m(2) by (simp add: tree_ok_def)
    moreover have "delete_tree key s = Some (TREE_OK, ?s)"
    proof -
      have "(if y \<noteq> z then free_node z (replace_node z y (unchain y s)) else free_node y (unchain y s)) = Some ?s"
        using m(1) y(3) by (auto simp: free_node_def drop_node_def split: if_splits)
      then show ?thesis using r(1) Some y(1) by (simp add: delete_tree_def Let_def)
    qed
    moreover have "keys (ts_nodes ?s) t' = keys ?h t - {key}"
    proof -
      have "key \<notin> set (map (key_of ?h) ((before c @ inorder a) @ inorder b @ after c))"
        using so z(2) by (auto simp: sorted_wrt_append)
      then show ?thesis unfolding keys_inorder mk i' io using z(2) by auto
    qed
    moreover have "key \<in> keys ?h t" using z by (auto simp: keys_def)
    ultimately show ?thesis by auto
  qed
qed

end
