(* ===== verification/Tree_Properties.thy ===== *)
theory Tree_Properties
  imports Tree_Ops Sched_Properties
begin

text \<open>The properties of the search tree.\<close>

section \<open>Deleting everything\<close>

fun parent_of :: "step_up list \<Rightarrow> nat option" where
  "parent_of [] = None"
| "parent_of (L_of q r # c) = Some q"
| "parent_of (R_of q l # c) = Some q"

lemma ctx_parent: "ctx_at h c p rt par \<Longrightarrow> par = parent_of c"
  by (cases c rule: parent_of.cases) auto

lemma ctx_root: "ctx_at h c p rt par \<Longrightarrow> c \<noteq> [] \<Longrightarrow> \<exists>a \<in> ctx_nodes c. rt = Some a"
proof (induction c arbitrary: p par rule: ctx_nodes.induct)
  case (2 a r c)
  then show ?case by (cases "c = []") auto
next
  case (3 a l c)
  then show ?case by (cases "c = []") auto
qed simp

text \<open>The loop at a leaf.\<close>

lemma delete_leaf:
  assumes l: "located (ts_nodes s) (ts_root s) c (Node Leaf x Leaf)" and p: "pool lo hi (ts_mem s) (inorder (plug c (Node Leaf x Leaf)))"
  shows "\<exists>s1. delete_loop (Some x) s = (if c = [] then Some s1 else delete_loop (parent_of c) s1) \<and>
    pool lo hi (ts_mem s1) (inorder (plug c Leaf)) \<and> (c \<noteq> [] \<longrightarrow> located (ts_nodes s1) (ts_root s1) c Leaf)"
proof -
  let ?h = "ts_nodes s"
  from l obtain q par where
    cx: "ctx_at ?h c q (ts_root s) par" and t: "tree_at ?h q par (Node Leaf x Leaf)" and cd: "ctx_distinct c"
    and dj: "set_tree (Node Leaf x Leaf) \<inter> ctx_nodes c = {}" by (rule locatedE)
  have f: "q = Some x" "tn_p (?h x) = par" "tn_left (?h x) = None" "tn_right (?h x) = None" "x \<notin> ctx_nodes c" using t dj by simp_all
  note par = ctx_parent [OF cx]
  have io: "inorder (plug c Leaf) = remove1 x (inorder (plug c (Node Leaf x Leaf)))"
    using f(5) set_before_after [of c] by (auto simp: inorder_plug remove1_append)
  have mem: "x \<in> set (inorder (plug c (Node Leaf x Leaf)))" by (simp add: plug_nodes)
  from pool_free [OF p mem] obtain m where m: "mos_mem_free x (ts_mem s) = Some m" "pool lo hi m (inorder (plug c Leaf))"
    unfolding io by blast
  have fr: "free_node x s = Some (s\<lparr>ts_mem := m\<rparr>)" using m(1) by (simp add: free_node_def)
  show ?thesis
  proof (cases "c = []")
    case True
    then have "ts_root s = Some x" using cx f(1) by simp
    then have "delete_loop (Some x) s = Some (s\<lparr>ts_mem := m\<rparr>)" using f fr by (subst delete_loop.simps) simp
    then show ?thesis using True m(2) by (intro exI [of _ "s\<lparr>ts_mem := m\<rparr>"]) simp
  next
    case False
    then obtain y where y: "parent_of c = Some y" "y \<in> ctx_nodes c" by (cases c rule: parent_of.cases) auto
    have "ts_root s \<noteq> Some x" using ctx_root [OF cx False] f(5) by auto
    let ?s = "s\<lparr>ts_mem := m, ts_nodes := relink c None ?h\<rparr>"
    have rl: "(let h = (if tn_left (?h y) = Some x then set_left y None ?h else ?h) in
        if tn_right (h y) = Some x then set_right y None h else h) = relink c None ?h"
    proof (cases c rule: parent_of.cases)
      case (2 a r d)
      then have "tn_right (?h a) \<noteq> Some x" using cx f(5) tree_at_root [of ?h "tn_right (?h a)" "Some a" r x] by auto
      then show ?thesis using 2 cx f(1) y(1) by (simp add: relink_def Let_def)
    next
      case (3 a r d)
      then have "tn_left (?h a) \<noteq> Some x" using cx f(5) tree_at_root [of ?h "tn_left (?h a)" "Some a" r x] by auto
      then show ?thesis using 3 cx f(1) y(1) by (simp add: relink_def Let_def)
    qed (use False in simp)
    have "delete_loop (Some x) s = delete_loop (tn_p (relink c None ?h x)) ?s"
      using f \<open>ts_root s \<noteq> Some x\<close> fr par y(1) rl by (subst delete_loop.simps) (simp add: Let_def)
    also have "tn_p (relink c None ?h x) = parent_of c" using f(2) par by (simp add: relink_fields)
    finally have "delete_loop (Some x) s = delete_loop (parent_of c) ?s" .
    moreover have "located (ts_nodes ?s) (ts_root ?s) c Leaf"
      using ctx_at_relink [OF cx cd, of "relink c None ?h" None] False cd by (auto intro!: locatedI)
    ultimately show ?thesis using False m(2) by (intro exI [of _ ?s]) simp
  qed
qed

text \<open>The loop from the root of a subtree: when it has come back to the parent, the subtree is gone.\<close>

lemma delete_part:
  assumes "located (ts_nodes s) (ts_root s) c (Node l x r)" and "pool lo hi (ts_mem s) (inorder (plug c (Node l x r)))"
  shows "\<exists>s1. delete_loop (Some x) s = (if c = [] then Some s1 else delete_loop (parent_of c) s1) \<and>
    pool lo hi (ts_mem s1) (inorder (plug c Leaf)) \<and> (c \<noteq> [] \<longrightarrow> located (ts_nodes s1) (ts_root s1) c Leaf)"
  using assms
proof (induction "Node l x r" arbitrary: l x r c s)
  case (Node l x r)
  have right: "\<exists>s1. delete_loop (Some x) s = delete_loop (Some x) s1 \<and> pool lo hi (ts_mem s1) (inorder (plug c (Node l x Leaf))) \<and>
      located (ts_nodes s1) (ts_root s1) c (Node l x Leaf)"
  proof (cases r)
    case Leaf
    then show ?thesis using Node.prems by blast
  next
    case (Node rl y rr)
    have "located (ts_nodes s) (ts_root s) (R_of x l # c) r" using Node.prems(1) by (simp only: located_up)
    then have lr: "located (ts_nodes s) (ts_root s) (R_of x l # c) (Node rl y rr)" using Node by simp
    have pr: "pool lo hi (ts_mem s) (inorder (plug (R_of x l # c) (Node rl y rr)))" using Node.prems(2) Node by simp
    have "tn_right (ts_nodes s x) = Some y" by (rule located_right(2) [OF lr])
    then have e: "delete_loop (Some x) s = delete_loop (Some y) s" by (subst delete_loop.simps) simp
    from Node.hyps(2) [OF Node lr pr] obtain s1 where s1: "delete_loop (Some y) s = delete_loop (Some x) s1"
      "pool lo hi (ts_mem s1) (inorder (plug (R_of x l # c) Leaf))" "located (ts_nodes s1) (ts_root s1) (R_of x l # c) Leaf" by auto
    then show ?thesis unfolding e by (intro exI [of _ s1]) (simp add: located_up)
  qed
  then obtain s1 where s1: "delete_loop (Some x) s = delete_loop (Some x) s1" "pool lo hi (ts_mem s1) (inorder (plug c (Node l x Leaf)))"
    "located (ts_nodes s1) (ts_root s1) c (Node l x Leaf)" by blast
  have "\<exists>s2. delete_loop (Some x) s1 = delete_loop (Some x) s2 \<and> pool lo hi (ts_mem s2) (inorder (plug c (Node Leaf x Leaf))) \<and>
      located (ts_nodes s2) (ts_root s2) c (Node Leaf x Leaf)"
  proof (cases l)
    case Leaf
    then show ?thesis using s1 by blast
  next
    case (Node ll y lr)
    have "located (ts_nodes s1) (ts_root s1) (L_of x Leaf # c) l" using s1(3) by (simp only: located_up)
    then have lr: "located (ts_nodes s1) (ts_root s1) (L_of x Leaf # c) (Node ll y lr)" using Node by simp
    have pr: "pool lo hi (ts_mem s1) (inorder (plug (L_of x Leaf # c) (Node ll y lr)))" using s1(2) Node by simp
    have "tn_left (ts_nodes s1 x) = Some y" by (rule located_left(2) [OF lr])
    moreover have "tn_right (ts_nodes s1 x) = None" using place_ptrs(2) [OF s1(3)] by (simp add: root_ptr_def)
    ultimately have e: "delete_loop (Some x) s1 = delete_loop (Some y) s1" by (subst delete_loop.simps) simp
    from Node.hyps(1) [OF Node lr pr] obtain s2 where s2: "delete_loop (Some y) s1 = delete_loop (Some x) s2"
      "pool lo hi (ts_mem s2) (inorder (plug (L_of x Leaf # c) Leaf))" "located (ts_nodes s2) (ts_root s2) (L_of x Leaf # c) Leaf" by auto
    then show ?thesis unfolding e by (intro exI [of _ s2]) (simp add: located_up)
  qed
  then obtain s2 where s2: "delete_loop (Some x) s1 = delete_loop (Some x) s2"
    "pool lo hi (ts_mem s2) (inorder (plug c (Node Leaf x Leaf)))" "located (ts_nodes s2) (ts_root s2) c (Node Leaf x Leaf)" by blast
  from delete_leaf [OF s2(3,2)] show ?case unfolding s1(1) s2(1) .
qed

lemma delete_all:
  assumes "located (ts_nodes s) (ts_root s) c (Node l x r)" and "pool lo hi (ts_mem s) (inorder (plug c (Node l x r)))"
  shows "\<exists>s1. delete_loop (Some x) s = Some s1 \<and> pool lo hi (ts_mem s1) []"
  using assms
proof (induction c arbitrary: s l x r rule: ctx_nodes.induct)
  case 1
  from delete_part [OF 1] show ?case by auto
next
  case (2 q u c)
  from delete_part [OF 2(2,3)] obtain s1 where s1: "delete_loop (Some x) s = delete_loop (Some q) s1"
    "pool lo hi (ts_mem s1) (inorder (plug (L_of q u # c) Leaf))" "located (ts_nodes s1) (ts_root s1) (L_of q u # c) Leaf" by auto
  from 2(1) [of s1 Leaf q u] s1(2,3) show ?case unfolding s1(1) by (simp add: located_up)
next
  case (3 q u c)
  from delete_part [OF 3(2,3)] obtain s1 where s1: "delete_loop (Some x) s = delete_loop (Some q) s1"
    "pool lo hi (ts_mem s1) (inorder (plug (R_of q u # c) Leaf))" "located (ts_nodes s1) (ts_root s1) (R_of q u # c) Leaf" by auto
  from 3(1) [of s1 u q Leaf] s1(2,3) show ?case unfolding s1(1) by (simp add: located_up)
qed

section \<open>Counting\<close>

lemma rcount_nodes_ok: "tree_at h p par t \<Longrightarrow> rcount_nodes h p n = Some (n + of_nat (size t))"
proof (induction t arbitrary: p par n)
  case (Node l x r)
  then have "tree_at h (tn_left (h x)) (Some x) l" "tree_at h (tn_right (h x)) (Some x) r" "p = Some x" by simp_all
  note f = this(3) Node.IH(1) [OF this(1), of "n + 1"] Node.IH(2) [OF this(2), of "n + 1 + of_nat (size l)"]
  then show ?case by (subst rcount_nodes.simps) (simp add: add_ac)
qed (subst rcount_nodes.simps, simp)

lemma rtotal_ok: "tree_at h p par t \<Longrightarrow> rtotal h p n = Some (n + sum_list (map (key_of h) (inorder t)))"
proof (induction t arbitrary: p par n)
  case (Node l x r)
  then have "tree_at h (tn_left (h x)) (Some x) l" "tree_at h (tn_right (h x)) (Some x) r" "p = Some x" by simp_all
  note f = this(3) Node.IH(1) [OF this(1), of "n + key_of h x"]
    Node.IH(2) [OF this(2), of "n + key_of h x + sum_list (map (key_of h) (inorder l))"]
  then show ?case by (subst rtotal.simps) (simp add: add_ac)
qed (subst rtotal.simps, simp)

lemma max_loop_ok: "tree_at h (Some x) par t \<Longrightarrow> max_loop h x = Some (last (inorder t))"
proof (induction t arbitrary: x par)
  case (Node l a r)
  then show ?case by (subst max_loop.simps) (cases r; auto)
qed simp

lemma min_max_count:
  assumes "tree_ok lo hi s t"
  shows "get_min s = Some (if t = Leaf then None else Some (hd (inorder t)))"
    and "get_max s = Some (if t = Leaf then None else Some (last (inorder t)))"
    and "count_nodes (ts_root s) s = Some (of_nat (size t))"
    and "get_total (ts_root s) s = Some (sum_list (map (key_of (ts_nodes s)) (inorder t)))"
proof -
  note d = tree_okD(4) [OF assms]
  show "get_min s = Some (if t = Leaf then None else Some (hd (inorder t)))"
  proof (cases "ts_root s")
    case None
    then show ?thesis using d by (cases t) (auto simp: get_min_def)
  next
    case (Some x)
    from min_loop_ok [OF d [unfolded Some]] obtain c r y where "min_loop (ts_nodes s) x = Some y"
      "t = plug c (Node Leaf y r)" "before c = []" by blast
    moreover from this have "inorder t = y # inorder r @ after c" by (simp add: inorder_plug)
    moreover have "t \<noteq> Leaf" using d Some by auto
    ultimately show ?thesis using Some by (simp add: get_min_def)
  qed
  show "get_max s = Some (if t = Leaf then None else Some (last (inorder t)))"
    using d max_loop_ok [of "ts_nodes s" _ None t] by (cases t) (auto simp: get_max_def)
  show "count_nodes (ts_root s) s = Some (of_nat (size t))"
    using rcount_nodes_ok [OF d, of 0] by (simp add: count_nodes_def)
  show "get_total (ts_root s) s = Some (sum_list (map (key_of (ts_nodes s)) (inorder t)))"
    using rtotal_ok [OF d, of 0] by (simp add: get_total_def)
qed

section \<open>Splaying and rotating\<close>

lemma same_pool: "tree_ok lo hi s t \<Longrightarrow> located h rt [] t' \<Longrightarrow> inorder t' = inorder t \<Longrightarrow> same_keys A (ts_nodes s) h \<Longrightarrow>
    tree_ok lo hi (s\<lparr>ts_nodes := h, ts_root := rt\<rparr>) t' \<and> keys h t' = keys (ts_nodes s) t"
  by (simp add: tree_ok_def in_order_def keys_inorder same_keys_def)

lemma splay_node_ok:
  assumes ok: "tree_ok lo hi s t"
  shows "if key \<in> keys (ts_nodes s) t
    then \<exists>s' l x r. splay_node key s = Some s' \<and> tree_ok lo hi s' (Node l x r) \<and> key_of (ts_nodes s') x = key \<and>
      inorder (Node l x r) = inorder t \<and> keys (ts_nodes s') (Node l x r) = keys (ts_nodes s) t
    else splay_node key s = Some s"
proof -
  from find_ok [OF ok, of key] obtain q where q: "find_tree key s = Some q"
    "case q of None \<Rightarrow> key \<notin> keys (ts_nodes s) t | Some x \<Rightarrow> x \<in> set_tree t \<and> key_of (ts_nodes s) x = key"
    by (auto simp: find_tree_def)
  show ?thesis
  proof (cases q)
    case None
    then show ?thesis using q by (simp add: splay_node_def)
  next
    case (Some x)
    then have x: "x \<in> set_tree t" "key_of (ts_nodes s) x = key" using q(2) by simp_all
    then have k: "key \<in> keys (ts_nodes s) t" by (auto simp: keys_def)
    from place_of [OF x(1)] obtain c l r where t: "t = plug c (Node l x r)" by blast
    have "located (ts_nodes s) (ts_root s) c (Node l x r)" using tree_okD(1) [OF ok] t by (simp add: located_plug [of _ _ c])
    from splay_loop_ok [OF this] obtain h l' r' where h: "splay_loop x (ts_nodes s) = Some h" "located h (Some x) [] (Node l' x r')"
      "inorder (Node l' x r') = inorder t" "same_keys (set_tree t) (ts_nodes s) h" unfolding t by blast
    have "splay_node key s = Some (s\<lparr>ts_nodes := h, ts_root := Some x\<rparr>)"
      using q(1) Some h(1) by (simp add: splay_node_def splay_def)
    moreover have "key_of h x = key" using h(4) x(2) by (simp add: same_keys_def)
    moreover note same_pool [OF ok h(2,3,4)] h(3)
    ultimately show ?thesis using k
      by (simp only: if_True)
        (intro exI [of _ "s\<lparr>ts_nodes := h, ts_root := Some x\<rparr>"] exI [of _ l'] exI [of _ x] exI [of _ r'], simp)
  qed
qed

lemma left_rotate_root:
  assumes ok: "tree_ok lo hi s (Node l x (Node b y r))"
  shows "\<exists>s'. left_rotate_node (key_of (ts_nodes s) x) s = Some (TREE_OK, s') \<and> ts_root s' = Some x \<and>
    (\<forall>key \<in> insert (key_of (ts_nodes s) y) (keys (ts_nodes s) r). find_node key s' = Some None)"
proof -
  let ?h = "ts_nodes s"
  note d = tree_okD [OF ok]
  have rt: "ts_root s = Some x" using d(4) by simp
  then have f: "find_node (key_of ?h x) s = Some (Some x)" unfolding find_node_def by (subst find_loop.simps) simp
  from left_rotate_ok [OF d(1)] obtain h where h: "left_rotate x ?h = Some (TREE_OK, h)" "located h (Some y) [] (Node (Node l x b) y r)"
    "same_keys (set_tree (Node l x (Node b y r))) ?h h" by auto
  let ?s = "s\<lparr>ts_nodes := h\<rparr>"
  have kh: "key_of h z = key_of ?h z" for z using h(3) by (simp add: same_keys_def)
  have t: "tree_at h (Some x) (Some y) (Node l x b)" using h(2) by (auto simp: located_top)
  have o: "in_order h (Node l x b)" "\<forall>z \<in> set_tree (Node l x b). key_of h z < key_of h y" "\<forall>z \<in> set_tree r. key_of h y < key_of h z"
    using in_order_same(1) [OF h(3), of "Node l x (Node b y r)"] d(2) unfolding in_order_Node kh
    by (auto intro: less_trans)
  have "find_node key ?s = Some None" if "key \<in> insert (key_of ?h y) (keys ?h r)" for key
  proof -
    have "key_of ?h y \<le> key" using that o(3) kh by (auto simp: keys_def less_imp_le)
    then have "key \<notin> keys h (Node l x b)" using o(2) kh unfolding keys_def by (auto simp: not_less [symmetric])
    moreover from find_loop_ok [OF t o(1), of key] obtain q where "find_loop key h (Some x) = Some q"
      "case q of None \<Rightarrow> key \<notin> keys h (Node l x b) | Some z \<Rightarrow> z \<in> set_tree (Node l x b) \<and> key_of h z = key" by blast
    ultimately show ?thesis using rt by (cases q) (auto simp: find_node_def keys_def)
  qed
  then show ?thesis using f h(1) rt by (simp add: left_rotate_node_def)
qed

lemma delete_subtree_ok:
  assumes ok: "tree_ok lo hi s t" and x: "x \<in> set_tree t"
  shows "\<exists>s'. delete_subtree (Some x) s = Some s' \<and> tree_ok lo hi s' Leaf"
proof -
  from place_of [OF x] obtain c l r where t: "t = plug c (Node l x r)" by blast
  have "located (ts_nodes s) (ts_root s) c (Node l x r)" using tree_okD(1) [OF ok] t by (simp add: located_plug [of _ _ c])
  from delete_all [OF this tree_okD(3) [OF ok, unfolded t]] obtain s1 where
    "delete_loop (Some x) s = Some s1" "pool lo hi (ts_mem s1) []" by blast
  then show ?thesis by (simp add: delete_subtree_def tree_ok_def located_top)
qed

section \<open>A sample\<close>

text \<open>Three nodes with the keys 10, 20 and 30, in blocks of the heap.\<close>

definition sample_tree :: tree_state where
  "sample_tree = \<lparr>ts_nodes = (\<lambda>x. if x = 0x3006 then \<lparr>tn_key = 20, tn_left = Some 0x3106, tn_right = Some 0x3206, tn_p = None\<rparr>
       else \<lparr>tn_key = (if x = 0x3106 then 10 else 30), tn_left = None, tn_right = None, tn_p = Some 0x3006\<rparr>),
     ts_root = Some 0x3006, ts_mem = used_mem\<rparr>"

abbreviation sample_shape :: "nat tree" where
  "sample_shape \<equiv> Node (Node Leaf 0x3106 Leaf) 0x3006 (Node Leaf 0x3206 Leaf)"

lemma sample_tree_ok: "tree_ok 0x1100 0x4000 sample_tree sample_shape"
proof -
  have "heap_inv 0x1100 0x4000 used_mem [0x1100]"
    by (simp add: heap_inv_def cyc_def nsize_def used_mem_def sample_mem_def mem_init_def)
  then have "heap_rep 0x1100 0x4000 used_mem (free_bytes used_mem [0x1100])" by (auto simp: heap_rep_def)
  then have "pool 0x1100 0x4000 used_mem [0x3106, 0x3006, 0x3206]" unfolding pool_def
    by (intro conjI exI [of _ "free_bytes used_mem [0x1100]"])
      (auto simp: block_bytes_def free_bytes_def blk_def nsize_def sizeof_node_def used_mem_def sample_mem_def mem_init_def)
  then show ?thesis by (simp add: tree_ok_def located_top in_order_def sample_tree_def)
qed

lemma sample_tree_keys: "keys (ts_nodes sample_tree) sample_shape = {10, 20, 30}"
  by (auto simp: sample_tree_def)

section \<open>Properties\<close>





text \<open>\<open>splay_node\<close> always returns: it brings the node with the key to the root and keeps the tree a
  search tree of the same nodes in the same order; without the key it changes nothing.\<close>
theorem tree_splay:
  assumes "tree_ok lo hi s t"
  shows "if key \<in> keys (ts_nodes s) t
    then \<exists>s' l x r. splay_node key s = Some s' \<and> tree_ok lo hi s' (Node l x r) \<and> key_of (ts_nodes s') x = key \<and>
      inorder (Node l x r) = inorder t \<and> keys (ts_nodes s') (Node l x r) = keys (ts_nodes s) t
    else splay_node key s = Some s"
  by (rule splay_node_ok [OF assms])

theorem tree_splay_witness:
  "\<exists>s' l x r. splay_node 30 sample_tree = Some s' \<and> tree_ok 0x1100 0x4000 s' (Node l x r) \<and> key_of (ts_nodes s') x = 30 \<and>
     inorder (Node l x r) = [0x3106, 0x3006, 0x3206]"
proof -
  have "30 \<in> keys (ts_nodes sample_tree) sample_shape" "inorder sample_shape = [0x3106, 0x3006, 0x3206]"
    unfolding sample_tree_keys by simp_all
  then show ?thesis using tree_splay [OF sample_tree_ok, of 30] by (simp only: if_True) blast
qed

text \<open>\<open>left_rotate_node\<close> of the key at the root turns the node below into the top of the tree but
  \<open>root\<close> still points to the old one: the key of the new top and all greater keys are no longer found.\<close>
theorem rotate_root_loses:
  assumes "tree_ok lo hi s (Node l x (Node b y r))"
  shows "\<exists>s'. left_rotate_node (key_of (ts_nodes s) x) s = Some (TREE_OK, s') \<and> ts_root s' = Some x \<and>
    (\<forall>key \<in> insert (key_of (ts_nodes s) y) (keys (ts_nodes s) r). find_node key s' = Some None)"
  by (rule left_rotate_root [OF assms])

theorem rotate_root_loses_witness:
  "\<exists>s'. left_rotate_node 20 sample_tree = Some (TREE_OK, s') \<and> find_node 30 s' = Some None"
proof -
  have "key_of (ts_nodes sample_tree) 0x3006 = 20" "key_of (ts_nodes sample_tree) 0x3206 = 30" by (simp_all add: sample_tree_def)
  then show ?thesis using rotate_root_loses [OF sample_tree_ok] by auto
qed



end
