(* ===== verification/Arith_Code.thy ===== *)
theory Arith_Code
  imports Prelude
begin

text \<open>
  The adaptive arithmetic coder of the library (\<open>lib/arith-code.c\<close>): a model of the frequencies of
  the symbols, an interval of 16-bit numbers that every symbol narrows, and the input and output of
  single bits.  Whether a plain \<open>char\<close> is signed is left to the implementation of C: it is the
  argument \<open>char_signed\<close>.
\<close>

section \<open>The state\<close>

definition BUFFER_SIZE :: int where "BUFFER_SIZE = 256"

definition ARITH_CODE_MAXIMUM_SCALE :: int where "ARITH_CODE_MAXIMUM_SCALE = 16383"

record arith_code_symbol =
  low_count :: u16
  high_count :: u16
  scale :: u16

text \<open>The static variables: the registers of the coder, the output and the input.\<close>

record coder =
  code :: u16
  low :: u16
  high :: u16
  underflow_bits :: nat

record bit_output =
  cur_out_buf :: "u8 list"
  cur_out_ptr :: nat
  output_mask :: u32

record bit_input =
  cur_in_buf :: "u8 list"
  cur_in_ptr :: nat
  input_bits_left :: nat

text \<open>\<open>totals\<close> points to the second element of \<open>storage\<close>, so that there is an element with index -1.\<close>

type_synonym counts = "int list"

definition total :: "counts \<Rightarrow> int \<Rightarrow> int option" where
  "total st i = (if -1 \<le> i then rd st (nat (i + 1)) else None)"

definition set_total :: "counts \<Rightarrow> int \<Rightarrow> int \<Rightarrow> counts option" where
  "set_total st i v = (if -1 \<le> i then wr st (nat (i + 1)) v else None)"

definition char_value :: "bool \<Rightarrow> u8 \<Rightarrow> int" where
  "char_value char_signed b = (if char_signed then sint b else uint b)"

section \<open>Bits\<close>

definition arith_code_output_init :: "u8 list \<Rightarrow> bit_output option" where
  "arith_code_output_init buf = do {
     buf \<leftarrow> wr buf 0 0;
     Some \<lparr>cur_out_buf = buf, cur_out_ptr = 0, output_mask = 0x80\<rparr> }"

definition arith_code_input_init :: "u8 list \<Rightarrow> bit_input" where
  "arith_code_input_init buf = \<lparr>cur_in_buf = buf, cur_in_ptr = 0, input_bits_left = 8\<rparr>"

definition arith_code_output_flush :: "bit_output \<Rightarrow> bit_output" where
  "arith_code_output_flush out = out\<lparr>cur_out_ptr := 0\<rparr>"

definition output_bit :: "bool \<Rightarrow> bit_output \<Rightarrow> bit_output option" where
  "output_bit b out = do {
     buf \<leftarrow> (if b then do {
               x \<leftarrow> rd (cur_out_buf out) (cur_out_ptr out);
               wr (cur_out_buf out) (cur_out_ptr out) (x OR ucast (output_mask out)) }
             else Some (cur_out_buf out));
     let out = out\<lparr>cur_out_buf := buf, output_mask := drop_bit 1 (output_mask out)\<rparr>;
     if output_mask out = 0 then do {
       let out = out\<lparr>output_mask := 0x80, cur_out_ptr := cur_out_ptr out + 1\<rparr>;
       buf \<leftarrow> wr (cur_out_buf out) (cur_out_ptr out) 0;
       Some (out\<lparr>cur_out_buf := buf\<rparr>) }
     else Some out }"

definition input_bit :: "bit_input \<Rightarrow> (bool \<times> bit_input) option" where
  "input_bit inp = do {
     let inp = (if input_bits_left inp = 0 then inp\<lparr>cur_in_ptr := cur_in_ptr inp + 1, input_bits_left := 8\<rparr> else inp);
     let inp = inp\<lparr>input_bits_left := input_bits_left inp - 1\<rparr>;
     x \<leftarrow> rd (cur_in_buf inp) (cur_in_ptr inp);
     Some (bit x (input_bits_left inp), inp) }"

section \<open>Encoding and decoding of one symbol\<close>

definition arith_code_encode_init :: coder where
  "arith_code_encode_init = \<lparr>code = 0, low = 0, high = 0xffff, underflow_bits = 0\<rparr>"

primrec read_code :: "nat \<Rightarrow> u16 \<Rightarrow> bit_input \<Rightarrow> (u16 \<times> bit_input) option" where
  "read_code 0 c inp = Some (c, inp)"
| "read_code (Suc n) c inp = do {
     (b, inp) \<leftarrow> input_bit inp;
     read_code n (push_bit 1 c + of_bool b) inp }"

definition arith_code_decode_init :: "bit_input \<Rightarrow> (coder \<times> bit_input) option" where
  "arith_code_decode_init inp = do {
     (c, inp) \<leftarrow> read_code 16 0 inp;
     Some (\<lparr>code = c, low = 0, high = 0xffff, underflow_bits = 0\<rparr>, inp) }"

text \<open>Both directions narrow the interval in the same way; a scale of 0 would be a division by zero.\<close>

definition narrow :: "arith_code_symbol \<Rightarrow> coder \<Rightarrow> coder option" where
  "narrow symbol c =
     (if scale symbol = 0 then None else
      let range = uint (high c - low c) + 1;
          h = low c + word_of_int (range * uint (high_count symbol) div uint (scale symbol) - 1);
          l = low c + word_of_int (range * uint (low_count symbol) div uint (scale symbol))
      in Some (c\<lparr>high := h, low := l\<rparr>))"

text \<open>\<open>low <<= 1; high <<= 1; high |= 1\<close>\<close>

definition shift_out :: "coder \<Rightarrow> coder" where
  "shift_out c = c\<lparr>low := push_bit 1 (low c), high := push_bit 1 (high c) OR 1\<rparr>"

primrec output_pending :: "bool \<Rightarrow> nat \<Rightarrow> bit_output \<Rightarrow> bit_output option" where
  "output_pending b 0 out = Some out"
| "output_pending b (Suc n) out = do { out \<leftarrow> output_bit b out; output_pending b n out }"

text \<open>The underflow bits that are pending follow the first bit, inverted.\<close>

definition output_digit :: "bool \<Rightarrow> coder \<Rightarrow> bit_output \<Rightarrow> (coder \<times> bit_output) option" where
  "output_digit b c out = do {
     out \<leftarrow> output_bit b out;
     out \<leftarrow> output_pending (\<not> b) (underflow_bits c) out;
     Some (c\<lparr>underflow_bits := 0\<rparr>, out) }"

partial_function (option) encode_shift :: "coder \<Rightarrow> bit_output \<Rightarrow> (coder \<times> bit_output) option" where
  "encode_shift c out =
     (if high c AND 0x8000 = low c AND 0x8000 then do {
        (c, out) \<leftarrow> output_digit (high c AND 0x8000 \<noteq> 0) c out;
        encode_shift (shift_out c) out }
      else if low c AND 0x4000 \<noteq> 0 \<and> high c AND 0x4000 = 0 then
        encode_shift (shift_out (c\<lparr>underflow_bits := underflow_bits c + 1, low := low c AND 0x3fff,
          high := high c OR 0x4000\<rparr>)) out
      else Some (c, out))"

definition arith_code_encode_symbol :: "arith_code_symbol \<Rightarrow> coder \<Rightarrow> bit_output \<Rightarrow> (coder \<times> bit_output) option" where
  "arith_code_encode_symbol symbol c out = do {
     c \<leftarrow> narrow symbol c;
     encode_shift c out }"

definition arith_code_encode_flush :: "coder \<Rightarrow> bit_output \<Rightarrow> bit_output option" where
  "arith_code_encode_flush c out = do {
     out \<leftarrow> output_bit (low c AND 0x4000 \<noteq> 0) out;
     output_pending (low c AND 0x4000 = 0) (underflow_bits c + 1) out }"

definition arith_code_current_count :: "arith_code_symbol \<Rightarrow> coder \<Rightarrow> int" where
  "arith_code_current_count symbol c =
     (let range = uint (high c - low c) + 1
      in sint (word_of_int (((uint (code c - low c) + 1) * uint (scale symbol) - 1) div range) :: u16))"

partial_function (option) decode_shift :: "coder \<Rightarrow> bit_input \<Rightarrow> (coder \<times> bit_input) option" where
  "decode_shift c inp =
     (if high c AND 0x8000 = low c AND 0x8000 then do {
        let c = shift_out c;
        (b, inp) \<leftarrow> input_bit inp;
        decode_shift (c\<lparr>code := push_bit 1 (code c) + of_bool b\<rparr>) inp }
      else if low c AND 0x4000 = 0x4000 \<and> high c AND 0x4000 = 0 then do {
        let c = shift_out (c\<lparr>code := code c XOR 0x4000, low := low c AND 0x3fff, high := high c OR 0x4000\<rparr>);
        (b, inp) \<leftarrow> input_bit inp;
        decode_shift (c\<lparr>code := push_bit 1 (code c) + of_bool b\<rparr>) inp }
      else Some (c, inp))"

definition arith_code_remove_symbol :: "arith_code_symbol \<Rightarrow> coder \<Rightarrow> bit_input \<Rightarrow> (coder \<times> bit_input) option" where
  "arith_code_remove_symbol symbol c inp = do {
     c \<leftarrow> narrow symbol c;
     decode_shift c inp }"

section \<open>The model\<close>

definition arith_code_model_init :: counts where
  "arith_code_model_init = map int [0 ..< 258]"

function count_up :: "int \<Rightarrow> counts \<Rightarrow> counts option" where
  "count_up symbol st =
     (if symbol \<le> BUFFER_SIZE then do {
        v \<leftarrow> total st symbol;
        st \<leftarrow> set_total st symbol (v + 1);
        count_up (symbol + 1) st }
      else Some st)"
  by pat_completeness auto
termination by (relation "measure (\<lambda>(symbol, _). nat (257 - symbol))") (auto simp: BUFFER_SIZE_def)

function rescale :: "int \<Rightarrow> counts \<Rightarrow> counts option" where
  "rescale i st =
     (if i \<le> BUFFER_SIZE then do {
        v \<leftarrow> total st i;
        w \<leftarrow> total st (i - 1);
        st \<leftarrow> set_total st i (if v div 2 \<le> w then w + 1 else v div 2);
        rescale (i + 1) st }
      else Some st)"
  by pat_completeness auto
termination by (relation "measure (\<lambda>(i, _). nat (257 - i))") (auto simp: BUFFER_SIZE_def)

declare count_up.simps [simp del] rescale.simps [simp del]

definition arith_code_update_model :: "int \<Rightarrow> counts \<Rightarrow> counts option" where
  "arith_code_update_model symbol st = do {
     st \<leftarrow> count_up (symbol + 1) st;
     m \<leftarrow> total st BUFFER_SIZE;
     if m = ARITH_CODE_MAXIMUM_SCALE then rescale 0 st else Some st }"

definition arith_code_int_to_symbol :: "int \<Rightarrow> counts \<Rightarrow> arith_code_symbol option" where
  "arith_code_int_to_symbol c st = do {
     s \<leftarrow> total st BUFFER_SIZE;
     l \<leftarrow> total st c;
     h \<leftarrow> total st (c + 1);
     Some \<lparr>low_count = word_of_int l, high_count = word_of_int h, scale = word_of_int s\<rparr> }"

function find_count :: "int \<Rightarrow> int \<Rightarrow> counts \<Rightarrow> int option" where
  "find_count c count st =
     (if c < -1 then None else do {
        v \<leftarrow> total st c;
        if count < v then find_count (c - 1) count st else Some c })"
  by pat_completeness auto
termination by (relation "measure (\<lambda>(c, _, _). nat (c + 2))") auto

declare find_count.simps [simp del]

text \<open>The scale is already in the symbol.\<close>

definition arith_code_symbol_to_int :: "int \<Rightarrow> arith_code_symbol \<Rightarrow> counts \<Rightarrow> (int \<times> arith_code_symbol) option" where
  "arith_code_symbol_to_int count symbol st = do {
     c \<leftarrow> find_count (BUFFER_SIZE - 1) count st;
     h \<leftarrow> total st (c + 1);
     l \<leftarrow> total st c;
     Some (c, symbol\<lparr>high_count := word_of_int h, low_count := word_of_int l\<rparr>) }"

definition arith_code_symbol_scale :: "arith_code_symbol \<Rightarrow> counts \<Rightarrow> arith_code_symbol option" where
  "arith_code_symbol_scale symbol st = do {
     s \<leftarrow> total st BUFFER_SIZE;
     Some (symbol\<lparr>scale := word_of_int s\<rparr>) }"

section \<open>Encoding and decoding of a buffer\<close>

text \<open>One symbol more than \<open>in_len\<close> is encoded, the byte behind the message.\<close>

function encode_loop :: "bool \<Rightarrow> u8 list \<Rightarrow> nat \<Rightarrow> nat \<Rightarrow> counts \<Rightarrow> coder \<Rightarrow> bit_output \<Rightarrow> (coder \<times> bit_output) option" where
  "encode_loop char_signed in_buf in_len i st c out = do {
     b \<leftarrow> rd in_buf i;
     symbol \<leftarrow> arith_code_int_to_symbol (char_value char_signed b) st;
     (c, out) \<leftarrow> arith_code_encode_symbol symbol c out;
     if in_len \<le> i then Some (c, out) else do {
       st \<leftarrow> arith_code_update_model (char_value char_signed b) st;
       encode_loop char_signed in_buf in_len (i + 1) st c out } }"
  by pat_completeness auto
termination by (relation "measure (\<lambda>(_, _, in_len, i, _). in_len - i)") auto

declare encode_loop.simps [simp del]

text \<open>The result is the output buffer; \<open>out_len\<close> is not used.\<close>

definition arith_code_encode :: "bool \<Rightarrow> u8 list \<Rightarrow> u8 \<Rightarrow> u8 list \<Rightarrow> u8 list option" where
  "arith_code_encode char_signed in_buf in_len out_buf = do {
     out \<leftarrow> arith_code_output_init out_buf;
     (c, out) \<leftarrow> encode_loop char_signed in_buf (unat in_len) 0 arith_code_model_init arith_code_encode_init out;
     out \<leftarrow> arith_code_encode_flush c out;
     Some (cur_out_buf (arith_code_output_flush out)) }"

text \<open>\<open>symbol\<close> is a local variable whose counts are set before they are used.\<close>

function decode_loop :: "bool \<Rightarrow> nat \<Rightarrow> nat \<Rightarrow> counts \<Rightarrow> arith_code_symbol \<Rightarrow> coder \<Rightarrow> bit_input \<Rightarrow> u8 list \<Rightarrow> u8 list option" where
  "decode_loop char_signed out_len i st symbol c inp out_buf = do {
     symbol \<leftarrow> arith_code_symbol_scale symbol st;
     (x, symbol) \<leftarrow> arith_code_symbol_to_int (arith_code_current_count symbol c) symbol st;
     (c, inp) \<leftarrow> arith_code_remove_symbol symbol c inp;
     if out_len \<le> i then Some out_buf else do {
       out_buf \<leftarrow> wr out_buf i (word_of_int x);
       st \<leftarrow> arith_code_update_model (char_value char_signed (word_of_int x)) st;
       decode_loop char_signed out_len (i + 1) st symbol c inp out_buf } }"
  by pat_completeness auto
termination by (relation "measure (\<lambda>(_, out_len, i, _). out_len - i)") auto

declare decode_loop.simps [simp del]

definition arith_code_decode :: "bool \<Rightarrow> u8 list \<Rightarrow> u8 list \<Rightarrow> u8 \<Rightarrow> u8 list option" where
  "arith_code_decode char_signed in_buf out_buf out_len = do {
     (c, inp) \<leftarrow> arith_code_decode_init (arith_code_input_init in_buf);
     decode_loop char_signed (unat out_len) 0 arith_code_model_init \<lparr>low_count = 0, high_count = 0, scale = 0\<rparr> c inp out_buf }"


declare encode_shift.simps [code] decode_shift.simps [code]

end
