(* ===== verification/Arith_Bits.thy ===== *)
theory Arith_Bits
  imports Arith_Code "HOL-Library.Stream"
begin

text \<open>
  The output and the input of bits: a buffer that is written is a list of bits, a buffer that is read
  is an endless stream of bits, of which the input is at some place.
\<close>

section \<open>Output\<close>

primrec output_bits :: "bool list \<Rightarrow> bit_output \<Rightarrow> bit_output option" where
  "output_bits [] out = Some out"
| "output_bits (b # bs) out = Option.bind (output_bit b out) (output_bits bs)"

lemma output_bits_append: "output_bits (bs @ cs) out = Option.bind (output_bits bs out) (output_bits cs)"
proof (induction bs arbitrary: out)
  case (Cons b bs)
  then show ?case by (cases "output_bit b out") simp_all
qed simp

lemma output_pending_bits: "output_pending b n out = output_bits (replicate n b) out"
  by (induction n arbitrary: out) simp_all

definition buf_bit :: "u8 list \<Rightarrow> nat \<Rightarrow> bool" where
  "buf_bit buf i \<longleftrightarrow> i div 8 < length buf \<and> bit (buf ! (i div 8)) (7 - i mod 8)"

text \<open>The bits \<open>w\<close> have been written, the rest of the last byte is clear.\<close>

definition out_rep :: "bit_output \<Rightarrow> bool list \<Rightarrow> bool" where
  "out_rep out w \<longleftrightarrow> cur_out_ptr out = length w div 8 \<and> cur_out_ptr out < length (cur_out_buf out) \<and>
     output_mask out = 2 ^ (7 - length w mod 8) \<and>
     (\<forall>i < 8 * (cur_out_ptr out + 1). buf_bit (cur_out_buf out) i = (i < length w \<and> w ! i))"

lemma mask_shift:
  assumes "n < 8"
  shows "(drop_bit 1 (2 ^ n :: u32) = 0) = (n = 0)" and "n \<noteq> 0 \<Longrightarrow> drop_bit 1 (2 ^ n :: u32) = 2 ^ (n - 1)"
    and "bit (x OR ucast (2 ^ n :: u32) :: u8) i = (i < 8 \<and> (bit x i \<or> i = n))"
proof -
  show b: "n \<noteq> 0 \<Longrightarrow> drop_bit 1 (2 ^ n :: u32) = 2 ^ (n - 1)"
    using assms by (intro bit_word_eqI) (auto simp: bit_drop_bit_eq bit_exp_iff)
  show "(drop_bit 1 (2 ^ n :: u32) = 0) = (n = 0)"
  proof (cases "n = 0")
    case False
    then have "bit (2 ^ (n - 1) :: u32) (n - 1)" using assms by (auto simp: bit_exp_iff)
    then have "(2 ^ (n - 1) :: u32) \<noteq> 0" by (metis bit_0_eq bot_apply bot_boolE)
    then show ?thesis using False b by simp
  qed simp
  show "bit (x OR ucast (2 ^ n :: u32) :: u8) i = (i < 8 \<and> (bit x i \<or> i = n))"
    using assms by (auto simp: bit_or_iff bit_ucast_iff bit_exp_iff dest: bit_imp_le_length)
qed

lemma buf_bit_write:
  assumes "p < length buf" and "j < 8"
  shows "buf_bit (buf[p := (buf ! p) OR ucast (2 ^ (7 - j) :: u32)]) i = (buf_bit buf i \<or> i = 8 * p + j)"
proof -
  have "(7 - i mod 8 = 7 - j) = (i mod 8 = j)" using assms(2) mod_less_divisor [of 8 i] by linarith
  moreover have "(i div 8 = p \<and> i mod 8 = j) = (i = 8 * p + j)"
  proof
    assume "i div 8 = p \<and> i mod 8 = j"
    then show "i = 8 * p + j" using mult_div_mod_eq [of 8 i] by simp
  qed (use assms(2) in auto)
  ultimately show ?thesis using assms
    by (cases "i div 8 = p") (auto simp: buf_bit_def mask_shift(3) simp del: One_nat_def)
qed

lemma buf_bit_clear: "p < length buf \<Longrightarrow> buf_bit (buf[p := 0]) i = (buf_bit buf i \<and> i div 8 \<noteq> p)"
  by (auto simp: buf_bit_def nth_list_update)

lemma output_bit_ok:
  assumes r: "out_rep out w"
  shows "if (length w + 1) div 8 < length (cur_out_buf out)
    then \<exists>out'. output_bit b out = Some out' \<and> out_rep out' (w @ [b]) \<and> length (cur_out_buf out') = length (cur_out_buf out)
    else output_bit b out = None"
proof -
  define p where "p = length w div 8"
  define j where "j = length w mod 8"
  define buf where "buf = (if b then (cur_out_buf out)[p := (cur_out_buf out ! p) OR ucast (2 ^ (7 - j) :: u32)] else cur_out_buf out)"
  have l: "length w = 8 * p + j" "j < 8" by (simp_all add: p_def j_def)
  have f: "cur_out_ptr out = p" "p < length (cur_out_buf out)" "output_mask out = 2 ^ (7 - j)"
    "\<And>i. i < 8 * (p + 1) \<Longrightarrow> buf_bit (cur_out_buf out) i = (i < length w \<and> w ! i)"
    using r by (auto simp: out_rep_def p_def j_def)
  have bb: "buf_bit buf i = (i < length (w @ [b]) \<and> (w @ [b]) ! i)" if "i < 8 * (p + 1)" for i
    using f(4) [OF that] f(2) l by (auto simp: buf_def buf_bit_write nth_append less_Suc_eq)
  have lb: "length buf = length (cur_out_buf out)" by (simp add: buf_def)
  have e: "(if b then do {
               x \<leftarrow> rd (cur_out_buf out) (cur_out_ptr out);
               wr (cur_out_buf out) (cur_out_ptr out) (x OR ucast (output_mask out)) }
             else Some (cur_out_buf out)) = Some buf" using f by (simp add: buf_def)
  show ?thesis
  proof (cases "j = 7")
    case True
    have d: "(length w + 1) div 8 = p + 1" "(length w + 1) mod 8 = 0" using l True by simp_all
    have z: "drop_bit 1 (output_mask out) = 0" using f(3) True by simp
    let ?o = "\<lparr>cur_out_buf = buf[p + 1 := 0], cur_out_ptr = p + 1, output_mask = 0x80\<rparr>"
    show ?thesis
    proof (cases "p + 1 < length (cur_out_buf out)")
      case True
      have "output_bit b out = Some ?o"
        using True z lb f(1) unfolding output_bit_def e by simp
      moreover have "buf_bit (buf[p + 1 := 0]) i = (i < length (w @ [b]) \<and> (w @ [b]) ! i)" if i: "i < 8 * (p + 2)" for i
      proof (cases "i < 8 * (p + 1)")
        case True
        then have "i div 8 \<noteq> p + 1" by (simp add: less_mult_imp_div_less mult.commute less_imp_neq)
        then show ?thesis using bb [OF True] \<open>p + 1 < length (cur_out_buf out)\<close> lb by (simp add: buf_bit_clear)
      next
        case False
        then have "8 * (p + 1) \<le> i \<and> i < 8 * (p + 1) + 8" using i by simp
        then have "i div 8 = p + 1" by (intro div_nat_eqI) simp_all
        moreover have "length (w @ [b]) \<le> i" using False \<open>j = 7\<close> l(1) by simp
        ultimately show ?thesis using \<open>p + 1 < length (cur_out_buf out)\<close> lb by (simp only: buf_bit_clear) simp
      qed
      then have "out_rep ?o (w @ [b])" using True lb d by (simp add: out_rep_def)
      ultimately show ?thesis using True d lb by auto
    next
      case False
      then have "output_bit b out = None" using z lb f(1) unfolding output_bit_def e by (simp add: wr_def)
      then show ?thesis using False d by simp
    qed
  next
    case False
    then have j: "j < 7" using l(2) by simp
    have d: "(length w + 1) div 8 = p" "(length w + 1) mod 8 = j + 1" using l j by simp_all
    have z: "drop_bit 1 (output_mask out) \<noteq> 0" "drop_bit 1 (output_mask out) = 2 ^ (7 - (j + 1))"
      unfolding f(3) using mask_shift(1,2) [of "7 - j"] j by (simp_all del: One_nat_def)
    let ?o = "\<lparr>cur_out_buf = buf, cur_out_ptr = p, output_mask = drop_bit 1 (output_mask out)\<rparr>"
    have "output_bit b out = Some ?o" using z f(1) unfolding output_bit_def e by simp
    moreover have "out_rep ?o (w @ [b])" using f(2) d lb bb z(2) by (simp add: out_rep_def)
    ultimately show ?thesis using f(2) d lb by auto
  qed
qed

lemma output_bits_ok:
  assumes "out_rep out w"
  shows "if (length w + length bs) div 8 < length (cur_out_buf out)
    then \<exists>out'. output_bits bs out = Some out' \<and> out_rep out' (w @ bs) \<and> length (cur_out_buf out') = length (cur_out_buf out)
    else output_bits bs out = None"
  using assms
proof (induction bs arbitrary: out w)
  case Nil
  then show ?case by (auto simp: out_rep_def)
next
  case (Cons b bs)
  note o = output_bit_ok [OF Cons.prems, of b]
  show ?case
  proof (cases "(length w + 1) div 8 < length (cur_out_buf out)")
    case True
    with o obtain out' where o': "output_bit b out = Some out'" "out_rep out' (w @ [b])"
      "length (cur_out_buf out') = length (cur_out_buf out)" by auto
    from Cons.IH [OF o'(2)] show ?thesis using o' by (simp split: if_split_asm)
  next
    case False
    then have "\<not> (length w + length (b # bs)) div 8 < length (cur_out_buf out)"
      using div_le_mono [of "length w + 1" "length w + length (b # bs)" 8] by simp
    then show ?thesis using o False by simp
  qed
qed

lemma output_init_ok:
  assumes "buf \<noteq> []"
  shows "\<exists>out. arith_code_output_init buf = Some out \<and> out_rep out [] \<and> length (cur_out_buf out) = length buf"
  using assms by (simp add: arith_code_output_init_def out_rep_def buf_bit_clear)

section \<open>Input\<close>

definition bits_of :: "u8 list \<Rightarrow> bool stream" where
  "bits_of buf = smap (buf_bit buf) nats"

text \<open>The rest of the input is the stream \<open>S\<close>, of which \<open>n\<close> bits at least are in the buffer.\<close>

definition in_rep :: "bit_input \<Rightarrow> nat \<Rightarrow> bool stream \<Rightarrow> bool" where
  "in_rep inp n S \<longleftrightarrow> input_bits_left inp \<le> 8 \<and>
     (let p = 8 * cur_in_ptr inp + (8 - input_bits_left inp)
      in p + n \<le> 8 * length (cur_in_buf inp) \<and> S = sdrop p (bits_of (cur_in_buf inp)))"

lemma input_bit_ok:
  assumes "in_rep inp (Suc n) S"
  shows "\<exists>inp'. input_bit inp = Some (shd S, inp') \<and> in_rep inp' n (stl S)"
proof -
  define p where "p = 8 * cur_in_ptr inp + (8 - input_bits_left inp)"
  have a: "input_bits_left inp \<le> 8" "p + Suc n \<le> 8 * length (cur_in_buf inp)" "S = sdrop p (bits_of (cur_in_buf inp))"
    using assms unfolding in_rep_def Let_def p_def by blast+
  have s: "shd S = buf_bit (cur_in_buf inp) p" "stl S = sdrop (Suc p) (bits_of (cur_in_buf inp))"
    unfolding a(3) by (simp_all add: bits_of_def sdrop_simps del: sdrop.simps)
  have pl: "p div 8 < length (cur_in_buf inp)" using a(2) by (simp add: div_less_iff_less_mult mult.commute)
  show ?thesis
  proof (cases "input_bits_left inp = 0")
    case True
    then have "p div 8 = cur_in_ptr inp + 1" "p mod 8 = 0" by (simp_all add: p_def)
    then show ?thesis using True a(2) pl
      by (simp add: input_bit_def s buf_bit_def in_rep_def p_def)
  next
    case False
    then obtain k where k: "input_bits_left inp = Suc k" "k < 8" using a(1) by (cases "input_bits_left inp") auto
    then have p: "p = 8 * cur_in_ptr inp + (7 - k)" by (simp add: p_def)
    then have d: "p div 8 = cur_in_ptr inp" "p mod 8 = 7 - k" by simp_all
    have e: "7 - (7 - k) = k" "8 * cur_in_ptr inp + (8 - k) = Suc p" using k(2) p by simp_all
    show ?thesis using k a(2) pl d e by (simp add: input_bit_def s buf_bit_def in_rep_def Let_def)
  qed
qed

lemma input_init_ok: "n \<le> 8 * length buf \<Longrightarrow> in_rep (arith_code_input_init buf) n (bits_of buf)"
  by (simp add: arith_code_input_init_def in_rep_def)

lemma bits_of_snth [simp]: "bits_of buf !! i = buf_bit buf i"
  by (simp add: bits_of_def)

text \<open>What has been written is read back first.\<close>

lemma bits_of_written:
  assumes "out_rep out w" and "buf = cur_out_buf out @ rest"
  shows "\<exists>S. bits_of buf = w @- S"
proof -
  have "stake (length w) (bits_of buf) = w"
  proof (rule nth_equalityI)
    fix i assume "i < length (stake (length w) (bits_of buf))"
    then have i: "i < length w" by simp
    then have "i div 8 \<le> length w div 8" by (simp add: div_le_mono)
    then have "i div 8 < length (cur_out_buf out)" "i < 8 * (length w div 8 + 1)" using assms(1) i by (auto simp: out_rep_def)
    then show "stake (length w) (bits_of buf) ! i = w ! i"
      using assms i by (auto simp: out_rep_def buf_bit_def nth_append)
  qed simp
  then show ?thesis using stake_sdrop [of "length w" "bits_of buf"] by metis
qed

end
