(* ===== verification/Arith_Interval.thy ===== *)
theory Arith_Interval
  imports Arith_Bits
begin

text \<open>
  The interval of the coder, as numbers: the digits that are shifted out of it, and the stream of
  bits in which the decoder sees it.
\<close>

section \<open>Words as numbers\<close>

lemma uint_less [simp]: "uint (x :: u16) < 65536"
  using uint_bounded [of x] by simp

lemma bit_uint: "bit (x :: u16) n \<longleftrightarrow> odd (uint x div 2 ^ n)"
  using bit_imp_le_length [of x n] by (auto simp: bit_iff_odd [symmetric] bit_uint_iff)

lemma quotient: "q * d \<le> (k :: int) \<Longrightarrow> k < (q + 1) * d \<Longrightarrow> k div d = q"
  by (rule int_div_pos_eq [of _ _ _ "k - d * q"]) (simp_all add: algebra_simps)

lemma remainder: "m \<le> k \<Longrightarrow> k < 2 * m \<Longrightarrow> k mod m = k - (m :: int)"
  using mod_pos_geq [of m k] mod_pos_pos_trivial [of "k - m" m] by simp

lemma digit_high: "bit (x :: u16) 15 \<longleftrightarrow> 32768 \<le> uint x"
  using quotient [of 0 32768 "uint x"] quotient [of 1 32768 "uint x"] uint_less [of x]
  by (cases "32768 \<le> uint x") (simp_all add: bit_uint)

definition second :: "int \<Rightarrow> bool" where
  "second x \<longleftrightarrow> 16384 \<le> x \<and> x < 32768 \<or> 49152 \<le> x"

lemma digit_second: "bit (x :: u16) 14 \<longleftrightarrow> second (uint x)"
proof -
  consider "uint x < 16384" | "16384 \<le> uint x" "uint x < 32768" | "32768 \<le> uint x" "uint x < 49152" | "49152 \<le> uint x"
    by linarith
  then show ?thesis
  proof cases
    case 1
    then show ?thesis using quotient [of 0 16384 "uint x"] by (simp add: bit_uint second_def)
  next
    case 2
    then show ?thesis using quotient [of 1 16384 "uint x"] by (simp add: bit_uint second_def)
  next
    case 3
    then show ?thesis using quotient [of 2 16384 "uint x"] by (simp add: bit_uint second_def)
  next
    case 4
    then show ?thesis using quotient [of 3 16384 "uint x"] uint_less [of x] by (simp add: bit_uint second_def)
  qed
qed

lemma and_digit: "(x :: u16) AND push_bit n 1 = (if bit x n then push_bit n 1 else 0)"
  by (rule bit_word_eqI) (auto simp: bit_and_iff bit_push_bit_iff bit_1_iff simp del: push_bit_of_1)

lemma digit_masks: "(0x8000 :: u16) = push_bit 15 1" "(0x4000 :: u16) = push_bit 14 1" "(0x3fff :: u16) = mask 14"
  by (simp_all add: mask_eq_exp_minus_1)

lemma push_digit: "(push_bit 15 1 :: u16) \<noteq> 0" "(push_bit 14 1 :: u16) \<noteq> 0"
  by simp_all

lemma mask_bit:
  shows "(x AND 0x8000 :: u16) \<noteq> 0 \<longleftrightarrow> 32768 \<le> uint x" and "(x AND 0x4000 :: u16) = 0 \<longleftrightarrow> \<not> second (uint x)"
    and "x AND 0x4000 = (0x4000 :: u16) \<longleftrightarrow> second (uint x)"
    and "(x AND 0x8000 = y AND (0x8000 :: u16)) \<longleftrightarrow> (32768 \<le> uint x) = (32768 \<le> uint y)"
  unfolding digit_masks and_digit digit_high [symmetric] digit_second [symmetric] using push_digit
  by (simp_all del: push_bit_of_1)

lemma uint_low_digits: "16384 \<le> uint x \<Longrightarrow> uint x < 32768 \<Longrightarrow> uint (x AND 0x3fff :: u16) = uint x - 16384"
proof -
  assume a: "16384 \<le> uint x" "uint x < 32768"
  have "uint (x AND 0x3fff) = take_bit 14 (uint x)"
    by (simp only: digit_masks(3) take_bit_eq_mask [symmetric] unsigned_take_bit_eq)
  also have "\<dots> = uint x mod 2 ^ 14" by (rule take_bit_eq_mod)
  also have "\<dots> = uint x - 16384" using a by (simp add: remainder)
  finally show ?thesis .
qed

lemma uint_set_second: "\<not> second (uint x) \<Longrightarrow> uint (x OR 0x4000 :: u16) = uint x + 16384"
proof -
  assume a: "\<not> second (uint x)"
  then have "\<not> bit x 14" by (simp add: digit_second)
  then have "x OR 0x4000 = x + 16384" unfolding digit_masks(2) set_bit_eq_or [symmetric] by (simp add: set_bit_eq)
  moreover have "uint x + 16384 < 65536" using a uint_less [of x] by (simp add: second_def)
  ultimately show ?thesis by (simp add: uint_word_ariths mod_pos_pos_trivial)
qed

lemma uint_flip_second: "uint (x XOR 0x4000 :: u16) = (if second (uint x) then uint x - 16384 else uint x + 16384)"
proof (cases "bit x 14")
  case True
  then have "x XOR 0x4000 = x - 16384" unfolding digit_masks(2) flip_bit_eq_xor [symmetric] by (simp add: flip_bit_eq_if unset_bit_eq)
  moreover have "16384 \<le> uint x" using True unfolding digit_second second_def by linarith
  moreover have "(uint x - 16384) mod 65536 = uint x - 16384"
    using calculation(2) uint_less [of x] by (intro mod_pos_pos_trivial) linarith+
  ultimately show ?thesis using True by (simp add: digit_second uint_word_ariths)
next
  case False
  then have "x XOR 0x4000 = x OR 0x4000"
    unfolding digit_masks(2) flip_bit_eq_xor [symmetric] set_bit_eq_or [symmetric] by (simp add: flip_bit_eq_if)
  then show ?thesis using False uint_set_second [of x] by (simp add: digit_second)
qed

definition doubled :: "int \<Rightarrow> int" where
  "doubled x = (if x < 32768 then 2 * x else 2 * x - 65536)"

lemma uint_shift: "uint (push_bit 1 x :: u16) = doubled (uint x)"
proof -
  have "uint (push_bit 1 x) = (2 * uint x) mod 65536" by (simp add: push_bit_eq_mult uint_word_ariths mult.commute)
  also have "\<dots> = doubled (uint x)"
    using uint_less [of x] remainder [of 65536 "2 * uint x"] by (simp add: doubled_def mod_pos_pos_trivial)
  finally show ?thesis .
qed

lemma doubled_even: "doubled (uint (x :: u16)) + 1 < 65536"
proof -
  have "even (doubled (uint x))" by (simp add: doubled_def)
  moreover have "doubled (uint x) < 65536" using uint_less [of x] by (simp add: doubled_def)
  ultimately show ?thesis by (cases "doubled (uint x) = 65535") auto
qed

lemma uint_shift_in: "uint (push_bit 1 x + of_bool b :: u16) = doubled (uint x) + of_bool b"
proof -
  have "uint (push_bit 1 x + of_bool b) = (doubled (uint x) + of_bool b) mod 65536"
    by (cases b) (simp_all add: uint_word_ariths uint_shift [symmetric] del: push_bit_Suc)
  then show ?thesis using doubled_even [of x] by (cases b) (simp_all add: uint_shift [symmetric] mod_pos_pos_trivial del: push_bit_Suc)
qed

lemma uint_shift_one: "uint (push_bit 1 x OR 1 :: u16) = doubled (uint x) + 1"
proof -
  have "\<not> bit (push_bit 1 x :: u16) 0" unfolding bit_push_bit_iff by simp
  then have "push_bit 1 x OR 1 = push_bit 1 x + of_bool True"
    using set_bit_eq_or [of 0 "push_bit 1 x"] set_bit_eq [of 0 "push_bit 1 x"] by simp
  then show ?thesis using uint_shift_in [of x True] by (simp only: of_bool_eq)
qed

section \<open>Shifting digits out\<close>

text \<open>The interval from \<open>l\<close> to \<open>h\<close> with \<open>u\<close> pending bits turns into another one in \<open>k\<close> shifts, which put
  out the bits \<open>bs\<close>.\<close>

inductive shifts :: "int \<Rightarrow> int \<Rightarrow> nat \<Rightarrow> bool list \<Rightarrow> nat \<Rightarrow> int \<Rightarrow> int \<Rightarrow> nat \<Rightarrow> bool" where
  stable: "l < 32768 \<Longrightarrow> 32768 \<le> h \<Longrightarrow> l < 16384 \<or> 49152 \<le> h \<Longrightarrow> shifts l h u [] 0 l h u"
| lower: "h < 32768 \<Longrightarrow> shifts (2 * l) (2 * h + 1) 0 bs k l' h' u' \<Longrightarrow>
    shifts l h u (False # replicate u True @ bs) (Suc k) l' h' u'"
| upper: "32768 \<le> l \<Longrightarrow> shifts (2 * l - 65536) (2 * h - 65535) 0 bs k l' h' u' \<Longrightarrow>
    shifts l h u (True # replicate u False @ bs) (Suc k) l' h' u'"
| middle: "16384 \<le> l \<Longrightarrow> l < 32768 \<Longrightarrow> 32768 \<le> h \<Longrightarrow> h < 49152 \<Longrightarrow>
    shifts (2 * l - 32768) (2 * h - 32767) (Suc u) bs k l' h' u' \<Longrightarrow> shifts l h u bs (Suc k) l' h' u'"

lemma shifts_exist:
  "0 \<le> l \<Longrightarrow> l \<le> h \<Longrightarrow> h < 65536 \<Longrightarrow> \<exists>bs k l' h' u'. shifts l h u bs k l' h' u'"
proof (induction "nat (65536 - (h - l))" arbitrary: l h u rule: less_induct)
  case less
  consider "h < 32768" | "32768 \<le> l" | "l < 32768" "32768 \<le> h" "l < 16384 \<or> 49152 \<le> h"
    | "16384 \<le> l" "l < 32768" "32768 \<le> h" "h < 49152" by linarith
  then show ?case
  proof cases
    case 1
    with less.hyps [of "2 * h + 1" "2 * l" 0] less.prems obtain bs k l' h' u' where
      "shifts (2 * l) (2 * h + 1) 0 bs k l' h' u'" by auto
    from shifts.lower [OF 1 this] show ?thesis by blast
  next
    case 2
    with less.hyps [of "2 * h - 65535" "2 * l - 65536" 0] less.prems obtain bs k l' h' u' where
      "shifts (2 * l - 65536) (2 * h - 65535) 0 bs k l' h' u'" by auto
    from shifts.upper [OF 2 this] show ?thesis by blast
  next
    case 3
    from shifts.stable [OF 3] show ?thesis by blast
  next
    case 4
    with less.hyps [of "2 * h - 32767" "2 * l - 32768" "Suc u"] less.prems obtain bs k l' h' u' where
      "shifts (2 * l - 32768) (2 * h - 32767) (Suc u) bs k l' h' u'" by auto
    from shifts.middle [OF 4 this] show ?thesis by blast
  qed
qed

lemma shifts_result:
  assumes "shifts l h u bs k l' h' u'" and "0 \<le> l" and "l \<le> h" and "h < 65536"
  shows "0 \<le> l'" and "l' < 32768" and "32768 \<le> h'" and "h' < 65536" and "l' < 16384 \<or> 49152 \<le> h'"
    and "length bs + u' = k + u" and "2 ^ k * (h - l + 1) \<le> 65536"
proof -
  have "0 \<le> l' \<and> l' < 32768 \<and> 32768 \<le> h' \<and> h' < 65536 \<and> (l' < 16384 \<or> 49152 \<le> h') \<and>
      length bs + u' = k + u \<and> h' - l' + 1 = 2 ^ k * (h - l + 1)"
    using assms by (induction rule: shifts.induct) (simp_all add: algebra_simps)
  then show "0 \<le> l'" "l' < 32768" "32768 \<le> h'" "h' < 65536" "l' < 16384 \<or> 49152 \<le> h'"
    "length bs + u' = k + u" "2 ^ k * (h - l + 1) \<le> 65536" by auto
qed

lemma shifts_few:
  assumes "shifts l h u bs k l' h' u'" and "0 \<le> l" and "l \<le> h" and "h < 65536"
  shows "k \<le> 16"
proof (rule ccontr)
  assume "\<not> k \<le> 16"
  then have "(2 :: int) ^ 17 \<le> 2 ^ k" by (intro power_increasing) simp_all
  also have "\<dots> \<le> 2 ^ k * (h - l + 1)" using assms(3) by simp
  finally show False using shifts_result(7) [OF assms] by simp
qed

text \<open>The registers of a coder.\<close>

definition at_interval :: "coder \<Rightarrow> int \<Rightarrow> int \<Rightarrow> bool" where
  "at_interval c l h \<longleftrightarrow> uint (low c) = l \<and> uint (high c) = h"

lemma shift_out_interval: "at_interval c l h \<Longrightarrow> at_interval (shift_out c) (doubled l) (doubled h + 1)"
  by (simp add: at_interval_def shift_out_def uint_shift uint_shift_one del: One_nat_def)

lemma encode_shift_ok:
  assumes "shifts l h u bs k l' h' u'" and "0 \<le> l" and "l \<le> h" and "h < 65536"
    and "at_interval c l h" and "underflow_bits c = u"
  shows "\<exists>c'. at_interval c' l' h' \<and> underflow_bits c' = u' \<and> (\<forall>out. encode_shift c out = map_option (Pair c') (output_bits bs out))"
  using assms
proof (induction arbitrary: c rule: shifts.induct)
  case (stable l h u)
  then have "encode_shift c out = Some (c, out)" for out
    by (subst encode_shift.simps) (auto simp: at_interval_def mask_bit second_def)
  then show ?case using stable by auto
next
  case (lower h l bs k l' h' u' u)
  let ?c = "shift_out (c\<lparr>underflow_bits := 0\<rparr>)"
  have "at_interval ?c (2 * l) (2 * h + 1)"
    using shift_out_interval [of "c\<lparr>underflow_bits := 0\<rparr>" l h] lower by (simp add: at_interval_def doubled_def)
  with lower.IH [of ?c] lower.prems lower.hyps obtain c' where c': "at_interval c' l' h'" "underflow_bits c' = u'"
    "\<And>out. encode_shift ?c out = map_option (Pair c') (output_bits bs out)" by (auto simp: shift_out_def)
  have "encode_shift c out = map_option (Pair c') (output_bits (False # replicate u True @ bs) out)" for out
    using lower c'(3)
    by (subst encode_shift.simps)
      (simp add: at_interval_def mask_bit output_digit_def output_pending_bits output_bits_append bind_map_option o_def
        map_option_bind split: bind_split)
  then show ?case using c' by blast
next
  case (upper l h bs k l' h' u' u)
  let ?c = "shift_out (c\<lparr>underflow_bits := 0\<rparr>)"
  have "at_interval ?c (2 * l - 65536) (2 * h - 65535)"
    using shift_out_interval [of "c\<lparr>underflow_bits := 0\<rparr>" l h] upper by (simp add: at_interval_def doubled_def)
  with upper.IH [of ?c] upper.prems upper.hyps obtain c' where c': "at_interval c' l' h'" "underflow_bits c' = u'"
    "\<And>out. encode_shift ?c out = map_option (Pair c') (output_bits bs out)" by (auto simp: shift_out_def)
  have "encode_shift c out = map_option (Pair c') (output_bits (True # replicate u False @ bs) out)" for out
    using upper c'(3)
    by (subst encode_shift.simps)
      (simp add: at_interval_def mask_bit output_digit_def output_pending_bits output_bits_append bind_map_option o_def
        map_option_bind split: bind_split)
  then show ?case using c' by blast
next
  case (middle l h u bs k l' h' u')
  let ?d = "c\<lparr>underflow_bits := underflow_bits c + 1, low := low c AND 0x3fff, high := high c OR 0x4000\<rparr>"
  have "at_interval ?d (l - 16384) (h + 16384)"
    using middle by (simp add: at_interval_def uint_low_digits uint_set_second second_def)
  then have "at_interval (shift_out ?d) (2 * l - 32768) (2 * h - 32767)"
    using shift_out_interval [of ?d "l - 16384" "h + 16384"] middle by (simp add: doubled_def)
  with middle.IH [of "shift_out ?d"] middle.prems middle.hyps obtain c' where c': "at_interval c' l' h'" "underflow_bits c' = u'"
    "\<And>out. encode_shift (shift_out ?d) out = map_option (Pair c') (output_bits bs out)" by (auto simp: shift_out_def)
  have "encode_shift c out = encode_shift (shift_out ?d) out" for out
    using middle by (subst encode_shift.simps) (simp add: at_interval_def mask_bit second_def)
  then show ?case using c' by auto
qed

section \<open>The stream of bits\<close>

text \<open>The number in the first \<open>n\<close> bits, and the bits with those that are pending put in after the first.\<close>

primrec number :: "nat \<Rightarrow> bool stream \<Rightarrow> int" where
  "number 0 V = 0"
| "number (Suc n) V = 2 * number n V + of_bool (V !! n)"

definition expand :: "nat \<Rightarrow> bool stream \<Rightarrow> bool stream" where
  "expand u V = shd V ## (replicate u (\<not> shd V) @- stl V)"

lemma expand_0 [simp]: "expand 0 V = V"
  by (simp add: expand_def)

lemma expand_Cons: "expand u (b ## V) = (b # replicate u (\<not> b)) @- V"
  by (simp add: expand_def)

lemma shift_replicate: "replicate u b @- b ## V = b ## replicate u b @- V"
  by (induction u) simp_all

lemma number_Cons: "number (Suc n) (b ## V) = of_bool b * 2 ^ n + number n V"
  by (induction n) simp_all

lemma number_bounds: "0 \<le> number n V \<and> number n V < 2 ^ n"
  by (induction n) (auto simp: of_bool_def)

text \<open>What the decoder sees before the shifts, given what it sees after them.\<close>

lemma input_step:
  assumes "in_rep inp (m + Suc k) (sdrop 15 V)"
  shows "\<exists>inp'. input_bit inp = Some (V !! 15, inp') \<and> in_rep inp' (m + k) (sdrop 16 V)"
  using input_bit_ok [of inp "m + k" "sdrop 15 V"] assms by (simp add: sdrop_simps numeral_eq_Suc del: sdrop.simps)

lemma shifts_stream:
  assumes "shifts l h u bs k l' h' u'" and "0 \<le> l" and "l \<le> h" and "h < 65536"
    and "l' \<le> number 16 V'" and "number 16 V' \<le> h'"
  shows "\<exists>V. bs @- expand u' V' = expand u V \<and> l \<le> number 16 V \<and> number 16 V \<le> h \<and> sdrop (16 + k) V = sdrop 16 V' \<and>
    (\<forall>c inp m. at_interval c l h \<longrightarrow> uint (code c) = number 16 V \<longrightarrow> in_rep inp (m + k) (sdrop 16 V) \<longrightarrow>
      (\<exists>c' inp'. decode_shift c inp = Some (c', inp') \<and> at_interval c' l' h' \<and> uint (code c') = number 16 V' \<and>
        in_rep inp' m (sdrop 16 V')))"
  using assms
proof (induction rule: shifts.induct)
  case (stable l h u)
  then have "decode_shift c inp = Some (c, inp)" if "at_interval c l h" for c inp
    using that by (subst decode_shift.simps) (auto simp: at_interval_def mask_bit second_def)
  with stable show ?case by (intro exI [of _ V']) auto
next
  case (lower h l bs k l' h' u' u)
  then obtain V where V: "bs @- expand u' V' = V" "2 * l \<le> number 16 V" "number 16 V \<le> 2 * h + 1" "sdrop (16 + k) V = sdrop 16 V'"
    and sim: "\<And>c inp m. at_interval c (2 * l) (2 * h + 1) \<Longrightarrow> uint (code c) = number 16 V \<Longrightarrow> in_rep inp (m + k) (sdrop 16 V) \<Longrightarrow>
      \<exists>c' inp'. decode_shift c inp = Some (c', inp') \<and> at_interval c' l' h' \<and> uint (code c') = number 16 V' \<and>
        in_rep inp' m (sdrop 16 V')" by auto
  have n: "number 16 V = 2 * number 15 V + of_bool (V !! 15)" "number 16 (False ## V) = number 15 V"
    using number_Cons [of 15 False V] by (simp_all add: numeral_eq_Suc)
  have "\<exists>c' inp'. decode_shift c inp = Some (c', inp') \<and> at_interval c' l' h' \<and> uint (code c') = number 16 V' \<and>
      in_rep inp' m (sdrop 16 V')"
    if a: "at_interval c l h" "uint (code c) = number 16 (False ## V)" "in_rep inp (m + Suc k) (sdrop 16 (False ## V))" for c inp m
  proof -
    have "sdrop 16 (False ## V) = sdrop 15 V" by (simp add: numeral_eq_Suc)
    with input_step a(3) obtain inp' where i: "input_bit inp = Some (V !! 15, inp')" "in_rep inp' (m + k) (sdrop 16 V)" by metis
    let ?c = "(shift_out c)\<lparr>code := push_bit 1 (code c) + of_bool (V !! 15)\<rparr>"
    have "at_interval ?c (2 * l) (2 * h + 1)"
      using shift_out_interval [OF a(1)] lower by (simp add: at_interval_def doubled_def)
    moreover have "uint (code ?c) = number 16 V"
      using a(2) number_bounds [of 15 V] unfolding n by (simp add: uint_shift_in doubled_def del: One_nat_def)
    moreover have "decode_shift c inp = decode_shift ?c inp'"
      using a(1) i(1) lower by (subst decode_shift.simps) (simp add: at_interval_def mask_bit Let_def shift_out_def)
    ultimately show ?thesis using sim i(2) by simp
  qed
  moreover have "(False # replicate u True @ bs) @- expand u' V' = expand u (False ## V)" by (simp add: V(1) expand_Cons)
  moreover have "l \<le> number 16 (False ## V)" "number 16 (False ## V) \<le> h" using V(2,3) unfolding n by (auto simp: of_bool_def split: if_splits)
  moreover have "sdrop (16 + Suc k) (False ## V) = sdrop 16 V'" using V(4) by (simp only: add_Suc_right sdrop.simps stream.sel)
  ultimately show ?case by (intro exI [of _ "False ## V"]) blast
next
  case (upper l h bs k l' h' u' u)
  then obtain V where V: "bs @- expand u' V' = V" "2 * l - 65536 \<le> number 16 V" "number 16 V \<le> 2 * h - 65535"
      "sdrop (16 + k) V = sdrop 16 V'"
    and sim: "\<And>c inp m. at_interval c (2 * l - 65536) (2 * h - 65535) \<Longrightarrow> uint (code c) = number 16 V \<Longrightarrow>
      in_rep inp (m + k) (sdrop 16 V) \<Longrightarrow>
      \<exists>c' inp'. decode_shift c inp = Some (c', inp') \<and> at_interval c' l' h' \<and> uint (code c') = number 16 V' \<and>
        in_rep inp' m (sdrop 16 V')" by auto
  have n: "number 16 V = 2 * number 15 V + of_bool (V !! 15)" "number 16 (True ## V) = 32768 + number 15 V"
    using number_Cons [of 15 True V] by (simp_all add: numeral_eq_Suc)
  have "\<exists>c' inp'. decode_shift c inp = Some (c', inp') \<and> at_interval c' l' h' \<and> uint (code c') = number 16 V' \<and>
      in_rep inp' m (sdrop 16 V')"
    if a: "at_interval c l h" "uint (code c) = number 16 (True ## V)" "in_rep inp (m + Suc k) (sdrop 16 (True ## V))" for c inp m
  proof -
    have "sdrop 16 (True ## V) = sdrop 15 V" by (simp add: numeral_eq_Suc)
    with input_step a(3) obtain inp' where i: "input_bit inp = Some (V !! 15, inp')" "in_rep inp' (m + k) (sdrop 16 V)" by metis
    let ?c = "(shift_out c)\<lparr>code := push_bit 1 (code c) + of_bool (V !! 15)\<rparr>"
    have "at_interval ?c (2 * l - 65536) (2 * h - 65535)"
      using shift_out_interval [OF a(1)] upper by (simp add: at_interval_def doubled_def)
    moreover have "uint (code ?c) = number 16 V"
      using a(2) number_bounds [of 15 V] unfolding n by (simp add: uint_shift_in doubled_def del: One_nat_def)
    moreover have "decode_shift c inp = decode_shift ?c inp'"
      using a(1) i(1) upper by (subst decode_shift.simps) (simp add: at_interval_def mask_bit Let_def shift_out_def)
    ultimately show ?thesis using sim i(2) by simp
  qed
  moreover have "(True # replicate u False @ bs) @- expand u' V' = expand u (True ## V)" by (simp add: V(1) expand_Cons)
  moreover have "l \<le> number 16 (True ## V)" "number 16 (True ## V) \<le> h" using V(2,3) unfolding n by (auto simp: of_bool_def split: if_splits)
  moreover have "sdrop (16 + Suc k) (True ## V) = sdrop 16 V'" using V(4) by (simp only: add_Suc_right sdrop.simps stream.sel)
  ultimately show ?case by (intro exI [of _ "True ## V"]) blast
next
  case (middle l h u bs k l' h' u')
  then obtain V where V: "bs @- expand u' V' = expand (Suc u) V" "2 * l - 32768 \<le> number 16 V" "number 16 V \<le> 2 * h - 32767"
      "sdrop (16 + k) V = sdrop 16 V'"
    and sim: "\<And>c inp m. at_interval c (2 * l - 32768) (2 * h - 32767) \<Longrightarrow> uint (code c) = number 16 V \<Longrightarrow>
      in_rep inp (m + k) (sdrop 16 V) \<Longrightarrow>
      \<exists>c' inp'. decode_shift c inp = Some (c', inp') \<and> at_interval c' l' h' \<and> uint (code c') = number 16 V' \<and>
        in_rep inp' m (sdrop 16 V')" by auto
  obtain b R where R: "V = b ## R" by (cases V)
  let ?W = "b ## (\<not> b) ## R"
  have n: "number 16 V = of_bool b * 32768 + 2 * number 14 R + of_bool (V !! 15)"
    "number 16 ?W = of_bool b * 32768 + of_bool (\<not> b) * 16384 + number 14 R"
    using number_Cons [of 15 b "(\<not> b) ## R"] number_Cons [of 14 "\<not> b" R] number_Cons [of 15 b R] R
    by (simp_all add: numeral_eq_Suc)
  have W: "l \<le> number 16 ?W" "number 16 ?W \<le> h" using V(2,3) unfolding n by (auto simp: of_bool_def split: if_splits)
  have "\<exists>c' inp'. decode_shift c inp = Some (c', inp') \<and> at_interval c' l' h' \<and> uint (code c') = number 16 V' \<and>
      in_rep inp' m (sdrop 16 V')"
    if a: "at_interval c l h" "uint (code c) = number 16 ?W" "in_rep inp (m + Suc k) (sdrop 16 ?W)" for c inp m
  proof -
    have "sdrop 16 ?W = sdrop 15 V" by (simp add: numeral_eq_Suc R)
    with input_step a(3) obtain inp' where i: "input_bit inp = Some (V !! 15, inp')" "in_rep inp' (m + k) (sdrop 16 V)" by metis
    let ?d = "c\<lparr>code := code c XOR 0x4000, low := low c AND 0x3fff, high := high c OR 0x4000\<rparr>"
    let ?c = "(shift_out ?d)\<lparr>code := push_bit 1 (code ?d) + of_bool (V !! 15)\<rparr>"
    have "at_interval ?d (l - 16384) (h + 16384)"
      using a(1) middle by (simp add: at_interval_def uint_low_digits uint_set_second second_def)
    from shift_out_interval [OF this] have "at_interval ?c (2 * l - 32768) (2 * h - 32767)"
      using middle by (simp add: at_interval_def doubled_def)
    moreover have "uint (code ?c) = number 16 V"
    proof -
      have "second (uint (code c)) \<longleftrightarrow> \<not> b"
        using W middle.hyps number_bounds [of 14 R] unfolding a(2) n by (cases b) (auto simp: second_def)
      then have "uint (code c XOR 0x4000) = of_bool b * 49152 + number 14 R"
        unfolding uint_flip_second a(2) n by (cases b) simp_all
      moreover have "uint (code ?c) = doubled (uint (code c XOR 0x4000)) + of_bool (V !! 15)"
        using uint_shift_in [of "code c XOR 0x4000" "V !! 15"] by simp
      ultimately show ?thesis using number_bounds [of 14 R] unfolding n by (cases b) (simp_all add: doubled_def)
    qed
    moreover have "decode_shift c inp = decode_shift ?c inp'"
      using a(1) i(1) middle.hyps
      by (subst decode_shift.simps) (simp add: at_interval_def mask_bit second_def Let_def shift_out_def del: push_bit_xor)
    ultimately show ?thesis using sim i(2) by simp
  qed
  moreover have "bs @- expand u' V' = expand u ?W"
    unfolding V(1) R expand_Cons by (simp add: shift_replicate)
  moreover have "sdrop (16 + Suc k) ?W = sdrop 16 V'" using V(4) unfolding R by (simp add: numeral_eq_Suc)
  ultimately show ?case using W by (intro exI [of _ ?W]) blast
qed

end
