(* ===== verification/Arith_Code_Properties.thy ===== *)
theory Arith_Code_Properties
  imports Arith_Interval
begin

text \<open>The frequencies of the symbols, one symbol, and whole messages.\<close>

section \<open>The model\<close>

text \<open>Every symbol has a frequency, and the coder has digits enough for the sum of them.\<close>

definition counts_ok :: "counts \<Rightarrow> bool" where
  "counts_ok st \<longleftrightarrow> length st = 258 \<and> st ! 0 = 0 \<and> (\<forall>i < 257. st ! i < st ! Suc i) \<and> st ! 257 < 16383"

lemma increasing:
  assumes "\<forall>i < n. st ! i < (st ! Suc i :: int)" and "a \<le> b" and "b \<le> n"
  shows "st ! a \<le> st ! b"
  using assms(2,3)
proof (induction rule: dec_induct)
  case (step k)
  then have "st ! k < st ! Suc k" using assms(1) by simp
  then show ?case using step by simp
qed simp

lemma counts_ok_init: "counts_ok arith_code_model_init"
  unfolding counts_ok_def arith_code_model_init_def by (simp del: upt_Suc)

lemma total_index: "-1 \<le> j \<Longrightarrow> total st j = rd st (nat (j + 1))" "-1 \<le> j \<Longrightarrow> set_total st j v = wr st (nat (j + 1)) v"
  by (simp_all add: total_def set_total_def)

lemma count_up_ok:
  "-1 \<le> j \<Longrightarrow> length st = 258 \<Longrightarrow>
   \<exists>st'. count_up j st = Some st' \<and> length st' = 258 \<and> (\<forall>i < 258. st' ! i = st ! i + (if j + 1 \<le> int i then 1 else 0))"
proof (induction j st rule: count_up.induct)
  case (1 j st)
  show ?case
  proof (cases "j \<le> BUFFER_SIZE")
    case True
    then have n: "nat (j + 1) < 258" using 1(2) by (simp add: BUFFER_SIZE_def)
    let ?s = "st[nat (j + 1) := st ! nat (j + 1) + 1]"
    have "total st j = Some (st ! nat (j + 1))" "set_total st j (st ! nat (j + 1) + 1) = Some ?s"
      using 1(2,3) n by (simp_all add: total_index)
    moreover from 1(1) [OF True this] 1(2,3) obtain st' where
      "count_up (j + 1) ?s = Some st'" "length st' = 258" "\<And>i. i < 258 \<Longrightarrow> st' ! i = ?s ! i + (if j + 2 \<le> int i then 1 else 0)"
      by auto
    ultimately show ?thesis using True n 1(2,3)
      by (subst count_up.simps) (auto simp: nth_list_update)
  next
    case False
    then show ?thesis using 1(2,3) by (subst count_up.simps) (auto simp: BUFFER_SIZE_def)
  qed
qed

lemma rescale_ok:
  "0 \<le> j \<Longrightarrow> j \<le> 257 \<Longrightarrow> length st = 258 \<Longrightarrow> st ! 0 = 0 \<Longrightarrow> (\<forall>i < nat j. st ! i < st ! Suc i) \<Longrightarrow>
   (\<forall>i \<le> nat j. st ! i \<le> os ! i div 2 + int i) \<Longrightarrow> (\<forall>i < 258. nat j < i \<longrightarrow> st ! i = os ! i) \<Longrightarrow> (\<forall>i < 257. os ! i < os ! Suc i) \<Longrightarrow>
   \<exists>st'. rescale j st = Some st' \<and> length st' = 258 \<and> st' ! 0 = 0 \<and> (\<forall>i < 257. st' ! i < st' ! Suc i) \<and>
     st' ! 257 \<le> os ! 257 div 2 + 257"
proof (induction j st rule: rescale.induct)
  case (1 j st)
  show ?case
  proof (cases "j \<le> BUFFER_SIZE")
    case True
    then have n: "nat j < 257" using 1(2) by (simp add: BUFFER_SIZE_def)
    let ?v = "st ! Suc (nat j)" and ?w = "st ! nat j"
    let ?x = "if ?v div 2 \<le> ?w then ?w + 1 else ?v div 2"
    let ?s = "st[Suc (nat j) := ?x]"
    have j: "nat (j + 1) = Suc (nat j)" using 1(2) by simp
    have r: "total st j = Some ?v" "total st (j - 1) = Some ?w" "set_total st j ?x = Some ?s"
      using 1(2,4) n by (simp_all add: total_index j)
    have v: "?v = os ! Suc (nat j)" using 1(8) n by simp
    have "os ! nat j div 2 \<le> os ! Suc (nat j) div 2" using 1(9) n by (intro zdiv_mono1) (auto intro: less_imp_le)
    then have x: "?w < ?x" "?x \<le> os ! Suc (nat j) div 2 + int (Suc (nat j))"
      using 1(7) v by (auto simp: not_le dest: spec [of _ "nat j"])
    have inc: "\<forall>i < nat (j + 1). ?s ! i < ?s ! Suc i"
      using 1(6) x(1) n 1(4) by (auto simp: j nth_list_update less_Suc_eq)
    have half: "\<forall>i \<le> nat (j + 1). ?s ! i \<le> os ! i div 2 + int i"
      using 1(7) x(2) n 1(4) by (auto simp: j nth_list_update le_Suc_eq)
    have rest: "\<forall>i < 258. nat (j + 1) < i \<longrightarrow> ?s ! i = os ! i" using 1(8) by (auto simp: j)
    from 1(1) [OF True r _ _ _ _ inc half rest 1(9)] 1(2,4,5) True show ?thesis
      using True r by (subst rescale.simps) (simp add: BUFFER_SIZE_def)
  next
    case False
    then have "j = 257" using 1(3) by (simp add: BUFFER_SIZE_def)
    moreover from this have "st ! 257 \<le> os ! 257 div 2 + 257" using 1(7) by (auto dest: spec [of _ 257])
    ultimately show ?thesis using 1(4-6) by (subst rescale.simps) (simp add: BUFFER_SIZE_def)
  qed
qed

lemma update_model_ok:
  assumes st: "counts_ok st" and c: "-1 \<le> c" "c \<le> 255"
  shows "\<exists>st'. arith_code_update_model c st = Some st' \<and> counts_ok st'"
proof -
  from count_up_ok [of "c + 1" st] st c obtain st1 where s1: "count_up (c + 1) st = Some st1" "length st1 = 258"
    "\<And>i. i < 258 \<Longrightarrow> st1 ! i = st ! i + (if c + 2 \<le> int i then 1 else 0)" by (auto simp: counts_ok_def)
  have z: "st1 ! 0 = 0" using s1(3) [of 0] st c by (simp add: counts_ok_def)
  have inc: "\<forall>i < 257. st1 ! i < st1 ! Suc i"
  proof (intro allI impI)
    fix i :: nat assume "i < 257"
    then show "st1 ! i < st1 ! Suc i" using s1(3) [of i] s1(3) [of "Suc i"] st by (auto simp: counts_ok_def)
  qed
  have last: "st1 ! 257 \<le> 16383" using s1(3) [of 257] st by (auto simp: counts_ok_def)
  have t: "total st1 BUFFER_SIZE = Some (st1 ! 257)" using s1(2) by (simp add: total_index BUFFER_SIZE_def)
  show ?thesis
  proof (cases "st1 ! 257 = 16383")
    case True
    have "\<forall>i \<le> nat 0. st1 ! i \<le> st1 ! i div 2 + int i" using z by simp
    from rescale_ok [OF _ _ s1(2) z _ this _ inc] True show ?thesis
      using s1(1) t by (auto simp: arith_code_update_model_def ARITH_CODE_MAXIMUM_SCALE_def counts_ok_def)
  next
    case False
    then show ?thesis using s1(1,2) t z inc last
      by (auto simp: arith_code_update_model_def ARITH_CODE_MAXIMUM_SCALE_def counts_ok_def)
  qed
qed

text \<open>A symbol and its counts.\<close>

definition sym_at :: "counts \<Rightarrow> int \<Rightarrow> arith_code_symbol" where
  "sym_at st c = \<lparr>low_count = word_of_int (st ! nat (c + 1)), high_count = word_of_int (st ! nat (c + 2)),
     scale = word_of_int (st ! 257)\<rparr>"

lemma counts_range:
  assumes "counts_ok st" and "-1 \<le> c" and "c \<le> 255"
  shows "0 \<le> st ! nat (c + 1)" and "st ! nat (c + 1) < st ! nat (c + 2)" and "st ! nat (c + 2) \<le> st ! 257" and "st ! 257 < 16383"
proof -
  have inc: "\<forall>i < 257. st ! i < st ! Suc i" "st ! 0 = 0" using assms by (simp_all add: counts_ok_def)
  have n: "nat (c + 2) = Suc (nat (c + 1))" "nat (c + 1) < 257" using assms by simp_all
  show "0 \<le> st ! nat (c + 1)" using increasing [OF inc(1), of 0 "nat (c + 1)"] n inc(2) by simp
  show "st ! nat (c + 1) < st ! nat (c + 2)" using inc n by simp
  show "st ! nat (c + 2) \<le> st ! 257" using increasing [OF inc(1), of "nat (c + 2)" 257] n by simp
  show "st ! 257 < 16383" using assms by (simp add: counts_ok_def)
qed

lemma uint_of_int_u16: "0 \<le> x \<Longrightarrow> x < 65536 \<Longrightarrow> uint (word_of_int x :: u16) = x"
  by (simp add: uint_word_of_int mod_pos_pos_trivial)

lemma sym_at_counts:
  assumes "counts_ok st" and "-1 \<le> c" and "c \<le> 255"
  shows "uint (low_count (sym_at st c)) = st ! nat (c + 1)" and "uint (high_count (sym_at st c)) = st ! nat (c + 2)"
    and "uint (scale (sym_at st c)) = st ! 257"
  using counts_range [OF assms] by (simp_all add: sym_at_def uint_of_int_u16)

lemma int_to_symbol: "counts_ok st \<Longrightarrow> -1 \<le> c \<Longrightarrow> c \<le> 255 \<Longrightarrow> arith_code_int_to_symbol c st = Some (sym_at st c)"
  by (simp add: arith_code_int_to_symbol_def total_index BUFFER_SIZE_def counts_ok_def sym_at_def add_ac)

lemma find_count_ok:
  assumes st: "counts_ok st" and c: "-1 \<le> c" "c \<le> d" "d \<le> 255" and n: "st ! nat (c + 1) \<le> n" "n < st ! nat (c + 2)"
  shows "find_count d n st = Some c"
  using c
proof (induction "nat (d - c)" arbitrary: d)
  case 0
  then have "d = c" by simp
  then show ?case using 0 n st by (subst find_count.simps) (simp add: total_index counts_ok_def)
next
  case (Suc k)
  then have d: "c < d" by simp
  have "st ! nat (c + 2) \<le> st ! nat (d + 1)"
    using st Suc d by (intro increasing [of 257]) (auto simp: counts_ok_def)
  then have "n < st ! nat (d + 1)" using n by simp
  moreover have "find_count (d - 1) n st = Some c" using Suc d by (intro Suc.hyps) simp_all
  ultimately show ?case using Suc st by (subst find_count.simps) (simp add: total_index counts_ok_def)
qed

section \<open>One symbol\<close>

definition stable_interval :: "int \<Rightarrow> int \<Rightarrow> bool" where
  "stable_interval l h \<longleftrightarrow> 0 \<le> l \<and> l < 32768 \<and> 32768 \<le> h \<and> h < 65536 \<and> (l < 16384 \<or> 49152 \<le> h)"

lemma div_bounds: "0 < d \<Longrightarrow> d * (k div d) \<le> k \<and> k < d * (k div d) + (d :: int)"
  using mult_div_mod_eq [of d k] pos_mod_bound [of d k] pos_mod_sign [of d k] by linarith

lemma le_div: "0 < d \<Longrightarrow> q * d \<le> k \<Longrightarrow> q \<le> k div (d :: int)"
  using zdiv_mono1 [of "q * d" k d] by simp

lemma div_less: "0 < d \<Longrightarrow> k < q * d \<Longrightarrow> k div d < (q :: int)"
proof (rule ccontr)
  assume d: "0 < d" "k < q * d" and "\<not> k div d < q"
  then have "d * q \<le> d * (k div d)" by (intro mult_left_mono) simp_all
  moreover have "k < d * q" using d(2) by (simp only: mult.commute)
  ultimately show False using div_bounds [OF d(1), of k] by linarith
qed

lemma narrow_bounds:
  fixes l h lc hc sc :: int
  assumes "16383 \<le> h - l" and "0 \<le> lc" and "lc < hc" and "hc \<le> sc" and "sc \<le> 16383"
  defines "l2 \<equiv> l + (h - l + 1) * lc div sc" and "h2 \<equiv> l + (h - l + 1) * hc div sc - 1"
  shows "l \<le> l2" and "l2 \<le> h2" and "h2 \<le> h"
proof -
  let ?r = "h - l + 1"
  have sc: "0 < sc" using assms by simp
  show "l \<le> l2" using assms(1,2) sc by (simp add: l2_def pos_imp_zdiv_nonneg_iff)
  have "?r * hc div sc \<le> ?r * sc div sc" using assms sc by (intro zdiv_mono1 mult_left_mono) simp_all
  then show "h2 \<le> h" using sc by (simp add: h2_def)
  have "sc \<le> ?r * (hc - lc)" using assms mult_mono [of sc ?r 1 "hc - lc"] by simp
  then have "(?r * lc div sc + 1) * sc \<le> ?r * hc" using div_bounds [OF sc, of "?r * lc"] by (simp add: algebra_simps)
  then have "?r * lc div sc + 1 \<le> ?r * hc div sc" using sc by (intro le_div)
  then show "l2 \<le> h2" by (simp add: l2_def h2_def)
qed

lemma count_bounds:
  fixes l h lc hc sc v :: int
  assumes "l \<le> h" and "0 < sc" and "l + (h - l + 1) * lc div sc \<le> v" and "v \<le> l + (h - l + 1) * hc div sc - 1"
  shows "lc \<le> ((v - l + 1) * sc - 1) div (h - l + 1)" and "((v - l + 1) * sc - 1) div (h - l + 1) < hc"
proof -
  let ?r = "h - l + 1"
  have r: "0 < ?r" using assms(1) by simp
  have "?r * lc < (?r * lc div sc + 1) * sc" using div_bounds [OF assms(2), of "?r * lc"] by (simp add: algebra_simps)
  also have "\<dots> \<le> (v - l + 1) * sc" using assms(2,3) by (intro mult_right_mono) simp_all
  finally have "lc * ?r \<le> (v - l + 1) * sc - 1" by (simp add: mult.commute)
  then show "lc \<le> ((v - l + 1) * sc - 1) div ?r" using r by (intro le_div)
  have "(v - l + 1) * sc \<le> (?r * hc div sc) * sc" using assms(2,4) by (intro mult_right_mono) simp_all
  also have "\<dots> \<le> ?r * hc" using div_bounds [OF assms(2), of "?r * hc"] by (simp add: mult.commute)
  finally have "(v - l + 1) * sc - 1 < hc * ?r" by (simp add: mult.commute)
  then show "((v - l + 1) * sc - 1) div ?r < hc" using r by (intro div_less)
qed

lemma narrow_ok:
  assumes at: "at_interval c l h" and s: "stable_interval l h" and st: "counts_ok st" and x: "-1 \<le> x" "x \<le> 255"
  defines "l2 \<equiv> l + (h - l + 1) * (st ! nat (x + 1)) div (st ! 257)" and "h2 \<equiv> l + (h - l + 1) * (st ! nat (x + 2)) div (st ! 257) - 1"
  shows "\<exists>c'. narrow (sym_at st x) c = Some c' \<and> at_interval c' l2 h2 \<and> code c' = code c \<and> underflow_bits c' = underflow_bits c"
    and "l \<le> l2" and "l2 \<le> h2" and "h2 \<le> h"
proof -
  note r = counts_range [OF st x] and y = sym_at_counts [OF st x]
  have b: "0 \<le> l" "l \<le> h" "h < 65536" "16383 \<le> h - l" using s by (auto simp: stable_interval_def)
  note n = narrow_bounds [OF b(4) r(1,2,3) less_imp_le [OF r(4)], folded l2_def h2_def]
  show "l \<le> l2" "l2 \<le> h2" "h2 \<le> h" by (rule n)+
  have u: "uint (low c) = l" "uint (high c) = h" using at by (simp_all add: at_interval_def)
  have hl: "uint (high c - low c) = h - l" using b u by (simp add: uint_sub_lem [THEN iffD1])
  have sc: "scale (sym_at st x) \<noteq> 0" using y(3) r by auto
  have add: "uint (low c + word_of_int d) = l + d" if "l \<le> l + d" "l + d \<le> h" for d
    using that b u by (simp add: uint_word_ariths uint_word_of_int mod_simps mod_pos_pos_trivial)
  let ?l = "low c + word_of_int ((uint (high c - low c) + 1) * uint (low_count (sym_at st x)) div uint (scale (sym_at st x)))"
  let ?h = "low c + word_of_int ((uint (high c - low c) + 1) * uint (high_count (sym_at st x)) div uint (scale (sym_at st x)) - 1)"
  have "uint ?l = l2" "uint ?h = h2"
    unfolding hl y using add [of "(h - l + 1) * (st ! nat (x + 1)) div (st ! 257)"]
      add [of "(h - l + 1) * (st ! nat (x + 2)) div (st ! 257) - 1"] n by (simp_all add: l2_def h2_def)
  then show "\<exists>c'. narrow (sym_at st x) c = Some c' \<and> at_interval c' l2 h2 \<and> code c' = code c \<and> underflow_bits c' = underflow_bits c"
    using sc by (intro exI [of _ "c\<lparr>high := ?h, low := ?l\<rparr>"]) (simp add: narrow_def Let_def at_interval_def)
qed

lemma current_count_ok:
  assumes at: "at_interval c l h" and s: "stable_interval l h" and st: "counts_ok st" and x: "-1 \<le> x" "x \<le> 255"
    and v: "l + (h - l + 1) * (st ! nat (x + 1)) div (st ! 257) \<le> uint (code c)"
      "uint (code c) \<le> l + (h - l + 1) * (st ! nat (x + 2)) div (st ! 257) - 1"
    and y: "uint (scale y) = st ! 257"
  shows "st ! nat (x + 1) \<le> arith_code_current_count y c" and "arith_code_current_count y c < st ! nat (x + 2)"
proof -
  note r = counts_range [OF st x]
  have b: "0 \<le> l" "l \<le> h" "h < 65536" using s by (auto simp: stable_interval_def)
  have u: "uint (low c) = l" "uint (high c) = h" using at by (simp_all add: at_interval_def)
  have hl: "uint (high c - low c) = h - l" using b u by (simp add: uint_sub_lem [THEN iffD1])
  have "l \<le> uint (code c)" using narrow_ok(2) [OF at s st x] v(1) by linarith
  then have cl: "uint (code c - low c) = uint (code c) - l" using u by (simp add: uint_sub_lem [THEN iffD1])
  let ?q = "((uint (code c) - l + 1) * (st ! 257) - 1) div (h - l + 1)"
  have sc: "0 < st ! 257" using r by linarith
  note q = count_bounds [OF b(2) sc v]
  have "sint (word_of_int ?q :: u16) = ?q"
    using q r by (simp add: sint_uint uint_word_of_int mod_pos_pos_trivial signed_take_bit_int_eq_self)
  then have "arith_code_current_count y c = ?q" by (simp add: arith_code_current_count_def Let_def hl cl y)
  then show "st ! nat (x + 1) \<le> arith_code_current_count y c" "arith_code_current_count y c < st ! nat (x + 2)" using q by simp_all
qed

section \<open>Messages\<close>

text \<open>The whole of encoding and decoding from a position on: the bits that are put out, whatever follows
  them, are decoded to the symbols.\<close>

lemma char_value_back: "word_of_int (char_value char_signed b) = b"
  by (simp add: char_value_def)

lemma char_value_unsigned: "-1 \<le> char_value False b"
  by (simp add: char_value_def order_trans [of "-1" 0])

lemma char_value_le: "char_value char_signed b \<le> 255"
  using sint_lt [of b] uint_bounded [of b] by (simp add: char_value_def)

lemma symbol_to_int_ok:
  assumes st: "counts_ok st" and x: "-1 \<le> x" "x \<le> 255" and n: "st ! nat (x + 1) \<le> n" "n < st ! nat (x + 2)"
    and y: "scale y = word_of_int (st ! 257)"
  shows "arith_code_symbol_to_int n y st = Some (x, sym_at st x)"
  using find_count_ok [OF st x(1) x(2) _ n] st x y
  by (simp add: arith_code_symbol_to_int_def BUFFER_SIZE_def total_index counts_ok_def sym_at_def add_ac)

lemma symbol_scale_ok: "counts_ok st \<Longrightarrow> arith_code_symbol_scale y st = Some (y\<lparr>scale := word_of_int (st ! 257)\<rparr>)"
  by (simp add: arith_code_symbol_scale_def total_index BUFFER_SIZE_def counts_ok_def)

lemma stable_interval_full: "stable_interval l h \<Longrightarrow> 0 \<le> l \<and> l \<le> h \<and> h < 65536"
  by (auto simp: stable_interval_def)

text \<open>One symbol, in both directions.\<close>

lemma code_symbol:
  assumes at: "at_interval c l h" and s: "stable_interval l h" and st: "counts_ok st" and x: "-1 \<le> x" "x \<le> 255"
  shows "\<exists>bs k l' h' u' c'. (\<forall>out. arith_code_encode_symbol (sym_at st x) c out = map_option (Pair c') (output_bits bs out)) \<and>
    at_interval c' l' h' \<and> underflow_bits c' = u' \<and> stable_interval l' h' \<and> length bs + u' = k + underflow_bits c \<and> k \<le> 16 \<and>
    (\<forall>V'. l' \<le> number 16 V' \<and> number 16 V' \<le> h' \<longrightarrow> (\<exists>V. bs @- expand u' V' = expand (underflow_bits c) V \<and>
      l \<le> number 16 V \<and> number 16 V \<le> h \<and>
      (\<forall>d inp m y. at_interval d l h \<longrightarrow> uint (code d) = number 16 V \<longrightarrow> in_rep inp (m + k) (sdrop 16 V) \<longrightarrow>
        scale y = word_of_int (st ! 257) \<longrightarrow>
        (\<exists>d' inp'. arith_code_symbol_to_int (arith_code_current_count y d) y st = Some (x, sym_at st x) \<and>
          arith_code_remove_symbol (sym_at st x) d inp = Some (d', inp') \<and> at_interval d' l' h' \<and>
          uint (code d') = number 16 V' \<and> in_rep inp' m (sdrop 16 V')))))"
proof -
  define l2 where "l2 = l + (h - l + 1) * (st ! nat (x + 1)) div (st ! 257)"
  define h2 where "h2 = l + (h - l + 1) * (st ! nat (x + 2)) div (st ! 257) - 1"
  note n = narrow_ok [OF _ s st x, folded l2_def h2_def]
  have b: "0 \<le> l2" "l2 \<le> h2" "h2 < 65536" using n(2-4) [OF at] stable_interval_full [OF s] by simp_all
  from shifts_exist [OF b] obtain bs k l' h' u' where sh: "shifts l2 h2 (underflow_bits c) bs k l' h' u'" by blast
  from n(1) [OF at] obtain c1 where c1: "narrow (sym_at st x) c = Some c1" "at_interval c1 l2 h2" "underflow_bits c1 = underflow_bits c" by blast
  from encode_shift_ok [OF sh b c1(2,3)] obtain c' where c': "at_interval c' l' h'" "underflow_bits c' = u'"
    "\<And>out. encode_shift c1 out = map_option (Pair c') (output_bits bs out)" by blast
  have "stable_interval l' h'" "length bs + u' = k + underflow_bits c" "k \<le> 16"
    using shifts_result [OF sh b] shifts_few [OF sh b] by (simp_all add: stable_interval_def)
  moreover have "arith_code_encode_symbol (sym_at st x) c out = map_option (Pair c') (output_bits bs out)" for out
    using c1(1) c'(3) by (simp add: arith_code_encode_symbol_def)
  moreover have "\<exists>V. bs @- expand u' V' = expand (underflow_bits c) V \<and> l \<le> number 16 V \<and> number 16 V \<le> h \<and>
      (\<forall>d inp m y. at_interval d l h \<longrightarrow> uint (code d) = number 16 V \<longrightarrow> in_rep inp (m + k) (sdrop 16 V) \<longrightarrow>
        scale y = word_of_int (st ! 257) \<longrightarrow>
        (\<exists>d' inp'. arith_code_symbol_to_int (arith_code_current_count y d) y st = Some (x, sym_at st x) \<and>
          arith_code_remove_symbol (sym_at st x) d inp = Some (d', inp') \<and> at_interval d' l' h' \<and>
          uint (code d') = number 16 V' \<and> in_rep inp' m (sdrop 16 V')))"
    if V': "l' \<le> number 16 V'" "number 16 V' \<le> h'" for V'
  proof -
    from shifts_stream [OF sh b V'] obtain V where V: "bs @- expand u' V' = expand (underflow_bits c) V" "l2 \<le> number 16 V" "number 16 V \<le> h2"
      and sim: "\<And>c inp m. at_interval c l2 h2 \<Longrightarrow> uint (code c) = number 16 V \<Longrightarrow> in_rep inp (m + k) (sdrop 16 V) \<Longrightarrow>
        \<exists>c' inp'. decode_shift c inp = Some (c', inp') \<and> at_interval c' l' h' \<and> uint (code c') = number 16 V' \<and>
          in_rep inp' m (sdrop 16 V')" by blast
    have "\<exists>d' inp'. arith_code_symbol_to_int (arith_code_current_count y d) y st = Some (x, sym_at st x) \<and>
        arith_code_remove_symbol (sym_at st x) d inp = Some (d', inp') \<and> at_interval d' l' h' \<and>
        uint (code d') = number 16 V' \<and> in_rep inp' m (sdrop 16 V')"
      if d: "at_interval d l h" "uint (code d) = number 16 V" "in_rep inp (m + k) (sdrop 16 V)" "scale y = word_of_int (st ! 257)" for d inp m y
    proof -
      have y: "uint (scale y) = st ! 257" using counts_range [OF st x] d(4) by (simp add: uint_of_int_u16)
      have "l2 \<le> uint (code d)" "uint (code d) \<le> h2" using V d(2) by simp_all
      from symbol_to_int_ok [OF st x current_count_ok [OF d(1) s st x this [unfolded l2_def h2_def] y] d(4)]
      have a: "arith_code_symbol_to_int (arith_code_current_count y d) y st = Some (x, sym_at st x)" .
      from n(1) [OF d(1)] obtain d1 where d1: "narrow (sym_at st x) d = Some d1" "at_interval d1 l2 h2" "code d1 = code d" by blast
      have "uint (code d1) = number 16 V" using d1(3) d(2) by simp
      from sim [OF d1(2) this d(3)] show ?thesis using a d1(1) by (auto simp: arith_code_remove_symbol_def)
    qed
    then show ?thesis using V n(2,4) [OF at] by (intro exI [of _ V]) auto
  qed
  ultimately show ?thesis using c'(1,2) by (intro exI [of _ bs] exI [of _ k] exI [of _ l'] exI [of _ h'] exI [of _ u'] exI [of _ c']) blast
qed

text \<open>What is written by decoding the symbols from \<open>i\<close> on, up to \<open>n\<close>.\<close>

definition filled :: "u8 list \<Rightarrow> nat \<Rightarrow> nat \<Rightarrow> u8 list \<Rightarrow> u8 list" where
  "filled msg i n dst = take i dst @ take (n - i) (drop i msg) @ drop n dst"

lemma filled_done: "filled msg n n dst = dst"
  by (simp add: filled_def)

lemma filled_step:
  assumes "i < n" and "n \<le> length dst" and "i < length msg"
  shows "filled msg (Suc i) n (dst[i := msg ! i]) = filled msg i n dst"
proof -
  have "take (n - i) (drop i msg) = msg ! i # take (n - Suc i) (drop (Suc i) msg)"
    using assms by (simp add: Cons_nth_drop_Suc [symmetric] take_Cons' Suc_diff_Suc [symmetric])
  moreover have "take (Suc i) (dst[i := msg ! i]) = take i dst @ [msg ! i]"
    using assms by (simp add: take_Suc_conv_app_nth)
  ultimately show ?thesis using assms by (simp add: filled_def)
qed

lemma code_loop:
  assumes "at_interval c l h" and "stable_interval l h" and "counts_ok st" and "i \<le> in_len" and "in_len < length msg"
    and "\<forall>j \<le> in_len. -1 \<le> char_value char_signed (msg ! j)"
  shows "\<exists>bs k l' h' u' c'. (\<forall>out. encode_loop char_signed msg in_len i st c out = map_option (Pair c') (output_bits bs out)) \<and>
    at_interval c' l' h' \<and> underflow_bits c' = u' \<and> stable_interval l' h' \<and> length bs + u' = k + underflow_bits c \<and>
    k \<le> 16 * (in_len + 1 - i) \<and>
    (\<forall>V'. l' \<le> number 16 V' \<and> number 16 V' \<le> h' \<longrightarrow> (\<exists>V. bs @- expand u' V' = expand (underflow_bits c) V \<and>
      l \<le> number 16 V \<and> number 16 V \<le> h \<and>
      (\<forall>d inp n dst y. at_interval d l h \<longrightarrow> uint (code d) = number 16 V \<longrightarrow> in_rep inp k (sdrop 16 V) \<longrightarrow>
        i \<le> n \<longrightarrow> n \<le> in_len \<longrightarrow> n \<le> length dst \<longrightarrow> decode_loop char_signed n i st y d inp dst = Some (filled msg i n dst))))"
  using assms
proof (induction "in_len - i" arbitrary: i st c l h)
  case 0
  define x where "x = char_value char_signed (msg ! i)"
  have x: "-1 \<le> x" "x \<le> 255" "i = in_len" using 0 by (simp_all add: x_def char_value_le)
  from code_symbol [OF 0(2,3,4) x(1,2)] obtain bs k l' h' u' c' where
    e: "\<And>out. arith_code_encode_symbol (sym_at st x) c out = map_option (Pair c') (output_bits bs out)"
    and r: "at_interval c' l' h'" "underflow_bits c' = u'" "stable_interval l' h'" "length bs + u' = k + underflow_bits c" "k \<le> 16"
    and d: "\<And>V'. l' \<le> number 16 V' \<Longrightarrow> number 16 V' \<le> h' \<Longrightarrow> \<exists>V. bs @- expand u' V' = expand (underflow_bits c) V \<and>
      l \<le> number 16 V \<and> number 16 V \<le> h \<and>
      (\<forall>d inp m y. at_interval d l h \<longrightarrow> uint (code d) = number 16 V \<longrightarrow> in_rep inp (m + k) (sdrop 16 V) \<longrightarrow>
        scale y = word_of_int (st ! 257) \<longrightarrow>
        (\<exists>d' inp'. arith_code_symbol_to_int (arith_code_current_count y d) y st = Some (x, sym_at st x) \<and>
          arith_code_remove_symbol (sym_at st x) d inp = Some (d', inp') \<and> at_interval d' l' h' \<and>
          uint (code d') = number 16 V' \<and> in_rep inp' m (sdrop 16 V')))" by blast
  have "encode_loop char_signed msg in_len i st c out = map_option (Pair c') (output_bits bs out)" for out
    using 0(1,5,6) int_to_symbol [OF 0(4) x(1,2)] e [of out]
    by (subst encode_loop.simps) (cases "output_bits bs out"; simp add: x_def [symmetric])
  moreover have "\<exists>V. bs @- expand u' V' = expand (underflow_bits c) V \<and> l \<le> number 16 V \<and> number 16 V \<le> h \<and>
      (\<forall>d inp n dst y. at_interval d l h \<longrightarrow> uint (code d) = number 16 V \<longrightarrow> in_rep inp k (sdrop 16 V) \<longrightarrow>
        i \<le> n \<longrightarrow> n \<le> in_len \<longrightarrow> n \<le> length dst \<longrightarrow> decode_loop char_signed n i st y d inp dst = Some (filled msg i n dst))"
    if "l' \<le> number 16 V'" "number 16 V' \<le> h'" for V'
  proof -
    from d [OF that] obtain V where V: "bs @- expand u' V' = expand (underflow_bits c) V" "l \<le> number 16 V" "number 16 V \<le> h"
      and sim: "\<And>d inp m y. at_interval d l h \<Longrightarrow> uint (code d) = number 16 V \<Longrightarrow> in_rep inp (m + k) (sdrop 16 V) \<Longrightarrow>
        scale y = word_of_int (st ! 257) \<Longrightarrow>
        \<exists>d' inp'. arith_code_symbol_to_int (arith_code_current_count y d) y st = Some (x, sym_at st x) \<and>
          arith_code_remove_symbol (sym_at st x) d inp = Some (d', inp') \<and> at_interval d' l' h' \<and>
          uint (code d') = number 16 V' \<and> in_rep inp' m (sdrop 16 V')" by blast
    have "decode_loop char_signed n i st y d inp dst = Some (filled msg i n dst)"
      if a: "at_interval d l h" "uint (code d) = number 16 V" "in_rep inp k (sdrop 16 V)" "i \<le> n" "n \<le> in_len" for d inp n dst y
    proof -
      from sim [OF a(1,2), of inp 0 "y\<lparr>scale := word_of_int (st ! 257)\<rparr>"] a(3) obtain d' inp' where
        "arith_code_symbol_to_int (arith_code_current_count (y\<lparr>scale := word_of_int (st ! 257)\<rparr>) d) (y\<lparr>scale := word_of_int (st ! 257)\<rparr>) st
          = Some (x, sym_at st x)" "arith_code_remove_symbol (sym_at st x) d inp = Some (d', inp')" by auto
      moreover have "n = i" using a(4,5) x(3) by simp
      ultimately show ?thesis
        using symbol_scale_ok [OF 0(4), of y] by (subst decode_loop.simps) (simp add: filled_done)
    qed
    then show ?thesis using V by blast
  qed
  ultimately show ?case using r x(3)
    by (intro exI [of _ bs] exI [of _ k] exI [of _ l'] exI [of _ h'] exI [of _ u'] exI [of _ c']) auto
next
  case (Suc len)
  define x where "x = char_value char_signed (msg ! i)"
  have x: "-1 \<le> x" "x \<le> 255" "i < in_len" "i < length msg" "word_of_int x = msg ! i"
    using Suc by (simp_all add: x_def char_value_le char_value_back)
  from code_symbol [OF Suc(3,4,5) x(1,2)] obtain bs1 k1 l1 h1 u1 c1 where
    e: "\<And>out. arith_code_encode_symbol (sym_at st x) c out = map_option (Pair c1) (output_bits bs1 out)"
    and r: "at_interval c1 l1 h1" "underflow_bits c1 = u1" "stable_interval l1 h1" "length bs1 + u1 = k1 + underflow_bits c" "k1 \<le> 16"
    and d: "\<And>V'. l1 \<le> number 16 V' \<Longrightarrow> number 16 V' \<le> h1 \<Longrightarrow> \<exists>V. bs1 @- expand u1 V' = expand (underflow_bits c) V \<and>
      l \<le> number 16 V \<and> number 16 V \<le> h \<and>
      (\<forall>d inp m y. at_interval d l h \<longrightarrow> uint (code d) = number 16 V \<longrightarrow> in_rep inp (m + k1) (sdrop 16 V) \<longrightarrow>
        scale y = word_of_int (st ! 257) \<longrightarrow>
        (\<exists>d' inp'. arith_code_symbol_to_int (arith_code_current_count y d) y st = Some (x, sym_at st x) \<and>
          arith_code_remove_symbol (sym_at st x) d inp = Some (d', inp') \<and> at_interval d' l1 h1 \<and>
          uint (code d') = number 16 V' \<and> in_rep inp' m (sdrop 16 V')))" by blast
  from update_model_ok [OF Suc(5) x(1,2)] obtain st1 where st1: "arith_code_update_model x st = Some st1" "counts_ok st1" by blast
  have "len = in_len - Suc i" "Suc i \<le> in_len" using Suc(2) by simp_all
  from Suc(1) [OF this(1) r(1,3) st1(2) this(2) Suc(7,8)] obtain bs2 k2 l' h' u' c' where
    e2: "\<And>out. encode_loop char_signed msg in_len (Suc i) st1 c1 out = map_option (Pair c') (output_bits bs2 out)"
    and r2: "at_interval c' l' h'" "underflow_bits c' = u'" "stable_interval l' h'" "length bs2 + u' = k2 + u1" "k2 \<le> 16 * (in_len - i)"
    and d2: "\<And>V'. l' \<le> number 16 V' \<Longrightarrow> number 16 V' \<le> h' \<Longrightarrow> \<exists>V. bs2 @- expand u' V' = expand u1 V \<and>
      l1 \<le> number 16 V \<and> number 16 V \<le> h1 \<and>
      (\<forall>d inp n dst y. at_interval d l1 h1 \<longrightarrow> uint (code d) = number 16 V \<longrightarrow> in_rep inp k2 (sdrop 16 V) \<longrightarrow>
        Suc i \<le> n \<longrightarrow> n \<le> in_len \<longrightarrow> n \<le> length dst \<longrightarrow>
        decode_loop char_signed n (Suc i) st1 y d inp dst = Some (filled msg (Suc i) n dst))"
    using r(2) by auto
  have "encode_loop char_signed msg in_len i st c out = map_option (Pair c') (output_bits (bs1 @ bs2) out)" for out
    using x(3,4) int_to_symbol [OF Suc(5) x(1,2)] e [of out] e2 st1(1)
    by (subst encode_loop.simps) (cases "output_bits bs1 out"; simp add: x_def [symmetric] output_bits_append)
  moreover have "\<exists>V. (bs1 @ bs2) @- expand u' V' = expand (underflow_bits c) V \<and> l \<le> number 16 V \<and> number 16 V \<le> h \<and>
      (\<forall>d inp n dst y. at_interval d l h \<longrightarrow> uint (code d) = number 16 V \<longrightarrow> in_rep inp (k1 + k2) (sdrop 16 V) \<longrightarrow>
        i \<le> n \<longrightarrow> n \<le> in_len \<longrightarrow> n \<le> length dst \<longrightarrow> decode_loop char_signed n i st y d inp dst = Some (filled msg i n dst))"
    if V': "l' \<le> number 16 V'" "number 16 V' \<le> h'" for V'
  proof -
    from d2 [OF V'] obtain V1 where V1: "bs2 @- expand u' V' = expand u1 V1" "l1 \<le> number 16 V1" "number 16 V1 \<le> h1"
      and rest: "\<And>d inp n dst y. at_interval d l1 h1 \<Longrightarrow> uint (code d) = number 16 V1 \<Longrightarrow> in_rep inp k2 (sdrop 16 V1) \<Longrightarrow>
        Suc i \<le> n \<Longrightarrow> n \<le> in_len \<Longrightarrow> n \<le> length dst \<Longrightarrow>
        decode_loop char_signed n (Suc i) st1 y d inp dst = Some (filled msg (Suc i) n dst)" by blast
    from d [OF V1(2,3)] obtain V where V: "bs1 @- expand u1 V1 = expand (underflow_bits c) V" "l \<le> number 16 V" "number 16 V \<le> h"
      and sim: "\<And>d inp m y. at_interval d l h \<Longrightarrow> uint (code d) = number 16 V \<Longrightarrow> in_rep inp (m + k1) (sdrop 16 V) \<Longrightarrow>
        scale y = word_of_int (st ! 257) \<Longrightarrow>
        \<exists>d' inp'. arith_code_symbol_to_int (arith_code_current_count y d) y st = Some (x, sym_at st x) \<and>
          arith_code_remove_symbol (sym_at st x) d inp = Some (d', inp') \<and> at_interval d' l1 h1 \<and>
          uint (code d') = number 16 V1 \<and> in_rep inp' m (sdrop 16 V1)" by blast
    have "decode_loop char_signed n i st y d inp dst = Some (filled msg i n dst)"
      if a: "at_interval d l h" "uint (code d) = number 16 V" "in_rep inp (k1 + k2) (sdrop 16 V)" "i \<le> n" "n \<le> in_len" "n \<le> length dst"
      for d inp n dst y
    proof -
      let ?y = "y\<lparr>scale := word_of_int (st ! 257)\<rparr>"
      from sim [OF a(1,2), of inp k2 ?y] a(3) obtain d' inp' where
        s: "arith_code_symbol_to_int (arith_code_current_count ?y d) ?y st = Some (x, sym_at st x)"
          "arith_code_remove_symbol (sym_at st x) d inp = Some (d', inp')" "at_interval d' l1 h1" "uint (code d') = number 16 V1"
          "in_rep inp' k2 (sdrop 16 V1)" by (auto simp: add.commute)
      note u = symbol_scale_ok [OF Suc(5), of y] s(1,2)
      show ?thesis
      proof (cases "n = i")
        case True
        then show ?thesis using u by (subst decode_loop.simps) (simp add: filled_done)
      next
        case False
        then have n: "i < n" using a(4) by simp
        have "decode_loop char_signed n i st y d inp dst =
            decode_loop char_signed n (Suc i) st1 (sym_at st x) d' inp' (dst[i := msg ! i])"
          using u n a(6) x(5) st1(1) char_value_back [of char_signed "msg ! i"]
          by (subst decode_loop.simps) (simp add: x_def)
        also have "\<dots> = Some (filled msg (Suc i) n (dst[i := msg ! i]))" using n a(5,6) by (intro rest [OF s(3-5)]) simp_all
        also have "\<dots> = Some (filled msg i n dst)" using filled_step [OF n a(6) x(4)] by simp
        finally show ?thesis .
      qed
    qed
    then show ?thesis using V V1(1) by (intro exI [of _ V]) simp
  qed
  moreover have "length (bs1 @ bs2) + u' = k1 + k2 + underflow_bits c" "k1 + k2 \<le> 16 * (in_len + 1 - i)"
    using r(4,5) r2(4,5) x(3) by simp_all
  ultimately show ?case using r2(1-3)
    by (intro exI [of _ "bs1 @ bs2"] exI [of _ "k1 + k2"] exI [of _ l'] exI [of _ h'] exI [of _ u'] exI [of _ c']) blast
qed

lemma read_code_ok:
  assumes "uint c = number j V" and "in_rep inp (m + n) (sdrop j V)" and "j + n \<le> 16"
  shows "\<exists>c' inp'. read_code n c inp = Some (c', inp') \<and> uint c' = number (j + n) V \<and> in_rep inp' m (sdrop (j + n) V)"
  using assms
proof (induction n arbitrary: c j inp)
  case (Suc n)
  from input_bit_ok [of inp "m + n" "sdrop j V"] Suc.prems(2) obtain inp1 where
    i: "input_bit inp = Some (V !! j, inp1)" "in_rep inp1 (m + n) (sdrop (Suc j) V)" by (auto simp: sdrop_simps simp del: sdrop.simps)
  have "(2 :: int) ^ j \<le> 2 ^ 15" using Suc.prems(3) by (intro power_increasing) simp_all
  then have "number j V < 32768" using number_bounds [of j V] by simp
  then have "uint (push_bit 1 c + of_bool (V !! j)) = number (Suc j) V"
    unfolding uint_shift_in Suc.prems(1) by (simp add: doubled_def)
  from Suc.IH [OF this i(2)] Suc.prems(3) i(1) show ?case by auto
qed simp

lemma flush_ok:
  assumes at: "at_interval c l h" and s: "stable_interval l h"
  shows "\<exists>fs. (\<forall>out. arith_code_encode_flush c out = output_bits fs out) \<and> length fs = underflow_bits c + 2 \<and>
    (\<forall>G. \<exists>V. fs @- G = expand (underflow_bits c) V \<and> l \<le> number 16 V \<and> number 16 V \<le> h)"
proof -
  define b where "b \<longleftrightarrow> 16384 \<le> l"
  let ?fs = "b # replicate (underflow_bits c + 1) (\<not> b)"
  have m: "(low c AND 0x4000 \<noteq> 0) = b" "(low c AND 0x4000 = 0) = (\<not> b)"
    using at s by (auto simp: mask_bit at_interval_def stable_interval_def second_def b_def)
  have "arith_code_encode_flush c out = output_bits ?fs out" for out
    unfolding arith_code_encode_flush_def m
    by (cases "output_bit b out") (simp_all add: output_pending_bits del: replicate.simps output_pending.simps)
  moreover have "\<exists>V. ?fs @- G = expand (underflow_bits c) V \<and> l \<le> number 16 V \<and> number 16 V \<le> h" for G
  proof -
    let ?V = "b ## (\<not> b) ## G"
    have n: "number 16 ?V = of_bool b * 32768 + of_bool (\<not> b) * 16384 + number 14 G"
      using number_Cons [of 15 b "(\<not> b) ## G"] number_Cons [of 14 "\<not> b" G] by (simp add: numeral_eq_Suc)
    have "l \<le> number 16 ?V" "number 16 ?V \<le> h"
      using s number_bounds [of 14 G] unfolding n by (cases b; auto simp: stable_interval_def b_def)+
    moreover have "?fs @- G = expand (underflow_bits c) ?V" unfolding expand_Cons by (simp add: shift_replicate)
    ultimately show ?thesis by blast
  qed
  ultimately show ?thesis by (intro exI [of _ ?fs]) simp
qed

lemma encode_ok:
  assumes "unat in_len < length msg" and "\<forall>j \<le> unat in_len. -1 \<le> char_value char_signed (msg ! j)"
  shows "\<exists>bits. bits \<le> 16 * (unat in_len + 1) + 2 \<and>
    (if bits div 8 < length buf
     then \<exists>out. arith_code_encode char_signed msg in_len buf = Some out \<and> length out = length buf \<and>
       (\<forall>rest n dst. 2 \<le> length rest \<longrightarrow> n \<le> in_len \<longrightarrow> unat n \<le> length dst \<longrightarrow>
          arith_code_decode char_signed (out @ rest) dst n = Some (take (unat n) msg @ drop (unat n) dst))
     else arith_code_encode char_signed msg in_len buf = None)"
proof -
  let ?c = arith_code_encode_init
  have at: "at_interval ?c 0 65535" "stable_interval 0 65535" by (simp_all add: at_interval_def arith_code_encode_init_def stable_interval_def)
  from code_loop [OF at counts_ok_init, of 0 "unat in_len" msg char_signed] assms obtain bs k l h u c where
    e: "\<And>out. encode_loop char_signed msg (unat in_len) 0 arith_code_model_init ?c out = map_option (Pair c) (output_bits bs out)"
    and r: "at_interval c l h" "underflow_bits c = u" "stable_interval l h" "length bs + u = k" "k \<le> 16 * (unat in_len + 1)"
    and d: "\<And>V'. l \<le> number 16 V' \<Longrightarrow> number 16 V' \<le> h \<Longrightarrow> \<exists>V. bs @- expand u V' = V \<and>
      (\<forall>d inp n dst y. at_interval d 0 65535 \<longrightarrow> uint (code d) = number 16 V \<longrightarrow> in_rep inp k (sdrop 16 V) \<longrightarrow>
        n \<le> unat in_len \<longrightarrow> n \<le> length dst \<longrightarrow>
        decode_loop char_signed n 0 arith_code_model_init y d inp dst = Some (filled msg 0 n dst))"
    by (auto simp: arith_code_encode_init_def)
  from flush_ok [OF r(1,3)] obtain fs where f: "\<And>out. arith_code_encode_flush c out = output_bits fs out" "length fs = u + 2"
    "\<And>G. \<exists>V. fs @- G = expand u V \<and> l \<le> number 16 V \<and> number 16 V \<le> h" using r(2) by auto
  let ?w = "bs @ fs"
  have w: "length ?w = k + 2" using r(4) f(2) by simp
  have enc: "arith_code_encode char_signed msg in_len buf =
      Option.bind (arith_code_output_init buf) (\<lambda>out. map_option cur_out_buf (output_bits ?w out))"
  proof (cases "arith_code_output_init buf")
    case (Some out)
    then show ?thesis unfolding arith_code_encode_def output_bits_append
      by (cases "output_bits bs out") (simp_all add: e f(1) arith_code_output_flush_def map_conv_bind_option o_def)
  qed (simp add: arith_code_encode_def)
  have "if length ?w div 8 < length buf
     then \<exists>out. arith_code_encode char_signed msg in_len buf = Some out \<and> length out = length buf \<and>
       (\<forall>rest n dst. 2 \<le> length rest \<longrightarrow> n \<le> in_len \<longrightarrow> unat n \<le> length dst \<longrightarrow>
          arith_code_decode char_signed (out @ rest) dst n = Some (take (unat n) msg @ drop (unat n) dst))
     else arith_code_encode char_signed msg in_len buf = None"
  proof (cases "buf = []")
    case True
    then show ?thesis unfolding enc by (simp add: arith_code_output_init_def wr_def)
  next
    case False
    from output_init_ok [OF this] obtain o0 where o0: "arith_code_output_init buf = Some o0" "out_rep o0 []"
      "length (cur_out_buf o0) = length buf" by blast
    note ob = output_bits_ok [OF o0(2), of ?w]
    show ?thesis
    proof (cases "length ?w div 8 < length buf")
      case True
      with ob o0(3) obtain out where o1: "output_bits ?w o0 = Some out" "out_rep out ?w" "length (cur_out_buf out) = length buf" by auto
      have dec: "arith_code_decode char_signed (cur_out_buf out @ rest) dst n = Some (take (unat n) msg @ drop (unat n) dst)"
        if a: "2 \<le> length rest" "n \<le> in_len" "unat n \<le> length dst" for rest n dst
      proof -
        let ?B = "cur_out_buf out @ rest"
        from bits_of_written [OF o1(2) refl, of rest] obtain G where G: "bits_of ?B = ?w @- G" by blast
        from f(3) [of G] obtain V' where V': "fs @- G = expand u V'" "l \<le> number 16 V'" "number 16 V' \<le> h" by blast
        from d [OF V'(2,3)] V'(1) G have sim: "\<And>d inp n dst y. at_interval d 0 65535 \<Longrightarrow> uint (code d) = number 16 (bits_of ?B) \<Longrightarrow>
          in_rep inp k (sdrop 16 (bits_of ?B)) \<Longrightarrow> n \<le> unat in_len \<Longrightarrow> n \<le> length dst \<Longrightarrow>
          decode_loop char_signed n 0 arith_code_model_init y d inp dst = Some (filled msg 0 n dst)" by auto
        have "length ?w < 8 * length buf" using True by (simp add: div_less_iff_less_mult mult.commute)
        then have "k + 16 \<le> 8 * length ?B" using w a(1) o1(3) by simp
        then have "in_rep (arith_code_input_init ?B) (k + 16) (sdrop 0 (bits_of ?B))" by (simp add: input_init_ok)
        from read_code_ok [OF _ this, of 0] obtain cd inp where rc: "read_code 16 0 (arith_code_input_init ?B) = Some (cd, inp)"
          "uint cd = number 16 (bits_of ?B)" "in_rep inp k (sdrop 16 (bits_of ?B))" by auto
        let ?d = "\<lparr>code = cd, low = 0, high = 0xffff, underflow_bits = 0\<rparr>"
        have "at_interval ?d 0 65535" "uint (code ?d) = number 16 (bits_of ?B)" using rc(2) by (simp_all add: at_interval_def)
        from sim [OF this rc(3), of "unat n" dst "\<lparr>low_count = 0, high_count = 0, scale = 0\<rparr>"] a(2,3) show ?thesis
          using rc(1) by (simp add: arith_code_decode_def arith_code_decode_init_def filled_def word_le_nat_alt)
      qed
      have "arith_code_encode char_signed msg in_len buf = Some (cur_out_buf out)" using o0(1) o1(1) by (simp add: enc)
      then show ?thesis using True o1(3) dec by auto
    next
      case False
      then show ?thesis using ob o0 by (simp add: enc)
    qed
  qed
  then show ?thesis using w r(5) by (intro exI [of _ "length ?w"]) simp
qed

lemma encode_loop_undefined:
  assumes "i \<le> j" and "j \<le> in_len" and "length msg \<le> j \<or> char_value char_signed (msg ! j) < -1"
  shows "encode_loop char_signed msg in_len i st c out = None"
  using assms(1)
proof (induction "j - i" arbitrary: i st c out)
  case 0
  then have "i = j" by simp
  then show ?case using assms(3)
    by (subst encode_loop.simps) (auto simp: rd_def arith_code_int_to_symbol_def total_def split: bind_split)
next
  case (Suc n)
  then have "encode_loop char_signed msg in_len (i + 1) st c out = None" for st c out by (intro Suc.hyps) simp_all
  then show ?case using Suc(2) assms(2) by (subst encode_loop.simps) (auto split: bind_split)
qed

section \<open>Properties\<close>



text \<open>The encoder reads the byte behind the message, and where \<open>char\<close> is signed it indexes the table of counts with
  a negative number: if that byte does not exist, or some byte up to it is from 128 to 254, it reads out of bounds.\<close>
theorem arith_out_of_bounds:
  assumes "length msg \<le> unat in_len \<or> (\<exists>j \<le> unat in_len. char_value char_signed (msg ! j) < -1)"
  shows "arith_code_encode char_signed msg in_len buf = None"
proof -
  from assms obtain j where "j \<le> unat in_len" "length msg \<le> j \<or> char_value char_signed (msg ! j) < -1" by auto
  then have "encode_loop char_signed msg (unat in_len) 0 st c out = None" for st c out by (intro encode_loop_undefined) simp_all
  then show ?thesis by (simp add: arith_code_encode_def split: bind_split)
qed

theorem arith_out_of_bounds_witness:
  "arith_code_encode True [1, 200, 3] 2 (replicate 9 0) = None \<and> arith_code_encode False [1, 200, 3] 3 (replicate 9 0) = None"
proof -
  have "char_value True ([1, 200, 3] ! 1) < -1" by (simp add: char_value_def)
  then have "\<exists>j \<le> unat (2 :: u8). char_value True ([1, 200, 3] ! j) < -1" by (intro exI [of _ 1]) simp
  then show ?thesis using arith_out_of_bounds [of "[1, 200, 3]" 2 True "replicate 9 0"] arith_out_of_bounds [of "[1, 200, 3]" 3 False "replicate 9 0"] by simp
qed

end
