(* ===== verification/Galois.thy ===== *)
theory Galois
  imports Fec_Table
begin

text \<open>
  The field of 256 elements: what the tables of powers and logarithms are, and the laws of the
  multiplication by them.
\<close>

text \<open>Both indices are within the tables.\<close>

definition gmult :: "u8 \<Rightarrow> u8 \<Rightarrow> u8" where
  "gmult a b = (if a = 0 \<or> b = 0 then 0 else galois_exp ! (unat (galois_log ! unat a) + unat (galois_log ! unat b)))"

definition ginv :: "u8 \<Rightarrow> u8" where
  "ginv elt = galois_exp ! (255 - unat (galois_log ! unat elt))"

section \<open>The tables\<close>

text \<open>Multiplication by the generator: a shift, reduced by the polynomial of the field.\<close>

definition xtime :: "u8 \<Rightarrow> u8" where
  "xtime a = push_bit 1 a XOR (if bit a 7 then 0x1d else 0)"

lemma table_lengths: "length galois_exp = 512" "length galois_log = 256"
  unfolding galois_exp_def galois_log_def by simp_all

lemma table_powers: "map xtime (take 255 galois_exp) = take 255 (tl galois_exp)"
  by code_simp

lemma table_repeats: "drop 255 galois_exp = take 255 galois_exp @ [1, 0]"
  unfolding galois_exp_def by simp

lemma table_logs: "map (\<lambda>x. galois_log ! unat x) (take 255 galois_exp) = map of_nat [0 ..< 255]"
  by code_simp

lemma table_no_zero: "0 \<notin> set (take 255 galois_exp)"
  unfolding galois_exp_def by simp

section \<open>Powers\<close>

definition alpha :: "nat \<Rightarrow> u8" where
  "alpha i = galois_exp ! (i mod 255)"

lemma galois_exp_alpha: "i < 510 \<Longrightarrow> galois_exp ! i = alpha i"
proof (cases "i < 255")
  case False
  assume "i < 510"
  with False obtain k where k: "i = 255 + k" "k < 255" using le_Suc_ex [of 255 i] by auto
  have "galois_exp ! i = drop 255 galois_exp ! k" using k by (simp add: table_lengths)
  also have "\<dots> = galois_exp ! k" unfolding table_repeats using k by (simp add: nth_append table_lengths)
  finally show ?thesis using k by (simp add: alpha_def)
qed (simp add: alpha_def)

lemma alpha_0 [simp]: "alpha 0 = 1"
  by (simp add: alpha_def galois_exp_def)

lemma alpha_Suc: "alpha (Suc i) = xtime (alpha i)"
proof -
  let ?k = "i mod 255"
  have k: "?k < 255" by simp
  have "xtime (galois_exp ! ?k) = map xtime (take 255 galois_exp) ! ?k" using k by (simp add: table_lengths)
  also have "\<dots> = galois_exp ! Suc ?k" unfolding table_powers using k by (simp add: nth_tl table_lengths)
  also have "\<dots> = alpha (Suc ?k)" using k by (intro galois_exp_alpha) simp
  also have "\<dots> = alpha (Suc i)" by (simp add: alpha_def mod_Suc_eq)
  finally show ?thesis by (simp add: alpha_def)
qed

lemma alpha_mod [simp]: "alpha (i mod 255) = alpha i"
  by (simp add: alpha_def)

lemma alpha_cong: "i mod 255 = j mod 255 \<Longrightarrow> alpha i = alpha j"
  by (simp add: alpha_def)

lemma alpha_nonzero [simp]: "alpha i \<noteq> 0"
proof -
  have "alpha i \<in> set (take 255 galois_exp)" unfolding in_set_conv_nth alpha_def
    by (intro exI [of _ "i mod 255"]) (simp add: table_lengths)
  then show ?thesis using table_no_zero by metis
qed

lemma log_alpha: "unat (galois_log ! unat (alpha i)) = i mod 255"
proof -
  have "galois_log ! unat (alpha i) = map (\<lambda>x. galois_log ! unat x) (take 255 galois_exp) ! (i mod 255)"
    by (simp add: alpha_def table_lengths)
  also have "\<dots> = of_nat (i mod 255)" unfolding table_logs by simp
  finally show ?thesis using mod_less_divisor [of 255 i] by (simp add: unat_of_nat_small_u8)
qed

lemma alpha_eq: "alpha i = alpha j \<longleftrightarrow> i mod 255 = j mod 255"
  using log_alpha [of i] log_alpha [of j] alpha_cong by metis

lemma alpha_surj:
  assumes "a \<noteq> 0"
  obtains i where "i < 255" and "a = alpha i"
proof -
  have inj: "inj_on alpha {..<255}" by (auto simp: inj_on_def alpha_eq)
  have "card (UNIV - {0 :: u8}) = 255" by (simp add: card_Diff_subset card_word)
  moreover have "card (alpha ` {..<255}) = 255" using card_image [OF inj] by simp
  moreover have "alpha ` {..<255} \<subseteq> UNIV - {0}" by auto
  ultimately have "alpha ` {..<255} = UNIV - {0}" by (intro card_subset_eq) simp_all
  then show ?thesis using that assms by blast
qed

section \<open>The laws of the multiplication\<close>

lemma gmult_0 [simp]: "gmult 0 b = 0" "gmult a 0 = 0"
  by (simp_all add: gmult_def)

lemma gmult_alpha: "gmult (alpha i) (alpha j) = alpha (i + j)"
proof -
  have "i mod 255 + j mod 255 < 510" using mod_less_divisor [of 255 i] mod_less_divisor [of 255 j] by linarith
  then have "gmult (alpha i) (alpha j) = alpha (i mod 255 + j mod 255)" by (simp add: gmult_def log_alpha galois_exp_alpha)
  also have "\<dots> = alpha (i + j)" by (rule alpha_cong) (simp add: mod_simps)
  finally show ?thesis .
qed

lemma ginv_alpha: "ginv (alpha i) = alpha (255 - i mod 255)"
  by (simp add: ginv_def log_alpha galois_exp_alpha)

lemma gmult_1 [simp]: "gmult 1 b = b" "gmult b 1 = b"
proof -
  show "gmult 1 b = b"
  proof (cases "b = 0")
    case False
    then obtain i where "b = alpha i" by (rule alpha_surj)
    then show ?thesis using gmult_alpha [of 0 i] by simp
  qed simp
  show "gmult b 1 = b"
  proof (cases "b = 0")
    case False
    then obtain i where "b = alpha i" by (rule alpha_surj)
    then show ?thesis using gmult_alpha [of i 0] by simp
  qed simp
qed

lemma gmult_commute: "gmult a b = gmult b a"
  by (simp add: gmult_def add.commute disj_commute)

lemma gmult_zero_iff [simp]: "gmult a b = 0 \<longleftrightarrow> a = 0 \<or> b = 0"
proof (cases "a = 0 \<or> b = 0")
  case False
  then obtain i j where "a = alpha i" "b = alpha j" using alpha_surj by metis
  then show ?thesis by (simp add: gmult_alpha)
qed auto

lemma gmult_assoc: "gmult (gmult a b) c = gmult a (gmult b c)"
proof (cases "a = 0 \<or> b = 0 \<or> c = 0")
  case False
  then obtain i j k where "a = alpha i" "b = alpha j" "c = alpha k" using alpha_surj by metis
  then show ?thesis by (simp add: gmult_alpha add.assoc)
qed auto

lemma ginv_left: "a \<noteq> 0 \<Longrightarrow> gmult (ginv a) a = 1"
proof -
  assume "a \<noteq> 0"
  then obtain i where i: "i < 255" "a = alpha i" by (rule alpha_surj)
  then have "gmult (ginv a) a = alpha 255" by (simp add: ginv_alpha gmult_alpha)
  then show ?thesis using alpha_mod [of 255] by simp
qed

lemma xtime_xor: "xtime (a XOR b) = xtime a XOR xtime b"
  by (cases "bit a 7"; cases "bit b 7") (simp_all add: xtime_def push_bit_xor bit_xor_iff ac_simps del: push_bit_Suc)

lemma xtime_0 [simp]: "(xtime ^^ n) 0 = 0"
  by (induction n) (simp_all add: xtime_def)

lemma xtime_funpow_xor: "(xtime ^^ n) (a XOR b) = (xtime ^^ n) a XOR (xtime ^^ n) b"
  by (induction n) (simp_all add: xtime_xor)

lemma xtime_alpha: "(xtime ^^ n) (alpha j) = alpha (n + j)"
  by (induction n) (simp_all add: alpha_Suc)

lemma gmult_xtime: "gmult (alpha i) b = (xtime ^^ i) b"
proof (cases "b = 0")
  case False
  then obtain j where "b = alpha j" by (rule alpha_surj)
  then show ?thesis by (simp add: gmult_alpha xtime_alpha)
qed simp

lemma gmult_xor: "gmult a (b XOR c) = gmult a b XOR gmult a c"
proof (cases "a = 0")
  case False
  then obtain i where "a = alpha i" by (rule alpha_surj)
  then show ?thesis by (simp add: gmult_xtime xtime_funpow_xor)
qed simp

lemma gmult_xor_left: "gmult (b XOR c) a = gmult b a XOR gmult c a"
  using gmult_xor [of a b c] by (simp add: gmult_commute)

lemma gmult_left_commute: "gmult a (gmult b c) = gmult b (gmult a c)"
  by (metis gmult_assoc gmult_commute)

lemmas gmult_ac = gmult_assoc gmult_commute gmult_left_commute

section \<open>The product of polynomials\<close>

text \<open>The multiplication of the field by its definition: the shifted multiples of one factor for the bits of the other.\<close>

primrec peasant :: "nat \<Rightarrow> u8 \<Rightarrow> u8 \<Rightarrow> u8" where
  "peasant 0 a b = 0"
| "peasant (Suc n) a b = peasant n a b XOR (if bit b n then (xtime ^^ n) a else 0)"

lemma alpha_small: "i < 8 \<Longrightarrow> alpha i = push_bit i 1"
proof -
  have "\<forall>i \<in> set [0 ..< 8]. galois_exp ! i = push_bit i 1" unfolding galois_exp_def by (simp add: upt_rec)
  then show "i < 8 \<Longrightarrow> alpha i = push_bit i 1" by (simp add: alpha_def)
qed

lemma peasant_take: "n \<le> 8 \<Longrightarrow> peasant n a b = gmult a (take_bit n b)"
proof (induction n)
  case (Suc n)
  have "take_bit (Suc n) b = take_bit n b XOR (if bit b n then push_bit n 1 else 0)"
  proof (rule bit_word_eqI)
    fix m assume m: "m < LENGTH(8)"
    have p: "bit (if bit b n then push_bit n 1 else (0 :: u8)) m = (bit b n \<and> m = n)"
      using m by (auto simp: bit_push_bit_iff bit_1_iff simp del: push_bit_of_1)
    show "bit (take_bit (Suc n) b) m = bit (take_bit n b XOR (if bit b n then push_bit n 1 else 0)) m"
      unfolding bit_xor_iff p bit_take_bit_iff less_Suc_eq by (cases "m = n") (simp_all del: take_bit_Suc)
  qed
  moreover have "(xtime ^^ n) a = gmult a (push_bit n 1)"
    unfolding gmult_xtime [symmetric] using Suc(2) alpha_small [of n] by (simp add: gmult_commute [of _ a])
  ultimately show ?case using Suc by (simp add: gmult_xor)
qed simp

lemma gmult_peasant: "gmult a b = peasant 8 a b"
  using peasant_take [of 8 a b] by (simp add: take_bit_word_eq_self)

end
