(* ===== verification/Fec.thy ===== *)
theory Fec
  imports Galois
begin

text \<open>
  Forward error correction with a Reed-Solomon code (\<open>lib/fec.c\<close>), as it is configured for the AVR
  nodes: encoding by a shift register, the syndromes, the modified Berlekamp-Massey algorithm, the
  search for the error locations and the correction.  The pointers of the code all point into its
  static arrays: a pointer is the name of an array and an offset.
\<close>

section \<open>The state\<close>

definition MAXIMUM_PARITY_BYTES :: u8 where "MAXIMUM_PARITY_BYTES = 64"
definition MAXIMUM_IMPLEMENTED_PARITY_BYTES :: nat where "MAXIMUM_IMPLEMENTED_PARITY_BYTES = 8"
definition FEC_NO_ERRORS :: u8 where "FEC_NO_ERRORS = 0"
definition FEC_CORRECTED_ERRORS :: u8 where "FEC_CORRECTED_ERRORS = 1"
definition FEC_UNCORRECTABLE_ERRORS :: u8 where "FEC_UNCORRECTABLE_ERRORS = 2"

datatype fec_array = Global_parity_bytes | Galois_syn | Lambda | Omega | Error_locations | Tmp1 | Product | LFSR

type_synonym fec_ptr = "fec_array \<times> nat"

record fec =
  num_parity_bytes :: nat
  num_errors :: nat
  galois_poly :: "u8 list option"
  arrays :: "fec_array \<Rightarrow> u8 list"

definition array_size :: "fec_array \<Rightarrow> nat" where
  "array_size a = (case a of
     Global_parity_bytes \<Rightarrow> MAXIMUM_IMPLEMENTED_PARITY_BYTES | Galois_syn \<Rightarrow> MAXIMUM_IMPLEMENTED_PARITY_BYTES
   | Lambda \<Rightarrow> MAXIMUM_IMPLEMENTED_PARITY_BYTES * 2 | Omega \<Rightarrow> MAXIMUM_IMPLEMENTED_PARITY_BYTES * 2
   | Error_locations \<Rightarrow> MAXIMUM_IMPLEMENTED_PARITY_BYTES * 2 | Tmp1 \<Rightarrow> MAXIMUM_IMPLEMENTED_PARITY_BYTES * 4
   | Product \<Rightarrow> MAXIMUM_IMPLEMENTED_PARITY_BYTES * 4 | LFSR \<Rightarrow> MAXIMUM_IMPLEMENTED_PARITY_BYTES + 1)"

definition fec_start :: fec where
  "fec_start = \<lparr>num_parity_bytes = 0, num_errors = 0, galois_poly = None, arrays = (\<lambda>a. replicate (array_size a) 0)\<rparr>"

definition get :: "fec_ptr \<Rightarrow> nat \<Rightarrow> fec \<Rightarrow> u8 option" where
  "get p i s = rd (arrays s (fst p)) (snd p + i)"

definition put :: "fec_ptr \<Rightarrow> nat \<Rightarrow> u8 \<Rightarrow> fec \<Rightarrow> fec option" where
  "put p i v s = do {
     xs \<leftarrow> wr (arrays s (fst p)) (snd p + i) v;
     Some (s\<lparr>arrays := (arrays s)(fst p := xs)\<rparr>) }"

text \<open>A \<open>for\<close> loop: its body for the values of the counter, one after the other.\<close>

primrec for_each :: "'i list \<Rightarrow> ('i \<Rightarrow> 's \<Rightarrow> 's option) \<Rightarrow> 's \<Rightarrow> 's option" where
  "for_each [] body s = Some s"
| "for_each (i # is) body s = Option.bind (body i s) (for_each is body)"

section \<open>Initialisation and polynomials\<close>

text \<open>For a number of parity bytes without a table the polynomial stays what it was.\<close>

definition fec_init :: "u8 \<Rightarrow> fec \<Rightarrow> fec" where
  "fec_init parity_bytes s =
     (let parity_bytes = (if MAXIMUM_PARITY_BYTES < parity_bytes then MAXIMUM_PARITY_BYTES else parity_bytes);
          s = s\<lparr>num_parity_bytes := unat parity_bytes\<rparr>
      in if parity_bytes = 2 then s\<lparr>galois_poly := Some galois_poly_2\<rparr>
         else if parity_bytes = 4 then s\<lparr>galois_poly := Some galois_poly_4\<rparr>
         else if parity_bytes = 8 then s\<lparr>galois_poly := Some galois_poly_8\<rparr>
         else s)"

definition zero_poly :: "fec_ptr \<Rightarrow> fec \<Rightarrow> fec option" where
  "zero_poly poly s = for_each [0 ..< num_parity_bytes s * 2] (\<lambda>i. put poly i 0) s"

definition copy_poly :: "fec_ptr \<Rightarrow> fec_ptr \<Rightarrow> fec \<Rightarrow> fec option" where
  "copy_poly dst src s = for_each [0 ..< num_parity_bytes s * 2] (\<lambda>i s. do { v \<leftarrow> get src i s; put dst i v s }) s"

definition mult_polys :: "fec_ptr \<Rightarrow> fec_ptr \<Rightarrow> fec_ptr \<Rightarrow> fec \<Rightarrow> fec option" where
  "mult_polys dst p1 p2 s = do {
     let parity_2 = num_parity_bytes s * 2;
     let parity_4 = num_parity_bytes s * 4;
     s \<leftarrow> for_each [0 ..< parity_4] (\<lambda>i. put dst i 0) s;
     for_each [0 ..< parity_2] (\<lambda>i s. do {
       s \<leftarrow> for_each [parity_2 ..< parity_4] (\<lambda>j. put (Tmp1, 0) j 0) s;
       s \<leftarrow> for_each [0 ..< parity_2] (\<lambda>j s. do { a \<leftarrow> get p2 j s; b \<leftarrow> get p1 i s; put (Tmp1, 0) j (gmult a b) s }) s;
       s \<leftarrow> for_each (rev [i ..< parity_4]) (\<lambda>j s. do { v \<leftarrow> get (Tmp1, 0) (j - i) s; put (Tmp1, 0) j v s }) s;
       s \<leftarrow> for_each [0 ..< i] (\<lambda>j. put (Tmp1, 0) j 0) s;
       for_each [0 ..< parity_4] (\<lambda>j s. do { v \<leftarrow> get dst j s; w \<leftarrow> get (Tmp1, 0) j s; put dst j (v XOR w) s }) s }) s }"

definition mul_z_poly :: "fec_ptr \<Rightarrow> fec \<Rightarrow> fec option" where
  "mul_z_poly src s = do {
     s \<leftarrow> for_each (rev [1 ..< num_parity_bytes s * 2]) (\<lambda>i s. do { v \<leftarrow> get src (i - 1) s; put src i v s }) s;
     put src 0 0 s }"

section \<open>Encoding\<close>

definition build_codeword :: "u8 list \<Rightarrow> fec \<Rightarrow> u8 list option" where
  "build_codeword parity s =
     for_each [0 ..< num_parity_bytes s] (\<lambda>i parity. do {
       v \<leftarrow> get (Global_parity_bytes, 0) (num_parity_bytes s - 1 - i) s; wr parity i v }) parity"

text \<open>One step of the shift register; without parity bytes it would read before its beginning.\<close>

definition encode_byte :: "u8 \<Rightarrow> fec \<Rightarrow> fec option" where
  "encode_byte b s = do {
     last \<leftarrow> (if num_parity_bytes s = 0 then None else get (LFSR, 0) (num_parity_bytes s - 1) s);
     let byte = b XOR last;
     poly \<leftarrow> galois_poly s;
     s \<leftarrow> for_each (rev [1 ..< num_parity_bytes s]) (\<lambda>j s. do {
       v \<leftarrow> get (LFSR, 0) (j - 1) s;
       g \<leftarrow> rd poly j;
       put (LFSR, 0) j (v XOR gmult g byte) s }) s;
     g \<leftarrow> rd poly 0;
     put (LFSR, 0) 0 (gmult g byte) s }"

definition fec_encode :: "u8 list \<Rightarrow> u8 \<Rightarrow> u8 list \<Rightarrow> fec \<Rightarrow> (u8 list \<times> fec) option" where
  "fec_encode src len parity s = do {
     s \<leftarrow> for_each [0 ..< num_parity_bytes s + 1] (\<lambda>i. put (LFSR, 0) i 0) s;
     s \<leftarrow> for_each [0 ..< unat len] (\<lambda>i s. do { b \<leftarrow> rd src i; encode_byte b s }) s;
     s \<leftarrow> for_each [0 ..< num_parity_bytes s] (\<lambda>i s. do { v \<leftarrow> get (LFSR, 0) i s; put (Global_parity_bytes, 0) i v s }) s;
     parity \<leftarrow> build_codeword parity s;
     Some (parity, s) }"

section \<open>Decoding\<close>

definition check_syn :: "fec \<Rightarrow> bool option" where
  "check_syn s = for_each [0 ..< num_parity_bytes s] (\<lambda>i nz. do { v \<leftarrow> get (Galois_syn, 0) i s; Some (v \<noteq> 0 \<or> nz) }) False"

definition init_gamma :: "fec_ptr \<Rightarrow> fec \<Rightarrow> fec option" where
  "init_gamma gamma s = do {
     s \<leftarrow> zero_poly gamma s;
     s \<leftarrow> zero_poly (Tmp1, 0) s;
     put gamma 0 1 s }"

text \<open>\<open>S[n - i]\<close> would be before the array for \<open>n < i\<close>.\<close>

definition compute_discrepancy :: "fec_ptr \<Rightarrow> fec_ptr \<Rightarrow> nat \<Rightarrow> nat \<Rightarrow> fec \<Rightarrow> u8 option" where
  "compute_discrepancy lambda S L n s =
     for_each [0 ..< L + 1] (\<lambda>i sum. do {
       a \<leftarrow> get lambda i s;
       b \<leftarrow> (if n < i then None else get S (n - i) s);
       Some (sum XOR gmult a b) }) 0"

definition compute_modified_omega :: "fec \<Rightarrow> fec option" where
  "compute_modified_omega s = do {
     s \<leftarrow> mult_polys (Product, 0) (Lambda, 0) (Galois_syn, 0) s;
     s \<leftarrow> zero_poly (Omega, 0) s;
     for_each [0 ..< num_parity_bytes s] (\<lambda>i s. do { v \<leftarrow> get (Product, 0) i s; put (Omega, 0) i v s }) s }"

record berk =
  berk_k :: int
  berk_L :: nat

text \<open>The polynomials \<open>psi\<close> and \<open>D\<close> are the first part of \<open>tmp1\<close> and \<open>product\<close>, \<open>psi2\<close> and \<open>gamma\<close> the second.\<close>

definition berk_round :: "nat \<Rightarrow> berk \<times> fec \<Rightarrow> (berk \<times> fec) option" where
  "berk_round n = (\<lambda>(b, s). do {
     let parity_2 = num_parity_bytes s * 2;
     let psi = (Tmp1, 0);
     let psi2 = (Tmp1, parity_2);
     let D = (Product, 0);
     d \<leftarrow> compute_discrepancy psi (Galois_syn, 0) (berk_L b) n s;
     (b, s) \<leftarrow> (if d \<noteq> 0 then do {
         s \<leftarrow> for_each [0 ..< parity_2] (\<lambda>i s. do { v \<leftarrow> get psi i s; w \<leftarrow> get D i s; put psi2 i (v XOR gmult d w) s }) s;
         (b, s) \<leftarrow> (if int (berk_L b) < int n - berk_k b then do {
             let L2 = nat (int n - berk_k b);
             let b = b\<lparr>berk_k := int n - int (berk_L b)\<rparr>;
             s \<leftarrow> for_each [0 ..< parity_2] (\<lambda>i s. do { v \<leftarrow> get psi i s; put D i (gmult v (ginv d)) s }) s;
             Some (b\<lparr>berk_L := L2\<rparr>, s) }
           else Some (b, s));
         s \<leftarrow> for_each [0 ..< parity_2] (\<lambda>i s. do { v \<leftarrow> get psi2 i s; put psi i v s }) s;
         Some (b, s) }
       else Some (b, s));
     s \<leftarrow> mul_z_poly D s;
     Some (b, s) })"

definition modified_berlekamp_massey :: "fec \<Rightarrow> fec option" where
  "modified_berlekamp_massey s = do {
     let parity_2 = num_parity_bytes s * 2;
     let psi = (Tmp1, 0);
     let D = (Product, 0);
     let gamma = (Product, parity_2);
     s \<leftarrow> init_gamma gamma s;
     s \<leftarrow> copy_poly D gamma s;
     s \<leftarrow> mul_z_poly D s;
     s \<leftarrow> copy_poly psi gamma s;
     (b, s) \<leftarrow> for_each [0 ..< num_parity_bytes s] berk_round (\<lparr>berk_k = -1, berk_L = 0\<rparr>, s);
     s \<leftarrow> for_each [0 ..< parity_2] (\<lambda>i s. do { v \<leftarrow> get psi i s; put (Lambda, 0) i v s }) s;
     compute_modified_omega s }"

text \<open>The search ends early, with the flag set, when there is no more room for locations.\<close>

definition root_sum :: "nat \<Rightarrow> fec \<Rightarrow> u8 option" where
  "root_sum r s = for_each [0 ..< num_parity_bytes s + 1] (\<lambda>k sum. do {
     l \<leftarrow> get (Lambda, 0) k s;
     Some (sum XOR gmult (galois_exp ! ((k * r) mod 255)) l) }) 0"

definition find_roots :: "fec \<Rightarrow> fec option" where
  "find_roots s = do {
     (full, s) \<leftarrow> for_each [1 ..< 256] (\<lambda>r (full, s).
       if full then Some (full, s) else do {
         sum \<leftarrow> root_sum r s;
         if sum = 0 then do {
           s \<leftarrow> put (Error_locations, 0) (num_errors s) (of_nat (255 - r)) s;
           let s = s\<lparr>num_errors := num_errors s + 1\<rparr>;
           Some (8 \<le> num_errors s, s) }
         else Some (False, s) }) (False, s\<lparr>num_errors := 0\<rparr>);
     Some s }"

definition error_value :: "nat \<Rightarrow> fec \<Rightarrow> u8 option" where
  "error_value i s = do {
     let parity_2 = num_parity_bytes s * 2;
     num \<leftarrow> for_each [0 ..< parity_2] (\<lambda>j num. do {
       w \<leftarrow> get (Omega, 0) j s;
       Some (num XOR gmult w (galois_exp ! (((255 - i) * j) mod 255))) }) 0;
     denom \<leftarrow> for_each (filter odd [1 ..< parity_2]) (\<lambda>j denom. do {
       l \<leftarrow> get (Lambda, 0) j s;
       Some (denom XOR gmult l (galois_exp ! (((255 - i) * (j - 1)) mod 255))) }) 0;
     Some (gmult num (ginv denom)) }"

definition correct_errors :: "u8 list \<Rightarrow> u8 \<Rightarrow> fec \<Rightarrow> (u8 \<times> u8 list \<times> fec) option" where
  "correct_errors src len s = do {
     s \<leftarrow> modified_berlekamp_massey s;
     s \<leftarrow> find_roots s;
     if num_errors s \<le> num_parity_bytes s \<and> 0 < num_errors s then do {
       outside \<leftarrow> for_each [0 ..< num_errors s] (\<lambda>r outside. do {
         l \<leftarrow> get (Error_locations, 0) r s; Some (outside \<or> len \<le> l) }) False;
       if outside then Some (FEC_UNCORRECTABLE_ERRORS, src, s) else do {
         src \<leftarrow> for_each [0 ..< num_errors s] (\<lambda>r src. do {
           i \<leftarrow> get (Error_locations, 0) r s;
           err \<leftarrow> error_value (unat i) s;
           v \<leftarrow> rd src (unat len - unat i - 1);
           wr src (unat len - unat i - 1) (v XOR err) }) src;
         Some (FEC_CORRECTED_ERRORS, src, s) } }
     else Some (FEC_UNCORRECTABLE_ERRORS, src, s) }"

definition syndrome :: "nat \<Rightarrow> u8 list \<Rightarrow> nat \<Rightarrow> u8 list \<Rightarrow> nat \<Rightarrow> u8 option" where
  "syndrome j src len parity n = do {
     sum \<leftarrow> for_each [0 ..< len] (\<lambda>i sum. do { b \<leftarrow> rd src i; Some (b XOR gmult (galois_exp ! (j + 1)) sum) }) 0;
     for_each [0 ..< n] (\<lambda>i sum. do { b \<leftarrow> rd parity i; Some (b XOR gmult (galois_exp ! (j + 1)) sum) }) sum }"

definition fec_decode :: "u8 list \<Rightarrow> u8 \<Rightarrow> u8 list \<Rightarrow> fec \<Rightarrow> (u8 \<times> u8 list \<times> fec) option" where
  "fec_decode src len parity s = do {
     s \<leftarrow> for_each [0 ..< num_parity_bytes s] (\<lambda>j s. do {
       v \<leftarrow> syndrome j src (unat len) parity (num_parity_bytes s);
       put (Galois_syn, 0) j v s }) s;
     nz \<leftarrow> check_syn s;
     if nz then correct_errors src (len + of_nat (num_parity_bytes s)) s
     else Some (FEC_NO_ERRORS, src, s) }"

definition fec_get_parity_bytes :: "fec \<Rightarrow> nat" where
  "fec_get_parity_bytes s = num_parity_bytes s"

end
