(* ===== verification/Fec_Store.thy ===== *)
theory Fec_Store
  imports Fec
begin

text \<open>
  The static arrays as one store of cells, in which every loop of the error correction that fills a
  part of an array is a single update.
\<close>

section \<open>Cells\<close>

type_synonym cells = "fec_array \<Rightarrow> nat \<Rightarrow> u8"

definition holding :: "fec \<Rightarrow> cells \<Rightarrow> fec" where
  "holding c st = c\<lparr>arrays := (\<lambda>a. map (st a) [0 ..< array_size a])\<rparr>"

lemma holding_fields [simp]:
  "num_parity_bytes (holding c st) = num_parity_bytes c" "num_errors (holding c st) = num_errors c"
  "galois_poly (holding c st) = galois_poly c" "(holding c st)\<lparr>num_errors := n\<rparr> = holding (c\<lparr>num_errors := n\<rparr>) st"
  by (simp_all add: holding_def)

lemma holding_cells:
  assumes "\<forall>a. length (arrays s a) = array_size a"
  shows "s = holding s (\<lambda>a i. arrays s a ! i)"
proof -
  have "map (\<lambda>i. arrays s a ! i) [0 ..< array_size a] = arrays s a" for a
    using assms map_nth [of "arrays s a"] by simp
  then show ?thesis by (simp add: holding_def)
qed

lemma get_holding [simp]: "o1 + i < array_size a \<Longrightarrow> get (a, o1) i (holding c st) = Some (st a (o1 + i))"
  by (simp add: get_def holding_def)

lemma put_holding [simp]:
  assumes "o1 + i < array_size a"
  shows "put (a, o1) i v (holding c st) = Some (holding c (st(a := (st a)(o1 + i := v))))"
proof -
  have "(map (st a) [0 ..< array_size a])[o1 + i := v] = map ((st a)(o1 + i := v)) [0 ..< array_size a]"
    by (rule nth_equalityI) (simp_all add: nth_list_update)
  then show ?thesis using assms by (simp add: put_def holding_def fun_eq_iff)
qed

section \<open>Loops\<close>

lemma for_each_append: "for_each (xs @ ys) f s = Option.bind (for_each xs f s) (for_each ys f)"
proof (induction xs arbitrary: s)
  case (Cons x xs)
  then show ?case by (cases "f x s") simp_all
qed simp

lemma for_each_inv:
  assumes "P 0 s" and "\<And>k t. k < length xs \<Longrightarrow> P k t \<Longrightarrow> \<exists>t'. f (xs ! k) t = Some t' \<and> P (Suc k) t'"
  shows "\<exists>t. for_each xs f s = Some t \<and> P (length xs) t"
  using assms
proof (induction xs arbitrary: s P)
  case (Cons x xs)
  from Cons.prems(2) [of 0 s] Cons.prems(1) obtain t where t: "f x s = Some t" "P 1 t" by auto
  from Cons.IH [of "\<lambda>k. P (Suc k)" t] t Cons.prems(2) [of "Suc _"] show ?case by auto
qed simp

definition fill :: "fec_ptr \<Rightarrow> nat set \<Rightarrow> (nat \<Rightarrow> u8) \<Rightarrow> cells \<Rightarrow> cells" where
  "fill p I h st = st(fst p := (\<lambda>k. if snd p \<le> k \<and> k - snd p \<in> I then h (k - snd p) else st (fst p) k))"

lemma fill_cell [simp]: "i \<in> I \<Longrightarrow> fill (a, o1) I h st a (o1 + i) = h i"
  by (simp add: fill_def)

lemma fill_0 [simp]: "fill (a, 0) I h st a i = (if i \<in> I then h i else st a i)"
  by (simp add: fill_def)

lemma fill_other [simp]: "b \<noteq> a \<Longrightarrow> fill (a, o1) I h st b = st b"
  by (simp add: fill_def)

lemma fill_below [simp]: "i < o1 \<Longrightarrow> fill (a, o1) I h st a i = st a i"
  by (simp add: fill_def)

lemma fill_empty [simp]: "fill p {} h st = st"
  by (simp add: fill_def)

lemma fill_insert: "fill (a, o1) (insert i I) h st = (fill (a, o1) I h st)(a := (fill (a, o1) I h st a)(o1 + i := h i))"
  by (auto simp: fill_def fun_eq_iff)

lemma fill_loop:
  assumes "\<And>i. i \<in> set xs \<Longrightarrow> o1 + i < array_size a"
    and "\<And>ys i zs. xs = ys @ i # zs \<Longrightarrow> g i (holding c (fill (a, o1) (set ys) h st)) = Some (h i)"
  shows "for_each xs (\<lambda>i s. Option.bind (g i s) (\<lambda>v. put (a, o1) i v s)) (holding c st) = Some (holding c (fill (a, o1) (set xs) h st))"
proof -
  have "for_each ys (\<lambda>i s. Option.bind (g i s) (\<lambda>v. put (a, o1) i v s)) (holding c st) = Some (holding c (fill (a, o1) (set ys) h st))"
    if "xs = ys @ zs" for ys zs
    using that
  proof (induction ys arbitrary: zs rule: rev_induct)
    case (snoc i ys)
    then have "for_each ys (\<lambda>i s. Option.bind (g i s) (\<lambda>v. put (a, o1) i v s)) (holding c st) = Some (holding c (fill (a, o1) (set ys) h st))"
      by simp
    moreover have "g i (holding c (fill (a, o1) (set ys) h st)) = Some (h i)" "o1 + i < array_size a"
      using assms(1) [of i] assms(2) [of ys i zs] snoc.prems by simp_all
    ultimately show ?case by (simp add: for_each_append fill_insert fun_upd_def)
  qed simp
  from this [of xs "[]"] show ?thesis by simp
qed

lemma split_ascending:
  assumes "[0 ..< n] = ys @ i # zs"
  shows "i < n" and "set ys = {..<i}"
proof -
  have l: "length ys < n" using arg_cong [OF assms, of length] by simp
  have "i = [0 ..< n] ! length ys" unfolding assms by (rule nth_append_length [symmetric])
  then have i: "i = length ys" using l by simp
  have "ys = take (length ys) [0 ..< n]" unfolding assms by simp
  also have "set (take (length ys) [0 ..< n]) = {..<length ys}" using l by (auto simp: take_upt)
  finally show "set ys = {..<i}" using i by simp
  show "i < n" using l i by simp
qed

lemma fill_ascending:
  assumes "o1 + n \<le> array_size a" and "\<And>i. i < n \<Longrightarrow> g i (holding c (fill (a, o1) {..<i} h st)) = Some (h i)"
  shows "for_each [0 ..< n] (\<lambda>i s. Option.bind (g i s) (\<lambda>v. put (a, o1) i v s)) (holding c st) = Some (holding c (fill (a, o1) {..<n} h st))"
proof -
  have "for_each [0 ..< n] (\<lambda>i s. Option.bind (g i s) (\<lambda>v. put (a, o1) i v s)) (holding c st)
      = Some (holding c (fill (a, o1) (set [0 ..< n]) h st))"
  proof (rule fill_loop)
    fix ys i zs assume "[0 ..< n] = ys @ i # zs"
    from split_ascending [OF this] show "g i (holding c (fill (a, o1) (set ys) h st)) = Some (h i)" using assms(2) by simp
  qed (use assms(1) in auto)
  then show ?thesis by (simp add: atLeast0LessThan)
qed

lemma fill_value:
  assumes "\<And>i. i \<in> set xs \<Longrightarrow> o1 + i < array_size a"
  shows "for_each xs (\<lambda>i. put (a, o1) i (h i)) (holding c st) = Some (holding c (fill (a, o1) (set xs) h st))"
  using fill_loop [of xs o1 a "\<lambda>i s. Some (h i)" c h st] assms by simp

text \<open>A loop from the top that reads the cells below those it has written.\<close>

lemma split_descending:
  assumes "rev [m ..< n] = ys @ i # zs"
  shows "m \<le> i" and "i < n" and "set ys = {i <..< n}"
proof -
  have "[m ..< n] = rev zs @ i # rev ys" using assms by (metis rev_append rev_rev_ident rev.simps(2) append_assoc append_Cons append_Nil)
  then have s: "sorted_wrt (<) (rev zs @ i # rev ys)" "set (rev zs @ i # rev ys) = {m ..< n}"
    using sorted_wrt_upt [of m n] by (metis, metis set_upt)
  then show "m \<le> i" "i < n" by auto
  show "set ys = {i <..< n}"
  proof
    show "set ys \<subseteq> {i <..< n}" using s by (auto simp: sorted_wrt_append)
    show "{i <..< n} \<subseteq> set ys"
    proof
      fix k assume "k \<in> {i <..< n}"
      then have "k \<in> set (rev zs @ i # rev ys)" using s(2) \<open>m \<le> i\<close> by auto
      then show "k \<in> set ys" using s(1) \<open>k \<in> {i <..< n}\<close> by (auto simp: sorted_wrt_append)
    qed
  qed
qed

lemma fill_descending:
  assumes "n \<le> array_size a" and "\<And>i. m \<le> i \<Longrightarrow> i < n \<Longrightarrow> g i (holding c (fill (a, 0) {i <..< n} h st)) = Some (h i)"
  shows "for_each (rev [m ..< n]) (\<lambda>i s. Option.bind (g i s) (\<lambda>v. put (a, 0) i v s)) (holding c st)
    = Some (holding c (fill (a, 0) {m ..< n} h st))"
proof -
  have "for_each (rev [m ..< n]) (\<lambda>i s. Option.bind (g i s) (\<lambda>v. put (a, 0) i v s)) (holding c st)
      = Some (holding c (fill (a, 0) (set (rev [m ..< n])) h st))"
  proof (rule fill_loop)
    fix ys i zs assume "rev [m ..< n] = ys @ i # zs"
    from split_descending [OF this] show "g i (holding c (fill (a, 0) (set ys) h st)) = Some (h i)" using assms(2) by simp
  qed (use assms(1) in auto)
  then show ?thesis by simp
qed

section \<open>Sums\<close>

primrec xsum :: "nat \<Rightarrow> (nat \<Rightarrow> u8) \<Rightarrow> u8" where
  "xsum 0 f = 0"
| "xsum (Suc n) f = xsum n f XOR f n"

lemma xsum_cong: "(\<And>i. i < n \<Longrightarrow> f i = g i) \<Longrightarrow> xsum n f = xsum n g"
  by (induction n) simp_all

lemma xsum_xor: "xsum n (\<lambda>i. f i XOR g i) = xsum n f XOR xsum n g"
  by (induction n) (simp_all add: ac_simps)

lemma xsum_gmult: "xsum n (\<lambda>i. gmult a (f i)) = gmult a (xsum n f)"
  by (induction n) (simp_all add: gmult_xor)

lemma xsum_first: "xsum (Suc n) f = f 0 XOR xsum n (\<lambda>i. f (Suc i))"
  by (induction n) (simp_all add: ac_simps)

lemma xsum_zero: "(\<And>i. i < n \<Longrightarrow> f i = 0) \<Longrightarrow> xsum n f = 0"
  by (induction n) simp_all

lemma xsum_one: "k < n \<Longrightarrow> (\<And>i. i < n \<Longrightarrow> i \<noteq> k \<Longrightarrow> f i = 0) \<Longrightarrow> xsum n f = f k"
proof (induction n)
  case (Suc n)
  then show ?case by (cases "k = n") (simp_all add: xsum_zero)
qed simp

lemma xsum_two: "2 \<le> n \<Longrightarrow> (\<And>i. 2 \<le> i \<Longrightarrow> i < n \<Longrightarrow> f i = 0) \<Longrightarrow> xsum n f = f 0 XOR f 1"
proof (induction n)
  case (Suc n)
  then show ?case by (cases "n = 1") simp_all
qed simp

lemma for_each_sum:
  assumes "\<And>i. i < n \<Longrightarrow> g i = Some (f i)"
  shows "for_each [0 ..< n] (\<lambda>i sum. Option.bind (g i) (\<lambda>v. Some (sum XOR v))) 0 = Some (xsum n f)"
  using assms by (induction n) (simp_all add: for_each_append)

end
