(* ===== verification/Fec_Encode.thy ===== *)
theory Fec_Encode
  imports Fec_Store
begin

text \<open>
  The code words: a polynomial that has the roots of the generator polynomial is divided by it in the
  shift register, and what is appended makes all syndromes zero.
\<close>

section \<open>Evaluation of a message\<close>

text \<open>The message as a polynomial, at the power \<open>m\<close> of the generator of the field.\<close>

definition horner :: "nat \<Rightarrow> u8 list \<Rightarrow> u8 \<Rightarrow> u8" where
  "horner m bs z = foldl (\<lambda>s b. b XOR gmult (alpha m) s) z bs"

lemma horner_Nil [simp]: "horner m [] z = z"
  by (simp add: horner_def)

lemma horner_snoc [simp]: "horner m (bs @ [b]) z = b XOR gmult (alpha m) (horner m bs z)"
  by (simp add: horner_def)

lemma horner_append: "horner m (bs @ cs) z = horner m cs (horner m bs z)"
  by (simp add: horner_def)

lemma horner_start: "horner m bs z = gmult (alpha (m * length bs)) z XOR horner m bs 0"
proof (induction bs rule: rev_induct)
  case (snoc b bs)
  have "gmult (alpha m) (gmult (alpha (m * length bs)) z) = gmult (alpha (m * length (bs @ [b]))) z"
    by (simp add: gmult_assoc [symmetric] gmult_alpha add.commute)
  then show ?case using snoc by (simp add: gmult_xor ac_simps)
qed simp

text \<open>A changed byte changes it by a power of the place of the byte.\<close>

lemma horner_change:
  assumes "k < length cs"
  shows "horner m (cs[k := cs ! k XOR e]) 0 = horner m cs 0 XOR gmult e (alpha (m * (length cs - 1 - k)))"
proof -
  define u where "u = take k cs"
  define v where "v = drop (Suc k) cs"
  have cs: "cs = u @ cs ! k # v" "cs[k := cs ! k XOR e] = u @ (cs ! k XOR e) # v" "length cs - 1 - k = length v"
    using assms by (simp_all add: u_def v_def id_take_nth_drop upd_conv_take_nth_drop)
  have "horner m (u @ x # v) 0 = gmult (alpha (m * length v)) (x XOR gmult (alpha m) (horner m u 0)) XOR horner m v 0" for x
    using horner_start [of m v "horner m (u @ [x]) 0"] horner_append [of m "u @ [x]" v 0] by simp
  then show ?thesis unfolding cs(2,3) by (subst (2) cs(1)) (simp add: gmult_xor gmult_commute [of e] ac_simps)
qed

text \<open>The coefficients of a polynomial in an array, the lowest first.\<close>

definition value_at :: "nat \<Rightarrow> nat \<Rightarrow> (nat \<Rightarrow> u8) \<Rightarrow> u8" where
  "value_at m n r = xsum n (\<lambda>j. gmult (r j) (alpha (m * j)))"

lemma horner_reversed: "horner m (map (\<lambda>i. r (n - 1 - i)) [0 ..< n]) 0 = value_at m n r"
proof -
  have "horner m (map (\<lambda>i. r (n - 1 - i)) [0 ..< k]) 0 = xsum k (\<lambda>j. gmult (r (n - k + j)) (alpha (m * j)))" if "k \<le> n" for k
    using that
  proof (induction k)
    case (Suc k)
    have "n - Suc k + Suc j = n - k + j" for j using Suc.prems by simp
    then have "xsum (Suc k) (\<lambda>j. gmult (r (n - Suc k + j)) (alpha (m * j)))
        = r (n - Suc k) XOR xsum k (\<lambda>j. gmult (r (n - k + j)) (alpha (m * Suc j)))"
      by (simp only: xsum_first) simp
    also have "xsum k (\<lambda>j. gmult (r (n - k + j)) (alpha (m * Suc j)))
        = xsum k (\<lambda>j. gmult (alpha m) (gmult (r (n - k + j)) (alpha (m * j))))"
      by (intro xsum_cong) (simp add: gmult_left_commute [of "alpha m"] gmult_alpha)
    finally show ?case using Suc by (simp add: xsum_gmult)
  qed simp
  from this [of n] show ?thesis by (simp add: value_at_def)
qed

section \<open>The generator polynomial\<close>

text \<open>\<open>g\<close> without its highest coefficient, which is 1, has the powers 1 to \<open>n\<close> as roots.\<close>

definition generator :: "nat \<Rightarrow> u8 list \<Rightarrow> bool" where
  "generator n g \<longleftrightarrow> n \<le> length g \<and> (\<forall>m \<in> {1 .. n}. value_at m n (\<lambda>j. g ! j) = alpha (m * n))"

lemma generator_check:
  assumes "n \<le> length g" and "list_all (\<lambda>m. value_at m n (\<lambda>j. g ! j) = alpha (m * n)) [1 ..< Suc n]"
  shows "generator n g"
  using assms by (auto simp: generator_def list_all_iff)

lemma generator_2: "generator 2 galois_poly_2" and generator_4: "generator 4 galois_poly_4" and generator_8: "generator 8 galois_poly_8"
  by (rule generator_check; code_simp)+

section \<open>The shift register\<close>

definition shift_in :: "nat \<Rightarrow> u8 list \<Rightarrow> u8 \<Rightarrow> (nat \<Rightarrow> u8) \<Rightarrow> nat \<Rightarrow> u8" where
  "shift_in n g b r j = (if j = 0 then 0 else r (j - 1)) XOR gmult (g ! j) (b XOR r (n - 1))"

lemma shift_in_value:
  assumes g: "generator n g" and n: "0 < n" and m: "m \<in> {1 .. n}"
  shows "value_at m n (shift_in n g b r) = gmult (alpha m) (value_at m n r) XOR gmult b (alpha (m * n))"
proof -
  obtain k where k: "n = Suc k" using n by (cases n) auto
  let ?b = "b XOR r k"
  have "value_at m n (shift_in n g b r) =
      xsum n (\<lambda>j. gmult (if j = 0 then 0 else r (j - 1)) (alpha (m * j))) XOR xsum n (\<lambda>j. gmult ?b (gmult (g ! j) (alpha (m * j))))"
    unfolding value_at_def xsum_xor [symmetric] by (rule xsum_cong) (simp add: shift_in_def k gmult_xor gmult_xor_left gmult_ac ac_simps)
  also have "xsum n (\<lambda>j. gmult (if j = 0 then 0 else r (j - 1)) (alpha (m * j))) = xsum k (\<lambda>j. gmult (r j) (alpha (m * Suc j)))"
    unfolding k xsum_first by simp
  also have "\<dots> = gmult (alpha m) (xsum k (\<lambda>j. gmult (r j) (alpha (m * j))))"
    unfolding xsum_gmult [symmetric] by (intro xsum_cong) (simp add: gmult_left_commute [of "alpha m"] gmult_alpha)
  also have "xsum n (\<lambda>j. gmult ?b (gmult (g ! j) (alpha (m * j)))) = gmult ?b (alpha (m * n))"
    using g m unfolding xsum_gmult by (simp add: generator_def value_at_def)
  also have "gmult (alpha m) (xsum k (\<lambda>j. gmult (r j) (alpha (m * j))))
      = gmult (alpha m) (value_at m n r) XOR gmult (r k) (alpha (m * n))"
    by (simp add: value_at_def k gmult_xor gmult_left_commute [of "alpha m"] gmult_alpha ac_simps)
  finally show ?thesis by (simp add: gmult_xor_left ac_simps)
qed

lemma encode_byte_ok:
  assumes n: "0 < num_parity_bytes c" "num_parity_bytes c \<le> 8" and g: "galois_poly c = Some g" "num_parity_bytes c \<le> length g"
  shows "\<exists>st'. encode_byte b (holding c st) = Some (holding c st') \<and>
    (\<forall>j < num_parity_bytes c. st' LFSR j = shift_in (num_parity_bytes c) g b (st LFSR) j)"
proof -
  let ?n = "num_parity_bytes c"
  let ?h = "shift_in ?n g b (st LFSR)"
  have size: "array_size LFSR = 9" by (simp add: array_size_def MAXIMUM_IMPLEMENTED_PARITY_BYTES_def)
  have "0 < length g" using n g(2) by linarith
  then have g0: "rd g 0 = Some (g ! 0)" by simp
  have "for_each (rev [1 ..< ?n]) (\<lambda>j s. Option.bind (do { v \<leftarrow> get (LFSR, 0) (j - 1) s; g \<leftarrow> rd g j; Some (v XOR gmult g (b XOR st LFSR (?n - 1))) })
      (\<lambda>v. put (LFSR, 0) j v s)) (holding c st) = Some (holding c (fill (LFSR, 0) {1 ..< ?n} ?h st))"
    using n g(2) size by (intro fill_descending) (auto simp: shift_in_def)
  then have "encode_byte b (holding c st) = Some (holding c ((fill (LFSR, 0) {1 ..< ?n} ?h st)(LFSR := (fill (LFSR, 0) {1 ..< ?n} ?h st LFSR)(0 := ?h 0))))"
    using n g size g0 by (simp add: encode_byte_def shift_in_def Let_def)
  moreover have "((fill (LFSR, 0) {1 ..< ?n} ?h st)(LFSR := (fill (LFSR, 0) {1 ..< ?n} ?h st LFSR)(0 := ?h 0))) LFSR j = ?h j" if "j < ?n" for j
    using that by simp
  ultimately show ?thesis by blast
qed

text \<open>The whole message.\<close>

lemma encode_loop:
  assumes n: "0 < num_parity_bytes c" "num_parity_bytes c \<le> 8" and g: "galois_poly c = Some g" "generator (num_parity_bytes c) g"
    and l: "len \<le> length src" and z: "\<forall>j < num_parity_bytes c. st LFSR j = 0"
  shows "\<exists>st'. for_each [0 ..< len] (\<lambda>i s. do { b \<leftarrow> rd src i; encode_byte b s }) (holding c st) = Some (holding c st') \<and>
    (\<forall>m \<in> {1 .. num_parity_bytes c}. value_at m (num_parity_bytes c) (st' LFSR) =
      gmult (horner m (take len src) 0) (alpha (m * num_parity_bytes c)))"
proof -
  let ?n = "num_parity_bytes c"
  let ?P = "\<lambda>k s. \<exists>st'. s = holding c st' \<and>
    (\<forall>m \<in> {1 .. ?n}. value_at m ?n (st' LFSR) = gmult (horner m (take k src) 0) (alpha (m * ?n)))"
  have "\<exists>t. for_each [0 ..< len] (\<lambda>i s. do { b \<leftarrow> rd src i; encode_byte b s }) (holding c st) = Some t \<and> ?P (length [0 ..< len]) t"
  proof (rule for_each_inv)
    show "?P 0 (holding c st)" using z by (intro exI [of _ st]) (simp add: value_at_def xsum_zero)
    fix k t assume k: "k < length [0 ..< len]" and "?P k t"
    then obtain st1 where t: "t = holding c st1"
      "\<And>m. m \<in> {1 .. ?n} \<Longrightarrow> value_at m ?n (st1 LFSR) = gmult (horner m (take k src) 0) (alpha (m * ?n))" by blast
    have gl: "?n \<le> length g" using g(2) by (simp add: generator_def)
    from encode_byte_ok [OF n g(1) gl, of "src ! k" st1] obtain st2 where e: "encode_byte (src ! k) (holding c st1) = Some (holding c st2)"
      "\<And>j. j < ?n \<Longrightarrow> st2 LFSR j = shift_in ?n g (src ! k) (st1 LFSR) j" by blast
    have "value_at m ?n (st2 LFSR) = gmult (horner m (take (Suc k) src) 0) (alpha (m * ?n))" if m: "m \<in> {1 .. ?n}" for m
    proof -
      have "value_at m ?n (st2 LFSR) = value_at m ?n (shift_in ?n g (src ! k) (st1 LFSR))"
        unfolding value_at_def using e(2) by (intro xsum_cong) simp
      then show ?thesis using k l shift_in_value [OF g(2) n(1) m] t(2) [OF m]
        by (simp add: take_Suc_conv_app_nth gmult_xor_left gmult_assoc ac_simps)
    qed
    then show "\<exists>t'. Option.bind (rd src ([0 ..< len] ! k)) (\<lambda>b. encode_byte b t) = Some t' \<and> ?P (Suc k) t'"
      using k l e(1) t(1) by auto
  qed
  then show ?thesis by auto
qed

text \<open>The result: a code word has no syndromes.\<close>

lemma encode_word:
  assumes n: "0 < num_parity_bytes c" "num_parity_bytes c \<le> 8" and g: "galois_poly c = Some g" "generator (num_parity_bytes c) g"
    and l: "unat len \<le> length src" "num_parity_bytes c \<le> length parity"
  shows "\<exists>p st'. fec_encode src len parity (holding c st) = Some (p @ drop (num_parity_bytes c) parity, holding c st') \<and>
    length p = num_parity_bytes c \<and> (\<forall>m \<in> {1 .. num_parity_bytes c}. horner m (take (unat len) src @ p) 0 = 0)"
proof -
  let ?n = "num_parity_bytes c"
  have size: "array_size LFSR = 9" "array_size Global_parity_bytes = 8"
    by (simp_all add: array_size_def MAXIMUM_IMPLEMENTED_PARITY_BYTES_def)
  let ?st0 = "fill (LFSR, 0) (set [0 ..< ?n + 1]) (\<lambda>_. 0) st"
  have z: "for_each [0 ..< ?n + 1] (\<lambda>i. put (LFSR, 0) i 0) (holding c st) = Some (holding c ?st0)"
    using n size by (intro fill_value [where h = "\<lambda>_. 0"]) auto
  have "\<forall>j < ?n. ?st0 LFSR j = 0" by simp
  from encode_loop [where st = ?st0, OF n g l(1) this] obtain st1 where e: "for_each [0 ..< unat len] (\<lambda>i s. do { b \<leftarrow> rd src i; encode_byte b s }) (holding c ?st0)
      = Some (holding c st1)" and v: "\<And>m. m \<in> {1 .. ?n} \<Longrightarrow> value_at m ?n (st1 LFSR) = gmult (horner m (take (unat len) src) 0) (alpha (m * ?n))" by blast
  let ?st2 = "fill (Global_parity_bytes, 0) {..<?n} (st1 LFSR) st1"
  have f: "for_each [0 ..< ?n] (\<lambda>i s. do { v \<leftarrow> get (LFSR, 0) i s; put (Global_parity_bytes, 0) i v s }) (holding c st1) = Some (holding c ?st2)"
    using n size by (intro fill_ascending) simp_all
  let ?p = "map (\<lambda>i. st1 LFSR (?n - 1 - i)) [0 ..< ?n]"
  have "\<exists>q. for_each [0 ..< ?n] (\<lambda>i parity. do { v \<leftarrow> get (Global_parity_bytes, 0) (?n - 1 - i) (holding c ?st2); wr parity i v }) parity = Some q \<and>
      q = take (length [0 ..< ?n]) ?p @ drop (length [0 ..< ?n]) parity"
  proof (rule for_each_inv [where P = "\<lambda>k q. q = take k ?p @ drop k parity"])
    fix k q assume k: "k < length [0 ..< ?n]" and q: "q = take k ?p @ drop k parity"
    have "?n - 1 - k < ?n" using n by simp
    moreover have "wr q k (st1 LFSR (?n - 1 - k)) = Some (take (Suc k) ?p @ drop (Suc k) parity)"
      using k l(2) unfolding q by (simp add: wr_def list_update_append take_map take_Suc_conv_app_nth Cons_nth_drop_Suc [symmetric])
    ultimately show "\<exists>t'. Option.bind (get (Global_parity_bytes, 0) (?n - 1 - [0 ..< ?n] ! k) (holding c ?st2)) (\<lambda>v. wr q ([0 ..< ?n] ! k) v) = Some t' \<and>
        t' = take (Suc k) ?p @ drop (Suc k) parity"
      using k n size by simp
  qed simp
  then have b: "build_codeword parity (holding c ?st2) = Some (?p @ drop ?n parity)" by (simp add: build_codeword_def)
  have "horner m (take (unat len) src @ ?p) 0 = 0" if m: "m \<in> {1 .. ?n}" for m
  proof -
    have "horner m (take (unat len) src @ ?p) 0 = gmult (alpha (m * ?n)) (horner m (take (unat len) src) 0) XOR horner m ?p 0"
      using horner_start [of m ?p "horner m (take (unat len) src) 0"] by (simp add: horner_append)
    then show ?thesis unfolding horner_reversed v [OF m] by (simp add: gmult_commute)
  qed
  moreover have "fec_encode src len parity (holding c st) = Some (?p @ drop ?n parity, holding c ?st2)"
    using z e f b by (simp add: fec_encode_def)
  ultimately show ?thesis by (intro exI [of _ ?p] exI [of _ ?st2]) simp
qed

section \<open>The syndromes\<close>

lemma syndrome_ok:
  assumes "len \<le> length src" and "n \<le> length parity" and "j < 255"
  shows "syndrome j src len parity n = Some (horner (j + 1) (take len src @ take n parity) 0)"
proof -
  have run: "for_each [0 ..< k] (\<lambda>i sum. do { b \<leftarrow> rd xs i; Some (b XOR gmult (galois_exp ! (j + 1)) sum) }) z = Some (horner (j + 1) (take k xs) z)"
    if "k \<le> length xs" for k z and xs :: "u8 list"
    using that assms(3) by (induction k) (simp_all add: for_each_append take_Suc_conv_app_nth galois_exp_alpha)
  show ?thesis using run [OF assms(1)] run [OF assms(2)] by (simp add: syndrome_def horner_append)
qed

end
