(* ===== verification/Fec_Correct.thy ===== *)
theory Fec_Correct
  imports Fec_Encode
begin

text \<open>
  What the loops over the polynomials do to the arrays, and one round of the Berlekamp-Massey algorithm.
\<close>

lemmas sizes = array_size_def MAXIMUM_IMPLEMENTED_PARITY_BYTES_def

section \<open>Polynomials in the arrays\<close>

lemma zero_poly_ok:
  "o1 + 2 * num_parity_bytes c \<le> array_size a \<Longrightarrow>
   zero_poly (a, o1) (holding c st) = Some (holding c (fill (a, o1) {..<2 * num_parity_bytes c} (\<lambda>_. 0) st))"
  using fill_value [of "[0 ..< num_parity_bytes c * 2]" o1 a "\<lambda>_. 0" c st]
  by (simp add: zero_poly_def mult.commute atLeast0LessThan)

lemma copy_poly_ok:
  assumes "o1 + 2 * num_parity_bytes c \<le> array_size a" and "o2 + 2 * num_parity_bytes c \<le> array_size b"
    and "a \<noteq> b \<or> o1 + 2 * num_parity_bytes c \<le> o2"
  shows "copy_poly (a, o1) (b, o2) (holding c st) =
    Some (holding c (fill (a, o1) {..<2 * num_parity_bytes c} (\<lambda>i. st b (o2 + i)) st))"
proof -
  have "for_each [0 ..< 2 * num_parity_bytes c] (\<lambda>i s. Option.bind (get (b, o2) i s) (\<lambda>v. put (a, o1) i v s)) (holding c st)
      = Some (holding c (fill (a, o1) {..<2 * num_parity_bytes c} (\<lambda>i. st b (o2 + i)) st))"
  proof (rule fill_ascending)
    fix i :: nat assume "i < 2 * num_parity_bytes c"
    then show "get (b, o2) i (holding c (fill (a, o1) {..<i} (\<lambda>i. st b (o2 + i)) st)) = Some (st b (o2 + i))"
      using assms by (cases "a = b") (auto simp: fill_def)
  qed (rule assms(1))
  then show ?thesis by (simp add: copy_poly_def mult.commute)
qed

text \<open>\<open>mul_z_poly\<close> shifts the coefficients up.\<close>

definition shifted :: "(nat \<Rightarrow> u8) \<Rightarrow> nat \<Rightarrow> u8" where
  "shifted f i = (if i = 0 then 0 else f (i - 1))"

lemma mul_z_poly_ok:
  assumes "0 < num_parity_bytes c" and "2 * num_parity_bytes c \<le> array_size a"
  shows "mul_z_poly (a, 0) (holding c st) = Some (holding c (fill (a, 0) {..<2 * num_parity_bytes c} (shifted (st a)) st))"
proof -
  let ?n = "2 * num_parity_bytes c"
  have "for_each (rev [1 ..< ?n]) (\<lambda>i s. Option.bind (get (a, 0) (i - 1) s) (\<lambda>v. put (a, 0) i v s)) (holding c st)
      = Some (holding c (fill (a, 0) {1 ..< ?n} (shifted (st a)) st))"
    using assms(2) by (intro fill_descending) (auto simp: shifted_def)
  moreover have "(fill (a, 0) {1 ..< ?n} (shifted (st a)) st)(a := (fill (a, 0) {1 ..< ?n} (shifted (st a)) st a)(0 := 0))
      = fill (a, 0) {..<?n} (shifted (st a)) st"
    using assms(1) by (auto simp: fill_def fun_eq_iff shifted_def)
  ultimately show ?thesis using assms by (simp add: mul_z_poly_def mult.commute)
qed

lemma discrepancy_ok:
  assumes "L \<le> n" and "L < 32" and "n < 8"
  shows "compute_discrepancy (Tmp1, 0) (Galois_syn, 0) L n (holding c st) =
    Some (xsum (Suc L) (\<lambda>i. gmult (st Tmp1 i) (st Galois_syn (n - i))))"
proof -
  have "for_each [0 ..< k] (\<lambda>i sum. do {
       a \<leftarrow> get (Tmp1, 0) i (holding c st);
       b \<leftarrow> (if n < i then None else get (Galois_syn, 0) (n - i) (holding c st));
       Some (sum XOR gmult a b) }) 0 = Some (xsum k (\<lambda>i. gmult (st Tmp1 i) (st Galois_syn (n - i))))" if "k \<le> Suc L" for k
    using that assms by (induction k) (simp_all add: for_each_append sizes)
  from this [of "Suc L"] show ?thesis by (simp add: compute_discrepancy_def del: upt_Suc)
qed

section \<open>The Berlekamp-Massey algorithm\<close>

text \<open>One round, on the polynomials \<open>psi\<close> and \<open>D\<close>; nothing else is written.\<close>

definition others :: "cells \<Rightarrow> cells \<Rightarrow> bool" where
  "others st st' \<longleftrightarrow> (\<forall>a. a \<noteq> Tmp1 \<longrightarrow> a \<noteq> Product \<longrightarrow> st' a = st a)"

lemma berk_round_ok:
  fixes st :: cells
  assumes n: "0 < num_parity_bytes c" "num_parity_bytes c \<le> 8" and k: "berk_L b \<le> k" "k < 8"
  defines "N \<equiv> 2 * num_parity_bytes c"
    and "d \<equiv> xsum (Suc (berk_L b)) (\<lambda>i. gmult (st Tmp1 i) (st Galois_syn (k - i)))"
  shows "\<exists>st'. others st st' \<and>
    (if d = 0 then berk_round k (b, holding c st) = Some (b, holding c st') \<and>
        (\<forall>i < N. st' Tmp1 i = st Tmp1 i) \<and> (\<forall>i < N. st' Product i = shifted (st Product) i)
     else (\<forall>i < N. st' Tmp1 i = st Tmp1 i XOR gmult d (st Product i)) \<and>
       (if int (berk_L b) < int k - berk_k b
        then berk_round k (b, holding c st) = Some (\<lparr>berk_k = int k - int (berk_L b), berk_L = nat (int k - berk_k b)\<rparr>, holding c st') \<and>
          (\<forall>i < N. st' Product i = shifted (\<lambda>i. gmult (st Tmp1 i) (ginv d)) i)
        else berk_round k (b, holding c st) = Some (b, holding c st') \<and> (\<forall>i < N. st' Product i = shifted (st Product) i)))"
proof -
  have sz: "array_size Tmp1 = 32" "array_size Product = 32" by (simp_all add: sizes)
  have N: "N \<le> 16" "0 < N" "num_parity_bytes c * 2 = N" using n by (simp_all add: N_def)
  have disc: "compute_discrepancy (Tmp1, 0) (Galois_syn, 0) (berk_L b) k (holding c st) = Some d"
    unfolding d_def using k by (intro discrepancy_ok) simp_all
  have mz: "mul_z_poly (Product, 0) (holding c t) = Some (holding c (fill (Product, 0) {..<N} (shifted (t Product)) t))" for t
    unfolding N_def using n sz by (intro mul_z_poly_ok) simp_all
  show ?thesis
  proof (cases "d = 0")
    case True
    then have "berk_round k (b, holding c st) = Some (b, holding c (fill (Product, 0) {..<N} (shifted (st Product)) st))"
      by (simp add: berk_round_def disc mz Let_def)
    then show ?thesis using True by (intro exI [of _ "fill (Product, 0) {..<N} (shifted (st Product)) st"]) (simp add: others_def)
  next
    case False
    define st1 where "st1 = fill (Tmp1, N) {..<N} (\<lambda>i. st Tmp1 i XOR gmult d (st Product i)) st"
    have s1: "for_each [0 ..< N] (\<lambda>i s. do { v \<leftarrow> get (Tmp1, 0) i s; w \<leftarrow> get (Product, 0) i s; put (Tmp1, N) i (v XOR gmult d w) s })
        (holding c st) = Some (holding c st1)"
      unfolding st1_def using N sz
      fill_ascending [of N N Tmp1 "\<lambda>i s. do { v \<leftarrow> get (Tmp1, 0) i s; w \<leftarrow> get (Product, 0) i s; Some (v XOR gmult d w) }" c
        "\<lambda>i. st Tmp1 i XOR gmult d (st Product i)" st] by simp
    have t1: "st1 Tmp1 i = st Tmp1 i" "st1 Product = st Product" "st1 Tmp1 (N + i) = st Tmp1 i XOR gmult d (st Product i)"
      "others st st1" if "i < N" for i
      using that by (simp_all add: st1_def others_def)
    have copy: "for_each [0 ..< N] (\<lambda>i s. do { v \<leftarrow> get (Tmp1, N) i s; put (Tmp1, 0) i v s }) (holding c t)
        = Some (holding c (fill (Tmp1, 0) {..<N} (\<lambda>i. t Tmp1 (N + i)) t))" for t
    proof (rule fill_ascending)
      fix i assume "i < N"
      then show "get (Tmp1, N) i (holding c (fill (Tmp1, 0) {..<i} (\<lambda>i. t Tmp1 (N + i)) t)) = Some (t Tmp1 (N + i))"
        using N sz by simp
    qed (use N sz in simp)
    let ?st2 = "fill (Tmp1, 0) {..<N} (\<lambda>i. st1 Tmp1 (N + i)) st1"
    let ?st3 = "fill (Product, 0) {..<N} (shifted (st Product)) ?st2"
    let ?D = "\<lambda>i. gmult (st Tmp1 i) (ginv d)"
    let ?stD = "fill (Product, 0) {..<N} ?D st1"
    let ?st4 = "fill (Tmp1, 0) {..<N} (\<lambda>i. ?stD Tmp1 (N + i)) ?stD"
    let ?st5 = "fill (Product, 0) {..<N} (shifted (?st4 Product)) ?st4"
    have D: "for_each [0 ..< N] (\<lambda>i s. do { v \<leftarrow> get (Tmp1, 0) i s; put (Product, 0) i (gmult v (ginv d)) s }) (holding c st1)
        = Some (holding c ?stD)"
      using N sz t1(1) fill_ascending [of 0 N Product "\<lambda>i s. do { v \<leftarrow> get (Tmp1, 0) i s; Some (gmult v (ginv d)) }" c ?D st1] by simp
    have sP: "st1 Product = st Product" using t1(2) N by blast
    have D4: "shifted (?st4 Product) i = shifted ?D i" if "i < N" for i using that by (cases i) (simp_all add: shifted_def)
    show ?thesis
    proof (cases "int (berk_L b) < int k - berk_k b")
      case True
      have "berk_round k (b, holding c st) = Some (\<lparr>berk_k = int k - int (berk_L b), berk_L = nat (int k - berk_k b)\<rparr>, holding c ?st5)"
        using False True s1 D copy [of ?stD] mz [of ?st4] N(3) by (simp add: berk_round_def disc Let_def)
      then show ?thesis using True False t1 D4 N by (intro exI [of _ ?st5]) (simp add: others_def st1_def)
    next
      case c: False
      have "berk_round k (b, holding c st) = Some (b, holding c ?st3)"
        using False c s1 copy [of st1] mz [of ?st2] N(3) sP by (simp add: berk_round_def disc Let_def)
      then show ?thesis using False c t1 N by (intro exI [of _ ?st3]) (simp add: others_def st1_def)
    qed
  qed
qed

end
