(* ===== verification/Fec_Single.thy ===== *)
theory Fec_Single
  imports Fec_Correct
begin

text \<open>
  A single changed byte: what the Berlekamp-Massey algorithm, the search for the roots and the
  computation of the error value give for its syndromes.
\<close>

section \<open>The product of two polynomials\<close>

text \<open>\<open>mult_polys\<close> reads twice as many coefficients as there are parity bytes, also of the syndromes.\<close>

definition coeff :: "nat \<Rightarrow> (nat \<Rightarrow> u8) \<Rightarrow> (nat \<Rightarrow> u8) \<Rightarrow> nat \<Rightarrow> nat \<Rightarrow> u8" where
  "coeff N p q j i = (if i \<le> j \<and> j - i < N then gmult (q (j - i)) (p i) else 0)"

lemma mult_row_ok:
  fixes st :: cells
  assumes N: "N = 2 * num_parity_bytes c" "N \<le> 8" and i: "i < N"
  shows "\<exists>st'. others st st' \<and> (\<forall>j < 2 * N. st' Product j = st Product j XOR coeff N (st Lambda) (st Galois_syn) j i) \<and>
    (do {
       s \<leftarrow> for_each [N ..< 2 * N] (\<lambda>j. put (Tmp1, 0) j 0) (holding c st);
       s \<leftarrow> for_each [0 ..< N] (\<lambda>j s. do { a \<leftarrow> get (Galois_syn, 0) j s; b \<leftarrow> get (Lambda, 0) i s; put (Tmp1, 0) j (gmult a b) s }) s;
       s \<leftarrow> for_each (rev [i ..< 2 * N]) (\<lambda>j s. do { v \<leftarrow> get (Tmp1, 0) (j - i) s; put (Tmp1, 0) j v s }) s;
       s \<leftarrow> for_each [0 ..< i] (\<lambda>j. put (Tmp1, 0) j 0) s;
       for_each [0 ..< 2 * N] (\<lambda>j s. do { v \<leftarrow> get (Product, 0) j s; w \<leftarrow> get (Tmp1, 0) j s; put (Product, 0) j (v XOR w) s }) s })
    = Some (holding c st')"
proof -
  have sz: "array_size Tmp1 = 32" "array_size Product = 32" "array_size Lambda = 16" "array_size Galois_syn = 8" by (simp_all add: sizes)
  define s1 where "s1 = fill (Tmp1, 0) (set [N ..< 2 * N]) (\<lambda>_. 0) st"
  define s2 where "s2 = fill (Tmp1, 0) {..<N} (\<lambda>j. gmult (st Galois_syn j) (st Lambda i)) s1"
  define s3 where "s3 = fill (Tmp1, 0) {i ..< 2 * N} (\<lambda>j. s2 Tmp1 (j - i)) s2"
  define s4 where "s4 = fill (Tmp1, 0) (set [0 ..< i]) (\<lambda>_. 0) s3"
  define s5 where "s5 = fill (Product, 0) {..<2 * N} (\<lambda>j. st Product j XOR s4 Tmp1 j) s4"
  have 1: "for_each [N ..< 2 * N] (\<lambda>j. put (Tmp1, 0) j 0) (holding c st) = Some (holding c s1)"
    unfolding s1_def using N sz by (intro fill_value [where h = "\<lambda>_. 0"]) auto
  have 2: "for_each [0 ..< N] (\<lambda>j s. do { a \<leftarrow> get (Galois_syn, 0) j s; b \<leftarrow> get (Lambda, 0) i s; put (Tmp1, 0) j (gmult a b) s }) (holding c s1)
      = Some (holding c s2)"
    using fill_ascending [of 0 N Tmp1 "\<lambda>j s. do { a \<leftarrow> get (Galois_syn, 0) j s; b \<leftarrow> get (Lambda, 0) i s; Some (gmult a b) }" c
      "\<lambda>j. gmult (st Galois_syn j) (st Lambda i)" s1] N i sz by (simp add: s1_def s2_def)
  have 3: "for_each (rev [i ..< 2 * N]) (\<lambda>j s. do { v \<leftarrow> get (Tmp1, 0) (j - i) s; put (Tmp1, 0) j v s }) (holding c s2) = Some (holding c s3)"
    unfolding s3_def using N sz by (intro fill_descending) auto
  have 4: "for_each [0 ..< i] (\<lambda>j. put (Tmp1, 0) j 0) (holding c s3) = Some (holding c s4)"
    unfolding s4_def using N i sz by (intro fill_value [where h = "\<lambda>_. 0"]) auto
  have p4: "s4 Product = st Product" by (simp add: s4_def s3_def s2_def s1_def)
  have 5: "for_each [0 ..< 2 * N] (\<lambda>j s. do { v \<leftarrow> get (Product, 0) j s; w \<leftarrow> get (Tmp1, 0) j s; put (Product, 0) j (v XOR w) s }) (holding c s4)
      = Some (holding c s5)"
    using fill_ascending [of 0 "2 * N" Product "\<lambda>j s. do { v \<leftarrow> get (Product, 0) j s; w \<leftarrow> get (Tmp1, 0) j s; Some (v XOR w) }" c
      "\<lambda>j. st Product j XOR s4 Tmp1 j" s4] N sz by (simp add: s5_def p4)
  have "s4 Tmp1 j = coeff N (st Lambda) (st Galois_syn) j i" if "j < 2 * N" for j
    using that i by (auto simp: s4_def s3_def s2_def s1_def coeff_def)
  then show ?thesis using 1 2 3 4 5
    by (intro exI [of _ s5]) (simp add: s5_def others_def s4_def s3_def s2_def s1_def)
qed

lemma others_trans: "others s t \<Longrightarrow> others t u \<Longrightarrow> others s u"
  by (simp add: others_def)

lemma mult_polys_ok:
  fixes st :: cells
  assumes N: "N = 2 * num_parity_bytes c" "N \<le> 8"
  shows "\<exists>st'. mult_polys (Product, 0) (Lambda, 0) (Galois_syn, 0) (holding c st) = Some (holding c st') \<and> others st st' \<and>
    (\<forall>j < 2 * N. st' Product j = xsum N (coeff N (st Lambda) (st Galois_syn) j))"
proof -
  have sz: "array_size Product = 32" by (simp add: sizes)
  have h: "num_parity_bytes c * 2 = N" "num_parity_bytes c * 4 = 2 * N" using N by simp_all
  let ?st0 = "fill (Product, 0) (set [0 ..< 2 * N]) (\<lambda>_. 0) st"
  have z: "for_each [0 ..< 2 * N] (\<lambda>i. put (Product, 0) i 0) (holding c st) = Some (holding c ?st0)"
    using N sz by (intro fill_value [where h = "\<lambda>_. 0"]) auto
  let ?P = "\<lambda>k s. \<exists>st'. s = holding c st' \<and> others st st' \<and>
    (\<forall>j < 2 * N. st' Product j = xsum k (coeff N (st Lambda) (st Galois_syn) j))"
  have "\<exists>t. for_each [0 ..< N] (\<lambda>i s. do {
       s \<leftarrow> for_each [N ..< 2 * N] (\<lambda>j. put (Tmp1, 0) j 0) s;
       s \<leftarrow> for_each [0 ..< N] (\<lambda>j s. do { a \<leftarrow> get (Galois_syn, 0) j s; b \<leftarrow> get (Lambda, 0) i s; put (Tmp1, 0) j (gmult a b) s }) s;
       s \<leftarrow> for_each (rev [i ..< 2 * N]) (\<lambda>j s. do { v \<leftarrow> get (Tmp1, 0) (j - i) s; put (Tmp1, 0) j v s }) s;
       s \<leftarrow> for_each [0 ..< i] (\<lambda>j. put (Tmp1, 0) j 0) s;
       for_each [0 ..< 2 * N] (\<lambda>j s. do { v \<leftarrow> get (Product, 0) j s; w \<leftarrow> get (Tmp1, 0) j s; put (Product, 0) j (v XOR w) s }) s })
       (holding c ?st0) = Some t \<and> ?P (length [0 ..< N]) t"
  proof (rule for_each_inv)
    show "?P 0 (holding c ?st0)" by (intro exI [of _ ?st0]) (simp add: others_def)
    fix k t assume k: "k < length [0 ..< N]" and "?P k t"
    then obtain st1 where t: "t = holding c st1" "others st st1"
      "\<And>j. j < 2 * N \<Longrightarrow> st1 Product j = xsum k (coeff N (st Lambda) (st Galois_syn) j)" by blast
    have k': "k < N" "[0 ..< N] ! k = k" using k by simp_all
    from t(2) have o: "st1 Lambda = st Lambda" "st1 Galois_syn = st Galois_syn" by (simp_all add: others_def)
    from mult_row_ok [OF N k'(1), of st1] obtain st2 where r: "others st1 st2"
      "\<And>j. j < 2 * N \<Longrightarrow> st2 Product j = st1 Product j XOR coeff N (st Lambda) (st Galois_syn) j k"
      and e: "do {
       s \<leftarrow> for_each [N ..< 2 * N] (\<lambda>j. put (Tmp1, 0) j 0) (holding c st1);
       s \<leftarrow> for_each [0 ..< N] (\<lambda>j s. do { a \<leftarrow> get (Galois_syn, 0) j s; b \<leftarrow> get (Lambda, 0) k s; put (Tmp1, 0) j (gmult a b) s }) s;
       s \<leftarrow> for_each (rev [k ..< 2 * N]) (\<lambda>j s. do { v \<leftarrow> get (Tmp1, 0) (j - k) s; put (Tmp1, 0) j v s }) s;
       s \<leftarrow> for_each [0 ..< k] (\<lambda>j. put (Tmp1, 0) j 0) s;
       for_each [0 ..< 2 * N] (\<lambda>j s. do { v \<leftarrow> get (Product, 0) j s; w \<leftarrow> get (Tmp1, 0) j s; put (Product, 0) j (v XOR w) s }) s }
      = Some (holding c st2)" unfolding o by blast
    have "?P (Suc k) (holding c st2)"
      using r t others_trans [OF t(2) r(1)] by (intro exI [of _ st2]) simp
    then show "\<exists>t'. do {
       s \<leftarrow> for_each [N ..< 2 * N] (\<lambda>j. put (Tmp1, 0) j 0) t;
       s \<leftarrow> for_each [0 ..< N] (\<lambda>j s. do { a \<leftarrow> get (Galois_syn, 0) j s; b \<leftarrow> get (Lambda, 0) ([0 ..< N] ! k) s; put (Tmp1, 0) j (gmult a b) s }) s;
       s \<leftarrow> for_each (rev [[0 ..< N] ! k ..< 2 * N]) (\<lambda>j s. do { v \<leftarrow> get (Tmp1, 0) (j - [0 ..< N] ! k) s; put (Tmp1, 0) j v s }) s;
       s \<leftarrow> for_each [0 ..< [0 ..< N] ! k] (\<lambda>j. put (Tmp1, 0) j 0) s;
       for_each [0 ..< 2 * N] (\<lambda>j s. do { v \<leftarrow> get (Product, 0) j s; w \<leftarrow> get (Tmp1, 0) j s; put (Product, 0) j (v XOR w) s }) s }
       = Some t' \<and> ?P (Suc k) t'" unfolding k' t(1) e by blast
  qed
  then show ?thesis by (auto simp: mult_polys_def h z Let_def)
qed

end
