(* ===== verification/Fec_Locate.thy ===== *)
theory Fec_Locate
  imports Fec_Single
begin

text \<open>
  The Berlekamp-Massey algorithm on the syndromes of a single changed byte finds the locator of its place.
\<close>

section \<open>The locator polynomial\<close>

text \<open>The syndromes of an error \<open>e\<close> at the place \<open>p\<close> from the end, and the locator it has.\<close>

definition single_syndromes :: "nat \<Rightarrow> u8 \<Rightarrow> nat \<Rightarrow> cells \<Rightarrow> bool" where
  "single_syndromes n e p st \<longleftrightarrow> (\<forall>j < n. st Galois_syn j = gmult e (alpha (Suc j * p)))"

definition locator :: "nat \<Rightarrow> nat \<Rightarrow> u8" where
  "locator p i = (if i = 0 then 1 else if i = 1 then alpha p else 0)"

lemma others_syn: "others st st' \<Longrightarrow> single_syndromes n e p st' = single_syndromes n e p st"
  by (simp add: others_def single_syndromes_def)

lemma others_refl [simp]: "others st st"
  by (simp add: others_def)

text \<open>The first two rounds find the locator; in the others the discrepancy is zero.\<close>

lemma berk_first:
  fixes st :: cells
  assumes n: "2 \<le> num_parity_bytes c" "num_parity_bytes c \<le> 8" and e: "e \<noteq> 0" and syn: "single_syndromes (num_parity_bytes c) e p st"
    and psi: "\<And>i. i < 2 * num_parity_bytes c \<Longrightarrow> st Tmp1 i = (if i = 0 then 1 else 0)"
    and D: "\<And>i. i < 2 * num_parity_bytes c \<Longrightarrow> st Product i = (if i = 1 then 1 else 0)"
  shows "\<exists>st'. berk_round 0 (\<lparr>berk_k = -1, berk_L = 0\<rparr>, holding c st) = Some (\<lparr>berk_k = 0, berk_L = 1\<rparr>, holding c st') \<and> others st st' \<and>
    (\<forall>i < 2 * num_parity_bytes c. st' Tmp1 i = (if i = 0 then 1 else if i = 1 then gmult e (alpha p) else 0) \<and>
      st' Product i = (if i = 1 then ginv (gmult e (alpha p)) else 0))"
proof -
  let ?b = "\<lparr>berk_k = -1, berk_L = 0\<rparr>"
  have s0: "st Galois_syn 0 = gmult e (alpha p)" using syn n by (simp add: single_syndromes_def)
  have d: "xsum (Suc (berk_L ?b)) (\<lambda>i. gmult (st Tmp1 i) (st Galois_syn (0 - i))) = gmult e (alpha p)"
    using n psi [of 0] by (simp add: s0)
  have "gmult e (alpha p) \<noteq> 0" using e by simp
  then obtain st' where st': "others st st'"
      "\<And>i. i < 2 * num_parity_bytes c \<Longrightarrow> st' Tmp1 i = st Tmp1 i XOR gmult (gmult e (alpha p)) (st Product i)"
      "berk_round 0 (?b, holding c st) = Some (\<lparr>berk_k = 0, berk_L = 1\<rparr>, holding c st')"
      "\<And>i. i < 2 * num_parity_bytes c \<Longrightarrow> st' Product i = shifted (\<lambda>i. gmult (st Tmp1 i) (ginv (gmult e (alpha p)))) i"
    using berk_round_ok [of c ?b 0 st] n unfolding d by auto
  have "st' Tmp1 i = (if i = 0 then 1 else if i = 1 then gmult e (alpha p) else 0) \<and>
      st' Product i = (if i = 1 then ginv (gmult e (alpha p)) else 0)" if i: "i < 2 * num_parity_bytes c" for i
    using st'(2) [OF i] st'(4) [OF i] psi [OF i] D [OF i] psi [of "i - 1"] i by (cases i) (simp_all add: shifted_def)
  then show ?thesis using st'(1,3) by blast
qed

lemma berk_second:
  fixes st :: cells
  assumes n: "2 \<le> num_parity_bytes c" "num_parity_bytes c \<le> 8" and e: "e \<noteq> 0" and syn: "single_syndromes (num_parity_bytes c) e p st"
    and psi: "\<And>i. i < 2 * num_parity_bytes c \<Longrightarrow> st Tmp1 i = (if i = 0 then 1 else if i = 1 then gmult e (alpha p) else 0)"
    and D: "\<And>i. i < 2 * num_parity_bytes c \<Longrightarrow> st Product i = (if i = 1 then ginv (gmult e (alpha p)) else 0)"
  shows "\<exists>st'. berk_round 1 (\<lparr>berk_k = 0, berk_L = 1\<rparr>, holding c st) = Some (\<lparr>berk_k = 0, berk_L = 1\<rparr>, holding c st') \<and> others st st' \<and>
    (\<forall>i < 2 * num_parity_bytes c. st' Tmp1 i = locator p i)"
proof -
  let ?b = "\<lparr>berk_k = 0, berk_L = 1\<rparr>"
  let ?s = "gmult e (alpha p)"
  have s01: "st Galois_syn 0 = ?s" "st Galois_syn 1 = gmult e (alpha (2 * p))"
    using syn n by (simp_all add: single_syndromes_def mult_2)
  define d where "d = gmult e (alpha (2 * p)) XOR gmult ?s ?s"
  have d: "xsum (Suc (berk_L ?b)) (\<lambda>i. gmult (st Tmp1 i) (st Galois_syn (1 - i))) = d"
    using n psi [of 0] psi [of 1] by (simp add: s01 s01(2) [unfolded One_nat_def] d_def)
  have es: "gmult e (alpha (2 * p)) = gmult ?s (alpha p)" by (simp add: gmult_assoc gmult_alpha mult_2)
  then have fac: "d = gmult ?s (alpha p XOR ?s)" by (simp add: d_def gmult_xor)
  have snz: "?s \<noteq> 0" using e by simp
  have q: "gmult d (ginv ?s) = alpha p XOR ?s"
  proof -
    have "gmult d (ginv ?s) = gmult (gmult (ginv ?s) ?s) (alpha p XOR ?s)" unfolding fac by (simp only: gmult_ac)
    then show ?thesis by (simp add: ginv_left [OF snz])
  qed
  show ?thesis
  proof (cases "d = 0")
    case True
    then have "alpha p XOR ?s = 0" using fac snz by simp
    then have "alpha p = ?s" by (metis word_bw_lcs(3) word_bw_same(3) xor.right_neutral xor.assoc)
    then show ?thesis using berk_round_ok [of c ?b 1 st] n psi unfolding d by (auto simp: True locator_def)
  next
    case False
    then obtain st' where st': "others st st'"
      "\<And>i. i < 2 * num_parity_bytes c \<Longrightarrow> st' Tmp1 i = st Tmp1 i XOR gmult d (st Product i)"
      "berk_round 1 (?b, holding c st) = Some (?b, holding c st')"
      using berk_round_ok [of c ?b 1 st] n unfolding d by auto
    have "st' Tmp1 i = locator p i" if i: "i < 2 * num_parity_bytes c" for i
      using st'(2) [OF i] psi [OF i] D [OF i] q by (auto simp: locator_def xor.left_commute)
    then show ?thesis using st'(1,3) by blast
  qed
qed

lemma berk_later:
  fixes st :: cells
  assumes n: "2 \<le> num_parity_bytes c" "num_parity_bytes c \<le> 8" and syn: "single_syndromes (num_parity_bytes c) e p st"
    and psi: "\<And>i. i < 2 * num_parity_bytes c \<Longrightarrow> st Tmp1 i = locator p i"
    and k: "2 \<le> k" "k < num_parity_bytes c"
  shows "\<exists>st'. berk_round k (\<lparr>berk_k = 0, berk_L = 1\<rparr>, holding c st) = Some (\<lparr>berk_k = 0, berk_L = 1\<rparr>, holding c st') \<and> others st st' \<and>
    (\<forall>i < 2 * num_parity_bytes c. st' Tmp1 i = locator p i)"
proof -
  let ?b = "\<lparr>berk_k = 0, berk_L = 1\<rparr>"
  have "st Galois_syn k = gmult e (alpha (Suc k * p))" "st Galois_syn (k - 1) = gmult e (alpha (k * p))"
    using k spec [OF syn [unfolded single_syndromes_def], of k] spec [OF syn [unfolded single_syndromes_def], of "k - 1"] by simp_all
  moreover have "gmult (alpha p) (gmult e (alpha (k * p))) = gmult e (alpha (Suc k * p))"
    by (simp add: gmult_left_commute [of "alpha p"] gmult_alpha)
  ultimately have d: "xsum (Suc (berk_L ?b)) (\<lambda>i. gmult (st Tmp1 i) (st Galois_syn (k - i))) = 0"
    using n psi [of 0] psi [of 1] by (simp add: locator_def)
  show ?thesis using berk_round_ok [of c ?b k st] n k psi unfolding d by auto
qed

text \<open>All rounds.\<close>

lemma berk_rounds:
  fixes st :: cells
  assumes n: "2 \<le> num_parity_bytes c" "num_parity_bytes c \<le> 8" and e: "e \<noteq> 0" and syn: "single_syndromes (num_parity_bytes c) e p st"
    and psi: "\<And>i. i < 2 * num_parity_bytes c \<Longrightarrow> st Tmp1 i = (if i = 0 then 1 else 0)"
    and D: "\<And>i. i < 2 * num_parity_bytes c \<Longrightarrow> st Product i = (if i = 1 then 1 else 0)"
  shows "\<exists>st'. for_each [0 ..< num_parity_bytes c] berk_round (\<lparr>berk_k = -1, berk_L = 0\<rparr>, holding c st)
      = Some (\<lparr>berk_k = 0, berk_L = 1\<rparr>, holding c st') \<and> others st st' \<and> (\<forall>i < 2 * num_parity_bytes c. st' Tmp1 i = locator p i)"
proof -
  let ?n = "num_parity_bytes c"
  let ?b = "\<lparr>berk_k = 0, berk_L = 1\<rparr>"
  from berk_first [OF n e syn psi D] obtain st1 where r1: "berk_round 0 (\<lparr>berk_k = -1, berk_L = 0\<rparr>, holding c st) = Some (?b, holding c st1)"
    "others st st1" and f: "\<And>i. i < 2 * ?n \<Longrightarrow> st1 Tmp1 i = (if i = 0 then 1 else if i = 1 then gmult e (alpha p) else 0)"
      "\<And>i. i < 2 * ?n \<Longrightarrow> st1 Product i = (if i = 1 then ginv (gmult e (alpha p)) else 0)" by blast
  have syn1: "single_syndromes ?n e p st1" using syn others_syn [OF r1(2)] by simp
  from berk_second [OF n e syn1 f] obtain st2 where r2: "berk_round 1 (?b, holding c st1) = Some (?b, holding c st2)"
    "others st1 st2" "\<And>i. i < 2 * ?n \<Longrightarrow> st2 Tmp1 i = locator p i" by blast
  have o2: "others st st2" using others_trans r1(2) r2(2) by blast
  let ?P = "\<lambda>k bs. \<exists>st'. bs = (?b, holding c st') \<and> others st st' \<and> (\<forall>i < 2 * ?n. st' Tmp1 i = locator p i)"
  have "\<exists>t. for_each [2 ..< ?n] berk_round (?b, holding c st2) = Some t \<and> ?P (length [2 ..< ?n]) t"
  proof (rule for_each_inv)
    show "?P 0 (?b, holding c st2)" using o2 r2(3) by blast
    fix k t assume k: "k < length [2 ..< ?n]" and "?P k t"
    then obtain st3 where t: "t = (?b, holding c st3)" "others st st3" "\<And>i. i < 2 * ?n \<Longrightarrow> st3 Tmp1 i = locator p i" by blast
    have "single_syndromes ?n e p st3" using syn others_syn [OF t(2)] by simp
    moreover have "2 \<le> [2 ..< ?n] ! k" "[2 ..< ?n] ! k < ?n" using k by simp_all
    ultimately obtain st4 where "berk_round ([2 ..< ?n] ! k) (?b, holding c st3) = Some (?b, holding c st4)" "others st3 st4"
      "\<forall>i < 2 * ?n. st4 Tmp1 i = locator p i" using berk_later [where st = st3, OF n _ t(3)] by blast
    then show "\<exists>t'. berk_round ([2 ..< ?n] ! k) t = Some t' \<and> ?P (Suc k) t'" using t(1,2) others_trans by blast
  qed
  moreover have "[0 ..< ?n] = 0 # 1 # [2 ..< ?n]" using n by (simp add: upt_conv_Cons numeral_2_eq_2)
  ultimately show ?thesis using r1(1) r2(1) by auto
qed

end
