(* ===== verification/Fec_Decode.thy ===== *)
theory Fec_Decode
  imports Fec_Locate
begin

text \<open>
  From the locator to the correction: the evaluator, the only root, the error value, the repaired byte.
\<close>

section \<open>The whole algorithm\<close>

text \<open>What the algorithm leaves: the locator, and the first syndrome as the evaluator.\<close>

definition located :: "nat \<Rightarrow> u8 \<Rightarrow> nat \<Rightarrow> cells \<Rightarrow> bool" where
  "located n e p st \<longleftrightarrow> (\<forall>i < 2 * n. st Lambda i = locator p i \<and> st Omega i = (if i = 0 then gmult e (alpha p) else 0))"

lemma berk_start:
  fixes st :: cells
  assumes n: "0 < num_parity_bytes c" "num_parity_bytes c \<le> 8"
  shows "\<exists>st'. do {
     s \<leftarrow> init_gamma (Product, 2 * num_parity_bytes c) (holding c st);
     s \<leftarrow> copy_poly (Product, 0) (Product, 2 * num_parity_bytes c) s;
     s \<leftarrow> mul_z_poly (Product, 0) s;
     copy_poly (Tmp1, 0) (Product, 2 * num_parity_bytes c) s } = Some (holding c st') \<and> others st st' \<and>
    (\<forall>i < 2 * num_parity_bytes c. st' Tmp1 i = (if i = 0 then 1 else 0) \<and> st' Product i = (if i = 1 then 1 else 0))"
proof -
  let ?N = "2 * num_parity_bytes c"
  have sz: "array_size Tmp1 = 32" "array_size Product = 32" by (simp_all add: sizes)
  define s1 where "s1 = fill (Tmp1, 0) {..<?N} (\<lambda>_. 0) (fill (Product, ?N) {..<?N} (\<lambda>_. 0) st)"
  define s2 where "s2 = s1(Product := (s1 Product)(?N := 1))"
  define s3 where "s3 = fill (Product, 0) {..<?N} (\<lambda>i. s2 Product (?N + i)) s2"
  define s4 where "s4 = fill (Product, 0) {..<?N} (shifted (s3 Product)) s3"
  define s5 where "s5 = fill (Tmp1, 0) {..<?N} (\<lambda>i. s4 Product (?N + i)) s4"
  have "init_gamma (Product, ?N) (holding c st) = Some (holding c s2)"
    using n sz by (simp add: init_gamma_def zero_poly_ok s1_def s2_def)
  moreover have "copy_poly (Product, 0) (Product, ?N) (holding c s2) = Some (holding c s3)"
    unfolding s3_def using n sz by (intro copy_poly_ok) simp_all
  moreover have "mul_z_poly (Product, 0) (holding c s3) = Some (holding c s4)"
    unfolding s4_def using n sz by (intro mul_z_poly_ok) simp_all
  moreover have "copy_poly (Tmp1, 0) (Product, ?N) (holding c s4) = Some (holding c s5)"
    unfolding s5_def using n sz by (intro copy_poly_ok) simp_all
  moreover have g: "s2 Product (?N + i) = (if i = 0 then 1 else 0)" if "i < ?N" for i
    using that by (simp add: s2_def s1_def)
  moreover have "s4 Product (?N + i) = s2 Product (?N + i)" for i
    by (simp add: s4_def s3_def)
  moreover have "s5 Product i = (if i = 1 then 1 else 0)" if "i < ?N" for i
    using that g [of "i - 1"] by (cases i) (simp_all add: s5_def s4_def shifted_def s3_def)
  ultimately show ?thesis by (intro exI [of _ s5]) (simp add: others_def s5_def s4_def s3_def s2_def s1_def)
qed

lemma omega_product:
  assumes syn: "single_syndromes n e p st" and l: "\<And>i. i < 2 * n \<Longrightarrow> st Lambda i = locator p i" and j: "j < n"
  shows "xsum (2 * n) (coeff (2 * n) (st Lambda) (st Galois_syn) j) = (if j = 0 then gmult e (alpha p) else 0)"
proof -
  have "xsum (2 * n) (coeff (2 * n) (st Lambda) (st Galois_syn) j)
      = coeff (2 * n) (st Lambda) (st Galois_syn) j 0 XOR coeff (2 * n) (st Lambda) (st Galois_syn) j 1"
    using j l by (intro xsum_two) (simp_all add: coeff_def locator_def)
  moreover have "st Galois_syn j = gmult e (alpha (Suc j * p))" "0 < j \<Longrightarrow> st Galois_syn (j - 1) = gmult e (alpha (j * p))"
    using syn j spec [OF syn [unfolded single_syndromes_def], of "j - 1"] by (simp_all add: single_syndromes_def)
  moreover have "gmult (gmult e (alpha (j * p))) (alpha p) = gmult e (alpha (Suc j * p))"
    by (simp add: gmult_assoc gmult_alpha add.commute)
  ultimately show ?thesis using j l [of 0] l [of 1] by (cases j) (simp_all add: coeff_def locator_def)
qed

lemma berlekamp_ok:
  fixes st :: cells
  assumes n: "2 \<le> num_parity_bytes c" "num_parity_bytes c \<le> 4" and e: "e \<noteq> 0" and syn: "single_syndromes (num_parity_bytes c) e p st"
  shows "\<exists>st'. modified_berlekamp_massey (holding c st) = Some (holding c st') \<and> located (num_parity_bytes c) e p st'"
proof -
  let ?n = "num_parity_bytes c"
  have sz: "array_size Tmp1 = 32" "array_size Product = 32" "array_size Lambda = 16" "array_size Omega = 16" by (simp_all add: sizes)
  have n8: "0 < ?n" "?n \<le> 8" using n by simp_all
  from berk_start [where st = st, OF n8] obtain st1 where b: "do {
     s \<leftarrow> init_gamma (Product, 2 * ?n) (holding c st);
     s \<leftarrow> copy_poly (Product, 0) (Product, 2 * ?n) s;
     s \<leftarrow> mul_z_poly (Product, 0) s;
     copy_poly (Tmp1, 0) (Product, 2 * ?n) s } = Some (holding c st1)" and o1: "others st st1"
    and i1: "\<And>i. i < 2 * ?n \<Longrightarrow> st1 Tmp1 i = (if i = 0 then 1 else 0)" "\<And>i. i < 2 * ?n \<Longrightarrow> st1 Product i = (if i = 1 then 1 else 0)" by blast
  from b obtain t1 t2 t3 where b': "init_gamma (Product, 2 * ?n) (holding c st) = Some t1" "copy_poly (Product, 0) (Product, 2 * ?n) t1 = Some t2"
    "mul_z_poly (Product, 0) t2 = Some t3" "copy_poly (Tmp1, 0) (Product, 2 * ?n) t3 = Some (holding c st1)"
    by (auto simp: bind_eq_Some_conv)
  have syn1: "single_syndromes ?n e p st1" using syn others_syn [OF o1] by simp
  from berk_rounds [OF n(1) n8(2) e syn1 i1] obtain st2 where r: "for_each [0 ..< ?n] berk_round (\<lparr>berk_k = -1, berk_L = 0\<rparr>, holding c st1)
      = Some (\<lparr>berk_k = 0, berk_L = 1\<rparr>, holding c st2)" "others st1 st2" "\<And>i. i < 2 * ?n \<Longrightarrow> st2 Tmp1 i = locator p i" by blast
  let ?st3 = "fill (Lambda, 0) {..<2 * ?n} (st2 Tmp1) st2"
  have l: "for_each [0 ..< 2 * ?n] (\<lambda>i s. do { v \<leftarrow> get (Tmp1, 0) i s; put (Lambda, 0) i v s }) (holding c st2) = Some (holding c ?st3)"
    using n sz by (intro fill_ascending) simp_all
  have syn3: "single_syndromes ?n e p ?st3" using syn1 others_syn [OF r(2)] by (simp add: single_syndromes_def)
  have l3: "?st3 Lambda i = locator p i" if "i < 2 * ?n" for i using that r(3) by simp
  have N: "2 * ?n = 2 * num_parity_bytes c" "2 * ?n \<le> 8" using n by simp_all
  from mult_polys_ok [OF N, of ?st3] obtain st4 where m: "mult_polys (Product, 0) (Lambda, 0) (Galois_syn, 0) (holding c ?st3) = Some (holding c st4)"
    "others ?st3 st4" "\<And>j. j < 2 * (2 * ?n) \<Longrightarrow> st4 Product j = xsum (2 * ?n) (coeff (2 * ?n) (?st3 Lambda) (?st3 Galois_syn) j)" by blast
  let ?st5 = "fill (Omega, 0) {..<2 * ?n} (\<lambda>_. 0) st4"
  let ?st6 = "fill (Omega, 0) {..<?n} (st4 Product) ?st5"
  have z: "zero_poly (Omega, 0) (holding c st4) = Some (holding c ?st5)" using n sz by (intro zero_poly_ok) simp
  have w: "for_each [0 ..< ?n] (\<lambda>i s. do { v \<leftarrow> get (Product, 0) i s; put (Omega, 0) i v s }) (holding c ?st5) = Some (holding c ?st6)"
    using n sz by (intro fill_ascending) simp_all
  have P: "st4 Product j = (if j = 0 then gmult e (alpha p) else 0)" if "j < ?n" for j
  proof -
    have "j < 2 * (2 * ?n)" using that by simp
    from m(3) [OF this] omega_product [OF syn3 l3 that] show ?thesis by (rule trans)
  qed
  have "located ?n e p ?st6" using m(2) P l3 n by (simp add: located_def others_def)
  moreover have "modified_berlekamp_massey (holding c st) = Some (holding c ?st6)"
    using b' r(1) l m(1) z w by (simp add: modified_berlekamp_massey_def compute_modified_omega_def mult.commute Let_def)
  ultimately show ?thesis by blast
qed

section \<open>The search for the roots\<close>

lemma root_sum_ok:
  assumes n: "2 \<le> num_parity_bytes c" "num_parity_bytes c \<le> 4" and l: "located (num_parity_bytes c) e p st"
  shows "root_sum r (holding c st) = Some (1 XOR alpha (r + p))"
proof -
  let ?n = "num_parity_bytes c"
  have sz: "array_size Lambda = 16" by (simp add: sizes)
  have L: "st Lambda k = locator p k" if "k < Suc ?n" for k using l that n by (simp add: located_def)
  have g: "galois_exp ! (k * r mod 255) = alpha (k * r)" for k
    using galois_exp_alpha [of "k * r mod 255"] mod_less_divisor [of 255 "k * r"] by simp
  have "for_each [0 ..< Suc ?n] (\<lambda>k sum. Option.bind (do { l \<leftarrow> get (Lambda, 0) k (holding c st); Some (gmult (galois_exp ! ((k * r) mod 255)) l) })
      (\<lambda>v. Some (sum XOR v))) 0 = Some (xsum (Suc ?n) (\<lambda>k. gmult (alpha (k * r)) (locator p k)))"
    using n sz L g by (intro for_each_sum) simp
  moreover have "xsum (Suc ?n) (\<lambda>k. gmult (alpha (k * r)) (locator p k)) = 1 XOR alpha (r + p)"
    using n xsum_two [of "Suc ?n" "\<lambda>k. gmult (alpha (k * r)) (locator p k)"] by (simp add: locator_def gmult_alpha)
  ultimately show ?thesis by (simp add: root_sum_def bind_assoc del: upt_Suc)
qed

lemma xor_zero: "a XOR b = 0 \<longleftrightarrow> a = b" for a b :: u8
proof
  assume "a XOR b = 0"
  then have "a XOR (a XOR b) = a" by simp
  then show "a = b" by (simp add: xor.assoc [symmetric])
qed simp

lemma root_here:
  assumes "1 \<le> r" and "r \<le> 255" and "p < 255"
  shows "1 XOR alpha (r + p) = 0 \<longleftrightarrow> r = 255 - p"
proof -
  have "1 XOR alpha (r + p) = 0 \<longleftrightarrow> alpha (r + p) = alpha 0" by (auto simp: xor_zero)
  also have "\<dots> \<longleftrightarrow> 255 dvd r + p" using alpha_eq [of "r + p" 0] by (simp add: dvd_eq_mod_eq_0)
  also have "\<dots> \<longleftrightarrow> r + p = 255"
  proof
    assume "255 dvd r + p"
    then obtain q where "r + p = 255 * q" by (rule dvdE)
    moreover from this have "0 < q" "q < 2" using assms by (auto intro: Nat.gr0I)
    ultimately show "r + p = 255" by simp
  qed simp
  finally show ?thesis using assms by auto
qed

lemma find_roots_ok:
  fixes st :: cells
  assumes n: "2 \<le> num_parity_bytes c" "num_parity_bytes c \<le> 4" and l: "located (num_parity_bytes c) e p st" and p: "p < 255"
  shows "find_roots (holding c st) = Some (holding (c\<lparr>num_errors := 1\<rparr>) (st(Error_locations := (st Error_locations)(0 := of_nat p))))"
proof -
  let ?n = "num_parity_bytes c"
  have sz: "array_size Error_locations = 16" by (simp add: sizes)
  let ?st' = "st(Error_locations := (st Error_locations)(0 := of_nat p))"
  define now where "now k = (if 255 - p \<le> k then holding (c\<lparr>num_errors := 1\<rparr>) ?st' else holding (c\<lparr>num_errors := 0\<rparr>) st)" for k
  have l': "located ?n e p ?st'" using l by (simp add: located_def)
  have sum: "root_sum r (now k) = Some (1 XOR alpha (r + p))" for r k
    unfolding now_def using n root_sum_ok [of "c\<lparr>num_errors := 1\<rparr>" e p ?st' r] root_sum_ok [of "c\<lparr>num_errors := 0\<rparr>" e p st r] l l' by simp
  have "\<exists>t. for_each [1 ..< 256] (\<lambda>r (full, s).
       if full then Some (full, s) else do {
         sum \<leftarrow> root_sum r s;
         if sum = 0 then do {
           s \<leftarrow> put (Error_locations, 0) (num_errors s) (of_nat (255 - r)) s;
           let s = s\<lparr>num_errors := num_errors s + 1\<rparr>;
           Some (8 \<le> num_errors s, s) }
         else Some (False, s) }) (False, now 0) = Some t \<and> t = (False, now (length [1::nat ..< 256]))"
  proof (rule for_each_inv [where P = "\<lambda>k t. t = (False, now k)"])
    fix k t assume k: "k < length [1::nat ..< 256]" and t: "t = (False, now k)"
    have r: "[1::nat ..< 256] ! k = Suc k" "Suc k \<le> 255" using k by simp_all
    have "1 XOR alpha (Suc k + p) = 0 \<longleftrightarrow> Suc k = 255 - p" using r p by (intro root_here) simp_all
    moreover have "now (Suc k) = now k" if "Suc k \<noteq> 255 - p" using that by (auto simp: now_def)
    moreover have "now k = holding (c\<lparr>num_errors := 0\<rparr>) st" "now (Suc k) = holding (c\<lparr>num_errors := 1\<rparr>) ?st'" "255 - Suc k = p"
      if "Suc k = 255 - p" using that p by (simp_all add: now_def)
    ultimately show "\<exists>t'. (case t of (full, s) \<Rightarrow> if full then Some (full, s) else do {
         sum \<leftarrow> root_sum ([1 ..< 256] ! k) s;
         if sum = 0 then do {
           s \<leftarrow> put (Error_locations, 0) (num_errors s) (of_nat (255 - [1 ..< 256] ! k)) s;
           let s = s\<lparr>num_errors := num_errors s + 1\<rparr>;
           Some (8 \<le> num_errors s, s) }
         else Some (False, s) }) = Some t' \<and> t' = (False, now (Suc k))"
      unfolding r t using sz sum [of "Suc k" k] by (cases "Suc k = 255 - p") simp_all
  qed simp
  moreover have "now 0 = holding (c\<lparr>num_errors := 0\<rparr>) st" "now (length [1::nat ..< 256]) = holding (c\<lparr>num_errors := 1\<rparr>) ?st'"
    using p by (simp_all add: now_def)
  ultimately show ?thesis by (auto simp: find_roots_def simp del: length_upt)
qed

section \<open>The error value\<close>

lemma error_value_ok:
  assumes n: "2 \<le> num_parity_bytes c" "num_parity_bytes c \<le> 4" and l: "located (num_parity_bytes c) e p st"
  shows "error_value i (holding c st) = Some e"
proof -
  let ?N = "2 * num_parity_bytes c"
  have sz: "array_size Lambda = 16" "array_size Omega = 16" by (simp_all add: sizes)
  have L: "st Lambda k = locator p k" "st Omega k = (if k = 0 then gmult e (alpha p) else 0)" if "k < ?N" for k
    using l that by (simp_all add: located_def)
  let ?g = "\<lambda>j. galois_exp ! (((255 - i) * j) mod 255)"
  have g0: "galois_exp ! 0 = 1" using galois_exp_alpha [of 0] by simp
  have "for_each [0 ..< ?N] (\<lambda>j num. Option.bind (do { w \<leftarrow> get (Omega, 0) j (holding c st); Some (gmult w (?g j)) }) (\<lambda>v. Some (num XOR v))) 0
      = Some (xsum ?N (\<lambda>j. gmult (st Omega j) (?g j)))"
    using n sz by (intro for_each_sum) simp
  moreover have "xsum ?N (\<lambda>j. gmult (st Omega j) (?g j)) = gmult (st Omega 0) (?g 0)"
    using n L by (intro xsum_one) simp_all
  moreover have "gmult (st Omega 0) (?g 0) = gmult e (alpha p)" using n L(2) [of 0] by (simp add: g0)
  ultimately have num: "for_each [0 ..< ?N] (\<lambda>j num. do { w \<leftarrow> get (Omega, 0) j (holding c st); Some (num XOR gmult w (?g j)) }) 0
      = Some (gmult e (alpha p))" by (simp add: bind_assoc)
  have denom: "for_each (filter odd [1 ..< k]) (\<lambda>j denom. do {
       l \<leftarrow> get (Lambda, 0) j (holding c st); Some (denom XOR gmult l (?g (j - 1))) }) 0 = Some (alpha p)" if "2 \<le> k" "k \<le> ?N" for k
    using that
  proof (induction k rule: dec_induct)
    case base
    then show ?case using n sz L(1) [of 1] by (simp add: locator_def g0 numeral_2_eq_2)
  next
    case (step k)
    then show ?case using n sz L(1) [of k] by (simp add: for_each_append locator_def)
  qed
  have "gmult (gmult e (alpha p)) (ginv (alpha p)) = gmult e (gmult (ginv (alpha p)) (alpha p))" by (simp only: gmult_ac)
  then have "gmult (gmult e (alpha p)) (ginv (alpha p)) = e" by (simp add: ginv_left)
  then show ?thesis using num denom [of ?N] n by (simp add: error_value_def mult.commute Let_def)
qed

section \<open>The correction\<close>

lemma correct_one:
  assumes n: "2 \<le> num_parity_bytes c" "num_parity_bytes c \<le> 4" and e: "e \<noteq> 0"
    and syn: "single_syndromes (num_parity_bytes c) e (unat whole - 1 - k) st" and k: "k < unat whole" "k < length src"
  shows "\<exists>s'. correct_errors src whole (holding c st) = Some (FEC_CORRECTED_ERRORS, src[k := src ! k XOR e], s')"
proof -
  let ?n = "num_parity_bytes c"
  define p where "p = unat whole - 1 - k"
  have t: "unat whole < 256" by (rule order_less_le_trans [OF unsigned_less]) simp
  have p: "p < 255" "p < unat whole" "unat whole - p - 1 = k" unfolding p_def using k t by linarith+
  have up: "unat (of_nat p :: u8) = p" using p by (simp add: unat_of_nat)
  have le: "\<not> whole \<le> of_nat p" using p up by (simp add: word_le_nat_alt)
  from berlekamp_ok [OF n e syn [folded p_def]] obtain st1 where b: "modified_berlekamp_massey (holding c st) = Some (holding c st1)"
    "located ?n e p st1" by blast
  let ?st2 = "st1(Error_locations := (st1 Error_locations)(0 := of_nat p))"
  let ?c = "c\<lparr>num_errors := 1\<rparr>"
  have f: "find_roots (holding c st1) = Some (holding ?c ?st2)" by (rule find_roots_ok [OF n b(2) p(1)])
  have sz: "array_size Error_locations = 16" by (simp add: sizes)
  have "error_value i (holding ?c ?st2) = Some e" for i
    using n b(2) by (intro error_value_ok [where p = p]) (simp_all add: located_def)
  then have "correct_errors src whole (holding c st) = Some (FEC_CORRECTED_ERRORS, src[k := src ! k XOR e], holding ?c ?st2)"
    using b(1) f n sz p k le by (simp add: correct_errors_def up)
  then show ?thesis by blast
qed

end
