(* ===== verification/Galois_Init.thy ===== *)
theory Galois_Init
  imports Galois
begin

text \<open>
  The tables are computed at start-up where they are not kept in flash (\<open>galois_init\<close> of \<open>lib/fec.c\<close>): by a
  shift register of eight bits, each in a byte of its own, and a search for the logarithms.
\<close>

record shift_register =
  p1 :: u8  p2 :: u8  p3 :: u8  p4 :: u8  p5 :: u8  p6 :: u8  p7 :: u8  p8 :: u8

definition shift_register_init :: shift_register where
  "shift_register_init = \<lparr>p1 = 1, p2 = 0, p3 = 0, p4 = 0, p5 = 0, p6 = 0, p7 = 0, p8 = 0\<rparr>"

definition shift_register_step :: "shift_register \<Rightarrow> shift_register" where
  "shift_register_step p =
     (let pinit = p8 p
      in \<lparr>p1 = pinit, p2 = p1 p, p3 = p2 p XOR pinit, p4 = p3 p XOR pinit, p5 = p4 p XOR pinit, p6 = p5 p, p7 = p6 p, p8 = p7 p\<rparr>)"

definition shift_register_value :: "shift_register \<Rightarrow> u8" where
  "shift_register_value p = p1 p + p2 p * 2 + p3 p * 4 + p4 p * 8 + p5 p * 16 + p6 p * 32 + p7 p * 64 + p8 p * 128"

definition power_entry :: "nat \<Rightarrow> u8 list \<times> shift_register \<Rightarrow> u8 list \<times> shift_register" where
  "power_entry i = (\<lambda>(e, p).
     let p = shift_register_step p;
         e = e[i := shift_register_value p]
     in (e[i + 255 := e ! i], p))"

definition log_entry :: "u8 list \<Rightarrow> nat \<Rightarrow> u8 list \<Rightarrow> u8 list" where
  "log_entry e i l = (case find (\<lambda>z. e ! z = of_nat i) [0 ..< 256] of None \<Rightarrow> l | Some z \<Rightarrow> l[i := of_nat z])"

definition galois_init :: "u8 list \<times> u8 list \<Rightarrow> u8 list \<times> u8 list" where
  "galois_init = (\<lambda>(e, l).
     let e = e[0 := 1, 255 := 1];
         l = l[0 := 0];
         (e, _) = fold power_entry [1 ..< 256] (e, shift_register_init)
     in (e, fold (log_entry e) [1 ..< 256] l))"

section \<open>The powers\<close>

text \<open>A step of the register multiplies by the generator, as long as every byte of it is a bit.\<close>

definition register :: "u8 \<Rightarrow> shift_register" where
  "register a = (let b = (\<lambda>n. if bit a n then 1 else 0)
     in \<lparr>p1 = b 0, p2 = b 1, p3 = b 2, p4 = b 3, p5 = b 4, p6 = b 5, p7 = b 6, p8 = b 7\<rparr>)"

lemma bit_xtime: "n < 8 \<Longrightarrow> bit (xtime a) n = ((1 \<le> n \<and> bit a (n - 1)) \<noteq> (bit a 7 \<and> bit (0x1d :: u8) n))"
  unfolding xtime_def by (simp only: bit_xor_iff bit_push_bit_iff) auto

lemma register_step: "shift_register_step (register a) = register (xtime a)"
  by (simp add: shift_register_step_def register_def Let_def bit_xtime)

lemma byte_sum:
  fixes f :: "nat \<Rightarrow> u8"
  shows "horner_sum f 2 [0, 1, 2, 3, 4, 5, 6, 7] =
    f 0 + f 1 * 2 + f 2 * 4 + f 3 * 8 + f 4 * 16 + f 5 * 32 + f 6 * 64 + f 7 * 128"
  by (simp add: algebra_simps)

lemma register_value: "shift_register_value (register a) = a"
proof -
  have "[0 ..< 8] = [0, 1, 2, 3, 4, 5, 6, 7]" by (simp add: upt_rec_numeral upt_rec)
  then have "a = horner_sum (\<lambda>n. of_bool (bit a n)) 2 [0, 1, 2, 3, 4, 5, 6, 7]"
    using horner_sum_bit_eq_take_bit [of a 8] by (simp add: take_bit_word_eq_self horner_sum_eq_sum_funpow comp_def)
  then show ?thesis unfolding byte_sum
    by (simp only: shift_register_value_def register_def Let_def of_bool_def shift_register.select_convs)
qed

lemma register_init: "shift_register_init = register (alpha 0)"
  by (simp add: register_def shift_register_init_def Let_def)

lemma power_entry_step:
  "power_entry i (e, register (alpha k)) = (e[i := alpha (Suc k), i + 255 := (e[i := alpha (Suc k)]) ! i], register (alpha (Suc k)))"
  by (simp add: power_entry_def register_step register_value alpha_Suc Let_def)

lemma powers_loop:
  assumes "n < 256"
  shows "fold power_entry [1 ..< Suc n] ((replicate 512 0)[0 := 1, 255 := 1], shift_register_init) =
    (map (\<lambda>i. if i \<le> n \<or> i = 255 \<or> 255 < i \<and> i \<le> n + 255 then alpha i else 0) [0 ..< 512], register (alpha n))"
  using assms
proof (induction n)
  case 0
  have "(replicate 512 0)[0 := 1, 255 := 1] = map (\<lambda>i. if i \<le> 0 \<or> i = 255 \<or> 255 < i \<and> i \<le> 0 + 255 then alpha i else 0) [0 ..< 512]"
    using alpha_mod [of 255] by (intro nth_equalityI) (auto simp: nth_list_update)
  then show ?case by (simp add: register_init del: upt_rec_numeral)
next
  case (Suc n)
  let ?e = "\<lambda>n. map (\<lambda>i. if i \<le> n \<or> i = 255 \<or> 255 < i \<and> i \<le> n + 255 then alpha i else 0) [0 ..< 512]"
  have "alpha (Suc n + 255) = alpha (Suc n)" by (rule alpha_cong) (rule mod_add_self2)
  then have "(?e n)[Suc n := alpha (Suc n), Suc n + 255 := alpha (Suc n)] = ?e (Suc n)"
    using Suc.prems by (intro nth_equalityI) (auto simp: nth_list_update)
  moreover have "[1 ..< Suc (Suc n)] = [1 ..< Suc n] @ [Suc n]" by simp
  ultimately show ?case using Suc by (simp add: power_entry_step del: upt_rec_numeral upt_Suc)
qed

text \<open>The entry behind the second period is never written.\<close>

lemma table_end: "galois_exp ! 510 = 1" "galois_exp ! 511 = 0"
  by (simp_all add: galois_exp_def)

lemma powers_ok: "fst (fold power_entry [1 ..< 256] ((replicate 512 0)[0 := 1, 255 := 1], shift_register_init)) = galois_exp"
proof -
  let ?f = "\<lambda>i. if i \<le> 255 \<or> i = 255 \<or> 255 < i \<and> i \<le> 255 + 255 then alpha i else 0"
  have "alpha 510 = 1" using alpha_mod [of 510] by simp
  then have "?f i = galois_exp ! i" if "i < 512" for i
  proof (cases "i < 510")
    case False
    then have "i = 510 \<or> i = 511" using that by arith
    then show ?thesis using table_end \<open>alpha 510 = 1\<close> by (elim disjE) simp_all
  qed (auto simp: galois_exp_alpha)
  then have "map ?f [0 ..< 512] = galois_exp"
    by (intro nth_equalityI) (simp_all only: length_map length_upt nth_map_upt table_lengths, simp_all)
  then show ?thesis using powers_loop [of 255] by simp
qed

section \<open>The logarithms\<close>

lemma find_skip: "(\<And>x. x \<in> set xs \<Longrightarrow> \<not> P x) \<Longrightarrow> find P (xs @ ys) = find P ys"
  by (induction xs) simp_all

lemma log_entry_ok:
  assumes "0 < i" "i < 256"
  shows "log_entry galois_exp i l = l[i := galois_log ! i]"
proof -
  have u: "unat (of_nat i :: u8) = i" using assms by (simp add: unat_of_nat)
  have "(of_nat i :: u8) \<noteq> 0" using u assms(1) by force
  then obtain k where k: "k < 255" "of_nat i = alpha k" using alpha_surj by metis
  have z: "galois_exp ! j = of_nat i \<longleftrightarrow> j = k" if "j < 255" for j
    using that k galois_exp_alpha [of j] by (simp add: alpha_eq)
  have "find (\<lambda>z. galois_exp ! z = of_nat i) ([0 ..< k] @ [k] @ [Suc k ..< 256]) = Some k"
    using z k by (subst find_skip) auto
  moreover have "[0 ..< 256] = [0 ..< k] @ [k] @ [Suc k ..< 256]"
    using k(1) upt_add_eq_append [of 0 k "256 - k"] by (simp add: upt_conv_Cons)
  moreover have "galois_log ! i = of_nat k"
    using log_alpha [of k] k u by (simp add: word_unat_eq_iff unat_of_nat)
  ultimately show ?thesis by (simp add: log_entry_def del: upt_rec_numeral)
qed

lemma logs_ok: "fold (log_entry galois_exp) [1 ..< 256] ((replicate 256 0)[0 := 0]) = galois_log"
proof -
  have "fold (log_entry galois_exp) [1 ..< Suc n] (replicate 256 0) = take (Suc n) galois_log @ replicate (255 - n) 0" if "n < 256" for n
    using that
  proof (induction n)
    case 0
    have "take 1 galois_log = [0]" by (simp add: galois_log_def)
    moreover have "replicate 256 (0 :: u8) = 0 # replicate 255 0" by (simp only: replicate_Suc [symmetric]) simp
    ultimately show ?case by simp
  next
    case (Suc n)
    have l: "length galois_log = 256" by (rule table_lengths)
    obtain m where m: "255 - n = Suc m" "255 - Suc n = m" using Suc.prems that [of "254 - n"] by simp
    have "[1 ..< Suc (Suc n)] = [1 ..< Suc n] @ [Suc n]" by simp
    then show ?case using Suc m l
      by (simp add: log_entry_ok list_update_append take_Suc_conv_app_nth del: upt_rec_numeral upt_Suc)
  qed
  moreover have "take (Suc 255) galois_log = galois_log" "Suc 255 = 256" by (simp_all add: table_lengths)
  ultimately have "fold (log_entry galois_exp) [1 ..< 256] (replicate 256 0) = galois_log"
    by (metis append_Nil2 diff_self_eq_0 lessI replicate_0)
  moreover have "(replicate 256 (0 :: u8))[0 := 0] = replicate 256 0" by (intro nth_equalityI) (simp_all add: nth_list_update)
  ultimately show ?thesis by (simp only:)
qed

lemma galois_init_ok: "galois_init (replicate 512 0, replicate 256 0) = (galois_exp, galois_log)"
  using powers_ok logs_ok by (simp add: galois_init_def case_prod_beta del: upt_rec_numeral)

end
