(* ===== verification/Fec_Properties.thy ===== *)
theory Fec_Properties
  imports Fec_Decode Galois_Init
begin

text \<open>
  What the forward error correction promises to the communication layer: a packet that was not
  changed is accepted, and one changed byte of the message is found and repaired.
\<close>

section \<open>The state\<close>

definition fec_wf :: "fec \<Rightarrow> bool" where
  "fec_wf s \<longleftrightarrow> (\<forall>a. length (arrays s a) = array_size a)"

text \<open>Initialised for \<open>n\<close> parity bytes, one of the numbers that has a generator polynomial.\<close>

definition fec_ready :: "nat \<Rightarrow> fec \<Rightarrow> bool" where
  "fec_ready n s \<longleftrightarrow> fec_wf s \<and> num_parity_bytes s = n \<and>
    (n = 2 \<and> galois_poly s = Some galois_poly_2 \<or> n = 4 \<and> galois_poly s = Some galois_poly_4 \<or> n = 8 \<and> galois_poly s = Some galois_poly_8)"

lemma fec_init_ready: "fec_wf s \<Longrightarrow> n \<in> {2, 4, 8} \<Longrightarrow> fec_ready (unat n) (fec_init n s)"
  by (auto simp: fec_ready_def fec_init_def fec_wf_def MAXIMUM_PARITY_BYTES_def)

lemma fec_start_wf: "fec_wf fec_start"
  by (simp add: fec_wf_def fec_start_def)

lemma wf_holding: "fec_wf (holding c st)"
  by (simp add: fec_wf_def holding_def)

lemma fec_ready_cases:
  assumes "fec_ready n s"
  obtains g where "galois_poly s = Some g" and "generator n g" and "2 \<le> n" and "n \<le> 8" and "num_parity_bytes s = n"
    and "s = holding s (\<lambda>a i. arrays s a ! i)"
proof -
  have "s = holding s (\<lambda>a i. arrays s a ! i)" using assms by (intro holding_cells) (simp add: fec_ready_def fec_wf_def)
  then show ?thesis using assms generator_2 generator_4 generator_8 that by (auto simp: fec_ready_def)
qed

text \<open>An encoded message: the parity bytes complete it to a code word, and the coder stays ready.\<close>

definition code_word :: "nat \<Rightarrow> u8 list \<Rightarrow> bool" where
  "code_word n cs \<longleftrightarrow> (\<forall>m \<in> {1 .. n}. horner m cs 0 = 0)"

lemma fec_encode_ok:
  assumes s: "fec_ready n s" and l: "unat len \<le> length src" "n \<le> length parity"
  shows "\<exists>p s'. fec_encode src len parity s = Some (p @ drop n parity, s') \<and> length p = n \<and> fec_ready n s' \<and>
    code_word n (take (unat len) src @ p)"
  using s
proof (cases rule: fec_ready_cases)
  case (1 g)
  let ?st = "\<lambda>a i. arrays s a ! i"
  from encode_word [of s g len src parity ?st] 1 l obtain p st' where e: "fec_encode src len parity (holding s ?st) = Some (p @ drop n parity, holding s st')"
    "length p = n" "\<forall>m \<in> {1 .. n}. horner m (take (unat len) src @ p) 0 = 0" by auto
  have "fec_ready n (holding s st')" using s wf_holding [of s st'] by (simp add: fec_ready_def)
  then show ?thesis using e unfolding 1(6) [symmetric] code_word_def by blast
qed

section \<open>Decoding\<close>

text \<open>The syndromes are the values of the received word at the roots of the generator.\<close>

lemma syndromes_ok:
  assumes s: "fec_ready n s" and l: "unat len \<le> length src" "n \<le> length parity"
  defines "w \<equiv> take (unat len) src @ take n parity"
  shows "\<exists>st. for_each [0 ..< num_parity_bytes s] (\<lambda>j s. do {
       v \<leftarrow> syndrome j src (unat len) parity (num_parity_bytes s);
       put (Galois_syn, 0) j v s }) s = Some (holding s st) \<and> (\<forall>j < n. st Galois_syn j = horner (Suc j) w 0)"
  using s
proof (cases rule: fec_ready_cases)
  case (1 g)
  let ?st = "\<lambda>a i. arrays s a ! i"
  have sz: "array_size Galois_syn = 8" by (simp add: sizes)
  have "for_each [0 ..< n] (\<lambda>j s. do {
       v \<leftarrow> syndrome j src (unat len) parity (num_parity_bytes s);
       put (Galois_syn, 0) j v s }) (holding s ?st) = Some (holding s (fill (Galois_syn, 0) {..<n} (\<lambda>j. horner (Suc j) w 0) ?st))"
    using 1 l sz syndrome_ok [of "unat len" src n parity] by (intro fill_ascending) (simp_all add: w_def)
  then show ?thesis using 1 by (intro exI [of _ "fill (Galois_syn, 0) {..<n} (\<lambda>j. horner (Suc j) w 0) ?st"]) simp
qed

lemma check_syn_ok:
  assumes "num_parity_bytes c \<le> 8"
  shows "check_syn (holding c st) = Some (\<exists>j < num_parity_bytes c. st Galois_syn j \<noteq> 0)"
proof -
  have "for_each [0 ..< k] (\<lambda>i nz. do { v \<leftarrow> get (Galois_syn, 0) i (holding c st); Some (v \<noteq> 0 \<or> nz) }) False
      = Some (\<exists>j < k. st Galois_syn j \<noteq> 0)" if "k \<le> 8" for k
    using that by (induction k) (auto simp: for_each_append sizes less_Suc_eq)
  then show ?thesis using assms by (simp add: check_syn_def)
qed

lemma decode_clean:
  assumes s: "fec_ready n s" and l: "unat len \<le> length src" "n \<le> length parity"
    and w: "code_word n (take (unat len) src @ take n parity)"
  shows "\<exists>s'. fec_decode src len parity s = Some (FEC_NO_ERRORS, src, s')"
proof -
  from syndromes_ok [OF s l] obtain st where st: "for_each [0 ..< num_parity_bytes s] (\<lambda>j s. do {
       v \<leftarrow> syndrome j src (unat len) parity (num_parity_bytes s);
       put (Galois_syn, 0) j v s }) s = Some (holding s st)"
    "\<And>j. j < n \<Longrightarrow> st Galois_syn j = horner (Suc j) (take (unat len) src @ take n parity) 0" by blast
  have n: "num_parity_bytes s = n" "n \<le> 8" using fec_ready_cases [OF s] by blast+
  have "st Galois_syn j = 0" if "j < n" for j using st(2) [OF that] w that by (simp add: code_word_def)
  then have "check_syn (holding s st) = Some False" using n by (simp add: check_syn_ok)
  then show ?thesis using st(1) by (simp add: fec_decode_def)
qed

text \<open>
  One changed byte of a code word.  The decoder repairs it in the message buffer, at the place it has in
  the code word: for a parity byte that is behind the message.
\<close>

lemma decode_one:
  assumes s: "fec_ready n s" and n4: "n \<le> 4" and l: "unat len \<le> length src" "n \<le> length parity" "unat len + n < 256"
    and w: "code_word n w" "take (unat len) src @ take n parity = w[k := w ! k XOR e]"
    and k: "k < unat len + n" "k < length src" and e: "e \<noteq> 0"
  shows "\<exists>s'. fec_decode src len parity s = Some (FEC_CORRECTED_ERRORS, src[k := src ! k XOR e], s')"
proof -
  have n: "num_parity_bytes s = n" "2 \<le> n" "n \<le> 8" using fec_ready_cases [OF s] by blast+
  from syndromes_ok [OF s l(1,2)] obtain st where st: "for_each [0 ..< num_parity_bytes s] (\<lambda>j s. do {
       v \<leftarrow> syndrome j src (unat len) parity (num_parity_bytes s);
       put (Galois_syn, 0) j v s }) s = Some (holding s st)"
    "\<And>j. j < n \<Longrightarrow> st Galois_syn j = horner (Suc j) (take (unat len) src @ take n parity) 0" by blast
  have lw: "length w = unat len + n" using arg_cong [OF w(2), of length] l by simp
  have u: "unat (len + of_nat n) = unat len + n"
    using l(3) n by (simp add: unat_word_ariths unat_of_nat)
  have "st Galois_syn j = gmult e (alpha (Suc j * (unat (len + of_nat n) - 1 - k)))" if "j < n" for j
  proof -
    have "k < length w" using k lw by simp
    from horner_change [OF this, of "Suc j" e] have "horner (Suc j) (w[k := w ! k XOR e]) 0 = gmult e (alpha (Suc j * (unat len + n - 1 - k)))"
      using w(1) that unfolding lw by (simp add: code_word_def)
    then show ?thesis using st(2) [OF that] unfolding w(2) u by (simp only:)
  qed
  then have syn: "single_syndromes (num_parity_bytes s) e (unat (len + of_nat n) - 1 - k) st" by (simp add: single_syndromes_def n)
  have "st Galois_syn 0 \<noteq> 0" using syn n e by (simp add: single_syndromes_def)
  then have c: "check_syn (holding s st) = Some True" using n check_syn_ok [of s st] by (auto intro: exI [of _ 0])
  have "\<exists>s'. correct_errors src (len + of_nat n) (holding s st) = Some (FEC_CORRECTED_ERRORS, src[k := src ! k XOR e], s')"
    using n n4 e syn k u by (intro correct_one) simp_all
  then show ?thesis using st(1) c n by (auto simp: fec_decode_def)
qed

section \<open>Eight parity bytes\<close>

text \<open>With eight parity bytes \<open>mult_polys\<close> reads behind the syndromes.\<close>

definition eight :: "fec \<Rightarrow> bool" where
  "eight s \<longleftrightarrow> num_parity_bytes s = 8 \<and> length (arrays s Galois_syn) = 8"

text \<open>The value of \<open>f\<close> has a state in it that still has eight parity bytes.\<close>

definition keeps :: "('b \<Rightarrow> fec) \<Rightarrow> (fec \<Rightarrow> 'b option) \<Rightarrow> bool" where
  "keeps pr f \<longleftrightarrow> (\<forall>s r. eight s \<longrightarrow> f s = Some r \<longrightarrow> eight (pr r))"

lemma keeps_put: "a \<noteq> Galois_syn \<Longrightarrow> keeps id (put (a, o1) i v)"
  by (auto simp: keeps_def put_def eight_def bind_eq_Some_conv)

lemma keeps_bind: "keeps id f \<Longrightarrow> (\<And>s. keeps pr (g s)) \<Longrightarrow> keeps pr (\<lambda>s. Option.bind (f s) (g s))"
  unfolding keeps_def bind_eq_Some_conv by auto

lemma keeps_read: "(\<And>v. keeps pr (f v)) \<Longrightarrow> keeps pr (\<lambda>s. Option.bind (r s) (\<lambda>v. f v s))"
  unfolding keeps_def bind_eq_Some_conv by blast

lemma keeps_pair: "keeps snd f \<Longrightarrow> (\<And>s b. keeps pr (g s b)) \<Longrightarrow> keeps pr (\<lambda>s. Option.bind (f s) (\<lambda>(b, t). g s b t))"
  unfolding keeps_def bind_eq_Some_conv by fastforce

lemma keeps_if: "keeps pr f \<Longrightarrow> keeps pr g \<Longrightarrow> keeps pr (\<lambda>s. if P s then f s else g s)"
  by (simp add: keeps_def)

lemma keeps_Some: "keeps id Some" "keeps snd (\<lambda>s. Some (h s, s))"
  by (simp_all add: keeps_def)

lemma for_each_keeps:
  assumes "\<And>i s t. P s \<Longrightarrow> f i s = Some t \<Longrightarrow> P t" and "P s" and "for_each xs f s = Some t"
  shows "P t"
  using assms(2,3)
proof (induction xs arbitrary: s)
  case (Cons i xs)
  from Cons.prems(2) obtain u where "f i s = Some u" "for_each xs f u = Some t" by (auto simp: bind_eq_Some_conv)
  then show ?case using Cons.IH [of u] assms(1) [OF Cons.prems(1)] by blast
qed simp

lemma keeps_loop:
  assumes "\<And>s i. keeps id (f s i)"
  shows "keeps id (\<lambda>s. for_each (xs s) (f s) s)"
proof -
  have step: "eight v" if "eight u" "f s i u = Some v" for s i u v using assms [of s i] that by (simp add: keeps_def)
  have "eight r" if "eight s" "for_each (xs s) (f s) s = Some r" for s r
    by (rule for_each_keeps [of eight "f s", OF step that])
  then show ?thesis by (simp add: keeps_def)
qed

lemma keeps_loop_pair:
  assumes "\<And>i b. keeps snd (\<lambda>s. f i (b, s))"
  shows "keeps snd (\<lambda>s. for_each (xs s) f (b, s))"
proof -
  have "eight (snd r)" if "eight s" "for_each ys f (b, s) = Some r" for s r ys
  proof (rule for_each_keeps [where P = "\<lambda>x. eight (snd x)"])
    fix i x t assume "eight (snd x)" "f i x = Some t"
    then show "eight (snd t)" using assms [of i "fst x"] unfolding keeps_def by (metis prod.collapse)
  qed (use that in simp_all)
  then show ?thesis by (simp add: keeps_def)
qed

lemmas keeps_rules = keeps_bind keeps_read keeps_pair keeps_if keeps_Some keeps_put

lemma for_each_stops:
  assumes "\<And>i s t. P s \<Longrightarrow> f i s = Some t \<Longrightarrow> P t" and "P s" and "k \<in> set xs" and "\<And>s. P s \<Longrightarrow> f k s = None"
  shows "for_each xs f s = None"
  using assms(2,3)
proof (induction xs arbitrary: s)
  case (Cons i xs)
  show ?case
  proof (cases "f i s")
    case (Some u)
    then have "i \<noteq> k" "P u" using assms(4) [OF Cons.prems(1)] assms(1) [OF Cons.prems(1)] by auto
    then show ?thesis using Cons Some by simp
  qed simp
qed simp

lemma get_syn_8: "eight s \<Longrightarrow> get (Galois_syn, 0) 8 s = None"
  by (simp add: get_def rd_def eight_def)

lemma eight_parity: "eight s \<Longrightarrow> num_parity_bytes s = 8"
  by (simp add: eight_def)

lemma row_stops:
  assumes "keeps id A" and "\<And>s. eight s \<Longrightarrow> B i s = None" and "eight t"
  shows "for_each (i # is) (\<lambda>i s. Option.bind (A s) (\<lambda>s. Option.bind (B i s) (g i))) t = None"
proof (cases "A t")
  case (Some u)
  then have "B i u = None" using assms by (simp add: keeps_def)
  then show ?thesis using Some by simp
qed simp

lemma mult_polys_stops:
  assumes "eight s"
  shows "mult_polys (Product, 0) (Lambda, 0) (Galois_syn, 0) s = None"
proof -
  let ?row = "\<lambda>i j s. do { a \<leftarrow> get (Galois_syn, 0) j s; b \<leftarrow> get (Lambda, 0) i s; put (Tmp1, 0) j (gmult a b) s }"
  have row: "for_each [0 ..< 16] (?row i) s = None" if "eight s" for i s
  proof (rule for_each_stops [where P = eight and k = 8])
    have "keeps id (?row i j)" for j by (intro keeps_read keeps_put) simp
    then show "eight t" if "eight u" "?row i j u = Some t" for j u t using that by (simp add: keeps_def)
  qed (use that get_syn_8 in auto)
  have z: "keeps id (for_each xs (\<lambda>j. put (a, 0) j 0))" if "a \<noteq> Galois_syn" for xs a
    using that by (intro keeps_loop keeps_put)
  have n: "num_parity_bytes s = 8" using assms by (rule eight_parity)
  have "[0::nat ..< 16] = 0 # [1 ..< 16]" by (simp add: upt_conv_Cons)
  then have "for_each [0 ..< 16] (\<lambda>i s. do {
       s \<leftarrow> for_each [16 ..< 32] (\<lambda>j. put (Tmp1, 0) j 0) s;
       s \<leftarrow> for_each [0 ..< 16] (?row i) s;
       s \<leftarrow> for_each (rev [i ..< 32]) (\<lambda>j s. do { v \<leftarrow> get (Tmp1, 0) (j - i) s; put (Tmp1, 0) j v s }) s;
       s \<leftarrow> for_each [0 ..< i] (\<lambda>j. put (Tmp1, 0) j 0) s;
       for_each [0 ..< 32] (\<lambda>j s. do { v \<leftarrow> get (Product, 0) j s; w \<leftarrow> get (Tmp1, 0) j s; put (Product, 0) j (v XOR w) s }) s }) t = None"
    if "eight t" for t
    using z [of Tmp1] row that by (simp only:) (intro row_stops, simp_all del: upt_rec_numeral)
  then show ?thesis
    using z [of Product "[0 ..< 32]"] assms
    by (cases "for_each [0 ..< 32] (\<lambda>i. put (Product, 0) i 0) s") (simp_all add: mult_polys_def n keeps_def Let_def del: upt_rec_numeral)
qed

lemma keeps_poly:
  "a \<noteq> Galois_syn \<Longrightarrow> keeps id (zero_poly (a, o1))"
  "a \<noteq> Galois_syn \<Longrightarrow> keeps id (copy_poly (a, o1) q)"
  "a \<noteq> Galois_syn \<Longrightarrow> keeps id (mul_z_poly (a, o1))"
  "a \<noteq> Galois_syn \<Longrightarrow> keeps id (init_gamma (a, o1))"
proof -
  assume a: "a \<noteq> Galois_syn"
  show z: "keeps id (zero_poly (a, o1))" unfolding zero_poly_def [abs_def] using a by (intro keeps_loop keeps_put)
  show "keeps id (copy_poly (a, o1) q)" unfolding copy_poly_def [abs_def] using a by (intro keeps_loop keeps_read keeps_put)
  show "keeps id (mul_z_poly (a, o1))" unfolding mul_z_poly_def [abs_def] using a by (intro keeps_bind keeps_loop keeps_read keeps_put)
  have "keeps id (zero_poly (Tmp1, 0))" unfolding zero_poly_def [abs_def] by (intro keeps_loop keeps_put) simp
  then show "keeps id (init_gamma (a, o1))" unfolding init_gamma_def [abs_def] using a z by (intro keeps_bind keeps_put)
qed

lemma keeps_round: "keeps snd (\<lambda>s. berk_round k (b, s))"
  unfolding berk_round_def Let_def prod.case
  by (rule keeps_read keeps_pair keeps_if keeps_Some keeps_bind keeps_loop keeps_poly keeps_put fec_array.distinct)+

definition stops :: "(fec \<Rightarrow> 'b option) \<Rightarrow> bool" where
  "stops f \<longleftrightarrow> (\<forall>s. eight s \<longrightarrow> f s = None)"

lemma stops_bind: "keeps id f \<Longrightarrow> (\<And>s. stops (g s)) \<Longrightarrow> stops (\<lambda>s. Option.bind (f s) (g s))"
  unfolding stops_def keeps_def by (metis bind.bind_lunit bind.bind_lzero id_apply option.exhaust)

lemma stops_pair: "keeps snd f \<Longrightarrow> (\<And>s b. stops (g s b)) \<Longrightarrow> stops (\<lambda>s. Option.bind (f s) (\<lambda>(b, t). g s b t))"
  unfolding stops_def keeps_def by (metis (no_types, lifting) bind.bind_lunit bind.bind_lzero case_prod_conv option.exhaust prod.collapse)

lemma keeps_start:
  "keeps id (\<lambda>s. init_gamma (Product, num_parity_bytes s * 2) s)"
  "keeps id (\<lambda>t. copy_poly (Product, 0) (Product, m) t)" "keeps id (\<lambda>t. copy_poly (Tmp1, 0) (Product, m) t)"
  using keeps_poly(4) [of Product] by (simp_all add: keeps_poly(2)) (simp add: keeps_def)

lemma stops_first: "stops f \<Longrightarrow> stops (\<lambda>s. Option.bind (f s) (g s))"
  by (simp add: stops_def)

lemma berlekamp_stops: "stops modified_berlekamp_massey"
proof -
  have "stops compute_modified_omega"
    unfolding compute_modified_omega_def [abs_def] by (rule stops_first) (simp add: stops_def mult_polys_stops)
  then show ?thesis unfolding modified_berlekamp_massey_def [abs_def] Let_def
    by (intro stops_bind stops_pair keeps_start keeps_poly keeps_loop keeps_loop_pair keeps_round keeps_read keeps_put fec_array.distinct)
qed

lemma decode_eight:
  assumes s: "fec_ready 8 s" and l: "unat len \<le> length src" "8 \<le> length parity"
    and w: "\<not> code_word 8 (take (unat len) src @ take 8 parity)"
  shows "fec_decode src len parity s = None"
proof -
  from syndromes_ok [OF s l] obtain st where st: "for_each [0 ..< num_parity_bytes s] (\<lambda>j s. do {
       v \<leftarrow> syndrome j src (unat len) parity (num_parity_bytes s);
       put (Galois_syn, 0) j v s }) s = Some (holding s st)"
    "\<And>j. j < 8 \<Longrightarrow> st Galois_syn j = horner (Suc j) (take (unat len) src @ take 8 parity) 0" by blast
  have n: "num_parity_bytes s = 8" using fec_ready_cases [OF s] by blast
  from w obtain m where "m \<in> {1 .. 8}" "horner m (take (unat len) src @ take 8 parity) 0 \<noteq> 0" by (auto simp: code_word_def)
  then have "m - 1 < 8" "Suc (m - 1) = m" "horner m (take (unat len) src @ take 8 parity) 0 \<noteq> 0" by auto
  then have "m - 1 < 8" "st Galois_syn (m - 1) \<noteq> 0" using st(2) [of "m - 1"] by simp_all
  then have "check_syn (holding s st) = Some True" using n check_syn_ok [of s st] by auto
  moreover have "eight (holding s st)" using n by (simp add: eight_def holding_def sizes)
  then have "modified_berlekamp_massey (holding s st) = None" using berlekamp_stops by (simp add: stops_def)
  ultimately show ?thesis using st(1) by (simp add: fec_decode_def correct_errors_def)
qed

section \<open>Properties\<close>

text \<open>C39. The arithmetic of the coder is that of the field of 256 elements: the tables kept in flash are the ones that
  \<open>galois_init\<close> computes at start-up where there are none, and the multiplication by them is the shift-and-add product
  modulo the primitive polynomial, for all pairs of bytes.\<close>
theorem fec_field: "galois_init (replicate 512 0, replicate 256 0) = (galois_exp, galois_log) \<and> gmult a b = peasant 8 a b"
  using galois_init_ok gmult_peasant by simp

text \<open>C37. A packet that arrives as it was sent passes: decoding an encoded message, by a coder in any earlier
  state that is initialised for the same number of parity bytes, reports no errors and leaves the message alone.\<close>
theorem fec_accepts_clean:
  assumes n: "n \<in> {2, 4, 8}" and s: "fec_wf s" and l: "unat len \<le> length src" "unat n \<le> length parity"
  shows "\<exists>p s'. fec_encode src len parity (fec_init n s) = Some (p, s') \<and>
    (\<forall>t. fec_wf t \<longrightarrow> (\<exists>t'. fec_decode src len p (fec_init n t) = Some (FEC_NO_ERRORS, src, t')))"
proof -
  from fec_encode_ok [OF fec_init_ready [OF s n] l] obtain p s' where e: "fec_encode src len parity (fec_init n s) = Some (p @ drop (unat n) parity, s')"
    "length p = unat n" "code_word (unat n) (take (unat len) src @ p)" by blast
  have "\<exists>t'. fec_decode src len (p @ drop (unat n) parity) (fec_init n t) = Some (FEC_NO_ERRORS, src, t')" if "fec_wf t" for t
    using e(2,3) l by (intro decode_clean [OF fec_init_ready [OF that n]]) simp_all
  then show ?thesis using e(1) by blast
qed

theorem fec_accepts_clean_witness:
  "\<exists>p s'. fec_encode [104, 105] 2 (replicate 8 0) (fec_init 8 fec_start) = Some (p, s') \<and>
    (\<forall>t. fec_wf t \<longrightarrow> (\<exists>t'. fec_decode [104, 105] 2 p (fec_init 8 t) = Some (FEC_NO_ERRORS, [104, 105], t')))"
  by (rule fec_accepts_clean) (simp_all add: fec_start_wf)

text \<open>C6. With two or four parity bytes one changed byte is repaired, whatever byte of the message it is and
  whatever it was changed to: the decoder reports a corrected error and leaves the message that was sent.\<close>
theorem fec_corrects_one:
  assumes n: "n \<in> {2, 4}" and s: "fec_wf s" and l: "unat len \<le> length src" "unat n \<le> length parity" "unat len + unat n < 256"
    and k: "k < unat len" and e: "e \<noteq> 0"
  shows "\<exists>p s'. fec_encode src len parity (fec_init n s) = Some (p, s') \<and>
    (\<forall>t. fec_wf t \<longrightarrow> (\<exists>t'. fec_decode (src[k := src ! k XOR e]) len p (fec_init n t) = Some (FEC_CORRECTED_ERRORS, src, t')))"
proof -
  have n8: "n \<in> {2, 4, 8}" "unat n \<le> 4" using n by auto
  from fec_encode_ok [OF fec_init_ready [OF s n8(1)] l(1,2)] obtain p s' where p: "fec_encode src len parity (fec_init n s) = Some (p @ drop (unat n) parity, s')"
    "length p = unat n" "code_word (unat n) (take (unat len) src @ p)" by blast
  let ?src = "src[k := src ! k XOR e]"
  have w: "take (unat len) ?src @ take (unat n) (p @ drop (unat n) parity) =
      (take (unat len) src @ p)[k := (take (unat len) src @ p) ! k XOR e]"
    using k l p(2) by (simp add: list_update_append take_update_swap nth_append)
  have "\<exists>t'. fec_decode ?src len (p @ drop (unat n) parity) (fec_init n t) = Some (FEC_CORRECTED_ERRORS, ?src[k := ?src ! k XOR e], t')"
    if "fec_wf t" for t
    using k l p(2) by (intro decode_one [OF fec_init_ready [OF that n8(1)] n8(2) _ _ _ p(3) w _ _ e]) simp_all
  moreover have "?src[k := ?src ! k XOR e] = src" using k l by (simp add: xor.assoc)
  ultimately show ?thesis using p(1) by (simp only:) blast
qed

theorem fec_corrects_one_witness:
  "\<exists>p s'. fec_encode [104, 105] 2 (replicate 4 0) (fec_init 4 fec_start) = Some (p, s') \<and>
    (\<forall>t. fec_wf t \<longrightarrow> (\<exists>t'. fec_decode ([104, 105][1 := [104, 105] ! 1 XOR 7]) 2 p (fec_init 4 t) = Some (FEC_CORRECTED_ERRORS, [104, 105], t')))"
  by (rule fec_corrects_one) (simp_all add: fec_start_wf)

text \<open>C38. The communication layer runs the code with eight parity bytes (\<open>FEC_DATA_PARITY_COUNT\<close>).  Then the
  decoder never finishes its work inside its arrays: whenever what was received is not a code word,
  \<open>mult_polys\<close> reads sixteen syndromes where there are eight.\<close>
theorem fec_eight_overruns:
  assumes "fec_wf s" and "unat len \<le> length src" "8 \<le> length parity"
    and "\<not> code_word 8 (take (unat len) src @ take 8 parity)"
  shows "fec_decode src len parity (fec_init 8 s) = None"
  using fec_init_ready [OF assms(1), of 8] assms(2-4) by (intro decode_eight) simp_all

theorem fec_eight_overruns_witness: "fec_decode [1] 1 (replicate 8 0) (fec_init 8 fec_start) = None"
proof -
  have "horner 1 [1, 0, 0, 0, 0, 0, 0, 0, 0] 0 \<noteq> 0" by code_simp
  then have "\<not> code_word 8 (take (unat (1 :: u8)) [1] @ take 8 (replicate 8 0))"
    by (auto simp: code_word_def numeral_eq_Suc intro!: bexI [of _ "Suc 0"])
  then show ?thesis by (intro fec_eight_overruns) (simp_all add: fec_start_wf)
qed

text \<open>A changed parity byte is ``repaired'' in the wrong place: the decoder takes the parity bytes to stand
  behind the message in the same buffer, so it reports a corrected error and changes a byte of the
  buffer behind the message, which was right.\<close>
theorem fec_parity_error_misplaced:
  assumes n: "n \<in> {2, 4}" and s: "fec_wf s" and l: "unat len + unat n \<le> length src" "unat n \<le> length parity" "unat len + unat n < 256"
    and k: "k < unat n" and e: "e \<noteq> 0"
  shows "\<exists>p s'. fec_encode src len parity (fec_init n s) = Some (p, s') \<and>
    (\<forall>t. fec_wf t \<longrightarrow> (\<exists>t'. fec_decode src len (p[k := p ! k XOR e]) (fec_init n t) =
      Some (FEC_CORRECTED_ERRORS, src[unat len + k := src ! (unat len + k) XOR e], t')))"
proof -
  have n8: "n \<in> {2, 4, 8}" "unat n \<le> 4" using n by auto
  have l1: "unat len \<le> length src" using l by simp
  from fec_encode_ok [OF fec_init_ready [OF s n8(1)] l1 l(2)] obtain p s' where p: "fec_encode src len parity (fec_init n s) = Some (p @ drop (unat n) parity, s')"
    "length p = unat n" "code_word (unat n) (take (unat len) src @ p)" by blast
  let ?p = "p @ drop (unat n) parity"
  have w: "take (unat len) src @ take (unat n) (?p[k := ?p ! k XOR e]) =
      (take (unat len) src @ p)[unat len + k := (take (unat len) src @ p) ! (unat len + k) XOR e]"
    using k l1 p(2) by (simp add: list_update_append nth_append)
  have "\<exists>t'. fec_decode src len (?p[k := ?p ! k XOR e]) (fec_init n t) =
      Some (FEC_CORRECTED_ERRORS, src[unat len + k := src ! (unat len + k) XOR e], t')" if "fec_wf t" for t
    using k l l1 p(2) by (intro decode_one [OF fec_init_ready [OF that n8(1)] n8(2) l1 _ l(3) p(3) w _ _ e]) simp_all
  then show ?thesis using p(1) by (simp only:) blast
qed

theorem fec_parity_error_misplaced_witness:
  "\<exists>p s'. fec_encode [104, 105, 1, 2] 2 (replicate 2 0) (fec_init 2 fec_start) = Some (p, s') \<and>
    (\<forall>t. fec_wf t \<longrightarrow> (\<exists>t'. fec_decode [104, 105, 1, 2] 2 (p[0 := p ! 0 XOR 7]) (fec_init 2 t) =
      Some (FEC_CORRECTED_ERRORS, [104, 105, 1, 2][unat (2 :: u8) + 0 := [104, 105, 1, 2] ! (unat (2 :: u8) + 0) XOR 7], t')))"
  by (rule fec_parity_error_misplaced) (simp_all add: fec_start_wf)

end
