(* ===== verification/Spec2Isabelle.thy ===== *)
theory Spec2Isabelle
  imports Byte_Queue Crc Rc5_Modes Elf_Properties Timer_Tick Rwlock Condition Simple_Fs_Properties Uart_Properties Tree_Properties
    Arith_Code_Properties Fec_Properties
begin

text \<open>
  A verification library for the Mantis operating system for sensor nodes (MOS 1.0 beta) with
  its dynamic linker.  Paths are relative to \<open>src/mantis-1.0-beta/src/\<close>.

  The program, as far as this development covers it, has five parts.  The kernel
  (\<open>mos/kernel/micro/\<close>) multiplexes the processor among at most ten threads: \<open>msched.c\<close> keeps a
  ready queue for each priority and a sleep queue on the lists of \<open>tlist.c\<close>, allocates stacks with
  \<open>mem.c\<close>, and is driven by the millisecond interrupt of \<open>clock.c\<close>, which also fires the
  software alarms; semaphores, mutexes, condition variables and read-write locks suspend and resume
  threads with it.  The library (\<open>lib/\<close>) has the data structures and codes that drivers and protocols
  share.  The storage part (\<open>mos/dev/\<close>) is the driver of the external flash and a file system on it,
  which locks with the kernel's mutexes and keeps its table in the EEPROM.  The communication layer
  (\<open>mos/com/\<close>) moves packet buffers, taken from the kernel's heap, between drivers and the threads that
  it suspends, with time limits by software alarms.  The application \<open>apps/load_an_elf\<close> receives an ELF
  module, relocates it against the symbol table of the running system and programs it into the flash
  of the processor.

  Theories.  \<open>Prelude\<close>: machine integers of the MSP430 target, checked array access,
  little-endian layout, the queue interface \<open>fifo\<close>.  \<open>Linked_List\<close>: the sequence a singly
  linked list stands for, delta queues and their due times.

  Library: \<open>Byte_Queue\<close> (\<open>lib/queue.c\<close>), \<open>Crc\<close> (\<open>lib/crc.c\<close>), \<open>Rc5\<close> (\<open>lib/rc5.c\<close>: the rotations of
  \<open>CryptoPrimitives.h\<close>, the key schedule against the published one, encryption and decryption of a
  block), \<open>Rc5_Modes\<close> (its chained encryption of messages and its message authentication code).
  \<open>Tree_Lib\<close> (\<open>lib/tree.c\<close>): search trees of nodes on the heap; \<open>Tree_Shape\<close>: the tree that a structure of
  nodes stands for and the places in it; \<open>Tree_Rotate\<close>, \<open>Tree_Splay\<close>, \<open>Tree_Ops\<close>: what the rotations,
  splaying, insertion and deletion do to it; \<open>Tree_Properties\<close>.  \<open>Arith_Code\<close> (\<open>lib/arith-code.c\<close>): the
  adaptive arithmetic coder; \<open>Arith_Bits\<close>: the buffers as sequences of bits; \<open>Arith_Interval\<close>: the digits
  that leave the coder's interval, and the decoder following them; \<open>Arith_Code_Properties\<close>: the model of
  the frequencies and the round trip.  \<open>Fec_Table\<close>, \<open>Galois\<close>, \<open>Galois_Init\<close> (\<open>fec_table.h\<close>): the tables of the
  field and the laws of the arithmetic by them; \<open>Fec\<close> (\<open>lib/fec.c\<close>): the Reed-Solomon coder; \<open>Fec_Store\<close>: its loops
  as updates of its arrays; \<open>Fec_Encode\<close>: code words; \<open>Fec_Correct\<close>, \<open>Fec_Single\<close>, \<open>Fec_Locate\<close>, \<open>Fec_Decode\<close>: the
  Berlekamp-Massey algorithm and the correction of a single error; \<open>Fec_Properties\<close>.

  Kernel: \<open>Thread_List\<close> (\<open>tlist.c\<close>): the thread structures and lists; the sleep queue.  \<open>Mem\<close>
  (\<open>mem.c\<close>): the heap and the interface \<open>allocator\<close>.  \<open>Sched\<close> (\<open>msched.c\<close>): the kernel record and
  all operations on threads, their refinement of an abstract scheduler; \<open>Sched_Properties\<close>: the step
  relation of the kernel and its invariant.  \<open>Clock\<close> (\<open>clock.c\<close>): alarms; \<open>Timer_Tick\<close>: the timer
  interrupt acting on alarms and scheduler.  \<open>Wait_Queue\<close>: threads that wait in a list, shared by
  \<open>Semaphore\<close>, \<open>Mutex\<close>, \<open>Condition\<close> and \<open>Rwlock\<close> (\<open>semaphore.c\<close>, \<open>mutex.c\<close>, \<open>cond.c\<close>,
  \<open>rwlock.c\<close>), each with the step relation of its users.

  Storage: \<open>Atmel_Flash\<close> (\<open>atmel-flash.c\<close>): the driver, with the chip as a parameter; \<open>Atmel_Chip\<close>: the
  documented behaviour of the chip as a hypothesis, and a simulated chip that has it;
  \<open>Atmel_Flash_Properties\<close>: the driver as an array of bytes.  \<open>Simple_Fs\<close> (\<open>simple_fs.c\<close>) and
  \<open>Simple_Fs_Properties\<close>: the table of files and the operations on it.

  Communication: \<open>Com_Layer\<close> (\<open>com.c\<close>, \<open>loopback.c\<close>): the state and all operations; \<open>Com_Buffers\<close>: the
  eight lists of buffers; \<open>Com_Properties\<close>: who owns which buffer, as an invariant of any sequence of
  calls; \<open>Com_Delivery\<close>: the way of a packet from the sender to the thread that waits for it.  \<open>Uart\<close>
  (\<open>uart.c\<close>) and \<open>Uart_Properties\<close>: the serial interfaces, whose interrupts take frames apart and put
  the packets into the communication layer.

  Linker: \<open>Elf_Format\<close>, \<open>Elf_Loader\<close>, \<open>Elf_Relocation\<close>, \<open>Elf_Flash\<close>, \<open>Elf_Load\<close>, \<open>Elf_Sample\<close>,
  \<open>Elf_Properties\<close>: the store, the file format, the linker (\<open>loader/elfloader.c\<close>), its MSP430 back end
  and the flash driver (\<open>dev/flash.c\<close>), a sample module and the end-to-end property.

  Conventions.  A pointer to one of a static array of structures is the number of its slot and
  NULL is \<open>None\<close>; the array is a function, so aliasing is that of the code.  A result \<open>None\<close> of an
  operation is undefined behaviour (a NULL pointer dereferenced, an array index out of
  bounds), the endless error loop of the code (\<open>Clock\<close>), or a loop that does not end.  Loops that need
  not end are \<open>partial_function\<close>s, whose results are proved to exist where they do; loops with a
  counter are \<open>function\<close>s with a termination proof.  \<open>walk\<close> reads a thread list with a bound of
  \<open>MAX_THREADS\<close> steps, enough because the threads of a list are distinct.  Critical sections
  (interrupts disabled) are atomic.  A call that suspends its thread ends there, and what it does
  when the thread runs again is an operation of its own.

  What the lemmas show.  The lists, the heap and the alarm queue abstract to sequences, sets of
  free bytes and due times, and every operation is characterised by its effect on them.  Locales
  state what a client relies on (\<open>fifo\<close>, \<open>allocator\<close>, \<open>block_cipher\<close>) and are interpreted on the
  code's operations; the packet pool rests on the facts of \<open>allocator\<close>.  The scheduler refines
  \<open>switch_to\<close>; \<open>kernel_invariant\<close> holds in every reachable state, and so do the invariants of
  semaphores, mutexes, read-write locks and packet buffers.  The linker's \<open>load_module_ok\<close> follows a
  module from its bytes to the programmed flash.  Where the code does not do what it means to, a
  theorem states what it does instead.

  Not modelled: the registers saved by a context switch, interrupt flags, PRINTF output and LEDs;
  hardware (the flash controller and the flash chip are arguments of the model); generated code (the
  kernel symbol table is an argument).  The end-to-end theorem of the linker is for modules with text
  relocations and no read-only data.  The communication layer is the one without error correction
  (\<open>RADIO_USE_FEC\<close> off), and the error corrector the one with its tables in flash.
  The drivers of radio and sensors, the network protocols, the host-side tools and
  the ports to Linux, AVR and PXA27x are not modelled.
\<close>

end
